(* ===== verification/Prelude.thy ===== *)
theory Prelude
  imports Main "HOL-Library.Word" "HOL-Library.AList"
begin

text \<open>
  What every component of the model shares.

  \<^item> The JavaScript values: a \<open>Uint8Array\<close> is a list of 8-bit words, a \<open>Map\<close> is an
    association list in insertion order (\<open>AList.update\<close> is \<open>Map.set\<close>: an old key keeps its
    place, a new one goes last; \<open>map_of\<close> is \<open>Map.get\<close>), \<open>undefined\<close> and \<open>null\<close> are \<open>None\<close>.
  \<^item> Exceptions: a call that can throw returns \<open>'e + 'a\<close>, with \<open>Inl\<close> for the thrown error.
  \<^item> Objects whose methods mutate them: a method is a function from the state to an error or
    a result and the new state (\<open>('s, 'e, 'a) meth\<close>), sequenced by \<open>bind\<close>.
  \<^item> The contract between a wire format and the method that reads it, as the locale \<open>codec\<close>.
\<close>

subsection \<open>Bytes\<close>

type_synonym byte = "8 word"
type_synonym bytes = "8 word list"

text \<open>\<open>Number.MAX_SAFE_INTEGER\<close>, the largest integer a JavaScript number holds exactly.\<close>

definition MAX_SAFE_INTEGER :: nat where
  "MAX_SAFE_INTEGER = 9007199254740991"

lemma unat_byte_less [simp]: "unat (b :: byte) < 256"
  using unsigned_less [of b] by simp

lemma unat_byte_le [simp]: "unat (b :: byte) \<le> 255"
  using unat_byte_less [of b] by linarith

lemma unat_of_nat_byte [simp]: "unat (of_nat n :: byte) = n mod 256"
  by (simp add: unat_of_nat)

lemma of_nat_unat_byte [simp]: "(of_nat (unat (b :: byte)) :: byte) = b"
  by simp

lemma byte_eq_iff: "(a :: byte) = b \<longleftrightarrow> unat a = unat b"
  by (simp add: word_unat_eq_iff)

subsection \<open>Exceptions\<close>

definition bnd :: "'e + 'a \<Rightarrow> ('a \<Rightarrow> 'e + 'b) \<Rightarrow> 'e + 'b" where
  "bnd m f = (case m of Inl e \<Rightarrow> Inl e | Inr x \<Rightarrow> f x)"

lemma bnd_simps [simp]:
  "bnd (Inl e) f = Inl e"
  "bnd (Inr x) f = f x"
  by (simp_all add: bnd_def)

lemma bnd_eq_Inr [simp]: "bnd m f = Inr y \<longleftrightarrow> (\<exists>x. m = Inr x \<and> f x = Inr y)"
  by (cases m) auto

lemma bnd_eq_Inl: "bnd m f = Inl e \<longleftrightarrow> m = Inl e \<or> (\<exists>x. m = Inr x \<and> f x = Inl e)"
  by (cases m) auto

lemma bnd_assoc: "bnd (bnd m f) g = bnd m (\<lambda>x. bnd (f x) g)"
  by (cases m) auto

lemma bnd_cong [fundef_cong]:
  "m = m' \<Longrightarrow> (\<And>x. m' = Inr x \<Longrightarrow> f x = f' x) \<Longrightarrow> bnd m f = bnd m' f'"
  by (cases m') auto

text \<open>A guard that throws.\<close>

definition ensure :: "bool \<Rightarrow> 'e \<Rightarrow> 'e + unit" where
  "ensure b e = (if b then Inr () else Inl e)"

lemma ensure_simps [simp]:
  "ensure True e = Inr ()"
  "ensure False e = Inl e"
  "ensure b e = Inr u \<longleftrightarrow> b"
  by (simp_all add: ensure_def)

definition is_ok :: "'e + 'a \<Rightarrow> bool" where
  "is_ok m = (case m of Inl _ \<Rightarrow> False | Inr _ \<Rightarrow> True)"

lemma is_ok_simps [simp]:
  "is_ok (Inr x)"
  "\<not> is_ok (Inl e)"
  by (simp_all add: is_ok_def)

lemma is_ok_iff: "is_ok m \<longleftrightarrow> (\<exists>x. m = Inr x)"
  by (cases m) auto

subsection \<open>Methods: state and exceptions\<close>

type_synonym ('s, 'e, 'a) meth = "'s \<Rightarrow> 'e + 'a \<times> 's"

definition ret :: "'a \<Rightarrow> ('s, 'e, 'a) meth" where
  "ret x s = Inr (x, s)"

definition throw :: "'e \<Rightarrow> ('s, 'e, 'a) meth" where
  "throw e s = Inl e"

definition bind :: "('s, 'e, 'a) meth \<Rightarrow> ('a \<Rightarrow> ('s, 'e, 'b) meth) \<Rightarrow> ('s, 'e, 'b) meth" where
  "bind m f s = (case m s of Inl e \<Rightarrow> Inl e | Inr (x, t) \<Rightarrow> f x t)"

text \<open>Run a computation that may throw and does not touch the state.\<close>

definition lift :: "'e + 'a \<Rightarrow> ('s, 'e, 'a) meth" where
  "lift m s = (case m of Inl e \<Rightarrow> Inl e | Inr x \<Rightarrow> Inr (x, s))"

lemma ret_apply [simp]: "ret x s = Inr (x, s)"
  by (simp add: ret_def)

lemma throw_apply [simp]: "throw e s = Inl e"
  by (simp add: throw_def)

lemma lift_apply [simp]:
  "lift (Inl e) s = Inl e"
  "lift (Inr x) s = Inr (x, s)"
  by (simp_all add: lift_def)

lemma lift_eq_Inr [simp]: "lift m s = Inr (x, t) \<longleftrightarrow> m = Inr x \<and> t = s"
  by (cases m) auto

lemma bind_Inr: "m s = Inr (x, t) \<Longrightarrow> bind m f s = f x t"
  by (simp add: bind_def)

lemma bind_Inl: "m s = Inl e \<Longrightarrow> bind m f s = Inl e"
  by (simp add: bind_def)

lemma bind_eq_Inr [simp]:
  "bind m f s = Inr (y, u) \<longleftrightarrow> (\<exists>x t. m s = Inr (x, t) \<and> f x t = Inr (y, u))"
  by (auto simp: bind_def split: sum.splits)

lemma bind_ret [simp]: "bind (ret x) f s = f x s"
  by (simp add: bind_def)

lemma bind_throw [simp]: "bind (throw e) f s = Inl e"
  by (simp add: bind_def)

lemma bind_cong [fundef_cong]:
  "s = s' \<Longrightarrow> m s' = m' s' \<Longrightarrow> (\<And>x t. m' s' = Inr (x, t) \<Longrightarrow> f x t = f' x t)
    \<Longrightarrow> bind m f s = bind m' f' s'"
  by (auto simp: bind_def split: sum.splits)

text \<open>A counted loop that pushes one result per turn: \<open>for (i = 0; i < n; i++) out.push(m())\<close>.\<close>

fun repeatM :: "nat \<Rightarrow> ('s, 'e, 'a) meth \<Rightarrow> ('s, 'e, 'a list) meth" where
  "repeatM 0 m = ret []"
| "repeatM (Suc n) m = bind m (\<lambda>x. bind (repeatM n m) (\<lambda>xs. ret (x # xs)))"

lemma repeatM_length: "repeatM n m s = Inr (xs, t) \<Longrightarrow> length xs = n"
  by (induction n arbitrary: s xs t) auto

lemma repeatM_all:
  assumes "\<And>s x t. m s = Inr (x, t) \<Longrightarrow> P x"
  shows "repeatM n m s = Inr (xs, t) \<Longrightarrow> list_all P xs"
  using assms by (induction n arbitrary: s xs t) auto

text \<open>\<open>for (const x of xs) f(x)\<close>.\<close>

fun forEach :: "'a list \<Rightarrow> ('a \<Rightarrow> ('s, 'e, unit) meth) \<Rightarrow> ('s, 'e, unit) meth" where
  "forEach [] f = ret ()"
| "forEach (x # xs) f = bind (f x) (\<lambda>_. forEach xs f)"

lemma forEach_cong [fundef_cong]:
  "xs = ys \<Longrightarrow> s = t \<Longrightarrow> (\<And>x u. x \<in> set ys \<Longrightarrow> f x u = g x u) \<Longrightarrow> forEach xs f s = forEach ys g t"
proof (induction xs arbitrary: ys s t)
  case (Cons x xs)
  have "forEach xs f = forEach xs g"
    using Cons.IH Cons.prems(1,3) by (auto simp: fun_eq_iff)
  moreover have "f x = g x" using Cons.prems(1,3) by (auto simp: fun_eq_iff)
  ultimately show ?case using Cons.prems(1,2) by auto
qed simp

lemma forEach_invariant:
  assumes "forEach xs f s = Inr (u, t)" and "I s"
    and "\<And>x s t. x \<in> set xs \<Longrightarrow> I s \<Longrightarrow> f x s = Inr ((), t) \<Longrightarrow> I t"
  shows "I t"
  using assms
proof (induction xs arbitrary: s)
  case (Cons x xs)
  then obtain s1 where 1: "f x s = Inr ((), s1)" "forEach xs f s1 = Inr (u, t)" by auto
  with Cons.prems have "I s1" by auto
  show ?case
  proof (rule Cons.IH [OF 1(2) \<open>I s1\<close>])
    fix y s t
    assume "y \<in> set xs" "I s" "f y s = Inr ((), t)"
    then show "I t" using Cons.prems(3) [of y s t] by simp
  qed
qed simp

subsection \<open>Wire formats and the methods that read them\<close>

text \<open>
  \<open>feeds s bs\<close>: the reader in state \<open>s\<close> has exactly the bytes \<open>bs\<close> left. A method reads \<open>bs\<close>
  as \<open>x\<close> when, fed \<open>bs\<close> followed by anything, it returns \<open>x\<close> and leaves what followed.
\<close>

definition reads :: "('s \<Rightarrow> bytes \<Rightarrow> bool) \<Rightarrow> ('s, 'e, 'a) meth \<Rightarrow> bytes \<Rightarrow> 'a \<Rightarrow> bool" where
  "reads feeds m bs x \<longleftrightarrow>
     (\<forall>s ys. feeds s (bs @ ys) \<longrightarrow> (\<exists>t. m s = Inr (x, t) \<and> feeds t ys))"

named_theorems reads_intros \<open>what each reading method reads\<close>

lemma readsI:
  "(\<And>s ys. feeds s (bs @ ys) \<Longrightarrow> \<exists>t. m s = Inr (x, t) \<and> feeds t ys) \<Longrightarrow> reads feeds m bs x"
  by (auto simp: reads_def)

lemma readsD:
  "reads feeds m bs x \<Longrightarrow> feeds s (bs @ ys) \<Longrightarrow> \<exists>t. m s = Inr (x, t) \<and> feeds t ys"
  by (auto simp: reads_def)

lemma reads_ret [reads_intros]: "reads feeds (ret x) [] x"
  by (simp add: reads_def)

lemma reads_bind:
  assumes "reads feeds m bs x" and "reads feeds (f x) cs y"
  shows "reads feeds (bind m f) (bs @ cs) y"
proof (rule readsI)
  fix s ys
  assume "feeds s ((bs @ cs) @ ys)"
  then obtain t where "m s = Inr (x, t)" "feeds t (cs @ ys)"
    using readsD [OF assms(1)] by fastforce
  moreover from this obtain u where "f x t = Inr (y, u)" "feeds u ys"
    using readsD [OF assms(2)] by blast
  ultimately show "\<exists>t. bind m f s = Inr (y, t) \<and> feeds t ys"
    by (auto simp: bind_def)
qed

lemma reads_last: "reads feeds m bs x \<Longrightarrow> f x = ret y \<Longrightarrow> reads feeds (bind m f) bs y"
  using reads_bind [of feeds m bs x f "[]" y] reads_ret [of feeds y] by simp

lemma reads_repeatM:
  "list_all2 (\<lambda>bs x. reads feeds m bs x) bss xs \<Longrightarrow>
     reads feeds (repeatM (length xs) m) (concat bss) xs"
proof (induction rule: list_all2_induct)
  case Nil
  show ?case by (simp add: reads_def)
next
  case (Cons bs bss x xs)
  have "reads feeds (bind m (\<lambda>x. bind (repeatM (length xs) m) (\<lambda>xs. ret (x # xs))))
          (bs @ concat bss) (x # xs)"
    by (rule reads_bind [OF Cons.hyps(1)]) (rule reads_last [OF Cons.IH], simp)
  then show ?case by simp
qed

text \<open>
  The contract: \<open>read\<close> reads every encoding of a value of the format's domain as that value.
  What a client needs follows once, here: the format is prefix-free (so concatenated fields
  can be told apart) and injective.
\<close>

locale codec =
  fixes feeds :: "'s \<Rightarrow> bytes \<Rightarrow> bool"
    and start :: "bytes \<Rightarrow> 's"
    and dom :: "'a \<Rightarrow> bool"
    and enc :: "'a \<Rightarrow> bytes"
    and read :: "('s, 'e, 'a) meth"
  assumes feeds_start: "feeds (start bs) bs"
    and feeds_det: "feeds s bs \<Longrightarrow> feeds s cs \<Longrightarrow> bs = cs"
    and reads_enc: "dom x \<Longrightarrow> reads feeds read (enc x) x"
begin

lemma prefix_free:
  assumes "dom x" "dom y" and eq: "enc x @ us = enc y @ vs"
  shows "x = y \<and> us = vs"
proof -
  let ?s = "start (enc x @ us)"
  obtain t where t: "read ?s = Inr (x, t)" "feeds t us"
    using readsD [OF reads_enc [OF assms(1)] feeds_start] by blast
  have "feeds ?s (enc y @ vs)"
    using feeds_start [of "enc x @ us"] eq by simp
  then obtain t' where t': "read ?s = Inr (y, t')" "feeds t' vs"
    using readsD [OF reads_enc [OF assms(2)]] by blast
  from t t' have "x = y" "t = t'" by auto
  moreover have "us = vs"
    using feeds_det t(2) t'(2) \<open>t = t'\<close> by simp
  ultimately show ?thesis by blast
qed

lemma enc_inj: "dom x \<Longrightarrow> dom y \<Longrightarrow> enc x = enc y \<Longrightarrow> x = y"
  using prefix_free [of x y "[]" "[]"] by simp

lemma read_back: "dom x \<Longrightarrow> \<exists>t. read (start (enc x @ ys)) = Inr (x, t) \<and> feeds t ys"
  by (rule readsD [OF reads_enc feeds_start])

lemma list_reads: "\<forall>x\<in>set xs. dom x \<Longrightarrow>
    reads feeds (repeatM (length xs) read) (concat (map enc xs)) xs"
  by (rule reads_repeatM) (auto simp: list_all2_conv_all_nth reads_enc)

end

subsection \<open>Maps in insertion order\<close>

lemma map_of_update: "map_of (AList.update k v m) = (map_of m)(k \<mapsto> v)"
  by (simp add: update_conv')

lemma size_map_of_less: "map_of m k = Some v \<Longrightarrow> f v < size_list (size_prod (\<lambda>_. 0) f) m"
  by (induction m) (auto split: if_splits)

end
