(* ===== verification/Grove_Types.thy ===== *)
theory Grove_Types
  imports Prelude
begin

text \<open>
  The data of the GroveDB proof verifier (\<open>src/src/grovedb/types.ts\<close>): hashes, merk nodes and
  operations, layer proofs, elements, proved entries, and the errors its functions throw. An
  error carries the numbers its message prints; one constructor stands for one \<open>throw\<close>.
\<close>

type_synonym CryptoHash = bytes

definition HASH_LENGTH :: nat where
  "HASH_LENGTH = 32"

definition NULL_HASH :: CryptoHash where
  "NULL_HASH = replicate 32 0"

lemma length_NULL_HASH [simp]: "length NULL_HASH = 32"
  by (simp add: NULL_HASH_def)

datatype TreeFeatureType =
    BasicMerkNode
  | SummedMerkNode int
  | BigSummedMerkNode int
  | CountedMerkNode nat
  | CountedSummedMerkNode nat int

datatype MerkNode =
    Hash CryptoHash
  | KVHash CryptoHash
  | KV bytes bytes
  | KVValueHash bytes bytes CryptoHash
  | KVDigest bytes CryptoHash
  | KVRefValueHash bytes bytes CryptoHash
  | KVValueHashFeatureType bytes bytes CryptoHash TreeFeatureType

text \<open>\<open>MerkNode['type']\<close>, the node's tag.\<close>

datatype NodeType =
    THash | TKVHash | TKV | TKVValueHash | TKVDigest | TKVRefValueHash | TKVValueHashFeatureType

fun nodeTag :: "MerkNode \<Rightarrow> NodeType" where
  "nodeTag (Hash _) = THash"
| "nodeTag (KVHash _) = TKVHash"
| "nodeTag (KV _ _) = TKV"
| "nodeTag (KVValueHash _ _ _) = TKVValueHash"
| "nodeTag (KVDigest _ _) = TKVDigest"
| "nodeTag (KVRefValueHash _ _ _) = TKVRefValueHash"
| "nodeTag (KVValueHashFeatureType _ _ _ _) = TKVValueHashFeatureType"

datatype MerkOp =
    Push MerkNode
  | PushInverted MerkNode
  | Parent
  | Child
  | ParentInverted
  | ChildInverted

text \<open>\<open>lowerLayers\<close> is a \<open>Map\<close> from the hex text of a key to the proof of its subtree.\<close>

datatype LayerProof = LayerProof (merkProof: bytes) (lowerLayers: "(string \<times> LayerProof) list")

record ProveOptions =
  decreaseLimitOnEmptySubQueryResult :: bool

record GroveDBProofV0 =
  rootLayer :: LayerProof
  proveOptions :: ProveOptions

record GroveDBProof =
  version :: nat
  proofV0 :: GroveDBProofV0

record ProvedKeyValue =
  pkey :: bytes
  pvalue :: "bytes option"
  pproof :: CryptoHash
  pnodeType :: NodeType

datatype Element =
    Item bytes "bytes option"
  | Reference "bytes list" "bytes option"
  | Tree "bytes option" "bytes option"
  | SumTree "bytes option" int "bytes option"
  | SumItem int "bytes option"
  | BigSumTree "bytes option" int "bytes option"
  | CountTree "bytes option" nat "bytes option"
  | CountSumTree "bytes option" nat int "bytes option"

text \<open>The errors: \<open>VarintError\<close> first, the plain \<open>Error\<close> of \<open>hexToBytes\<close>, then
  \<open>GroveDBVerificationError\<close> by the module that throws it. \<open>UndefinedLayer\<close> is the
  \<open>TypeError\<close> of reading a field of \<open>undefined\<close>, where the code asserts that a layer is there.\<close>

datatype gerror =
    CannotEncodeVarint int
  | VarintExceedsSafe
  | VarintUnexpectedEnd
  | VarintExceedsU64
  | VarintTooLong
  | InvalidHexString
  | InvalidHashHexLength nat
  | NeedBytes nat nat
  | InvalidBoolTag nat
  | UnknownVarintTag nat
  | ValueExceedsU64 nat
  | ValueExceedsSafe nat
  | InvalidOptionTag nat
  | UnknownElementVariant nat
  | UnknownReferenceVariant nat
  | TrailingElementBytes nat nat
  | UnexpectedEndOfData
  | UnknownOpCode nat
  | UnknownFeatureType nat
  | LargeValueTooShort nat
  | LargeValueTooLong nat
  | HashNodeHasNoKVHash
  | HashNodeHasNoChildren
  | LeftChildAttached
  | RightChildAttached
  | StackUnderflow
  | IncorrectKeyOrdering
  | IncorrectKeyOrderingInverted
  | StackItems nat
  | LayerNestingTooDeep
  | UnknownProofVariant nat
  | TrailingProofBytes nat nat
  | UnsupportedProofVersion nat
  | NonDefaultProveOptions
  | LayerOffPath "bytes list" string
  | LayersBelowPath
  | NoLowerLayer nat bytes
  | LayerUnderUnprovedKey "bytes list" string
  | LowerLayerHashMismatch "bytes list"
  | LayerForNonTree "bytes list"
  | EmptySubtreeMismatch
  | LeafValueMismatch
  | KeyNotProvedAbsent "bytes list"
  | HidesEntries "bytes list" NodeType
  | KeysOutOfOrder "bytes list"
  | SubtreeNotRevealed "bytes list"
  | RootHashMismatch
  | QuickLayerKeyNotFound string
  | QuickLayerHashMismatch string
  | UndefinedLayer

end
