(* ===== verification/Varint.thy ===== *)
theory Varint
  imports Grove_Types
begin

unbundle bit_operations_syntax

text \<open>
  The LEB128 variable-length integers of \<open>src/src/grovedb/varint.ts\<close>. A JavaScript number that
  the code only lets be a safe integer is a \<open>nat\<close>, a \<open>bigint\<close> a \<open>nat\<close> or an \<open>int\<close>.
  \<open>encodeVarint\<close> takes an \<open>int\<close>: its refusals are those of a negative number and of one past the
  safe integers (a JavaScript number with a fraction, which it also refuses, is not an \<open>int\<close>).
  The lemmas: the two decoders read back what the encoder writes, what they return is in range,
  and the format is prefix-free (by the interpretation of \<open>codec\<close>).
\<close>

subsection \<open>Encoding\<close>

function varintBytes :: "nat \<Rightarrow> bytes" where
  "varintBytes v =
     (if v > 127 then ((of_nat v AND 127) OR 128) # varintBytes (v div 128) else [of_nat v])"
  by pat_completeness auto
termination
  by (relation "measure id") auto

declare varintBytes.simps [simp del]

definition encodeVarint :: "int \<Rightarrow> gerror + bytes" where
  "encodeVarint v =
     (if v < 0 \<or> v > int MAX_SAFE_INTEGER then Inl (CannotEncodeVarint v)
      else Inr (varintBytes (nat v)))"

subsection \<open>Decoding\<close>

function decodeVarintLoop :: "bytes \<Rightarrow> nat \<Rightarrow> nat \<Rightarrow> nat \<Rightarrow> nat \<Rightarrow> gerror + nat \<times> nat" where
  "decodeVarintLoop bs off val shift n =
     (if off + n < length bs then
        (if shift > 49 then Inl VarintExceedsSafe
         else
           (let b = bs ! (off + n); val' = val + unat (b AND 127) * 2 ^ shift in
            if val' > MAX_SAFE_INTEGER then Inl VarintExceedsSafe
            else if b AND 128 = 0 then Inr (val', n + 1)
            else decodeVarintLoop bs off val' (shift + 7) (n + 1)))
      else Inl VarintUnexpectedEnd)"
  by pat_completeness auto
termination
  by (relation "measure (\<lambda>(bs, off, _, _, n). length bs - (off + n))") auto

declare decodeVarintLoop.simps [simp del]

definition decodeVarint :: "bytes \<Rightarrow> nat \<Rightarrow> gerror + nat \<times> nat" where
  "decodeVarint bs off = decodeVarintLoop bs off 0 0 0"

definition decodeSignedVarint :: "bytes \<Rightarrow> nat \<Rightarrow> gerror + int \<times> nat" where
  "decodeSignedVarint bs off =
     bnd (decodeVarint bs off) (\<lambda>(u, n).
       let half = u div 2 in
       Inr (if u mod 2 = 0 then int half else - int half - 1, n))"

definition U64_MAX :: nat where
  "U64_MAX = 2 ^ 64 - 1"

function decodeVarint64Loop :: "bytes \<Rightarrow> nat \<Rightarrow> nat \<Rightarrow> nat \<Rightarrow> nat \<Rightarrow> gerror + nat \<times> nat" where
  "decodeVarint64Loop bs off val shift n =
     (if off + n < length bs then
        (let b = bs ! (off + n); val' = val OR push_bit shift (unat (b AND 127)) in
         if b AND 128 = 0 then
           (if val' > U64_MAX then Inl VarintExceedsU64 else Inr (val', n + 1))
         else if shift + 7 > 63 then Inl VarintTooLong
         else decodeVarint64Loop bs off val' (shift + 7) (n + 1))
      else Inl VarintUnexpectedEnd)"
  by pat_completeness auto
termination
  by (relation "measure (\<lambda>(bs, off, _, _, n). length bs - (off + n))") auto

declare decodeVarint64Loop.simps [simp del]

definition decodeVarint64 :: "bytes \<Rightarrow> nat \<Rightarrow> gerror + nat \<times> nat" where
  "decodeVarint64 bs off = decodeVarint64Loop bs off 0 0 0"

text \<open>\<open>(unsigned >> 1n) ^ -(unsigned & 1n)\<close>, on unbounded integers.\<close>

definition zigzag :: "nat \<Rightarrow> int" where
  "zigzag u = drop_bit 1 (int u) XOR (- (int u AND 1))"

definition decodeSignedVarint64 :: "bytes \<Rightarrow> nat \<Rightarrow> gerror + int \<times> nat" where
  "decodeSignedVarint64 bs off =
     bnd (decodeVarint64 bs off) (\<lambda>(u, n). Inr (zigzag u, n))"

subsection \<open>Bits of one byte\<close>

lemma unat_and_127: "unat ((b :: byte) AND 127) = unat b mod 128"
proof -
  have "unat (b AND 127) = unat b AND 127"
    by (simp add: unsigned_and_eq)
  also have "\<dots> = take_bit 7 (unat b)"
    by (simp add: take_bit_eq_mask mask_eq_exp_minus_1)
  finally show ?thesis by (simp add: take_bit_eq_mod)
qed

lemma and_128_eq_0: "(b :: byte) AND 128 = 0 \<longleftrightarrow> unat b < 128"
proof -
  have "b AND 128 = 0 \<longleftrightarrow> \<not> bit b 7"
    using and_exp_eq_0_iff_not_bit [of b 7] by simp
  also have "\<dots> \<longleftrightarrow> \<not> bit (unat b) 7"
    by (simp add: bit_unsigned_iff)
  also have "\<dots> \<longleftrightarrow> even (unat b div 2 ^ 7)"
    by (simp add: bit_iff_odd)
  also have "\<dots> \<longleftrightarrow> unat b < 128"
  proof (cases "unat b < 128")
    case False
    then have "unat b div 2 ^ 7 = 1"
      using unat_byte_less [of b] by (intro div_nat_eqI) auto
    with False show ?thesis by simp
  qed simp
  finally show ?thesis .
qed

lemma unat_continue_byte: "unat (((of_nat v :: byte) AND 127) OR 128) = v mod 128 + 128"
proof -
  have "unat (((of_nat v :: byte) AND 127) OR 128) = unat ((of_nat v :: byte) AND 127) OR 128"
    by (simp add: unsigned_or_eq)
  also have "unat ((of_nat v :: byte) AND 127) = v mod 128"
    by (simp add: unat_and_127) (simp add: mod_mod_cancel)
  also have "v mod 128 OR 128 = v mod 128 + 128"
  proof -
    have "take_bit 7 v AND push_bit 7 x = 0" for x
      by (rule bit_eqI) (auto simp: bit_simps)
    from disjunctive_add_eq_or [OF this [of 1]] show ?thesis
      by (simp add: take_bit_eq_mod push_bit_eq_mult)
  qed
  finally show ?thesis .
qed

lemma or_push_bit:
  fixes v :: nat
  assumes "v < 2 ^ s"
  shows "v OR push_bit s x = v + x * 2 ^ s"
proof -
  have "v = take_bit s v" using assms by (simp add: take_bit_nat_eq_self)
  moreover have "take_bit s v AND push_bit s x = 0"
    by (rule bit_eqI) (auto simp: bit_simps)
  ultimately have "v OR push_bit s x = v + push_bit s x"
    by (simp add: disjunctive_add_eq_or)
  then show ?thesis by (simp add: push_bit_eq_mult)
qed

lemma zigzag_eq: "zigzag u = (if even u then int (u div 2) else - int (u div 2) - 1)"
proof (cases "even u")
  case True
  then show ?thesis
    by (simp add: zigzag_def drop_bit_eq_div and_one_eq zdiv_int mod2_eq_if)
next
  case False
  then have "odd (int u)" by simp
  then have "int u AND 1 = 1" unfolding and_one_eq by presburger
  with False show ?thesis
    by (simp add: zigzag_def drop_bit_eq_div zdiv_int not_int_def)
qed

subsection \<open>Round trips and bounds\<close>

lemma varintBytes_nonempty [simp]: "varintBytes v \<noteq> []"
  by (subst varintBytes.simps) simp

lemma drop_nth_Cons: "drop i xs = y # ys \<Longrightarrow> i < length xs \<and> xs ! i = y \<and> drop (Suc i) xs = ys"
  by (metis Cons_nth_drop_Suc drop_all leI list.inject list.simps(3))

text \<open>A continued byte carries seven bits of the value and the rest follow, shifted.\<close>

lemma split7: "(acc :: nat) + v mod 128 * 2 ^ s + v div 128 * 2 ^ (s + 7) = acc + v * 2 ^ s"
proof -
  have "v * 2 ^ s = (v div 128 * 128 + v mod 128) * 2 ^ s" by simp
  also have "\<dots> = v mod 128 * 2 ^ s + v div 128 * 2 ^ (s + 7)"
    by (simp only: power_add distrib_right) simp
  finally show ?thesis by simp
qed

lemma unat_last_byte: "v \<le> 127 \<Longrightarrow> unat ((of_nat v :: byte) AND 127) = v \<and> (of_nat v :: byte) AND 128 = 0"
  by (simp add: unat_and_127 and_128_eq_0)

lemma continue_byte_payload: "unat ((((of_nat v :: byte) AND 127) OR 128) AND 127) = v mod 128"
  by (simp only: unat_and_127 unat_continue_byte mod_add_self2 mod_mod_trivial)

lemma continue_byte_flag: "(((of_nat v :: byte) AND 127) OR 128) AND 128 \<noteq> 0"
  by (simp only: and_128_eq_0 unat_continue_byte)

lemma decodeVarintLoop_varintBytes:
  assumes "drop (off + n) bs = varintBytes v @ ys"
    and "acc + v * 2 ^ s \<le> MAX_SAFE_INTEGER" and "s \<le> 49"
    and "7 dvd s"
  shows "decodeVarintLoop bs off acc s n = Inr (acc + v * 2 ^ s, n + length (varintBytes v))"
  using assms
proof (induction v arbitrary: acc s n rule: varintBytes.induct)
  case (1 v)
  show ?case
  proof (cases "v > 127")
    case True
    from True "1.prems"(1)
    have "drop (off + n) bs = ((of_nat v AND 127) OR 128) # varintBytes (v div 128) @ ys"
      by (simp add: varintBytes.simps [of v])
    note d = drop_nth_Cons [OF this]
    let ?acc = "acc + v mod 128 * 2 ^ s"
    have sum: "?acc + v div 128 * 2 ^ (s + 7) = acc + v * 2 ^ s" by (rule split7)
    have le: "?acc \<le> MAX_SAFE_INTEGER" using "1.prems"(2) sum by linarith
    have "2 ^ (s + 7) \<le> v div 128 * 2 ^ (s + 7)" using True by simp
    also have "\<dots> \<le> MAX_SAFE_INTEGER" using sum "1.prems"(2) by linarith
    finally have "(2::nat) ^ (s + 7) < 2 ^ 53" by (simp add: MAX_SAFE_INTEGER_def)
    then have "s + 7 < 53" by (rule power_less_imp_less_exp [rotated]) simp
    then have s: "s + 7 \<le> 49" using \<open>7 dvd s\<close> by presburger
    have "decodeVarintLoop bs off ?acc (s + 7) (n + 1) =
        Inr (acc + v * 2 ^ s, n + 1 + length (varintBytes (v div 128)))"
      using "1.IH" [OF True, of "n + 1" ?acc "s + 7"] d s sum "1.prems"(2,4) by simp
    then show ?thesis
      using d True "1.prems"(3) le
      by (subst decodeVarintLoop.simps, subst varintBytes.simps)
        (simp add: Let_def continue_byte_payload continue_byte_flag)
  next
    case False
    with "1.prems"(1) have "drop (off + n) bs = of_nat v # ys"
      by (simp add: varintBytes.simps [of v])
    note d = drop_nth_Cons [OF this]
    from False d "1.prems"(2,3) show ?thesis
      by (subst decodeVarintLoop.simps, subst varintBytes.simps) (simp add: Let_def unat_last_byte)
  qed
qed

lemma decodeVarint64Loop_varintBytes:
  assumes "drop (off + n) bs = varintBytes v @ ys"
    and "acc < 2 ^ s" and "acc + v * 2 ^ s \<le> U64_MAX" and "s \<le> 63"
    and "7 dvd s"
  shows "decodeVarint64Loop bs off acc s n = Inr (acc + v * 2 ^ s, n + length (varintBytes v))"
  using assms
proof (induction v arbitrary: acc s n rule: varintBytes.induct)
  case (1 v)
  show ?case
  proof (cases "v > 127")
    case True
    from True "1.prems"(1)
    have "drop (off + n) bs = ((of_nat v AND 127) OR 128) # varintBytes (v div 128) @ ys"
      by (simp add: varintBytes.simps [of v])
    note d = drop_nth_Cons [OF this]
    let ?acc = "acc + v mod 128 * 2 ^ s"
    have sum: "?acc + v div 128 * 2 ^ (s + 7) = acc + v * 2 ^ s" by (rule split7)
    have "v mod 128 * 2 ^ s \<le> 127 * 2 ^ s" by (rule mult_le_mono1) simp
    moreover have "(2::nat) ^ (s + 7) = 128 * 2 ^ s" by (simp add: power_add)
    ultimately have lt: "?acc < 2 ^ (s + 7)" using "1.prems"(2) by linarith
    have "2 ^ (s + 7) \<le> v div 128 * 2 ^ (s + 7)" using True by simp
    also have "\<dots> \<le> U64_MAX" using sum "1.prems"(3) by linarith
    finally have "(2::nat) ^ (s + 7) < 2 ^ 64" by (simp add: U64_MAX_def)
    then have s: "s + 7 \<le> 63" by (simp only: power_strict_increasing_iff)
    have "decodeVarint64Loop bs off ?acc (s + 7) (n + 1) =
        Inr (acc + v * 2 ^ s, n + 1 + length (varintBytes (v div 128)))"
      using "1.IH" [OF True, of "n + 1" ?acc "s + 7"] d s sum lt "1.prems"(3,5) by simp
    then show ?thesis
      using d True s or_push_bit [OF "1.prems"(2)]
      by (subst decodeVarint64Loop.simps, subst varintBytes.simps)
        (simp add: Let_def continue_byte_payload continue_byte_flag)
  next
    case False
    with "1.prems"(1) have "drop (off + n) bs = of_nat v # ys"
      by (simp add: varintBytes.simps [of v])
    note d = drop_nth_Cons [OF this]
    from False d "1.prems"(3) or_push_bit [OF "1.prems"(2)] show ?thesis
      by (subst decodeVarint64Loop.simps, subst varintBytes.simps) (simp add: Let_def unat_last_byte)
  qed
qed

text \<open>A reader of these functions keeps the bytes and the offset, which it moves past what they read.\<close>

definition feedsAt :: "bytes \<times> nat \<Rightarrow> bytes \<Rightarrow> bool" where
  "feedsAt s bs \<longleftrightarrow> snd s \<le> length (fst s) \<and> drop (snd s) (fst s) = bs"

definition atOffset :: "(bytes \<Rightarrow> nat \<Rightarrow> gerror + 'a \<times> nat) \<Rightarrow> (bytes \<times> nat, gerror, 'a) meth" where
  "atOffset f s = bnd (f (fst s) (snd s)) (\<lambda>(x, n). Inr (x, (fst s, snd s + n)))"

lemma reads_atOffset:
  assumes "\<And>bs off ys. drop off bs = enc @ ys \<Longrightarrow> f bs off = Inr (x, length enc)"
  shows "reads feedsAt (atOffset f) enc x"
proof (rule readsI)
  fix s ys
  assume s: "feedsAt s (enc @ ys)"
  then have d: "drop (snd s) (fst s) = enc @ ys" and le: "snd s \<le> length (fst s)"
    by (auto simp: feedsAt_def)
  have "length (fst s) - snd s = length enc + length ys"
    using arg_cong [OF d, of length] by simp
  moreover have "drop (snd s + length enc) (fst s) = ys"
    using arg_cong [OF d, of "drop (length enc)"] by (simp add: add.commute)
  ultimately show "\<exists>t. atOffset f s = Inr (x, t) \<and> feedsAt t ys"
    using assms [OF d] le by (auto simp: atOffset_def feedsAt_def)
qed

lemma decodeVarint_varintBytes:
  "drop off bs = varintBytes v @ ys \<Longrightarrow> v \<le> MAX_SAFE_INTEGER \<Longrightarrow>
     decodeVarint bs off = Inr (v, length (varintBytes v))"
  using decodeVarintLoop_varintBytes [of off 0 bs v ys 0 0] by (simp add: decodeVarint_def)

lemma decodeVarint64_varintBytes:
  "drop off bs = varintBytes v @ ys \<Longrightarrow> v \<le> U64_MAX \<Longrightarrow>
     decodeVarint64 bs off = Inr (v, length (varintBytes v))"
  using decodeVarint64Loop_varintBytes [of off 0 bs v ys 0 0] by (simp add: decodeVarint64_def)

interpretation varint: codec feedsAt "\<lambda>bs. (bs, 0)" "\<lambda>v. v \<le> MAX_SAFE_INTEGER" varintBytes
    "atOffset decodeVarint"
  by unfold_locales (auto simp: feedsAt_def intro: reads_atOffset decodeVarint_varintBytes)

interpretation varint64: codec feedsAt "\<lambda>bs. (bs, 0)" "\<lambda>v. v \<le> U64_MAX" varintBytes
    "atOffset decodeVarint64"
  by unfold_locales (auto simp: feedsAt_def intro: reads_atOffset decodeVarint64_varintBytes)

lemma decodeVarintLoop_bounds:
  "decodeVarintLoop bs off acc s n = Inr (v, m) \<Longrightarrow>
     v \<le> MAX_SAFE_INTEGER \<and> n < m \<and> off + m \<le> length bs"
  by (induction bs off acc s n rule: decodeVarintLoop.induct)
    (subst (asm) (2) decodeVarintLoop.simps, fastforce simp: Let_def split: if_splits)

lemma decodeVarint64Loop_bounds:
  "decodeVarint64Loop bs off acc s n = Inr (v, m) \<Longrightarrow>
     v \<le> U64_MAX \<and> n < m \<and> off + m \<le> length bs"
  by (induction bs off acc s n rule: decodeVarint64Loop.induct)
    (subst (asm) (2) decodeVarint64Loop.simps, fastforce simp: Let_def split: if_splits)

text \<open>Varint round trip. \<open>encodeVarint\<close> refuses exactly the integers that are negative or past
  \<open>Number.MAX_SAFE_INTEGER\<close>; what it writes for any other, both decoders read back as that
  integer, at any offset of any buffer, consuming exactly the bytes written.\<close>

theorem varint_roundtrip:
  "case encodeVarint v of
     Inl e \<Rightarrow> (v < 0 \<or> int MAX_SAFE_INTEGER < v) \<and> e = CannotEncodeVarint v
   | Inr bs \<Rightarrow> 0 \<le> v \<and> v \<le> int MAX_SAFE_INTEGER \<and>
       decodeVarint (pre @ bs @ post) (length pre) = Inr (nat v, length bs) \<and>
       decodeVarint64 (pre @ bs @ post) (length pre) = Inr (nat v, length bs)"
proof (cases "v < 0 \<or> v > int MAX_SAFE_INTEGER")
  case True
  then show ?thesis by (simp add: encodeVarint_def)
next
  case False
  then have "nat v \<le> MAX_SAFE_INTEGER" by linarith
  moreover from this have "nat v \<le> U64_MAX" by (simp add: MAX_SAFE_INTEGER_def U64_MAX_def)
  ultimately show ?thesis
    using False by (simp add: encodeVarint_def decodeVarint_varintBytes decodeVarint64_varintBytes)
qed

lemma decodeVarint_bounds:
  "decodeVarint bs off = Inr (v, n) \<Longrightarrow> v \<le> MAX_SAFE_INTEGER \<and> 0 < n \<and> off + n \<le> length bs"
  by (auto simp: decodeVarint_def dest: decodeVarintLoop_bounds)

lemma decodeVarint64_bounds:
  "decodeVarint64 bs off = Inr (v, n) \<Longrightarrow> v < 2 ^ 64 \<and> 0 < n \<and> off + n \<le> length bs"
  by (fastforce simp: decodeVarint64_def U64_MAX_def dest: decodeVarint64Loop_bounds)

lemma zigzag_range: "u < 2 ^ 64 \<Longrightarrow> - (2 ^ 63) \<le> zigzag u \<and> zigzag u < 2 ^ 63"
proof -
  assume "u < 2 ^ 64"
  then have "u div 2 < 2 ^ 63" by simp
  then have "int (u div 2) < 2 ^ 63" by (metis of_nat_less_iff of_nat_numeral of_nat_power)
  then show ?thesis by (auto simp: zigzag_eq)
qed

lemma decodeSignedVarint64_bounds:
  "decodeSignedVarint64 bs off = Inr (v, n) \<Longrightarrow>
     - (2 ^ 63) \<le> v \<and> v < 2 ^ 63 \<and> 0 < n \<and> off + n \<le> length bs"
  unfolding decodeSignedVarint64_def
  by (auto simp del: power_numeral dest!: decodeVarint64_bounds zigzag_range)

text \<open>Varint bounds. A decoder that returns stays inside the buffer, consumes at least one
  byte, and returns a value that fits: \<open>decodeVarint\<close> a safe integer, \<open>decodeVarint64\<close> a u64,
  and \<open>decodeSignedVarint64\<close> an i64.\<close>

theorem varint_bounds:
  "(\<forall>v n. decodeVarint bs off = Inr (v, n) \<longrightarrow>
      v \<le> MAX_SAFE_INTEGER \<and> 0 < n \<and> off + n \<le> length bs) \<and>
   (\<forall>v n. decodeVarint64 bs off = Inr (v, n) \<longrightarrow>
      v < 2 ^ 64 \<and> 0 < n \<and> off + n \<le> length bs) \<and>
   (\<forall>v n. decodeSignedVarint64 bs off = Inr (v, n) \<longrightarrow>
      - (2 ^ 63) \<le> v \<and> v < 2 ^ 63 \<and> 0 < n \<and> off + n \<le> length bs)"
  using decodeVarint_bounds decodeVarint64_bounds decodeSignedVarint64_bounds by blast

theorem varint_bounds_witness:
  "decodeSignedVarint64 [199, 1] 0 = Inr (-100, 2) \<and> - (2 ^ 63) \<le> (-100 :: int) \<and>
     (-100 :: int) < 2 ^ 63 \<and> (2::nat) \<le> length [199, 1 :: byte]"
proof -
  have "decodeSignedVarint64 [199, 1] 0 = Inr (-100, 2)"
    by (simp add: decodeSignedVarint64_def decodeVarint64_def decodeVarint64Loop.simps Let_def
        zigzag_eq push_bit_eq_mult U64_MAX_def)
  with varint_bounds [of "[199, 1]" 0] show ?thesis by simp
qed

end
