(* ===== verification/Bincode.thy ===== *)
theory Bincode
  imports Varint
begin

unbundle bit_operations_syntax

text \<open>
  The bincode 2 reader and the hex helpers of \<open>src/src/grovedb/bincode.ts\<close>. The class
  \<open>BincodeReader\<close> is the record \<open>reader\<close> (its bytes and its offset) and one method per method.
  The wire format it implements, given in that file's header comment, is the encoder
  \<open>bincodeUint\<close> and its combinations: the abstract format the methods are proved to read, each
  through an interpretation of \<open>codec\<close>.
\<close>

subsection \<open>The reader\<close>

record reader =
  rdata :: bytes
  roffset :: nat

type_synonym 'a rmeth = "(reader, gerror, 'a) meth"

definition newReader :: "bytes \<Rightarrow> reader" where
  "newReader bs = \<lparr>rdata = bs, roffset = 0\<rparr>"

definition position :: "reader \<Rightarrow> nat" where
  "position r = roffset r"

definition remaining :: "reader \<Rightarrow> nat" where
  "remaining r = length (rdata r) - roffset r"

definition hasMore :: "reader \<Rightarrow> bool" where
  "hasMore r \<longleftrightarrow> roffset r < length (rdata r)"

definition requireBytes :: "nat \<Rightarrow> unit rmeth" where
  "requireBytes n r =
     (if roffset r + n > length (rdata r) then Inl (NeedBytes n (roffset r)) else Inr ((), r))"

text \<open>The bytes at the offset, which then moves past them (after \<open>requireBytes\<close>).\<close>

definition takeBytes :: "nat \<Rightarrow> bytes rmeth" where
  "takeBytes n r = Inr (take n (drop (roffset r) (rdata r)), r\<lparr>roffset := roffset r + n\<rparr>)"

definition readU8 :: "byte rmeth" where
  "readU8 = bind (requireBytes 1) (\<lambda>_ r.
     Inr (rdata r ! roffset r, r\<lparr>roffset := roffset r + 1\<rparr>))"

definition readBool :: "bool rmeth" where
  "readBool = bind readU8 (\<lambda>b.
     if b = 0 then ret False
     else if b = 1 then ret True
     else throw (InvalidBoolTag (unat b)))"

text \<open>A big-endian unsigned integer (\<open>DataView.getUint16\<close>, \<open>getUint32\<close>, and the u128 loop).\<close>

definition beNat :: "bytes \<Rightarrow> nat" where
  "beNat bs = foldl (\<lambda>v b. push_bit 8 v OR unat b) 0 bs"

definition readBe :: "nat \<Rightarrow> nat rmeth" where
  "readBe n = bind (requireBytes n) (\<lambda>_. bind (takeBytes n) (\<lambda>bs. ret (beNat bs)))"

definition readVarintU128 :: "nat rmeth" where
  "readVarintU128 = bind readU8 (\<lambda>tag.
     if unat tag \<le> 250 then ret (unat tag)
     else if tag = 0xfb then readBe 2
     else if tag = 0xfc then readBe 4
     else if tag = 0xfd then
       bind (requireBytes 8) (\<lambda>_. bind (takeBytes 4) (\<lambda>hi. bind (takeBytes 4) (\<lambda>lo.
         ret (push_bit 32 (beNat hi) OR beNat lo))))
     else if tag = 0xfe then readBe 16
     else throw (UnknownVarintTag (unat tag)))"

definition readVarintU64 :: "nat rmeth" where
  "readVarintU64 = bind readVarintU128 (\<lambda>v.
     if v > 0xffffffffffffffff then throw (ValueExceedsU64 v) else ret v)"

definition readVarintAsNumber :: "nat rmeth" where
  "readVarintAsNumber = bind readVarintU128 (\<lambda>v.
     if v > MAX_SAFE_INTEGER then throw (ValueExceedsSafe v) else ret v)"

definition readVarintI64 :: "int rmeth" where
  "readVarintI64 = bind readVarintU128 (\<lambda>u. ret (zigzag u))"

definition readVarintI128 :: "int rmeth" where
  "readVarintI128 = bind readVarintU128 (\<lambda>u. ret (zigzag u))"

definition readVariant :: "nat rmeth" where
  "readVariant = readVarintAsNumber"

definition readByteVec :: "bytes rmeth" where
  "readByteVec = bind readVarintAsNumber (\<lambda>len. bind (requireBytes len) (\<lambda>_. takeBytes len))"

definition readLength :: "nat rmeth" where
  "readLength = readVarintAsNumber"

definition readOption :: "'a rmeth \<Rightarrow> 'a option rmeth" where
  "readOption m = bind readU8 (\<lambda>tag.
     if tag = 0 then ret None
     else if tag = 1 then bind m (\<lambda>x. ret (Some x))
     else throw (InvalidOptionTag (unat tag)))"

definition readOptionByteVec :: "bytes option rmeth" where
  "readOptionByteVec = readOption readByteVec"

definition readOptionU8 :: "byte option rmeth" where
  "readOptionU8 = readOption readU8"

definition readVecOfByteVec :: "bytes list rmeth" where
  "readVecOfByteVec = bind readLength (\<lambda>len. repeatM len readByteVec)"

subsection \<open>Hex\<close>

definition hexDigit :: "nat \<Rightarrow> char" where
  "hexDigit n = ''0123456789abcdef'' ! n"

fun bytesToHex :: "bytes \<Rightarrow> string" where
  "bytesToHex [] = []"
| "bytesToHex (b # bs) = hexDigit (unat b div 16) # hexDigit (unat b mod 16) # bytesToHex bs"

definition hexVal :: "char \<Rightarrow> nat option" where
  "hexVal c = (let n = of_char c :: nat in
     if 48 \<le> n \<and> n \<le> 57 then Some (n - 48)
     else if 97 \<le> n \<and> n \<le> 102 then Some (n - 87)
     else if 65 \<le> n \<and> n \<le> 70 then Some (n - 55)
     else None)"

text \<open>\<open>hex.replace(/^0x/, '')\<close>.\<close>

definition strip0x :: "string \<Rightarrow> string" where
  "strip0x s = (case s of a # b # r \<Rightarrow> if a = CHR ''0'' \<and> b = CHR ''x'' then r else s | _ \<Rightarrow> s)"

fun hexPairs :: "string \<Rightarrow> bytes option" where
  "hexPairs [] = Some []"
| "hexPairs [_] = None"
| "hexPairs (a # b # r) =
     (case (hexVal a, hexVal b, hexPairs r) of
        (Some x, Some y, Some bs) \<Rightarrow> Some (of_nat (16 * x + y) # bs)
      | _ \<Rightarrow> None)"

definition hexToBytes :: "string \<Rightarrow> gerror + bytes" where
  "hexToBytes hex = (case hexPairs (strip0x hex) of
     None \<Rightarrow> Inl InvalidHexString | Some bs \<Rightarrow> Inr bs)"

subsection \<open>What a reader has left\<close>

definition feeds :: "reader \<Rightarrow> bytes \<Rightarrow> bool" where
  "feeds r bs \<longleftrightarrow> roffset r \<le> length (rdata r) \<and> drop (roffset r) (rdata r) = bs"

lemma feeds_newReader [simp]: "feeds (newReader bs) bs"
  by (simp add: feeds_def newReader_def)

lemma feeds_det: "feeds r bs \<Longrightarrow> feeds r cs \<Longrightarrow> bs = cs"
  by (simp add: feeds_def)

lemma feeds_length: "feeds r bs \<Longrightarrow> roffset r + length bs = length (rdata r)"
  by (auto simp: feeds_def)

lemma feeds_hasMore: "feeds r bs \<Longrightarrow> hasMore r \<longleftrightarrow> bs \<noteq> []"
  by (auto simp: feeds_def hasMore_def)

lemma feeds_advance:
  assumes "feeds r (bs @ ys)"
  shows "feeds (r\<lparr>roffset := roffset r + length bs\<rparr>) ys"
proof -
  have "drop (length bs + roffset r) (rdata r) = ys"
    using assms drop_drop [of "length bs" "roffset r" "rdata r"] by (simp add: feeds_def)
  then show ?thesis
    using feeds_length [OF assms] by (simp add: feeds_def add.commute)
qed

lemma reads_requireBytes_then:
  assumes "reads feeds m bs x" and "n \<le> length bs"
  shows "reads feeds (bind (requireBytes n) (\<lambda>_. m)) bs x"
proof (rule readsI)
  fix r ys
  assume f: "feeds r (bs @ ys)"
  then have "roffset r + n \<le> length (rdata r)"
    using feeds_length [OF f] assms(2) by simp
  then show "\<exists>t. bind (requireBytes n) (\<lambda>_. m) r = Inr (x, t) \<and> feeds t ys"
    using readsD [OF assms(1) f] by (auto simp: requireBytes_def bind_def)
qed

lemma reads_takeBytes: "n = length bs \<Longrightarrow> reads feeds (takeBytes n) bs bs"
  by (rule readsI) (auto simp: takeBytes_def intro: feeds_advance, auto simp: feeds_def)

lemma reads_readU8 [reads_intros]: "reads feeds readU8 [b] b"
proof (rule readsI)
  fix r ys
  assume f: "feeds r ([b] @ ys)"
  then have "feeds (r\<lparr>roffset := roffset r + 1\<rparr>) ys"
    using feeds_advance [of r "[b]" ys] by simp
  moreover have "rdata r ! roffset r = b" "roffset r < length (rdata r)"
    using f drop_nth_Cons [of "roffset r" "rdata r" b ys] by (auto simp: feeds_def)
  ultimately show "\<exists>t. readU8 r = Inr (b, t) \<and> feeds t ys"
    by (simp add: readU8_def requireBytes_def bind_def)
qed

subsection \<open>The wire format\<close>

text \<open>\<open>n\<close> bytes, big-endian.\<close>

fun beBytes :: "nat \<Rightarrow> nat \<Rightarrow> bytes" where
  "beBytes 0 v = []"
| "beBytes (Suc n) v = beBytes n (v div 256) @ [of_nat v]"

text \<open>The unsigned varint of the header comment: one byte up to 250, else a tag and the shortest
  of a u16, u32, u64 or u128, big-endian.\<close>

definition bincodeUint :: "nat \<Rightarrow> bytes" where
  "bincodeUint v =
     (if v \<le> 250 then [of_nat v]
      else if v < 2 ^ 16 then 0xfb # beBytes 2 v
      else if v < 2 ^ 32 then 0xfc # beBytes 4 v
      else if v < 2 ^ 64 then 0xfd # beBytes 8 v
      else 0xfe # beBytes 16 v)"

text \<open>The zigzag of a signed integer: \<open>(n << 1) ^ (n >> 63)\<close>, or 127.\<close>

definition zigzagEnc :: "int \<Rightarrow> nat" where
  "zigzagEnc i = (if 0 \<le> i then nat (2 * i) else nat (- 2 * i - 1))"

definition bincodeBytes :: "bytes \<Rightarrow> bytes" where
  "bincodeBytes bs = bincodeUint (length bs) @ bs"

definition bincodeOption :: "('a \<Rightarrow> bytes) \<Rightarrow> 'a option \<Rightarrow> bytes" where
  "bincodeOption enc x = (case x of None \<Rightarrow> [0] | Some y \<Rightarrow> 1 # enc y)"

definition bincodeVec :: "('a \<Rightarrow> bytes) \<Rightarrow> 'a list \<Rightarrow> bytes" where
  "bincodeVec enc xs = bincodeUint (length xs) @ concat (map enc xs)"

lemma beBytes_numeral:
  "beBytes (numeral k) v = beBytes (pred_numeral k) (v div 256) @ [of_nat v]"
  by (simp only: numeral_eq_Suc [of k] beBytes.simps)

lemma length_beBytes [simp]: "length (beBytes n v) = n"
  by (induction n arbitrary: v) auto

lemma beNat_append [simp]: "beNat (bs @ [b]) = beNat bs * 256 + unat b"
proof -
  have "push_bit 8 v OR unat b = v * 256 + unat b" for v
    using or_push_bit [of "unat b" 8 v] by (simp add: or.commute)
  then show ?thesis by (simp add: beNat_def)
qed

lemma beNat_Nil [simp]: "beNat [] = 0"
  by (simp add: beNat_def)

lemma beNat_beBytes: "beNat (beBytes n v) = v mod 256 ^ n"
proof (induction n arbitrary: v)
  case (Suc n)
  have "v div 256 mod 256 ^ n * 256 + v mod 256 = v mod (256 * 256 ^ n)"
    by (simp add: mod_mult2_eq)
  with Suc show ?case by simp
qed simp

lemma beNat_less: "beNat bs < 256 ^ length bs"
proof (induction bs rule: rev_induct)
  case (snoc b bs)
  have "beNat bs * 256 + unat b < (beNat bs + 1) * 256" by simp
  also have "\<dots> \<le> 256 ^ length bs * 256"
    using snoc by (intro mult_le_mono1) simp
  finally show ?case by simp
qed simp

lemma beNat_two: "beNat (bs @ cs) = beNat bs * 256 ^ length cs + beNat cs"
proof (induction cs rule: rev_induct)
  case (snoc c cs)
  have "beNat (bs @ cs @ [c]) = beNat (bs @ cs) * 256 + unat c"
    using beNat_append [of "bs @ cs" c] by simp
  with snoc show ?case by (simp add: algebra_simps)
qed simp

lemma beBytes_split: "beBytes (m + n) v = beBytes m (v div 256 ^ n) @ beBytes n v"
  by (induction n arbitrary: v) (simp_all add: div_mult2_eq)

lemma reads_readBe: "length bs = n \<Longrightarrow> reads feeds (readBe n) bs (beNat bs)"
  unfolding readBe_def
  by (rule reads_requireBytes_then) (auto intro: reads_last reads_takeBytes)

lemma reads_readVarintU128: "v < 2 ^ 128 \<Longrightarrow> reads feeds readVarintU128 (bincodeUint v) v"
proof -
  assume v: "v < 2 ^ 128"
  let ?f = "\<lambda>tag :: byte. if unat tag \<le> 250 then ret (unat tag)
     else if tag = 0xfb then readBe 2
     else if tag = 0xfc then readBe 4
     else if tag = 0xfd then
       bind (requireBytes 8) (\<lambda>_. bind (takeBytes 4) (\<lambda>hi. bind (takeBytes 4) (\<lambda>lo.
         ret (push_bit 32 (beNat hi) OR beNat lo))))
     else if tag = 0xfe then readBe 16
     else throw (UnknownVarintTag (unat tag))"
  have tag: "reads feeds readVarintU128 (t # bs) v" if "reads feeds (?f t) bs v" for t bs
    using reads_bind [of feeds readU8 "[t]" t ?f bs v, OF reads_readU8 that]
    by (simp add: readVarintU128_def)
  have be: "reads feeds (readBe n) (beBytes n v) v" if "v < 256 ^ n" for n
    using reads_readBe [of "beBytes n v" n] that by (simp add: beNat_beBytes)
  have u64: "reads feeds (?f 0xfd) (beBytes 8 v) v" if "v < 2 ^ 64"
  proof -
    let ?hi = "beBytes 4 (v div 256 ^ 4)" and ?lo = "beBytes 4 v"
    have "push_bit 32 (beNat ?hi) OR beNat ?lo = beNat (?hi @ ?lo)"
      using or_push_bit [of "beNat ?lo" 32 "beNat ?hi"] beNat_less [of ?lo]
      by (simp add: or.commute beNat_two)
    also have "\<dots> = v"
      using beBytes_split [of 4 4 v] beNat_beBytes [of 8 v] that by simp
    finally have eq: "push_bit 32 (beNat ?hi) OR beNat ?lo = v" .
    have "reads feeds (bind (requireBytes 8) (\<lambda>_. bind (takeBytes 4) (\<lambda>hi. bind (takeBytes 4) (\<lambda>lo.
         ret (push_bit 32 (beNat hi) OR beNat lo))))) (?hi @ ?lo) v"
      by (rule reads_requireBytes_then, rule reads_bind [OF reads_takeBytes])
        (auto intro!: reads_last [OF reads_takeBytes] simp: eq [simplified])
    then show ?thesis using beBytes_split [of 4 4 v] by simp
  qed
  show ?thesis
    using v by (auto simp: bincodeUint_def intro!: tag be u64 reads_ret)
qed

text \<open>The readers derived from it.\<close>

lemma reads_check: "reads feeds m bs x \<Longrightarrow> \<not> bad x \<Longrightarrow>
    reads feeds (bind m (\<lambda>v. if bad v then throw (err v) else ret v)) bs x"
  by (rule reads_last) auto

lemma reads_readVarintU64: "v < 2 ^ 64 \<Longrightarrow> reads feeds readVarintU64 (bincodeUint v) v"
  unfolding readVarintU64_def by (rule reads_check [OF reads_readVarintU128]) auto

lemma reads_readVarintAsNumber:
  "v \<le> MAX_SAFE_INTEGER \<Longrightarrow> reads feeds readVarintAsNumber (bincodeUint v) v"
  unfolding readVarintAsNumber_def
  by (rule reads_check [OF reads_readVarintU128]) (auto simp: MAX_SAFE_INTEGER_def)

lemmas reads_readVariant = reads_readVarintAsNumber [folded readVariant_def]
lemmas reads_readLength = reads_readVarintAsNumber [folded readLength_def]

lemma zigzag_zigzagEnc: "zigzag (zigzagEnc i) = i"
proof (cases "0 \<le> i")
  case True
  then have "zigzagEnc i = 2 * nat i" by (simp add: zigzagEnc_def nat_mult_distrib)
  with True show ?thesis by (simp add: zigzag_eq)
next
  case False
  then have "zigzagEnc i = Suc (2 * nat (- i - 1))" by (simp add: zigzagEnc_def)
  with False show ?thesis by (simp add: zigzag_eq)
qed

lemma zigzagEnc_less: "- (2 ^ 127) \<le> i \<Longrightarrow> i < 2 ^ 127 \<Longrightarrow> zigzagEnc i < 2 ^ 128"
  by (auto simp: zigzagEnc_def nat_less_iff)

lemma reads_readVarintI128: "- (2 ^ 127) \<le> i \<Longrightarrow> i < 2 ^ 127 \<Longrightarrow>
    reads feeds readVarintI128 (bincodeUint (zigzagEnc i)) i"
  unfolding readVarintI128_def
  by (rule reads_last [OF reads_readVarintU128 [OF zigzagEnc_less]]) (auto simp: zigzag_zigzagEnc)

text \<open>\<open>readVarintI64\<close> is the same method: it does not enforce the i64 range.\<close>

lemma readVarintI64_eq: "readVarintI64 = readVarintI128"
  by (simp add: readVarintI64_def readVarintI128_def)

lemma reads_readByteVec:
  "length bs \<le> MAX_SAFE_INTEGER \<Longrightarrow> reads feeds readByteVec (bincodeBytes bs) bs"
  unfolding readByteVec_def bincodeBytes_def
  by (rule reads_bind [OF reads_readVarintAsNumber])
    (auto intro: reads_requireBytes_then reads_takeBytes)

lemma reads_readOption:
  assumes "\<And>y. x = Some y \<Longrightarrow> reads feeds m (enc y) y"
  shows "reads feeds (readOption m) (bincodeOption enc x) x"
proof (cases x)
  case None
  show ?thesis
    unfolding readOption_def bincodeOption_def None option.case
    by (rule reads_last [OF reads_readU8]) simp
next
  case (Some y)
  have "reads feeds (readOption m) ([1] @ enc y) x"
    unfolding readOption_def
    by (rule reads_bind [OF reads_readU8])
      (auto simp: Some intro!: reads_last [OF assms [OF Some]])
  then show ?thesis by (simp add: bincodeOption_def Some)
qed

definition optDom :: "('a \<Rightarrow> bool) \<Rightarrow> 'a option \<Rightarrow> bool" where
  "optDom d x = (case x of None \<Rightarrow> True | Some y \<Rightarrow> d y)"

definition vecDom :: "bytes \<Rightarrow> bool" where
  "vecDom bs \<longleftrightarrow> length bs \<le> MAX_SAFE_INTEGER"

definition vecsDom :: "bytes list \<Rightarrow> bool" where
  "vecsDom bss \<longleftrightarrow> length bss \<le> MAX_SAFE_INTEGER \<and> (\<forall>bs\<in>set bss. vecDom bs)"

text \<open>Each reading method honours the contract of the format it reads.\<close>

interpretation uint128: codec feeds newReader "\<lambda>v. v < 2 ^ 128" bincodeUint readVarintU128
  by unfold_locales (auto intro: feeds_det reads_readVarintU128)

interpretation u64: codec feeds newReader "\<lambda>v. v < 2 ^ 64" bincodeUint readVarintU64
  by unfold_locales (auto intro: feeds_det reads_readVarintU64)

interpretation number: codec feeds newReader "\<lambda>v. v \<le> MAX_SAFE_INTEGER" bincodeUint
    readVarintAsNumber
  by unfold_locales (auto intro: feeds_det reads_readVarintAsNumber)

interpretation i128: codec feeds newReader "\<lambda>i. - (2 ^ 127) \<le> i \<and> i < 2 ^ 127"
    "\<lambda>i. bincodeUint (zigzagEnc i)" readVarintI128
  by unfold_locales (auto intro: feeds_det reads_readVarintI128)

interpretation byteVec: codec feeds newReader vecDom bincodeBytes readByteVec
  by unfold_locales (auto simp: vecDom_def intro: feeds_det reads_readByteVec)

interpretation optByteVec: codec feeds newReader "optDom vecDom" "bincodeOption bincodeBytes"
    readOptionByteVec
  by unfold_locales
    (auto simp: readOptionByteVec_def optDom_def
      intro!: feeds_det reads_readOption byteVec.reads_enc)

interpretation optU8: codec feeds newReader "\<lambda>_. True" "bincodeOption (\<lambda>b. [b])" readOptionU8
  by unfold_locales
    (auto simp: readOptionU8_def intro!: feeds_det reads_readOption reads_readU8)

lemma reads_readVecOfByteVec:
  "vecsDom bss \<Longrightarrow> reads feeds readVecOfByteVec (bincodeVec bincodeBytes bss) bss"
  unfolding readVecOfByteVec_def bincodeVec_def
  by (rule reads_bind [OF reads_readLength]) (auto simp: vecsDom_def intro: byteVec.list_reads)

interpretation vecOfByteVec: codec feeds newReader vecsDom "bincodeVec bincodeBytes"
    readVecOfByteVec
  by unfold_locales (auto intro: feeds_det reads_readVecOfByteVec)

subsection \<open>No method reads outside the bytes\<close>

text \<open>A method stays inside when, from an offset inside the bytes, it keeps the bytes and moves
  the offset forward, still inside.\<close>

definition staysIn :: "'a rmeth \<Rightarrow> bool" where
  "staysIn m \<longleftrightarrow> (\<forall>r x t. roffset r \<le> length (rdata r) \<longrightarrow> m r = Inr (x, t) \<longrightarrow>
     rdata t = rdata r \<and> roffset r \<le> roffset t \<and> roffset t \<le> length (rdata t))"

named_theorems staysIn_intros \<open>methods that keep the offset inside the bytes\<close>

lemma staysInD:
  "staysIn m \<Longrightarrow> m r = Inr (x, t) \<Longrightarrow> roffset r \<le> length (rdata r) \<Longrightarrow>
     rdata t = rdata r \<and> roffset r \<le> roffset t \<and> roffset t \<le> length (rdata t)"
  unfolding staysIn_def by blast

lemma staysInI:
  "(\<And>r x t. roffset r \<le> length (rdata r) \<Longrightarrow> m r = Inr (x, t) \<Longrightarrow>
      rdata t = rdata r \<and> roffset r \<le> roffset t \<and> roffset t \<le> length (rdata t)) \<Longrightarrow> staysIn m"
  unfolding staysIn_def by blast

lemma staysIn_bind [staysIn_intros]:
  assumes "staysIn m" and "\<And>x. staysIn (f x)"
  shows "staysIn (bind m f)"
proof (rule staysInI)
  fix r y u
  assume r: "roffset r \<le> length (rdata r)" and "bind m f r = Inr (y, u)"
  then obtain x t where m: "m r = Inr (x, t)" and f: "f x t = Inr (y, u)" by auto
  from staysInD [OF assms(1) m r] staysInD [OF assms(2) f]
  show "rdata u = rdata r \<and> roffset r \<le> roffset u \<and> roffset u \<le> length (rdata u)"
    by auto
qed

lemma staysIn_basic [staysIn_intros]: "staysIn (ret x)" "staysIn (throw e)"
  by (auto simp: staysIn_def)

lemma staysIn_if [staysIn_intros]: "staysIn m \<Longrightarrow> staysIn n \<Longrightarrow> staysIn (if c then m else n)"
  by simp

lemma staysIn_requireBytes [staysIn_intros]: "staysIn (requireBytes n)"
  by (auto simp: staysIn_def requireBytes_def split: if_splits)

text \<open>Taking bytes moves the offset unconditionally: it stays inside after \<open>requireBytes\<close>.\<close>

lemma staysIn_require_take [staysIn_intros]: "staysIn (bind (requireBytes n) (\<lambda>_. takeBytes n))"
  by (rule staysInI) (auto simp: requireBytes_def takeBytes_def split: if_splits)

lemma bind_assoc: "bind (bind m f) g s = bind m (\<lambda>x. bind (f x) g) s"
  by (auto simp: bind_def split: sum.splits)

lemma staysIn_take [staysIn_intros]:
  "(\<And>bs. staysIn (f bs)) \<Longrightarrow> staysIn (bind (requireBytes n) (\<lambda>_. bind (takeBytes n) f))"
proof -
  assume "\<And>bs. staysIn (f bs)"
  moreover have "bind (bind (requireBytes n) (\<lambda>_. takeBytes n)) f =
      bind (requireBytes n) (\<lambda>_. bind (takeBytes n) f)"
    by (rule ext) (rule bind_assoc)
  ultimately show ?thesis using staysIn_bind [OF staysIn_require_take [of n], of f] by simp
qed

lemma staysIn_readU8 [staysIn_intros]: "staysIn readU8"
  by (auto simp: staysIn_def readU8_def requireBytes_def split: if_splits)

lemma staysIn_readBe [staysIn_intros]: "staysIn (readBe n)"
  by (simp add: readBe_def staysIn_intros)

lemma staysIn_readU64 [staysIn_intros]:
  "staysIn (bind (requireBytes 8) (\<lambda>_. bind (takeBytes 4) (\<lambda>hi. bind (takeBytes 4) (\<lambda>lo.
     ret (f hi lo)))))"
  by (rule staysInI) (auto simp: requireBytes_def takeBytes_def split: if_splits)

lemma staysIn_readVarintU128 [staysIn_intros]: "staysIn readVarintU128"
  unfolding readVarintU128_def by (intro staysIn_intros)

lemma staysIn_readVarints [staysIn_intros]:
  "staysIn readVarintU64" "staysIn readVarintAsNumber" "staysIn readVarintI128"
  "staysIn readVariant" "staysIn readLength" "staysIn readVarintI64"
  unfolding readVarintU64_def readVarintAsNumber_def readVarintI64_eq readVarintI128_def
    readVariant_def readLength_def
  by (intro staysIn_intros)+

lemma staysIn_readByteVec [staysIn_intros]: "staysIn readByteVec"
  unfolding readByteVec_def by (intro staysIn_intros)

lemma staysIn_readOption [staysIn_intros]: "staysIn m \<Longrightarrow> staysIn (readOption m)"
  unfolding readOption_def by (intro staysIn_intros)

lemma staysIn_repeatM [staysIn_intros]: "staysIn m \<Longrightarrow> staysIn (repeatM n m)"
  by (induction n) (simp_all add: staysIn_intros)

lemma staysIn_readOptions [staysIn_intros]:
  "staysIn readOptionByteVec" "staysIn readOptionU8" "staysIn readVecOfByteVec" "staysIn readBool"
  unfolding readOptionByteVec_def readOptionU8_def readVecOfByteVec_def readBool_def
  by (intro staysIn_intros)+

text \<open>The varint a reader returns fits in a u128.\<close>

lemma takeBytes_length: "takeBytes n r = Inr (bs, t) \<Longrightarrow> length bs \<le> n"
  by (auto simp: takeBytes_def)

lemma beNat_less_exp: "length bs \<le> n \<Longrightarrow> beNat bs < 256 ^ n"
  by (rule less_le_trans [OF beNat_less]) (simp add: power_increasing)

lemma readBe_less: "readBe n r = Inr (v, t) \<Longrightarrow> v < 256 ^ n"
  by (auto simp: readBe_def dest!: takeBytes_length intro: beNat_less_exp)

lemma u64_less:
  assumes "length hi \<le> 4" "length lo \<le> 4"
  shows "push_bit 32 (beNat hi) OR beNat lo < 2 ^ 64"
proof -
  have hi: "beNat hi < 2 ^ 32" and lo: "beNat lo < 2 ^ 32"
    using assms [THEN beNat_less_exp] by simp_all
  have "push_bit 32 (beNat hi) OR beNat lo = beNat hi * 2 ^ 32 + beNat lo"
    using or_push_bit [OF lo, of "beNat hi"] by (simp add: or.commute)
  with hi lo show ?thesis by simp
qed

lemma readVarintU128_less:
  assumes "readVarintU128 r = Inr (v, t)"
  shows "v < 2 ^ 128"
proof -
  have "v \<le> 250 \<or> v < 256 ^ 2 \<or> v < 256 ^ 4 \<or> v < 2 ^ 64 \<or> v < 256 ^ 16"
    using assms
    by (auto simp: readVarintU128_def split: if_splits dest!: readBe_less takeBytes_length)
      (use u64_less in fastforce)
  then show ?thesis by auto
qed

subsection \<open>What follows the bytes read does not matter\<close>

text \<open>The reader of the same bytes with more after them.\<close>

definition followed :: "bytes \<Rightarrow> reader \<Rightarrow> reader" where
  "followed ys r = r\<lparr>rdata := rdata r @ ys\<rparr>"

lemma followed_simps [simp]:
  "roffset (followed ys r) = roffset r"
  "rdata (followed ys r) = rdata r @ ys"
  "followed ys (r\<lparr>roffset := n\<rparr>) = (followed ys r)\<lparr>roffset := n\<rparr>"
  "followed ys (newReader bs) = newReader (bs @ ys)"
  by (simp_all add: followed_def newReader_def)

text \<open>A method is local when a result it returns does not change with what follows.\<close>

definition isLocal :: "'a rmeth \<Rightarrow> bool" where
  "isLocal m \<longleftrightarrow> (\<forall>r x t ys. m r = Inr (x, t) \<longrightarrow> m (followed ys r) = Inr (x, followed ys t))"

named_theorems isLocal_intros \<open>methods whose result does not depend on the bytes after it\<close>

lemma isLocalI:
  "(\<And>r x t ys. m r = Inr (x, t) \<Longrightarrow> m (followed ys r) = Inr (x, followed ys t)) \<Longrightarrow> isLocal m"
  unfolding isLocal_def by blast

lemma isLocalD: "isLocal m \<Longrightarrow> m r = Inr (x, t) \<Longrightarrow> m (followed ys r) = Inr (x, followed ys t)"
  unfolding isLocal_def by blast

lemma isLocal_bind [isLocal_intros]:
  assumes "isLocal m" and "\<And>x. isLocal (f x)"
  shows "isLocal (bind m f)"
proof (rule isLocalI)
  fix r y u ys
  assume "bind m f r = Inr (y, u)"
  then obtain x t where m: "m r = Inr (x, t)" and f: "f x t = Inr (y, u)" by auto
  from isLocalD [OF assms(1) m, of ys] isLocalD [OF assms(2) f, of ys]
  show "bind m f (followed ys r) = Inr (y, followed ys u)" by simp
qed

lemma isLocal_basic [isLocal_intros]: "isLocal (ret x)" "isLocal (throw e)"
  unfolding isLocal_def by auto

lemma isLocal_if [isLocal_intros]: "isLocal m \<Longrightarrow> isLocal n \<Longrightarrow> isLocal (if c then m else n)"
  by simp

lemma isLocal_requireBytes [isLocal_intros]: "isLocal (requireBytes n)"
  by (rule isLocalI) (auto simp: requireBytes_def split: if_splits)

lemma isLocal_require_take [isLocal_intros]: "isLocal (bind (requireBytes n) (\<lambda>_. takeBytes n))"
  by (rule isLocalI) (auto simp: requireBytes_def takeBytes_def split: if_splits)

lemma isLocal_take [isLocal_intros]:
  "(\<And>bs. isLocal (f bs)) \<Longrightarrow> isLocal (bind (requireBytes n) (\<lambda>_. bind (takeBytes n) f))"
proof -
  assume "\<And>bs. isLocal (f bs)"
  moreover have "bind (bind (requireBytes n) (\<lambda>_. takeBytes n)) f =
      bind (requireBytes n) (\<lambda>_. bind (takeBytes n) f)"
    by (rule ext) (rule bind_assoc)
  ultimately show ?thesis using isLocal_bind [OF isLocal_require_take [of n], of f] by simp
qed

lemma isLocal_readU8 [isLocal_intros]: "isLocal readU8"
  by (rule isLocalI) (auto simp: readU8_def requireBytes_def nth_append split: if_splits)

lemma isLocal_readBe [isLocal_intros]: "isLocal (readBe n)"
  unfolding readBe_def by (intro isLocal_intros)

lemma isLocal_readU64 [isLocal_intros]:
  "isLocal (bind (requireBytes 8) (\<lambda>_. bind (takeBytes 4) (\<lambda>hi. bind (takeBytes 4) (\<lambda>lo.
     ret (f hi lo)))))"
  by (rule isLocalI) (auto simp: requireBytes_def takeBytes_def split: if_splits)

lemma isLocal_readVarintU128 [isLocal_intros]: "isLocal readVarintU128"
  unfolding readVarintU128_def by (intro isLocal_intros)

lemma isLocal_readVarints [isLocal_intros]:
  "isLocal readVarintU64" "isLocal readVarintAsNumber" "isLocal readVarintI128"
  "isLocal readVariant" "isLocal readLength" "isLocal readVarintI64"
  unfolding readVarintU64_def readVarintAsNumber_def readVarintI64_eq readVarintI128_def
    readVariant_def readLength_def
  by (intro isLocal_intros)+

lemma isLocal_readByteVec [isLocal_intros]: "isLocal readByteVec"
  unfolding readByteVec_def by (intro isLocal_intros)

lemma isLocal_readOption [isLocal_intros]: "isLocal m \<Longrightarrow> isLocal (readOption m)"
  unfolding readOption_def by (intro isLocal_intros)

lemma isLocal_repeatM [isLocal_intros]: "isLocal m \<Longrightarrow> isLocal (repeatM n m)"
  by (induction n) (auto intro!: isLocal_intros)

lemma isLocal_readOptions [isLocal_intros]:
  "isLocal readOptionByteVec" "isLocal readOptionU8" "isLocal readVecOfByteVec" "isLocal readBool"
  unfolding readOptionByteVec_def readOptionU8_def readVecOfByteVec_def readBool_def
  by (intro isLocal_intros)+

subsection \<open>Hex text\<close>

lemma hexVal_hexDigit: "n < 16 \<Longrightarrow> hexVal (hexDigit n) = Some n"
proof -
  have "\<forall>n\<in>set [0..<16]. hexVal (hexDigit n) = Some n" by code_simp
  then show "n < 16 \<Longrightarrow> ?thesis" by simp
qed

lemma unat_nibbles: "unat (b :: byte) div 16 < 16" "unat b mod 16 < 16"
  by (rule less_mult_imp_div_less) simp_all

lemma hexPairs_bytesToHex: "hexPairs (bytesToHex bs) = Some bs"
proof (induction bs)
  case (Cons b bs)
  have "16 * (unat b div 16) + unat b mod 16 = unat b" by simp
  with Cons show ?case
    by (simp add: hexVal_hexDigit unat_nibbles del: of_nat_add of_nat_mult)
qed simp

lemma hexDigit_not_x: "n < 16 \<Longrightarrow> hexDigit n \<noteq> CHR ''x''"
  using hexVal_hexDigit [of n] by (auto simp: hexVal_def)

lemma strip0x_bytesToHex: "strip0x (bytesToHex bs) = bytesToHex bs"
  by (cases bs) (auto simp: strip0x_def hexDigit_not_x unat_nibbles)

lemma bytesToHex_inj [simp]: "bytesToHex a = bytesToHex b \<longleftrightarrow> a = b"
  using hexPairs_bytesToHex by (metis option.inject)

lemma inj_bytesToHex: "inj bytesToHex"
  by (rule injI) simp

subsection \<open>The properties\<close>

text \<open>Hex round trip. \<open>hexToBytes\<close> reads back what \<open>bytesToHex\<close> writes, with or without the
  \<open>0x\<close> prefix, so two byte strings with the same hex text (the key of a layer proof's
  \<open>lowerLayers\<close> map) are the same.\<close>

theorem hex_roundtrip:
  "hexToBytes (bytesToHex bs) = Inr bs \<and> hexToBytes (''0x'' @ bytesToHex bs) = Inr bs \<and>
   length (bytesToHex bs) = 2 * length bs"
proof -
  have "length (bytesToHex bs) = 2 * length bs" by (induction bs) auto
  then show ?thesis
    by (simp add: hexToBytes_def strip0x_bytesToHex hexPairs_bytesToHex) (simp add: strip0x_def hexPairs_bytesToHex)
qed

text \<open>Bincode round trip. Whatever follows them, the reader reads the wire format's encoding
  of a u128, u64 or safe integer, a zigzag i128, a byte vector, an optional one, and a vector
  of them back as the value encoded, and stops exactly after it.\<close>

theorem bincode_roundtrip:
  assumes "u < 2 ^ 128" and "w < 2 ^ 64" and "n \<le> MAX_SAFE_INTEGER"
    and "- (2 ^ 127) \<le> i" and "i < 2 ^ 127"
    and "vecDom bs" and "optDom vecDom ob" and "vecsDom bss"
  shows "(\<exists>t. readVarintU128 (newReader (bincodeUint u @ ys)) = Inr (u, t) \<and> feeds t ys) \<and>
    (\<exists>t. readVarintU64 (newReader (bincodeUint w @ ys)) = Inr (w, t) \<and> feeds t ys) \<and>
    (\<exists>t. readVarintAsNumber (newReader (bincodeUint n @ ys)) = Inr (n, t) \<and> feeds t ys) \<and>
    (\<exists>t. readVarintI128 (newReader (bincodeUint (zigzagEnc i) @ ys)) = Inr (i, t) \<and> feeds t ys) \<and>
    (\<exists>t. readByteVec (newReader (bincodeBytes bs @ ys)) = Inr (bs, t) \<and> feeds t ys) \<and>
    (\<exists>t. readOptionByteVec (newReader (bincodeOption bincodeBytes ob @ ys)) = Inr (ob, t) \<and>
           feeds t ys) \<and>
    (\<exists>t. readVecOfByteVec (newReader (bincodeVec bincodeBytes bss @ ys)) = Inr (bss, t) \<and>
           feeds t ys)"
  by (intro conjI uint128.read_back u64.read_back number.read_back i128.read_back byteVec.read_back
      optByteVec.read_back vecOfByteVec.read_back assms)

theorem bincode_roundtrip_witness:
  "(\<exists>t. readVarintU128 (newReader (bincodeUint 300 @ [7])) = Inr (300, t) \<and> feeds t [7]) \<and>
   bincodeUint 300 = [0xfb, 1, 44] \<and>
   (\<exists>t. readVecOfByteVec (newReader ([2, 1, 9, 0] @ [7])) = Inr ([[9], []], t) \<and> feeds t [7])"
proof -
  have enc: "bincodeVec bincodeBytes [[9], []] = [2, 1, 9, 0]" "bincodeUint 300 = [0xfb, 1, 44]"
    by (simp_all add: bincodeVec_def bincodeBytes_def bincodeUint_def beBytes_numeral)
  show ?thesis
    using bincode_roundtrip [of 300 0 0 0 "[]" None "[[9], []]" "[7]"]
    by (simp add: enc MAX_SAFE_INTEGER_def vecDom_def optDom_def vecsDom_def)
qed

end
