(* ===== verification/Nonces.thy ===== *)
theory Nonces
  imports Bincode
begin

unbundle bit_operations_syntax

text \<open>
  Choosing transaction nonces (\<open>src/src/consensus/nonces.ts\<close>). An account's nonce state is its base
  and its used bits, kept as the 32-bit word on which the code's bit operations work; a
  \<open>NonceAllocator\<close> is its \<open>accounts\<close> map, and each reading of its clock is an argument. A method
  returns the allocator beside its error or result, because an error leaves the changes made
  before it. The lemmas: merging two reports loses no used nonce and invents none (the locale
  \<open>evidence\<close>), \<open>take\<close> hands out the lowest free nonce of the window or says it is full, and over any
  run of operations no nonce is handed out twice within the hold unless it was given back.
\<close>

subsection \<open>The chain's nonce state\<close>

definition NONCE_WINDOW :: nat where
  "NONCE_WINDOW = 24"

definition NONCE_HOLD_MS :: int where
  "NONCE_HOLD_MS = 120000"

record AccountNonceState =
  base :: nat
  used :: "32 word"

datatype nerror =
    NONCE_STATE_INVALID
  | NONCE_STATE_UNKNOWN
  | NONCE_WINDOW_FULL

definition usedAbove :: "AccountNonceState \<Rightarrow> nat \<Rightarrow> 32 word" where
  "usedAbove state b =
     (let shift = b - base state in
      if shift \<ge> NONCE_WINDOW then 0
      else drop_bit shift (used state) AND (push_bit NONCE_WINDOW 1 - 1))"

definition mergeStates :: "AccountNonceState \<Rightarrow> AccountNonceState \<Rightarrow> AccountNonceState" where
  "mergeStates a b =
     (let bs = max (base a) (base b) in \<lparr>base = bs, used = usedAbove a bs OR usedAbove b bs\<rparr>)"

definition isUsed :: "AccountNonceState \<Rightarrow> nat \<Rightarrow> bool" where
  "isUsed chain nonce \<longleftrightarrow>
     (if nonce \<le> base chain then True
      else
        (let offset = nonce - base chain - 1 in
         offset < NONCE_WINDOW \<and> used chain AND push_bit offset 1 \<noteq> 0))"

definition parseAccountNonceState :: "bytes \<Rightarrow> nerror + AccountNonceState" where
  "parseAccountNonceState bs =
     (if length bs = 0 then Inr \<lparr>base = 0, used = 0\<rparr>
      else if length bs \<noteq> 8 \<and> length bs \<noteq> 11 then Inl NONCE_STATE_INVALID
      else
        (let b = foldl (\<lambda>v x. push_bit 8 v OR unat x) 0 (take 8 bs) in
         if b > MAX_SAFE_INTEGER - NONCE_WINDOW then Inl NONCE_STATE_INVALID
         else
           Inr \<lparr>base = b,
                used = (if length bs = 11
                        then ucast (bs ! 8) OR push_bit 8 (ucast (bs ! 9)) OR push_bit 16 (ucast (bs ! 10))
                        else 0)\<rparr>))"

subsection \<open>Refusals\<close>

fun startsWith :: "string \<Rightarrow> string \<Rightarrow> bool" where
  "startsWith [] s = True"
| "startsWith (c # p) [] = False"
| "startsWith (c # p) (d # s) = (c = d \<and> startsWith p s)"

fun contains :: "string \<Rightarrow> string \<Rightarrow> bool" where
  "contains [] p = (p = [])"
| "contains (c # s) p = (startsWith p (c # s) \<or> contains s p)"

definition isDigit :: "char \<Rightarrow> bool" where
  "isDigit c = (let n = of_char c :: nat in 48 \<le> n \<and> n \<le> 57)"

text \<open>\<open>/\(nonce \d+ spent\)/\<close>: the opening, digits (greedy, which is enough because a space
  follows them), the close.\<close>

definition spentAt :: "string \<Rightarrow> bool" where
  "spentAt s =
     (startsWith ''(nonce '' s \<and>
      (let r = drop 7 s in
       takeWhile isDigit r \<noteq> [] \<and> startsWith '' spent)'' (dropWhile isDigit r)))"

fun saysSpent :: "string \<Rightarrow> bool" where
  "saysSpent [] = False"
| "saysSpent (c # s) = (spentAt (c # s) \<or> saysSpent s)"

definition refusalKeepsNonce :: "string \<Rightarrow> bool" where
  "refusalKeepsNonce log \<longleftrightarrow>
     contains log ''held by a pending transaction'' \<or>
     contains log ''already used'' \<or>
     contains log ''<= base nonce'' \<or>
     saysSpent log"

subsection \<open>The allocator\<close>

text \<open>\<open>taken\<close> is a \<open>Map\<close> from a nonce to when it was taken.\<close>

record DidNonces =
  taken :: "(nat \<times> int) list"
  latest :: "AccountNonceState option"

type_synonym allocator = "(string \<times> DidNonces) list"

record BroadcastResult =
  success :: bool
  pending :: bool
  rawLog :: "string option"
  errorMessage :: "string option"

definition account :: "string \<Rightarrow> allocator \<Rightarrow> DidNonces \<times> allocator" where
  "account did accounts =
     (case map_of accounts did of
        Some a \<Rightarrow> (a, accounts)
      | None \<Rightarrow> (let a = \<lparr>taken = [], latest = None\<rparr> in (a, AList.update did a accounts)))"

definition hasState :: "string \<Rightarrow> allocator \<Rightarrow> bool" where
  "hasState did accounts =
     (case map_of accounts did of None \<Rightarrow> False | Some a \<Rightarrow> latest a \<noteq> None)"

definition refresh ::
  "string \<Rightarrow> AccountNonceState option \<Rightarrow> int \<Rightarrow> allocator \<Rightarrow> (nerror + DidNonces) \<times> allocator" where
  "refresh did chain now accounts =
     (let (a, accounts) = account did accounts;
          a = (case chain of
                 None \<Rightarrow> a
               | Some c \<Rightarrow> a\<lparr>latest := Some (case latest a of None \<Rightarrow> c | Some seen \<Rightarrow> mergeStates seen c)\<rparr>)
      in
      case latest a of
        None \<Rightarrow> (Inl NONCE_STATE_UNKNOWN, AList.update did a accounts)
      | Some l \<Rightarrow>
          (let a = a\<lparr>taken := filter (\<lambda>(n, at). \<not> (isUsed l n \<or> now - at \<ge> NONCE_HOLD_MS)) (taken a)\<rparr>
           in (Inr a, AList.update did a accounts)))"

definition take_nonce ::
  "string \<Rightarrow> AccountNonceState option \<Rightarrow> int \<Rightarrow> int \<Rightarrow> allocator \<Rightarrow> (nerror + nat) \<times> allocator" where
  "take_nonce did chain now1 now2 accounts =
     (case refresh did chain now1 accounts of
        (Inl e, accounts) \<Rightarrow> (Inl e, accounts)
      | (Inr a, accounts) \<Rightarrow>
          (case latest a of
             None \<Rightarrow> (Inl NONCE_STATE_UNKNOWN, accounts)
           | Some l \<Rightarrow>
               (case List.find (\<lambda>n. \<not> isUsed l n \<and> map_of (taken a) n = None)
                       [base l + 1..<base l + NONCE_WINDOW + 1] of
                  None \<Rightarrow> (Inl NONCE_WINDOW_FULL, accounts)
                | Some n \<Rightarrow>
                    (Inr n, AList.update did (a\<lparr>taken := AList.update n now2 (taken a)\<rparr>) accounts))))"

definition release :: "string \<Rightarrow> nat \<Rightarrow> allocator \<Rightarrow> allocator" where
  "release did nonce accounts =
     (case map_of accounts did of
        None \<Rightarrow> accounts
      | Some a \<Rightarrow> AList.update did (a\<lparr>taken := AList.delete nonce (taken a)\<rparr>) accounts)"

definition hold :: "string \<Rightarrow> nat \<Rightarrow> int \<Rightarrow> allocator \<Rightarrow> allocator" where
  "hold did nonce now accounts =
     (let (a, accounts) = account did accounts in
      AList.update did (a\<lparr>taken := AList.update nonce now (taken a)\<rparr>) accounts)"

definition settleLog :: "BroadcastResult \<Rightarrow> string" where
  "settleLog r =
     (case rawLog r of None \<Rightarrow> '''' | Some s \<Rightarrow> s) @ [CHR 0x0A] @
     (case errorMessage r of None \<Rightarrow> '''' | Some s \<Rightarrow> s)"

definition settle :: "string \<Rightarrow> nat \<Rightarrow> BroadcastResult \<Rightarrow> int \<Rightarrow> allocator \<Rightarrow> allocator" where
  "settle did nonce r now accounts =
     (if success r \<or> pending r then hold did nonce now accounts
      else if refusalKeepsNonce (settleLog r) then hold did nonce now accounts
      else release did nonce accounts)"

text \<open>\<open>NonceAllocator.shared\<close>: the registry maps an API URL, less its trailing slashes, to one
  allocator (here, to its accounts), made when it is first asked for.\<close>

definition stripSlashes :: "string \<Rightarrow> string" where
  "stripSlashes s = rev (dropWhile (\<lambda>c. c = CHR ''/'') (rev s))"

definition shared :: "string \<Rightarrow> (string \<times> allocator) list \<Rightarrow> string \<times> (string \<times> allocator) list" where
  "shared apiUrl registry =
     (let key = stripSlashes apiUrl in
      (key, case map_of registry key of None \<Rightarrow> AList.update key [] registry | Some _ \<Rightarrow> registry))"

subsection \<open>Merging reports\<close>

lemma isUsed_iff:
  "isUsed s n \<longleftrightarrow> n \<le> base s \<or> (n - base s - 1 < 24 \<and> bit (used s) (n - base s - 1))"
proof -
  have "w AND push_bit i 1 \<noteq> 0 \<longleftrightarrow> bit w i" for w :: "32 word" and i
    using and_exp_eq_0_iff_not_bit [of w i] by (simp add: push_bit_of_1)
  then show ?thesis by (simp add: isUsed_def NONCE_WINDOW_def Let_def)
qed

lemma bit_usedAbove:
  "bit (usedAbove s b) i \<longleftrightarrow> i < 24 \<and> b - base s < 24 \<and> bit (used s) (i + (b - base s))"
proof -
  have m: "bit (2 ^ n - 1 :: 32 word) j \<longleftrightarrow> j < n \<and> j < 32" for n j
  proof -
    have "2 ^ n - 1 = (mask n :: 32 word)" by (simp only: mask_eq_exp_minus_1)
    then show ?thesis by (auto simp: bit_mask_iff)
  qed
  have "bit (usedAbove s b) i \<longleftrightarrow>
      \<not> b - base s \<ge> NONCE_WINDOW \<and> bit (used s) (i + (b - base s)) \<and> i < NONCE_WINDOW \<and> i < 32"
    by (auto simp: usedAbove_def Let_def m bit_and_iff bit_drop_bit_eq add.commute)
  then show ?thesis by (auto simp: NONCE_WINDOW_def)
qed

text \<open>Only the 24 bits of the window are used.\<close>

definition inWindow :: "AccountNonceState \<Rightarrow> bool" where
  "inWindow s \<longleftrightarrow> (\<forall>i\<ge>24. \<not> bit (used s) i)"

text \<open>
  The contract of reports that accumulate: what a merged report knows is what either knew. A client
  that only ever merges never forgets, whatever the order of the reports.
\<close>

locale evidence =
  fixes merge :: "'s \<Rightarrow> 's \<Rightarrow> 's" and knows :: "'s \<Rightarrow> 'n \<Rightarrow> bool" and ok :: "'s \<Rightarrow> bool"
  assumes ok_merge: "ok a \<Longrightarrow> ok b \<Longrightarrow> ok (merge a b)"
    and knows_merge: "ok a \<Longrightarrow> ok b \<Longrightarrow> knows (merge a b) n \<longleftrightarrow> knows a n \<or> knows b n"
begin

lemma keeps: "ok a \<Longrightarrow> ok b \<Longrightarrow> knows a n \<Longrightarrow> knows (merge a b) n"
  by (simp add: knows_merge)

lemma ok_fold: "ok a \<Longrightarrow> list_all ok bs \<Longrightarrow> ok (foldl merge a bs)"
  by (induction bs arbitrary: a) (auto simp: ok_merge)

lemma knows_fold:
  "ok a \<Longrightarrow> list_all ok bs \<Longrightarrow> knows (foldl merge a bs) n \<longleftrightarrow> knows a n \<or> (\<exists>b\<in>set bs. knows b n)"
  by (induction bs arbitrary: a) (auto simp: ok_merge knows_merge)

lemma any_order:
  "ok a \<Longrightarrow> list_all ok bs \<Longrightarrow> list_all ok cs \<Longrightarrow> set bs = set cs \<Longrightarrow>
     knows (foldl merge a bs) n = knows (foldl merge a cs) n"
  by (simp add: knows_fold)

end

lemma merge_used:
  assumes "inWindow a" "inWindow b"
  shows "isUsed (mergeStates a b) n \<longleftrightarrow> isUsed a n \<or> isUsed b n"
proof -
  let ?m = "max (base a) (base b)"
  show ?thesis
  proof (cases "n \<le> ?m")
    case True
    then show ?thesis by (auto simp: isUsed_iff mergeStates_def Let_def max_def split: if_splits)
  next
    case False
    have side: "n - ?m - 1 < 24 \<and> bit (usedAbove s ?m) (n - ?m - 1) \<longleftrightarrow> isUsed s n"
      if "base s \<le> ?m" "inWindow s" for s
    proof -
      have "n - ?m - 1 + (?m - base s) = n - base s - 1" using False that(1) by linarith
      moreover have "bit (used s) (n - base s - 1) \<Longrightarrow> n - base s - 1 < 24"
        using that(2) by (auto simp: inWindow_def not_less [symmetric])
      ultimately show ?thesis
        using False that(1) by (auto simp: isUsed_iff bit_usedAbove)
    qed
    have "isUsed (mergeStates a b) n \<longleftrightarrow> n - ?m - 1 < 24 \<and>
        (bit (usedAbove a ?m) (n - ?m - 1) \<or> bit (usedAbove b ?m) (n - ?m - 1))"
      using False by (auto simp: isUsed_iff mergeStates_def Let_def bit_simps)
    with side [of a] side [of b] assms show ?thesis by auto
  qed
qed

lemma inWindow_merge: "inWindow (mergeStates a b)"
  by (auto simp: inWindow_def mergeStates_def Let_def bit_simps bit_usedAbove)

interpretation reports: evidence mergeStates isUsed inWindow
  by unfold_locales (auto simp: inWindow_merge merge_used)

lemma base_mergeStates [simp]: "base (mergeStates a b) = max (base a) (base b)"
  by (simp add: mergeStates_def Let_def)

lemma parse_inWindow: "parseAccountNonceState bs = Inr s \<Longrightarrow> inWindow s"
proof -
  assume "parseAccountNonceState bs = Inr s"
  then have "used s = 0 \<or>
      used s = ucast (bs ! 8) OR push_bit 8 (ucast (bs ! 9)) OR push_bit 16 (ucast (bs ! 10))"
    by (auto simp: parseAccountNonceState_def Let_def split: if_splits)
  moreover have "\<not> bit (x :: byte) j" if "8 \<le> j" for x j using that by (simp add: bit_word.rep_eq bit_imp_le_length)
  ultimately show ?thesis by (auto simp: inWindow_def bit_simps)
qed

subsection \<open>Taking a nonce\<close>

text \<open>The state \<open>take\<close> decides by, and what is held at a time.\<close>

definition stateAfter :: "string \<Rightarrow> AccountNonceState option \<Rightarrow> allocator \<Rightarrow> AccountNonceState option" where
  "stateAfter did chain accounts =
     (let seen = Option.bind (map_of accounts did) latest in
      case chain of None \<Rightarrow> seen | Some c \<Rightarrow> Some (case seen of None \<Rightarrow> c | Some s \<Rightarrow> mergeStates s c))"

definition heldAt :: "string \<Rightarrow> int \<Rightarrow> allocator \<Rightarrow> nat \<Rightarrow> bool" where
  "heldAt did now accounts n \<longleftrightarrow>
     (\<exists>a at. map_of accounts did = Some a \<and> map_of (taken a) n = Some at \<and> now - at < NONCE_HOLD_MS)"

definition freeNonces :: "string \<Rightarrow> int \<Rightarrow> allocator \<Rightarrow> AccountNonceState \<Rightarrow> nat set" where
  "freeNonces did now accounts l =
     {n. base l < n \<and> n \<le> base l + NONCE_WINDOW \<and> \<not> isUsed l n \<and> \<not> heldAt did now accounts n}"

definition wfDid :: "DidNonces \<Rightarrow> bool" where
  "wfDid a \<longleftrightarrow> distinct (map fst (taken a)) \<and> (\<forall>l. latest a = Some l \<longrightarrow> inWindow l)"

definition wfAllocator :: "allocator \<Rightarrow> bool" where
  "wfAllocator accounts \<longleftrightarrow> (\<forall>did a. map_of accounts did = Some a \<longrightarrow> wfDid a)"

lemma map_of_filter_distinct:
  "distinct (map fst m) \<Longrightarrow> map_of (filter P m) k = (case map_of m k of None \<Rightarrow> None | Some v \<Rightarrow>
     if P (k, v) then Some v else None)"
  by (induction m) (auto split: option.splits dest: map_of_SomeD simp: rev_image_eqI)

definition didOf :: "string \<Rightarrow> allocator \<Rightarrow> DidNonces" where
  "didOf did accounts = (case map_of accounts did of None \<Rightarrow> \<lparr>taken = [], latest = None\<rparr> | Some a \<Rightarrow> a)"

lemma wf_didOf: "wfAllocator accounts \<Longrightarrow> wfDid (didOf did accounts)"
  by (auto simp: wfAllocator_def didOf_def wfDid_def split: option.splits)

lemma account_eq:
  "fst (account did accounts) = didOf did accounts"
  "map_of (snd (account did accounts)) = (map_of accounts)(did \<mapsto> didOf did accounts)"
  by (auto simp: account_def didOf_def Let_def map_of_update fun_upd_idem split: option.splits)

lemma find_upt:
  "List.find P [a..<b] = (if \<exists>n. a \<le> n \<and> n < b \<and> P n then Some (LEAST n. a \<le> n \<and> n < b \<and> P n) else None)"
proof (cases "\<exists>n. a \<le> n \<and> n < b \<and> P n")
  case True
  let ?n = "LEAST n. a \<le> n \<and> n < b \<and> P n"
  have n: "a \<le> ?n \<and> ?n < b \<and> P ?n" using True by (rule LeastI_ex)
  moreover have "\<not> P j" if "a \<le> j" "j < ?n" for j
    using not_less_Least [of j "\<lambda>n. a \<le> n \<and> n < b \<and> P n"] that n by auto
  ultimately have "List.find P [a..<b] = Some ?n"
    by (auto simp: find_Some_iff intro!: exI [of _ "?n - a"])
  with True show ?thesis by simp
qed (auto simp: find_None_iff)

lemma Least_Min:
  assumes "\<exists>n :: nat. P n" "finite {n. P n}"
  shows "(LEAST n. P n) = Min {n. P n}"
proof (rule Least_equality)
  show "P (Min {n. P n})" using Min_in [OF assms(2)] assms(1) by auto
qed (use assms(2) in simp)

lemma latest_refresh:
  "refresh did chain now accounts = (Inr a, accounts') \<Longrightarrow> latest a = stateAfter did chain accounts \<and> latest a \<noteq> None"
  by (auto simp: refresh_def account_def stateAfter_def Let_def split: option.splits prod.splits if_splits)

lemma refresh_eq:
  "refresh did chain now accounts =
     (let a = (didOf did accounts)\<lparr>latest := stateAfter did chain accounts\<rparr>;
          accounts1 = snd (account did accounts) in
      case latest a of
        None \<Rightarrow> (Inl NONCE_STATE_UNKNOWN, AList.update did a accounts1)
      | Some l \<Rightarrow>
          (let a = a\<lparr>taken := filter (\<lambda>(n, at). \<not> (isUsed l n \<or> now - at \<ge> NONCE_HOLD_MS)) (taken a)\<rparr>
           in (Inr a, AList.update did a accounts1)))"
proof -
  have same: "latest a = l \<Longrightarrow> a\<lparr>latest := l\<rparr> = a" for a :: DidNonces and l by auto
  show ?thesis
    by (auto simp: same refresh_def account_def didOf_def stateAfter_def Let_def split: option.splits)
qed

lemma heldAt_didOf: "heldAt did now accounts n \<longleftrightarrow>
    (\<exists>at. map_of (taken (didOf did accounts)) n = Some at \<and> now - at < NONCE_HOLD_MS)"
  by (auto simp: heldAt_def didOf_def split: option.splits)

lemma map_of_account: "map_of (snd (account did accounts)) did' =
    (if did' = did then Some (didOf did accounts) else map_of accounts did')"
  by (simp add: account_eq)

text \<open>What \<open>take\<close> hands out, and what it leaves: the account as refreshed, with the nonce held.\<close>

lemma take_cases:
  assumes "wfAllocator accounts" "stateAfter did chain accounts = Some l"
  shows "take_nonce did chain now1 now2 accounts =
     (let a = (didOf did accounts)\<lparr>latest := Some l,
                taken := filter (\<lambda>(n, at). \<not> (isUsed l n \<or> now1 - at \<ge> NONCE_HOLD_MS)) (taken (didOf did accounts))\<rparr>;
          accounts1 = AList.update did a (snd (account did accounts)) in
      if freeNonces did now1 accounts l = {} then (Inl NONCE_WINDOW_FULL, accounts1)
      else let n = Min (freeNonces did now1 accounts l) in
        (Inr n, AList.update did (a\<lparr>taken := AList.update n now2 (taken a)\<rparr>) accounts1))"
proof -
  define a where "a = (didOf did accounts)\<lparr>latest := Some l,
      taken := filter (\<lambda>(n, at). \<not> (isUsed l n \<or> now1 - at \<ge> NONCE_HOLD_MS)) (taken (didOf did accounts))\<rparr>"
  let ?P = "\<lambda>n. base l + 1 \<le> n \<and> n < base l + NONCE_WINDOW + 1 \<and> (\<not> isUsed l n \<and> map_of (taken a) n = None)"
  have dist: "distinct (map fst (taken (didOf did accounts)))"
    using wf_didOf [OF assms(1)] by (simp add: wfDid_def)
  have refreshed: "refresh did chain now1 accounts = (Inr a, AList.update did a (snd (account did accounts)))"
    by (simp add: refresh_eq assms(2) Let_def a_def)
  have latest: "latest a = Some l" by (simp add: a_def)
  have free: "freeNonces did now1 accounts l = {n. ?P n}"
    by (auto simp: a_def freeNonces_def heldAt_didOf map_of_filter_distinct [OF dist] split: option.splits if_splits)
  have fin: "finite {n. ?P n}" by (rule finite_subset [of _ "{..base l + NONCE_WINDOW}"]) auto
  have "(\<exists>n. ?P n) \<longleftrightarrow> freeNonces did now1 accounts l \<noteq> {}" by (simp only: free) blast
  then have "List.find (\<lambda>n. \<not> isUsed l n \<and> map_of (taken a) n = None) [base l + 1..<base l + NONCE_WINDOW + 1] =
      (if freeNonces did now1 accounts l = {} then None else Some (Min (freeNonces did now1 accounts l)))"
    using Least_Min [OF _ fin] by (simp only: find_upt free) simp
  then show ?thesis
    by (simp only: take_nonce_def refreshed latest sum.case prod.case option.case Let_def flip: a_def) simp
qed

text \<open>C16: \<open>take\<close> throws \<open>NONCE_STATE_UNKNOWN\<close> when neither the caller nor an earlier call gave the
  chain's state; otherwise it hands out the lowest nonce of \<open>base + 1 \<dots> base + 24\<close> that the merged
  reports do not show used and that was not taken within the last 120 s, and throws
  \<open>NONCE_WINDOW_FULL\<close> exactly when there is none.\<close>

theorem take_lowest_free:
  assumes "wfAllocator accounts"
  shows "fst (take_nonce did chain now1 now2 accounts) =
     (case stateAfter did chain accounts of
        None \<Rightarrow> Inl NONCE_STATE_UNKNOWN
      | Some l \<Rightarrow>
          if freeNonces did now1 accounts l = {} then Inl NONCE_WINDOW_FULL
          else Inr (Min (freeNonces did now1 accounts l)))"
proof (cases "stateAfter did chain accounts")
  case None
  then show ?thesis by (simp add: take_nonce_def refresh_eq Let_def)
next
  case (Some l)
  then show ?thesis using take_cases [OF assms Some] by (simp add: Let_def)
qed

subsection \<open>Runs of the allocator\<close>

lemma wf_update: "wfAllocator s \<Longrightarrow> wfDid a \<Longrightarrow> wfAllocator (AList.update did a s)"
  by (simp add: wfAllocator_def map_of_update)

lemma wf_account: "wfAllocator s \<Longrightarrow> wfAllocator (snd (account did s))"
  using wf_didOf [of s did] by (auto simp: wfAllocator_def map_of_account split: if_splits)

lemma wfDid_taken:
  assumes "wfDid a"
  shows "wfDid (a\<lparr>taken := AList.update n t (taken a)\<rparr>)" "wfDid (a\<lparr>taken := AList.delete n (taken a)\<rparr>)"
    "wfDid (a\<lparr>taken := filter P (taken a)\<rparr>)"
  using assms by (auto simp: wfDid_def distinct_update distinct_delete distinct_map_filter)

lemma stateAfter_inWindow:
  assumes "wfAllocator s" "\<forall>c. chain = Some c \<longrightarrow> inWindow c" "stateAfter did chain s = Some l"
  shows "inWindow l"
  using assms
  by (auto simp: stateAfter_def wfAllocator_def wfDid_def inWindow_merge Let_def split: option.splits bind_splits)

lemma stateAfter_keeps:
  assumes "wfAllocator s" "\<forall>c. chain = Some c \<longrightarrow> inWindow c"
    and "map_of s did = Some a" "latest a = Some l" "isUsed l n"
  shows "\<exists>l'. stateAfter did chain s = Some l' \<and> isUsed l' n"
proof -
  have "inWindow l" using assms(1,3,4) by (auto simp: wfAllocator_def wfDid_def)
  then show ?thesis
    using assms by (auto simp: stateAfter_def Let_def reports.keeps split: option.splits)
qed

text \<open>The calls a client makes, with the clock readings each of them takes.\<close>

datatype nonceOp =
    Take string "AccountNonceState option" int int
  | Release string nat
  | Hold string nat int
  | Settle string nat BroadcastResult int

text \<open>One call: the nonces it hands out and the allocator it leaves; a call that throws hands out none.\<close>

inductive nstep :: "allocator \<Rightarrow> nonceOp \<Rightarrow> (string \<times> nat) list \<Rightarrow> allocator \<Rightarrow> bool" where
  took: "take_nonce did chain now1 now2 s = (Inr n, t) \<Longrightarrow> nstep s (Take did chain now1 now2) [(did, n)] t"
| full: "take_nonce did chain now1 now2 s = (Inl e, t) \<Longrightarrow> nstep s (Take did chain now1 now2) [] t"
| released: "nstep s (Release did n) [] (release did n s)"
| held: "nstep s (Hold did n now) [] (hold did n now s)"
| settled: "nstep s (Settle did n r now) [] (settle did n r now s)"

inductive nrun :: "allocator \<Rightarrow> nonceOp list \<Rightarrow> (string \<times> nat) list \<Rightarrow> allocator \<Rightarrow> bool" where
  nothing: "nrun s [] [] s"
| call: "nstep s c i t \<Longrightarrow> nrun t cs is u \<Longrightarrow> nrun s (c # cs) (i @ is) u"

inductive_simps nrun_simps: "nrun s [] is t" "nrun s (c # cs) is t"
inductive_cases nstepE: "nstep s c i t"

text \<open>A call that leaves the nonce taken at \<open>since\<close> taken: its clock has not run past the hold, and it
  does not give the nonce back.\<close>

fun keeps :: "string \<Rightarrow> nat \<Rightarrow> int \<Rightarrow> nonceOp \<Rightarrow> bool" where
  "keeps did n since (Take d chain now1 now2) \<longleftrightarrow>
     (\<forall>c. chain = Some c \<longrightarrow> inWindow c) \<and> (d = did \<longrightarrow> now1 - since < NONCE_HOLD_MS)"
| "keeps did n since (Release d m) \<longleftrightarrow> (d, m) \<noteq> (did, n)"
| "keeps did n since (Hold d m now) \<longleftrightarrow> ((d, m) = (did, n) \<longrightarrow> since \<le> now)"
| "keeps did n since (Settle d m r now) \<longleftrightarrow> ((d, m) = (did, n) \<longrightarrow>
     since \<le> now \<and> (success r \<or> pending r \<or> refusalKeepsNonce (settleLog r)))"

definition guarded :: "string \<Rightarrow> nat \<Rightarrow> int \<Rightarrow> allocator \<Rightarrow> bool" where
  "guarded did n since s \<longleftrightarrow> wfAllocator s \<and>
     (\<exists>a. map_of s did = Some a \<and>
        ((\<exists>l. latest a = Some l \<and> isUsed l n) \<or> (\<exists>at. map_of (taken a) n = Some at \<and> since \<le> at)))"

lemma take_unknown:
  "stateAfter did chain s = None \<Longrightarrow>
     take_nonce did chain now1 now2 s =
       (Inl NONCE_STATE_UNKNOWN, AList.update did ((didOf did s)\<lparr>latest := None\<rparr>) (snd (account did s)))"
  by (simp add: take_nonce_def refresh_eq Let_def)

lemma wf_take:
  assumes "wfAllocator s" "\<forall>c. chain = Some c \<longrightarrow> inWindow c"
  shows "wfAllocator (snd (take_nonce did chain now1 now2 s))"
proof (cases "stateAfter did chain s")
  case None
  have "wfDid ((didOf did s)\<lparr>latest := None\<rparr>)"
    using wf_didOf [OF assms(1)] by (simp add: wfDid_def)
  then show ?thesis using assms(1) by (simp add: take_unknown [OF None] wf_update wf_account)
next
  case (Some l)
  have "wfDid ((didOf did s)\<lparr>latest := Some l\<rparr>)"
    using wf_didOf [OF assms(1), of did] stateAfter_inWindow [OF assms Some] by (simp add: wfDid_def)
  then have a: "wfDid ((didOf did s)\<lparr>latest := Some l, taken := filter P (taken (didOf did s))\<rparr>)" for P
    using wfDid_taken(3) [of "(didOf did s)\<lparr>latest := Some l\<rparr>" P] by simp
  show ?thesis
    using assms(1) wfDid_taken(1) [OF a]
    by (simp add: take_cases [OF assms(1) Some] Let_def wf_update wf_account a)
qed

lemma guarded_take:
  assumes g: "guarded did n since s" and chain: "\<forall>c. chain = Some c \<longrightarrow> inWindow c"
    and now: "d = did \<longrightarrow> now1 - since < NONCE_HOLD_MS"
    and res: "take_nonce d chain now1 now2 s = (r, t)"
  shows "guarded did n since t \<and> (d = did \<longrightarrow> r \<noteq> Inr n)"
proof -
  have wf: "wfAllocator s" using g by (simp add: guarded_def)
  have wft: "wfAllocator t" using wf_take [OF wf chain, of d now1 now2] res by simp
  obtain a where a: "map_of s did = Some a"
    "(\<exists>l. latest a = Some l \<and> isUsed l n) \<or> (\<exists>at. map_of (taken a) n = Some at \<and> since \<le> at)"
    using g by (auto simp: guarded_def)
  show ?thesis
  proof (cases "d = did")
    case False
    then have "map_of t did = Some a"
      using res a(1) wf
      by (cases "stateAfter d chain s") (auto simp: take_unknown take_cases Let_def map_of_update map_of_account split: if_splits)
    with a(2) wft False show ?thesis by (auto simp: guarded_def)
  next
    case [simp]: True
    have da: "didOf did s = a" using a(1) by (simp add: didOf_def)
    show ?thesis
    proof (cases "stateAfter did chain s")
      case None
      then have "latest a = None" using a(1) by (auto simp: stateAfter_def Let_def split: option.splits)
      then show ?thesis
        using res a wft by (auto simp: take_unknown [OF None] guarded_def da map_of_update map_of_account)
    next
      case (Some l)
      let ?keep = "\<lambda>(n, at). \<not> (isUsed l n \<or> now1 - at \<ge> NONCE_HOLD_MS)"
      have dist: "distinct (map fst (taken a))" using wf a(1) by (simp add: wfAllocator_def wfDid_def)
      have kept: "isUsed l n \<or> (\<exists>at. map_of (filter ?keep (taken a)) n = Some at \<and> since \<le> at)"
        using a(2) stateAfter_keeps [OF wf chain a(1)] Some now
        by (fastforce simp: map_of_filter_distinct [OF dist])
      have notfree: "n \<notin> freeNonces did now1 s l"
        using kept by (auto simp: freeNonces_def heldAt_didOf da map_of_filter_distinct [OF dist]
            split: option.splits if_splits)
      have fin: "finite (freeNonces did now1 s l)"
        by (rule finite_subset [of _ "{..base l + NONCE_WINDOW}"]) (auto simp: freeNonces_def)
      show ?thesis
      proof (cases "freeNonces did now1 s l = {}")
        case True
        then show ?thesis
          using res kept wft
          by (auto simp: take_cases [OF wf Some] Let_def guarded_def da map_of_update)
      next
        case False
        then have "Min (freeNonces did now1 s l) \<noteq> n" using Min_in [OF fin False] notfree by metis
        then show ?thesis
          using res kept wft False
          by (auto simp: take_cases [OF wf Some] Let_def guarded_def da map_of_update)
      qed
    qed
  qed
qed

lemma guarded_hold:
  "guarded did n since s \<Longrightarrow> ((d, m) = (did, n) \<longrightarrow> since \<le> now) \<Longrightarrow> guarded did n since (hold d m now s)"
  using wf_update [of "snd (account d s)" "(didOf d s)\<lparr>taken := AList.update m now (taken (didOf d s))\<rparr>" d]
    wfDid_taken(1) [of "didOf d s" m now] wf_didOf [of s d] wf_account [of s d]
  by (auto simp: guarded_def hold_def account_eq map_of_update map_of_account case_prod_beta didOf_def)

lemma guarded_release:
  assumes "guarded did n since s" "(d, m) \<noteq> (did, n)"
  shows "guarded did n since (release d m s)"
proof (cases "map_of s d")
  case None
  then show ?thesis using assms(1) by (simp add: release_def)
next
  case (Some a)
  then have "wfAllocator (release d m s)"
    using assms(1) by (auto simp: release_def guarded_def wfAllocator_def map_of_update wfDid_taken(2))
  then show ?thesis
    using assms Some by (auto simp: guarded_def release_def map_of_update delete_conv')
qed

lemma guarded_step:
  assumes "nstep s c i t" "guarded did n since s" "keeps did n since c"
  shows "guarded did n since t \<and> (did, n) \<notin> set i"
  using assms
proof cases
  case (took d chain now1 now2 m)
  then show ?thesis using guarded_take [OF assms(2) _ _ took(3)] assms(3) by auto
next
  case (full d chain now1 now2 e)
  then show ?thesis using guarded_take [OF assms(2) _ _ full(3)] assms(3) by auto
next
  case (settled d m r now)
  show ?thesis
  proof (cases "success r \<or> pending r \<or> refusalKeepsNonce (settleLog r)")
    case True
    then have "t = hold d m now s" using settled by (auto simp: settle_def)
    then show ?thesis using settled assms(2,3) by (auto simp: guarded_hold)
  next
    case False
    then have "t = release d m s" "(d, m) \<noteq> (did, n)" using settled assms(3) by (auto simp: settle_def)
    then show ?thesis using settled assms(2) guarded_release by auto
  qed
qed (use assms(2,3) in \<open>auto simp: guarded_hold guarded_release\<close>)

lemma guarded_run:
  "nrun s cs is t \<Longrightarrow> guarded did n since s \<Longrightarrow> list_all (keeps did n since) cs \<Longrightarrow>
     guarded did n since t \<and> (did, n) \<notin> set is"
  by (induction rule: nrun.induct) (auto dest!: guarded_step)

text \<open>C7: No double issue. Once \<open>take\<close> has handed out a nonce for an account, no later call of \<open>take\<close>
  for it hands that nonce out again, whatever is interleaved (calls for other accounts, reports
  older or newer than those seen, holds, settlements of this nonce as accepted, pending or refused
  with the nonce kept), for as long as the clock is within 120 s of the taking and nobody gives the
  nonce back.\<close>

theorem no_double_issue:
  assumes "wfAllocator s" and "\<forall>c. chain = Some c \<longrightarrow> inWindow c"
    and "take_nonce did chain now1 now2 s = (Inr n, t)"
    and "nrun t cs is u" and "list_all (keeps did n now2) cs"
  shows "(did, n) \<notin> set is"
proof -
  obtain l where l: "stateAfter did chain s = Some l"
    using assms(3) by (cases "stateAfter did chain s") (auto simp: take_unknown)
  have "wfAllocator t" using wf_take [OF assms(1,2), of did now1 now2] assms(3) by simp
  then have "guarded did n now2 t"
    using assms(3) by (auto simp: take_cases [OF assms(1) l] Let_def guarded_def map_of_update split: if_splits)
  then show ?thesis using guarded_run [OF assms(4) _ assms(5)] by simp
qed

text \<open>C20: What a settlement does. The nonce is held from now on exactly when the submission was
  accepted, is pending, or was refused with a text that says the nonce is held, used or spent; any
  other refusal frees it, and no other nonce's hold changes.\<close>

theorem settle_spec:
  "heldAt did now (settle did n r now s) m \<longleftrightarrow>
     (if m = n then success r \<or> pending r \<or> refusalKeepsNonce (settleLog r) else heldAt did now s m)"
  by (auto simp: settle_def heldAt_didOf hold_def release_def account_eq didOf_def map_of_update
      case_prod_beta delete_conv' NONCE_HOLD_MS_def split: option.splits)

text \<open>C21: Reports accumulate. After any sequence of reports merged into a state, a nonce counts as used
  exactly when some report showed it used, so the order of the reports is of no account, no report
  un-uses a nonce, and the base is the highest base seen.\<close>

theorem merged_reports:
  assumes "inWindow s" "list_all inWindow rs"
  shows "(isUsed (foldl mergeStates s rs) n \<longleftrightarrow> isUsed s n \<or> (\<exists>r\<in>set rs. isUsed r n)) \<and>
    base (foldl mergeStates s rs) = foldl max (base s) (map base rs)"
proof -
  have "base (foldl mergeStates s rs) = foldl max (base s) (map base rs)" for s
    by (induction rs arbitrary: s) auto
  then show ?thesis using reports.knows_fold [OF assms] by blast
qed

subsection \<open>The wire form\<close>

definition encodeNonceState :: "AccountNonceState \<Rightarrow> bytes" where
  "encodeNonceState s = beBytes 8 (base s) @
     [ucast (used s), ucast (drop_bit 8 (used s)), ucast (drop_bit 16 (used s))]"

lemma used_bytes:
  assumes "inWindow s"
  shows "ucast (ucast (used s) :: byte) OR push_bit 8 (ucast (ucast (drop_bit 8 (used s)) :: byte)) OR
    push_bit 16 (ucast (ucast (drop_bit 16 (used s)) :: byte)) = used s"
proof (rule bit_eqI)
  fix i
  assume "possible_bit TYPE(32 word) i"
  then show "bit (ucast (ucast (used s) :: byte) OR push_bit 8 (ucast (ucast (drop_bit 8 (used s)) :: byte)) OR
    push_bit 16 (ucast (ucast (drop_bit 16 (used s)) :: byte)) :: 32 word) i = bit (used s) i"
    using assms by (cases "i < 8"; cases "i < 16"; cases "i < 24") (auto simp: inWindow_def bit_simps)
qed

text \<open>The chain's 11 bytes for any state of the window are read back as it, its first 8 bytes as
  the base with nothing used, and whatever is read has bits only inside the window and a base that
  leaves the whole window within the safe integers.\<close>

theorem nonce_state_roundtrip:
  assumes "inWindow s" "base s \<le> MAX_SAFE_INTEGER - NONCE_WINDOW"
  shows "parseAccountNonceState (encodeNonceState s) = Inr s \<and>
    parseAccountNonceState (take 8 (encodeNonceState s)) = Inr (s\<lparr>used := 0\<rparr>) \<and>
    (\<forall>bs r. parseAccountNonceState bs = Inr r \<longrightarrow> inWindow r \<and> base r + NONCE_WINDOW \<le> MAX_SAFE_INTEGER)"
proof -
  have b: "foldl (\<lambda>v x. push_bit 8 v OR unat x) 0 (beBytes 8 (base s)) = base s"
    using beNat_beBytes [of 8 "base s"] assms(2) by (simp add: beNat_def MAX_SAFE_INTEGER_def NONCE_WINDOW_def)
  have "parseAccountNonceState bs = Inr r \<Longrightarrow> base r + NONCE_WINDOW \<le> MAX_SAFE_INTEGER" for bs r
    by (auto simp: parseAccountNonceState_def Let_def MAX_SAFE_INTEGER_def NONCE_WINDOW_def split: if_splits)
  then show ?thesis
    using assms used_bytes [OF assms(1)] parse_inWindow
    by (auto simp: parseAccountNonceState_def encodeNonceState_def nth_append b Let_def)
qed

lemma nonce_state_roundtrip_witness:
  "parseAccountNonceState (encodeNonceState \<lparr>base = 5, used = 6\<rparr>) = Inr \<lparr>base = 5, used = 6\<rparr>"
proof -
  have "inWindow \<lparr>base = 5, used = 6\<rparr>"
    by (auto simp: inWindow_def bit_numeral_rec bit_1_iff split: nat.splits)
  then show ?thesis
    using nonce_state_roundtrip [of "\<lparr>base = 5, used = 6\<rparr>"]
    by (simp add: MAX_SAFE_INTEGER_def NONCE_WINDOW_def)
qed

lemma merged_reports_witness:
  "isUsed (foldl mergeStates \<lparr>base = 5, used = 2\<rparr> [\<lparr>base = 6, used = 0\<rparr>, \<lparr>base = 3, used = 0\<rparr>]) 7"
proof -
  have "inWindow \<lparr>base = 5, used = 2\<rparr>" "inWindow \<lparr>base = b, used = 0\<rparr>" for b
    by (auto simp: inWindow_def bit_numeral_rec bit_1_iff split: nat.splits)
  then show ?thesis
    using merged_reports [of "\<lparr>base = 5, used = 2\<rparr>" "[\<lparr>base = 6, used = 0\<rparr>, \<lparr>base = 3, used = 0\<rparr>]" 7]
    by (simp add: isUsed_iff)
qed

text \<open>A fresh allocator asked twice, with a report for the account: nonces 6 (5 is the base) and 8
  (7 is used).\<close>

definition chainAt5 :: AccountNonceState where
  "chainAt5 = \<lparr>base = 5, used = 2\<rparr>"

lemma inWindow_chainAt5: "inWindow chainAt5"
  by (auto simp: chainAt5_def inWindow_def bit_numeral_rec bit_1_iff split: nat.splits)

lemma isUsed_chainAt5: "isUsed chainAt5 n \<longleftrightarrow> n \<le> 5 \<or> n = 7"
proof -
  have two: "bit (2 :: 32 word) i \<longleftrightarrow> i = 1" for i
    using bit_exp_iff [of "1 :: nat" i, where 'a = "32 word"] by auto
  have "isUsed chainAt5 n \<longleftrightarrow> n \<le> 5 \<or> (n - 5 - 1 < 24 \<and> n - 5 - 1 = 1)"
    by (simp only: isUsed_iff chainAt5_def AccountNonceState.select_convs two)
  then show ?thesis by auto
qed

lemma take_lowest_free_witness: "fst (take_nonce ''a'' (Some chainAt5) 0 0 []) = Inr 6"
proof -
  have wf: "wfAllocator []" by (simp add: wfAllocator_def)
  have st: "stateAfter ''a'' (Some chainAt5) [] = Some chainAt5" by (simp add: stateAfter_def)
  have base5: "base chainAt5 = 5" by (simp add: chainAt5_def)
  define S where "S = freeNonces ''a'' 0 [] chainAt5"
  have mem: "n \<in> S \<longleftrightarrow> 5 < n \<and> n \<le> 29 \<and> n \<noteq> 7" for n
    by (auto simp: S_def freeNonces_def heldAt_def isUsed_chainAt5 NONCE_WINDOW_def base5)
  have fin: "finite S" by (rule finite_subset [of _ "{..29}"]) (auto simp: mem)
  have "6 \<in> S" by (simp add: mem)
  moreover have "Min S = 6" by (rule Min_eqI [OF fin]) (auto simp: mem)
  ultimately have "(if S = {} then Inl NONCE_WINDOW_FULL else Inr (Min S)) = Inr 6" by auto
  then show ?thesis
    by (simp only: take_lowest_free [OF wf] st option.case flip: S_def)
qed

lemma no_double_issue_witness:
  "\<exists>t u. take_nonce ''a'' (Some chainAt5) 0 0 [] = (Inr 6, t) \<and>
     nrun t [Settle ''a'' 6 \<lparr>success = False, pending = True, rawLog = None, errorMessage = None\<rparr> 5,
             Take ''a'' None 9 9] [(''a'', 8)] u \<and> (''a'', 6) \<notin> set [(''a'', 8 :: nat)]"
proof -
  let ?r = "\<lparr>success = False, pending = True, rawLog = None, errorMessage = None\<rparr>"
  have wf: "wfAllocator []" by (simp add: wfAllocator_def)
  have base5: "base chainAt5 = 5" by (simp add: chainAt5_def)
  have t: "take_nonce ''a'' (Some chainAt5) 0 0 [] =
      (Inr 6, [(''a'', \<lparr>taken = [(6, 0)], latest = Some chainAt5\<rparr>)])"
    by (simp add: take_nonce_def refresh_def account_def isUsed_chainAt5 NONCE_WINDOW_def upt_rec Let_def base5)
  let ?t = "[(''a'', \<lparr>taken = [(6, 0)], latest = Some chainAt5\<rparr>)]"
  let ?s = "settle ''a'' 6 ?r 5 ?t"
  have s: "?s = [(''a'', \<lparr>taken = [(6, 5)], latest = Some chainAt5\<rparr>)]"
    by (simp add: settle_def hold_def account_def)
  have two: "take_nonce ''a'' None 9 9 ?s =
      (Inr 8, [(''a'', \<lparr>taken = [(6, 5), (8, 9)], latest = Some chainAt5\<rparr>)])"
    unfolding s
    by (simp add: take_nonce_def refresh_def account_def isUsed_chainAt5 NONCE_WINDOW_def NONCE_HOLD_MS_def
        upt_rec Let_def base5)
  let ?u = "[(''a'', \<lparr>taken = [(6, 5), (8, 9)], latest = Some chainAt5\<rparr>)]"
  have run: "nrun ?t [Settle ''a'' 6 ?r 5, Take ''a'' None 9 9] [(''a'', 8)] ?u"
    using nrun.call [OF nstep.settled nrun.call [OF nstep.took [OF two] nrun.nothing]] by simp
  have "(''a'', 6) \<notin> set [(''a'', 8 :: nat)]"
    by (rule no_double_issue [OF wf _ t run]) (auto simp: inWindow_chainAt5 NONCE_HOLD_MS_def)
  with t run show ?thesis by (intro exI conjI)
qed

end
