(* ===== verification/Mpt.thy ===== *)
theory Mpt
  imports Prelude
begin

text \<open>
  Merkle-Patricia proofs (\<open>src/src/eth-state/mpt.ts\<close>): the proof walk, the compact paths, and what
  an accepted proof says of the trie its root commits to. Keccak-256 and the RLP decoder are the
  parameters \<open>K\<close> and \<open>dec\<close>; a byte string the decoder returns as hex text is given by its bytes.
  The trie is the specification: \<open>trieGet\<close> looks a key up, \<open>nodeOf\<close> is the RLP node of a trie with
  its children embedded or referenced by hash, and \<open>proofOf\<close> the proof a node serves for a key.
\<close>

unbundle bit_operations_syntax

subsection \<open>The verifier\<close>

datatype RlpNode = RlpBytes bytes | RlpList "RlpNode list"

datatype mptError =
    BadRootLength nat
  | BadKeyLength nat
  | EmptyMptProof
  | NodeHashMismatch nat
  | RlpDecodeFailed nat
  | RootNotAList nat
  | InlineChild nat nat
  | InlineExtensionChild nat nat
  | UnexpectedShape nat nat
  | LeafMismatch bytes bytes
  | ProofExhausted

type_synonym MptVerifyResult = "mptError + unit"

type_synonym nibble = byte

definition mptBytesEqual :: "bytes \<Rightarrow> bytes \<Rightarrow> bool" where
  "mptBytesEqual a b \<longleftrightarrow> length a = length b \<and> list_all (\<lambda>i. a ! i = b ! i) [0..<length a]"

definition checkValue :: "bytes \<Rightarrow> bytes \<Rightarrow> MptVerifyResult" where
  "checkValue actual expected = ensure (mptBytesEqual actual expected) (LeafMismatch actual expected)"

fun bytesToNibbles :: "bytes \<Rightarrow> nibble list" where
  "bytesToNibbles [] = []"
| "bytesToNibbles (b # bs) = (drop_bit 4 b AND 0x0f) # (b AND 0x0f) # bytesToNibbles bs"

definition nibbleSliceEquals :: "nibble list \<Rightarrow> nibble list \<Rightarrow> nat \<Rightarrow> bool" where
  "nibbleSliceEquals a b len = list_all (\<lambda>i. a ! i = b ! i) [0..<len]"

definition decodeCompactPath :: "bytes \<Rightarrow> nibble list \<times> bool" where
  "decodeCompactPath encoded =
     (case encoded of
        [] \<Rightarrow> ([], False)
      | first # rest \<Rightarrow>
          (let flag = drop_bit 4 first AND 0x0f;
               isLeaf = (flag \<ge> 2);
               odd = (flag AND 1 = 1)
           in ((if odd then [first AND 0x0f] else []) @ bytesToNibbles rest, isLeaf)))"

fun asBytes :: "RlpNode \<Rightarrow> bytes" where
  "asBytes (RlpBytes b) = b"
| "asBytes (RlpList _) = []"

text \<open>The loop over the proof's nodes, from node \<open>i\<close>.\<close>

fun walk ::
  "(bytes \<Rightarrow> bytes) \<Rightarrow> (bytes \<Rightarrow> RlpNode option) \<Rightarrow> nibble list \<Rightarrow> bytes \<Rightarrow> nat \<Rightarrow> bytes \<Rightarrow> nat \<Rightarrow> bytes list \<Rightarrow>
     MptVerifyResult" where
  "walk K dec nibbles expectedValue i expected nibbleIdx [] = Inl ProofExhausted"
| "walk K dec nibbles expectedValue i expected nibbleIdx (node # proofNodes) =
     (if \<not> mptBytesEqual (K node) expected then Inl (NodeHashMismatch i)
      else
        (case dec node of
           None \<Rightarrow> Inl (RlpDecodeFailed i)
         | Some (RlpBytes _) \<Rightarrow> Inl (RootNotAList i)
         | Some (RlpList decoded) \<Rightarrow>
             if length decoded = 17 then
               if nibbleIdx = length nibbles then checkValue (asBytes (decoded ! 16)) expectedValue
               else
                 (let nextBytes = asBytes (decoded ! unat (nibbles ! nibbleIdx)) in
                  if length nextBytes = 0 then checkValue [] expectedValue
                  else if length nextBytes \<noteq> 32 then Inl (InlineChild i (length nextBytes))
                  else walk K dec nibbles expectedValue (i + 1) nextBytes (nibbleIdx + 1) proofNodes)
             else if length decoded = 2 then
               (let (path, isLeaf) = decodeCompactPath (asBytes (decoded ! 0));
                    remaining = drop nibbleIdx nibbles in
                if length path > length remaining \<or> \<not> nibbleSliceEquals path remaining (length path)
                then checkValue [] expectedValue
                else if isLeaf then
                  if nibbleIdx + length path \<noteq> length nibbles then checkValue [] expectedValue
                  else checkValue (asBytes (decoded ! 1)) expectedValue
                else
                  (let ref = asBytes (decoded ! 1) in
                   if length ref \<noteq> 32 then Inl (InlineExtensionChild i (length ref))
                   else walk K dec nibbles expectedValue (i + 1) ref (nibbleIdx + length path) proofNodes))
             else Inl (UnexpectedShape i (length decoded))))"

definition verifyMptProof ::
  "(bytes \<Rightarrow> bytes) \<Rightarrow> (bytes \<Rightarrow> RlpNode option) \<Rightarrow> bytes \<Rightarrow> bytes \<Rightarrow> bytes \<Rightarrow> bytes list \<Rightarrow> MptVerifyResult" where
  "verifyMptProof K dec rootHash keyHash expectedValue proofNodes =
     (if length rootHash \<noteq> 32 then Inl (BadRootLength (length rootHash))
      else if length keyHash \<noteq> 32 then Inl (BadKeyLength (length keyHash))
      else if proofNodes = [] then Inl EmptyMptProof
      else walk K dec (bytesToNibbles keyHash) expectedValue 0 rootHash 0 proofNodes)"

subsection \<open>Facts of the helpers\<close>

lemma mptBytesEqual_iff [simp]: "mptBytesEqual a b \<longleftrightarrow> a = b"
  by (auto simp: mptBytesEqual_def list_all_length intro: nth_equalityI)

lemma checkValue_iff [simp]: "checkValue a b = Inr () \<longleftrightarrow> a = b"
  by (simp add: checkValue_def ensure_def)

lemma nibbleSliceEquals_take:
  "length a \<le> length b \<Longrightarrow> nibbleSliceEquals a b (length a) \<longleftrightarrow> take (length a) b = a"
  unfolding nibbleSliceEquals_def list_all_length list_eq_iff_nth_eq [of "take (length a) b"] by auto

lemma length_bytesToNibbles [simp]: "length (bytesToNibbles bs) = 2 * length bs"
  by (induction bs) simp_all

lemma nibble_mask: "b AND 0x0f = take_bit 4 (b :: byte)"
proof -
  have "mask 4 = (0x0f :: byte)" by (simp add: mask_eq_exp_minus_1)
  then show ?thesis by (simp add: take_bit_eq_mask del: mask_numeral)
qed

lemma nibble_less: "(b AND 0x0f :: byte) < 16"
proof -
  have "unat (take_bit 4 b) < 2 ^ 4" unfolding unsigned_take_bit_eq by (rule take_bit_nat_less_exp)
  then show ?thesis by (simp add: nibble_mask word_less_nat_alt)
qed

lemma bytesToNibbles_less: "n \<in> set (bytesToNibbles bs) \<Longrightarrow> n < 16"
  by (induction bs) (auto simp: nibble_less)

subsection \<open>Compact paths\<close>

fun packNibbles :: "nibble list \<Rightarrow> bytes" where
  "packNibbles (a # b # ns) = (push_bit 4 a OR b) # packNibbles ns"
| "packNibbles _ = []"

definition compactPath :: "nibble list \<Rightarrow> bool \<Rightarrow> bytes" where
  "compactPath ns isLeaf =
     (let flag = (if isLeaf then 2 else 0 :: byte) in
      if even (length ns) then push_bit 4 flag # packNibbles ns
      else (push_bit 4 (flag OR 1) OR hd ns) # packNibbles (tl ns))"

lemma nibble_bit: "(a :: byte) < 16 \<Longrightarrow> bit a n \<Longrightarrow> n < 4"
proof (rule ccontr)
  assume a: "a < 16" "bit a n" "\<not> n < 4"
  have "unat a < 2 ^ 4" using a(1) by (simp add: word_less_nat_alt)
  then have "take_bit 4 (unat a) = unat a" by (simp add: take_bit_nat_eq_self_iff)
  then have "take_bit 4 a = a" by (metis unsigned_take_bit_eq word_unat_eq_iff)
  then have "\<not> bit a n" using a(3) by (metis bit_take_bit_iff)
  with a(2) show False by simp
qed

lemma high_nibble: "(a :: byte) < 16 \<Longrightarrow> b < 16 \<Longrightarrow> drop_bit 4 (push_bit 4 a OR b) AND 0x0f = a"
  by (rule bit_word_eqI)
    (auto simp: nibble_mask bit_simps dest: nibble_bit)

lemma low_nibble: "(a :: byte) < 16 \<Longrightarrow> b < 16 \<Longrightarrow> (push_bit 4 a OR b) AND 0x0f = b"
  by (rule bit_word_eqI)
    (auto simp: nibble_mask bit_simps dest: nibble_bit)

lemma bytesToNibbles_pack:
  "even (length ns) \<Longrightarrow> list_all (\<lambda>n. n < 16) ns \<Longrightarrow> bytesToNibbles (packNibbles ns) = ns"
  by (induction ns rule: packNibbles.induct) (simp_all add: high_nibble low_nibble del: drop_bit_or)

lemma compact_roundtrip:
  assumes "list_all (\<lambda>n. n < 16) ns"
  shows "decodeCompactPath (compactPath ns isLeaf) = (ns, isLeaf)"
proof (cases "even (length ns)")
  case True
  then show ?thesis using bytesToNibbles_pack [OF True assms]
    by (cases isLeaf) (simp_all add: compactPath_def decodeCompactPath_def)
next
  case False
  then obtain k ks where ns: "ns = k # ks" "even (length ks)" by (cases ns) auto
  then have k: "k < 16" "list_all (\<lambda>n. n < 16) ks" using assms by simp_all
  have f: "drop_bit 4 (push_bit 4 (2 OR 1) OR k) AND 0x0f = 3" "drop_bit 4 (push_bit 4 (0 OR 1) OR k) AND 0x0f = 1"
    "(push_bit 4 (2 OR 1) OR k) AND 0x0f = k" "(push_bit 4 (0 OR 1) OR k) AND 0x0f = k"
    using high_nibble [of 3 k] high_nibble [of 1 k] low_nibble [of 3 k] low_nibble [of 1 k] k(1) by simp_all
  then show ?thesis using bytesToNibbles_pack [OF ns(2) k(2)] ns
    by (cases isLeaf) (simp_all add: compactPath_def decodeCompactPath_def Let_def word_le_nat_alt)
qed

subsection \<open>Tries\<close>

datatype trie = Absent | Leaf "nibble list" bytes | Ext "nibble list" trie | Branch "trie list" bytes

lemma size_nth_less: "i < length ts \<Longrightarrow> size (ts ! i) < Suc (size_list size ts)"
  by (simp add: less_Suc_eq_le size_list_estimation' [OF nth_mem])

function trieGet :: "trie \<Rightarrow> nibble list \<Rightarrow> bytes" where
  "trieGet t ks =
     (case t of
        Absent \<Rightarrow> []
      | Leaf p v \<Rightarrow> if ks = p then v else []
      | Ext p u \<Rightarrow> if take (length p) ks = p then trieGet u (drop (length p) ks) else []
      | Branch ts v \<Rightarrow>
          (case ks of
             [] \<Rightarrow> v
           | k # ks' \<Rightarrow> if unat k < length ts then trieGet (ts ! unat k) ks' else []))"
  by pat_completeness simp

termination
  by (relation "measure (\<lambda>(t, _). size t)") (auto simp: size_nth_less)

declare trieGet.simps [simp del]

lemma trieGet_simps [simp]:
  "trieGet Absent ks = []"
  "trieGet (Leaf p v) ks = (if ks = p then v else [])"
  "trieGet (Ext p u) ks = (if take (length p) ks = p then trieGet u (drop (length p) ks) else [])"
  "trieGet (Branch ts v) [] = v"
  "trieGet (Branch ts v) (k # ks) = (if unat k < length ts then trieGet (ts ! unat k) ks else [])"
  by (simp_all add: trieGet.simps)

text \<open>A node's RLP structure: a child's is embedded when its encoding is shorter than a hash.\<close>

definition embed :: "(bytes \<Rightarrow> bytes) \<Rightarrow> (RlpNode \<Rightarrow> bytes) \<Rightarrow> RlpNode \<Rightarrow> RlpNode" where
  "embed K enc n = (if n = RlpBytes [] \<or> length (enc n) < 32 then n else RlpBytes (K (enc n)))"

primrec nodeOf :: "(bytes \<Rightarrow> bytes) \<Rightarrow> (RlpNode \<Rightarrow> bytes) \<Rightarrow> trie \<Rightarrow> RlpNode" where
  "nodeOf K enc Absent = RlpBytes []"
| "nodeOf K enc (Leaf p v) = RlpList [RlpBytes (compactPath p True), RlpBytes v]"
| "nodeOf K enc (Ext p t) = RlpList [RlpBytes (compactPath p False), embed K enc (nodeOf K enc t)]"
| "nodeOf K enc (Branch ts v) = RlpList (map (embed K enc) (map (nodeOf K enc) ts) @ [RlpBytes v])"

definition nodeBytes :: "(bytes \<Rightarrow> bytes) \<Rightarrow> (RlpNode \<Rightarrow> bytes) \<Rightarrow> trie \<Rightarrow> bytes" where
  "nodeBytes K enc t = enc (nodeOf K enc t)"

primrec subtries :: "trie \<Rightarrow> trie set" where
  "subtries Absent = {Absent}"
| "subtries (Leaf p v) = {Leaf p v}"
| "subtries (Ext p t) = insert (Ext p t) (subtries t)"
| "subtries (Branch ts v) = insert (Branch ts v) (\<Union> (set (map subtries ts)))"

text \<open>Branches have sixteen children, paths are nibbles, an extension leads somewhere.\<close>

primrec wfTrie :: "trie \<Rightarrow> bool" where
  "wfTrie Absent \<longleftrightarrow> True"
| "wfTrie (Leaf p v) \<longleftrightarrow> list_all (\<lambda>n. n < 16) p"
| "wfTrie (Ext p t) \<longleftrightarrow> list_all (\<lambda>n. n < 16) p \<and> wfTrie t \<and> t \<noteq> Absent"
| "wfTrie (Branch ts v) \<longleftrightarrow> length ts = 16 \<and> list_all id (map wfTrie ts)"

text \<open>No child is short enough to be embedded in its parent.\<close>

fun childrenOf :: "trie \<Rightarrow> trie list" where
  "childrenOf (Ext p t) = [t]"
| "childrenOf (Branch ts v) = ts"
| "childrenOf _ = []"

definition noneEmbedded :: "(bytes \<Rightarrow> bytes) \<Rightarrow> (RlpNode \<Rightarrow> bytes) \<Rightarrow> trie \<Rightarrow> bool" where
  "noneEmbedded K enc t \<longleftrightarrow>
     (\<forall>u\<in>subtries t. \<forall>c\<in>set (childrenOf u). c = Absent \<or> 32 \<le> length (nodeBytes K enc c))"

text \<open>What is relied on: Keccak gives 32 bytes and does not collide on the nodes at hand, and the
  decoder reads back the trie's nodes.\<close>

definition rlpReads :: "(bytes \<Rightarrow> bytes) \<Rightarrow> (RlpNode \<Rightarrow> bytes) \<Rightarrow> (bytes \<Rightarrow> RlpNode option) \<Rightarrow> trie \<Rightarrow> bool" where
  "rlpReads K enc dec t \<longleftrightarrow> (\<forall>u\<in>subtries t. dec (nodeBytes K enc u) = Some (nodeOf K enc u))"

lemma subtries_self [simp]: "t \<in> subtries t"
  by (cases t) simp_all

lemma subtries_child:
  "t \<in> subtries (Ext p t)"
  "i < length ts \<Longrightarrow> ts ! i \<in> subtries (Branch ts v)"
  by simp (auto intro!: exI [of _ "ts ! i"] bexI [of _ "ts ! i"])

lemma subtries_trans: "u \<in> subtries t \<Longrightarrow> subtries u \<subseteq> subtries t"
  by (induction t) auto

lemma wfTrie_sub: "u \<in> subtries t \<Longrightarrow> wfTrie t \<Longrightarrow> wfTrie u"
  by (induction t) (auto simp: list_all_iff)

lemma nodeOf_list: "t \<noteq> Absent \<Longrightarrow> \<exists>ns. nodeOf K enc t = RlpList ns"
  by (cases t) simp_all

lemma subtries_children: "u \<in> subtries t \<Longrightarrow> c \<in> set (childrenOf u) \<Longrightarrow> c \<in> subtries t"
proof -
  assume "u \<in> subtries t" "c \<in> set (childrenOf u)"
  moreover from this(2) have "c \<in> subtries u"
    by (cases u) (auto intro: bexI [of _ c])
  ultimately show "c \<in> subtries t" using subtries_trans by blast
qed

text \<open>The reference to a child, as the walk reads it.\<close>

lemma child_reference:
  "asBytes (embed K enc (nodeOf K enc c)) =
     (if c = Absent \<or> length (nodeBytes K enc c) < 32 then [] else K (nodeBytes K enc c))"
  by (cases c) (simp_all add: embed_def nodeBytes_def)

lemma branch_child:
  "i < length ts \<Longrightarrow> (map (embed K enc) (map (nodeOf K enc) ts) @ [x]) ! i = embed K enc (nodeOf K enc (ts ! i))"
  by (simp add: nth_append)

text \<open>A turn of the loop at a node of the trie.\<close>

lemma walk_two:
  assumes "dec node = Some (RlpList [RlpBytes (compactPath p leaf), second])" "list_all (\<lambda>n. n < 16) p" "K node = expected"
  shows "walk K dec nibs ev i expected idx (node # ps) =
    (if take (length p) (drop idx nibs) \<noteq> p then checkValue [] ev
     else if leaf then
       if idx + length p \<noteq> length nibs then checkValue [] ev else checkValue (asBytes second) ev
     else if length (asBytes second) \<noteq> 32 then Inl (InlineExtensionChild i (length (asBytes second)))
     else walk K dec nibs ev (i + 1) (asBytes second) (idx + length p) ps)"
proof (cases "length p \<le> length (drop idx nibs)")
  case True
  then show ?thesis using assms nibbleSliceEquals_take [OF True]
    by (simp add: compact_roundtrip Let_def)
next
  case False
  then have "take (length p) (drop idx nibs) \<noteq> p" by (metis length_take min.absorb_iff2 nat_le_linear)
  with False show ?thesis using assms by (simp add: compact_roundtrip Let_def)
qed

lemma walk_leaf:
  assumes "dec node = Some (nodeOf K enc (Leaf p v))" "wfTrie (Leaf p v)" "K node = expected" "idx \<le> length nibs"
  shows "walk K dec nibs ev i expected idx (node # ps) = checkValue (trieGet (Leaf p v) (drop idx nibs)) ev"
proof -
  have d: "dec node = Some (RlpList [RlpBytes (compactPath p True), RlpBytes v])" using assms(1) by simp
  have p: "list_all (\<lambda>n. n < 16) p" using assms(2) by simp
  note two = walk_two [where leaf = True and K = K and node = node and dec = dec, OF d p assms(3)]
  have "drop idx nibs = p \<longleftrightarrow> take (length p) (drop idx nibs) = p \<and> idx + length p = length nibs"
    using assms(4) by (metis diff_add_inverse le_add_diff_inverse length_drop order_refl take_all)
  then show ?thesis unfolding two trieGet_simps asBytes.simps by presburger
qed

lemma walk_ext:
  assumes "dec node = Some (nodeOf K enc (Ext p t))" "wfTrie (Ext p t)" "K node = expected"
    and "\<And>x. length (K x) = 32"
  shows "walk K dec nibs ev i expected idx (node # ps) =
    (if take (length p) (drop idx nibs) \<noteq> p then checkValue [] ev
     else if length (nodeBytes K enc t) < 32 then Inl (InlineExtensionChild i 0)
     else walk K dec nibs ev (i + 1) (K (nodeBytes K enc t)) (idx + length p) ps)"
proof -
  have d: "dec node = Some (RlpList [RlpBytes (compactPath p False), embed K enc (nodeOf K enc t)])"
    using assms(1) by simp
  have p: "list_all (\<lambda>n. n < 16) p" using assms(2) by simp
  note two = walk_two [where leaf = False and K = K and node = node and dec = dec, OF d p assms(3)]
  show ?thesis unfolding two child_reference using assms(2,4) by simp
qed

lemma walk_branch:
  assumes "dec node = Some (nodeOf K enc (Branch ts v))" "wfTrie (Branch ts v)" "K node = expected"
    and "\<And>x. length (K x) = 32" "list_all (\<lambda>n. n < 16) nibs" "idx \<le> length nibs"
  shows "walk K dec nibs ev i expected idx (node # ps) =
    (if idx = length nibs then checkValue v ev
     else
       (let c = ts ! unat (nibs ! idx) in
        if c = Absent \<or> length (nodeBytes K enc c) < 32 then checkValue [] ev
        else walk K dec nibs ev (i + 1) (K (nodeBytes K enc c)) (idx + 1) ps))"
proof (cases "idx = length nibs")
  case False
  then have "nibs ! idx < 16" using assms(5,6) by (simp add: list_all_length)
  then have "unat (nibs ! idx) < length ts" using assms(2) by (simp add: word_less_nat_alt)
  moreover have "K x \<noteq> []" for x using assms(4) [of x] by auto
  ultimately show ?thesis using False assms
    by (simp add: branch_child child_reference Let_def del: map_map)
qed (use assms in \<open>simp add: nth_append\<close>)

declare walk.simps(2) [simp del]

subsection \<open>Accepted proofs\<close>

definition trieHypotheses ::
  "(bytes \<Rightarrow> bytes) \<Rightarrow> (RlpNode \<Rightarrow> bytes) \<Rightarrow> (bytes \<Rightarrow> RlpNode option) \<Rightarrow> trie \<Rightarrow> bool" where
  "trieHypotheses K enc dec t \<longleftrightarrow> (\<forall>x. length (K x) = 32) \<and> rlpReads K enc dec t \<and> wfTrie t"

lemma walk_sound:
  assumes h: "trieHypotheses K enc dec t0" and S: "inj_on K S" "nodeBytes K enc ` subtries t0 \<subseteq> S"
    and nibs: "list_all (\<lambda>n. n < 16) nibs"
  shows "walk K dec nibs ev i expected idx ps = Inr () \<Longrightarrow> set ps \<subseteq> S \<Longrightarrow> t \<in> subtries t0 \<Longrightarrow>
    expected = K (nodeBytes K enc t) \<Longrightarrow> idx \<le> length nibs \<Longrightarrow>
    trieGet t (drop idx nibs) = ev \<or> ev = [] \<and> \<not> noneEmbedded K enc t0"
proof (induction ps arbitrary: i expected idx t)
  case (Cons node ps)
  have K: "length (K x) = 32" for x using h by (simp add: trieHypotheses_def)
  have wf: "wfTrie t" using wfTrie_sub [OF Cons.prems(3)] h by (simp add: trieHypotheses_def)
  have "K node = expected" using Cons.prems(1) by (auto simp: walk.simps split: if_splits)
  moreover from this have "node = nodeBytes K enc t"
    using inj_onD [OF S(1), of node "nodeBytes K enc t"] Cons.prems(2-4) S(2) by auto
  ultimately have node: "K node = expected" "dec node = Some (nodeOf K enc t)"
    using h Cons.prems(3) by (auto simp: trieHypotheses_def rlpReads_def)
  have child: "c = Absent \<or> 32 \<le> length (nodeBytes K enc c) \<or> \<not> noneEmbedded K enc t0"
    if "c \<in> set (childrenOf t)" for c
    using that Cons.prems(3) by (auto simp: noneEmbedded_def)
  show ?case
  proof (cases t)
    case Absent
    then show ?thesis using Cons.prems(1) node by (simp add: walk.simps)
  next
    case (Leaf p v)
    have "checkValue (trieGet t (drop idx nibs)) ev = Inr ()"
      using Cons.prems(1) walk_leaf [where K = K and dec = dec and node = node, OF node(2) [unfolded Leaf] wf [unfolded Leaf] node(1) Cons.prems(5)] Leaf by simp
    then show ?thesis by simp
  next
    case (Ext p u)
    note turn = Cons.prems(1) [unfolded walk_ext [where K = K and dec = dec and node = node, OF node(2) [unfolded Ext] wf [unfolded Ext] node(1) K]]
    show ?thesis
    proof (cases "take (length p) (drop idx nibs) = p")
      case True
      then have rec: "walk K dec nibs ev (i + 1) (K (nodeBytes K enc u)) (idx + length p) ps = Inr ()"
        using turn by (simp split: if_splits)
      have "u \<in> subtries t0" using subtries_children [OF Cons.prems(3)] Ext by simp
      moreover have "idx + length p \<le> length nibs" using Cons.prems(5) arg_cong [OF True, of length] by simp
      ultimately have "trieGet u (drop (idx + length p) nibs) = ev \<or> ev = [] \<and> \<not> noneEmbedded K enc t0"
        using Cons.IH [OF rec _ _ refl] Cons.prems(2) by simp
      then show ?thesis using True Ext by (simp add: add.commute)
    next
      case False
      then show ?thesis using turn Ext by simp
    qed
  next
    case (Branch ts v)
    note turn = Cons.prems(1) [unfolded walk_branch [where K = K and dec = dec and node = node, OF node(2) [unfolded Branch] wf [unfolded Branch] node(1) K nibs Cons.prems(5)]]
    show ?thesis
    proof (cases "idx = length nibs")
      case True
      then show ?thesis using turn Branch by simp
    next
      case False
      then have idx: "idx < length nibs" using Cons.prems(5) by simp
      then have "nibs ! idx < 16" using nibs by (simp add: list_all_length)
      then have k: "unat (nibs ! idx) < length ts" using wf Branch by (simp add: word_less_nat_alt)
      let ?c = "ts ! unat (nibs ! idx)"
      have get: "trieGet t (drop idx nibs) = trieGet ?c (drop (Suc idx) nibs)"
        using k Branch by (simp add: Cons_nth_drop_Suc [OF idx, symmetric])
      have c: "?c \<in> set (childrenOf t)" using k Branch by simp
      show ?thesis
      proof (cases "?c = Absent \<or> length (nodeBytes K enc ?c) < 32")
        case True
        then have "ev = []" using turn idx by (auto simp: Let_def)
        then show ?thesis using True get child [OF c] by auto
      next
        case False
        then have rec: "walk K dec nibs ev (i + 1) (K (nodeBytes K enc ?c)) (idx + 1) ps = Inr ()"
          using turn idx by (simp add: Let_def)
        show ?thesis unfolding get
          using Cons.IH [OF rec _ subtries_children [OF Cons.prems(3) c] refl] Cons.prems(2) idx by simp
      qed
    qed
  qed
qed simp

subsection \<open>Served proofs\<close>

function proofOf :: "(bytes \<Rightarrow> bytes) \<Rightarrow> (RlpNode \<Rightarrow> bytes) \<Rightarrow> trie \<Rightarrow> nibble list \<Rightarrow> bytes list" where
  "proofOf K enc t ks =
     (if t = Absent then []
      else
        nodeBytes K enc t #
          (case t of
             Ext p u \<Rightarrow> if take (length p) ks = p then proofOf K enc u (drop (length p) ks) else []
           | Branch ts v \<Rightarrow>
               (case ks of
                  [] \<Rightarrow> []
                | k # ks' \<Rightarrow> if unat k < length ts then proofOf K enc (ts ! unat k) ks' else [])
           | _ \<Rightarrow> []))"
  by pat_completeness simp

termination
  by (relation "measure (\<lambda>(_, _, t, _). size t)") (auto simp: size_nth_less)

declare proofOf.simps [simp del]

lemma walk_complete:
  assumes h: "trieHypotheses K enc dec t0" and n: "noneEmbedded K enc t0" and nibs: "list_all (\<lambda>n. n < 16) nibs"
  shows "t \<in> subtries t0 \<Longrightarrow> t \<noteq> Absent \<Longrightarrow> idx \<le> length nibs \<Longrightarrow>
    walk K dec nibs ev i (K (nodeBytes K enc t)) idx (proofOf K enc t (drop idx nibs)) =
      checkValue (trieGet t (drop idx nibs)) ev"
proof (induction t arbitrary: i idx)
  case Absent
  then show ?case by simp
next
  case (Leaf p v)
  have "dec (nodeBytes K enc (Leaf p v)) = Some (nodeOf K enc (Leaf p v))" "wfTrie (Leaf p v)"
    using h Leaf.prems(1) wfTrie_sub unfolding trieHypotheses_def rlpReads_def by blast+
  from walk_leaf [where K = K and dec = dec and node = "nodeBytes K enc (Leaf p v)", OF this refl Leaf.prems(3)] show ?case by (simp add: proofOf.simps)
next
  case (Ext p u)
  have d: "dec (nodeBytes K enc (Ext p u)) = Some (nodeOf K enc (Ext p u))" "wfTrie (Ext p u)"
    and K: "length (K x) = 32" for x
    using h Ext.prems(1) wfTrie_sub unfolding trieHypotheses_def rlpReads_def by blast+
  have u: "u \<in> subtries t0" "u \<noteq> Absent" using subtries_children [OF Ext.prems(1)] d(2) by simp_all
  have len: "32 \<le> length (nodeBytes K enc u)" using n Ext.prems(1) u(2) by (auto simp: noneEmbedded_def)
  show ?case
  proof (cases "take (length p) (drop idx nibs) = p")
    case True
    have "idx + length p \<le> length nibs" using Ext.prems(3) arg_cong [OF True, of length] by simp
    from Ext.IH [OF u this] have
      "walk K dec nibs ev (i + 1) (K (nodeBytes K enc u)) (idx + length p) (proofOf K enc u (drop (length p) (drop idx nibs))) =
         checkValue (trieGet u (drop (length p) (drop idx nibs))) ev"
      by (simp add: add.commute)
    then show ?thesis using True len
      by (simp add: proofOf.simps [of _ _ "Ext p u"] walk_ext [where K = K and dec = dec and node = "nodeBytes K enc (Ext p u)", OF d refl K] add.commute)
  next
    case False
    then show ?thesis by (simp add: proofOf.simps [of _ _ "Ext p u"] walk_ext [where K = K and dec = dec and node = "nodeBytes K enc (Ext p u)", OF d refl K])
  qed
next
  case (Branch ts v)
  have d: "dec (nodeBytes K enc (Branch ts v)) = Some (nodeOf K enc (Branch ts v))" "wfTrie (Branch ts v)"
    and K: "length (K x) = 32" for x
    using h Branch.prems(1) wfTrie_sub unfolding trieHypotheses_def rlpReads_def by blast+
  show ?case
  proof (cases "idx = length nibs")
    case True
    then show ?thesis
      using walk_branch [where K = K and dec = dec and node = "nodeBytes K enc (Branch ts v)" and ps = "[]" and i = i,
          OF d refl K nibs Branch.prems(3)]
      by (simp add: proofOf.simps [of _ _ "Branch ts v"])
  next
    case False
    then have idx: "idx < length nibs" using Branch.prems(3) by simp
    then have "nibs ! idx < 16" using nibs by (simp add: list_all_length)
    then have k: "unat (nibs ! idx) < length ts" using d(2) by (simp add: word_less_nat_alt)
    let ?c = "ts ! unat (nibs ! idx)"
    have c: "?c \<in> set ts" using k by simp
    have dr: "drop idx nibs = nibs ! idx # drop (Suc idx) nibs" using Cons_nth_drop_Suc [OF idx] by simp
    show ?thesis
    proof (cases "?c = Absent")
      case True
      then show ?thesis using idx k
        by (simp add: dr proofOf.simps [of _ _ "Branch ts v"] walk_branch [where K = K and dec = dec and node = "nodeBytes K enc (Branch ts v)", OF d refl K nibs Branch.prems(3)] Let_def)
    next
      case False
      then have "32 \<le> length (nodeBytes K enc ?c)" using n Branch.prems(1) c by (fastforce simp: noneEmbedded_def)
      moreover have "?c \<in> subtries t0" using subtries_children [OF Branch.prems(1)] c by simp
      note Branch.IH [OF c this False, of "Suc idx" "i + 1"]
      ultimately show ?thesis using idx k False
        by (simp add: dr proofOf.simps [of _ _ "Branch ts v"] walk_branch [where K = K and dec = dec and node = "nodeBytes K enc (Branch ts v)", OF d refl K nibs Branch.prems(3)] Let_def)
    qed
  qed
qed

lemma nibbles_of_key: "list_all (\<lambda>n. n < 16) (bytesToNibbles key)"
  by (simp add: list_all_iff bytesToNibbles_less)

lemma served_accepted:
  assumes "trieHypotheses K enc dec t" and "noneEmbedded K enc t" and "t \<noteq> Absent" and "length key = 32"
  shows "verifyMptProof K dec (K (nodeBytes K enc t)) key v (proofOf K enc t (bytesToNibbles key)) =
    checkValue (trieGet t (bytesToNibbles key)) v"
proof -
  have K: "length (K x) = 32" for x using assms(1) by (simp add: trieHypotheses_def)
  have "proofOf K enc t (bytesToNibbles key) \<noteq> []" using assms(3) by (simp add: proofOf.simps)
  moreover have "walk K dec (bytesToNibbles key) v 0 (K (nodeBytes K enc t)) 0
      (proofOf K enc t (drop 0 (bytesToNibbles key))) = checkValue (trieGet t (drop 0 (bytesToNibbles key))) v"
    by (rule walk_complete [OF assms(1,2) nibbles_of_key subtries_self assms(3)]) simp
  ultimately show ?thesis using K assms(4) by (simp add: verifyMptProof_def)
qed

lemma accepted_value:
  assumes "trieHypotheses K enc dec t" and "inj_on K (set proofNodes \<union> nodeBytes K enc ` subtries t)"
    and "verifyMptProof K dec (K (nodeBytes K enc t)) key v proofNodes = Inr ()"
  shows "trieGet t (bytesToNibbles key) = v \<or> v = [] \<and> \<not> noneEmbedded K enc t"
proof -
  have w: "walk K dec (bytesToNibbles key) v 0 (K (nodeBytes K enc t)) 0 proofNodes = Inr ()"
    using assms(3) by (simp add: verifyMptProof_def split: if_splits)
  have "trieGet t (drop 0 (bytesToNibbles key)) = v \<or> v = [] \<and> \<not> noneEmbedded K enc t"
    by (rule walk_sound [OF assms(1,2) _ nibbles_of_key w _ subtries_self refl]) simp_all
  then show ?thesis by simp
qed

text \<open>A child embedded in its branch is read as an empty slot: its key is accepted as absent.\<close>

lemma embedded_read_absent:
  assumes "trieHypotheses K enc dec (Branch ts w)" and "length key = 32"
    and "c = ts ! unat (bytesToNibbles key ! 0)" and "length (nodeBytes K enc c) < 32"
  shows "verifyMptProof K dec (K (nodeBytes K enc (Branch ts w))) key [] [nodeBytes K enc (Branch ts w)] = Inr ()"
proof -
  have d: "dec (nodeBytes K enc (Branch ts w)) = Some (nodeOf K enc (Branch ts w))" "wfTrie (Branch ts w)"
    and K: "length (K x) = 32" for x
    using assms(1) subtries_self [of "Branch ts w"] unfolding trieHypotheses_def rlpReads_def by blast+
  have ne: "bytesToNibbles key \<noteq> []" using assms(2) by (auto dest: arg_cong [of _ _ length])
  show ?thesis
    using walk_branch [where K = K and dec = dec and node = "nodeBytes K enc (Branch ts w)" and ps = "[]" and idx = 0 and i = 0,
        OF d refl K nibbles_of_key [of key]] assms(2-4) ne K
    by (simp add: verifyMptProof_def Let_def)
qed

subsection \<open>A trie and its proof\<close>

text \<open>A branch with one leaf, encodings told apart by their first byte, and the first 32 bytes as hash.\<close>

definition padHash :: "bytes \<Rightarrow> bytes" where
  "padHash x = take 32 (x @ replicate 32 0)"

definition tagEnc :: "RlpNode \<Rightarrow> bytes" where
  "tagEnc n = (case n of RlpBytes _ \<Rightarrow> 0x80 | RlpList ns \<Rightarrow> of_nat (length ns)) # replicate 31 0"

definition sampleTrie :: trie where
  "sampleTrie = Branch (Leaf (replicate 63 0) [9] # replicate 15 Absent) []"

definition sampleDec :: "bytes \<Rightarrow> RlpNode option" where
  "sampleDec bs =
     (if hd bs = 17 then Some (nodeOf padHash tagEnc sampleTrie)
      else if hd bs = 2 then Some (nodeOf padHash tagEnc (Leaf (replicate 63 0) [9]))
      else Some (RlpBytes []))"

definition sampleNodes :: "bytes list" where
  "sampleNodes = [17 # replicate 31 0, 2 # replicate 31 0]"

lemma sample_subtries: "subtries sampleTrie = {sampleTrie, Leaf (replicate 63 0) [9], Absent}"
  by (simp add: sampleTrie_def) blast

lemma sample_bytes:
  "nodeBytes padHash tagEnc sampleTrie = 17 # replicate 31 0"
  "nodeBytes padHash tagEnc (Leaf p v) = 2 # replicate 31 0"
  "nodeBytes padHash tagEnc Absent = 0x80 # replicate 31 0"
  by (simp_all add: nodeBytes_def tagEnc_def sampleTrie_def)

lemma sample_hypotheses: "trieHypotheses padHash tagEnc sampleDec sampleTrie"
proof -
  have "wfTrie sampleTrie" by (simp add: sampleTrie_def list_all_iff)
  then show ?thesis
    by (simp add: trieHypotheses_def rlpReads_def sample_subtries sample_bytes sampleDec_def) (simp add: padHash_def min_def)
qed

lemma sample_embedded: "noneEmbedded padHash tagEnc sampleTrie"
  unfolding noneEmbedded_def sample_subtries by (simp add: sampleTrie_def sample_bytes)

lemma sample_inj: "inj_on padHash (set sampleNodes \<union> nodeBytes padHash tagEnc ` subtries sampleTrie)"
proof (rule inj_onI)
  fix x y
  assume "x \<in> set sampleNodes \<union> nodeBytes padHash tagEnc ` subtries sampleTrie"
    "y \<in> set sampleNodes \<union> nodeBytes padHash tagEnc ` subtries sampleTrie" "padHash x = padHash y"
  moreover from this(1,2) have "length x = 32" "length y = 32"
    by (auto simp: sample_subtries sample_bytes sampleNodes_def)
  ultimately show "x = y" by (simp add: padHash_def)
qed

lemma sample_nibbles: "bytesToNibbles (replicate 32 0) = 0 # replicate 63 0"
  by (simp add: eval_nat_numeral)

lemma sample_proof: "proofOf padHash tagEnc sampleTrie (bytesToNibbles (replicate 32 0)) = sampleNodes"
proof -
  have "proofOf padHash tagEnc sampleTrie (0 # replicate 63 0) =
      nodeBytes padHash tagEnc sampleTrie # proofOf padHash tagEnc (Leaf (replicate 63 0) [9]) (replicate 63 0)"
    by (subst proofOf.simps) (simp add: sampleTrie_def)
  moreover have "proofOf padHash tagEnc (Leaf (replicate 63 0) [9]) (replicate 63 0) = [2 # replicate 31 0]"
    by (subst proofOf.simps) (simp add: sample_bytes)
  ultimately show ?thesis by (simp add: sample_nibbles sampleNodes_def sample_bytes)
qed

lemma sample_get: "trieGet sampleTrie (bytesToNibbles (replicate 32 0)) = [9]"
  by (simp add: sample_nibbles sampleTrie_def)

subsection \<open>Properties\<close>

text \<open>C15: Served proofs. In a well-formed trie with no embedded nodes, \<open>verifyMptProof\<close> given the
  nodes on a key's path answers by comparing the trie's value at the key (empty when it has none)
  with the expected one: the right value, or absence, is accepted, and any other is refused.\<close>

theorem mpt_complete:
  assumes "trieHypotheses K enc dec t" and "noneEmbedded K enc t" and "t \<noteq> Absent" and "length key = 32"
  shows "verifyMptProof K dec (K (nodeBytes K enc t)) key v (proofOf K enc t (bytesToNibbles key)) =
    checkValue (trieGet t (bytesToNibbles key)) v"
  using assms by (rule served_accepted)

theorem mpt_complete_witness:
  "verifyMptProof padHash sampleDec (17 # replicate 31 0) (replicate 32 0) [9] sampleNodes = Inr ()"
proof -
  have "sampleTrie \<noteq> Absent" by (simp add: sampleTrie_def)
  moreover have "padHash (17 # replicate 31 0) = 17 # replicate 31 0" by (simp add: padHash_def)
  ultimately show ?thesis
    using mpt_complete [OF sample_hypotheses sample_embedded, of "replicate 32 0" "[9]"]
    unfolding sample_proof sample_get sample_bytes by simp
qed

text \<open>C5: Soundness of Merkle-Patricia proofs. Whatever nodes a proof gives, when \<open>verifyMptProof\<close>
  accepts an expected value under a trie's root, the trie holds that value at the key; an empty
  expected value (absence) is the one exception, in a trie that embeds nodes in their parents.\<close>

theorem mpt_sound:
  assumes "trieHypotheses K enc dec t" and "inj_on K (set proofNodes \<union> nodeBytes K enc ` subtries t)"
    and "verifyMptProof K dec (K (nodeBytes K enc t)) key v proofNodes = Inr ()"
  shows "trieGet t (bytesToNibbles key) = v \<or> v = [] \<and> \<not> noneEmbedded K enc t"
  using assms by (rule accepted_value)

theorem mpt_sound_witness:
  "verifyMptProof padHash sampleDec (padHash (nodeBytes padHash tagEnc sampleTrie)) (replicate 32 0) [9] sampleNodes = Inr () \<and>
   trieGet sampleTrie (bytesToNibbles (replicate 32 0)) = [9]"
proof -
  have "verifyMptProof padHash sampleDec (padHash (nodeBytes padHash tagEnc sampleTrie)) (replicate 32 0) [9] sampleNodes = Inr ()"
    using served_accepted [OF sample_hypotheses sample_embedded, of "replicate 32 0" "[9]"]
    unfolding sample_proof sample_get by (simp add: sampleTrie_def)
  with mpt_sound [OF sample_hypotheses sample_inj this] show ?thesis by blast
qed

end
