(* ===== verification/Eth_State.thy ===== *)
theory Eth_State
  imports Mpt Bincode
begin

text \<open>
  Verified Ethereum reads (\<open>src/src/eth-state/index.ts\<close>, \<open>types.ts\<close>): the checks of a state proof,
  the conversions, and the operations of \<open>EthOperations\<close>. The packages and the platform are one
  record of parameters, \<open>ethLib\<close>: Keccak-256 (@noble/hashes), \<open>decodeRlp\<close>, \<open>encodeRlp\<close>, \<open>getBytes\<close>
  (ethers), \<open>atob\<close> and \<open>toLowerCase\<close>. A node's response is the argument \<open>post\<close> of an operation. JSON numbers of the
  response are integers.
\<close>

subsection \<open>Wire types\<close>

type_synonym numbers = "int list"

record MptProof =
  proof_nodes :: "numbers list"

record AccountState =
  nonce :: int
  balance :: numbers
  storage_hash :: numbers
  code_hash :: numbers

record StorageSlotProof =
  slot :: numbers
  slotValue :: numbers
  slotProof :: MptProof

record StateProof =
  address :: numbers
  block_number :: int
  block_hash :: numbers
  state_root :: numbers
  account_proof :: MptProof
  account_state :: AccountState
  storage_proofs :: "StorageSlotProof list"

record EthVerifiableRpcResponse =
  answer :: string
  env_state_root :: numbers
  block_range :: "int \<times> int"
  state_proofs :: "StateProof list option"

datatype StateVerifyMode = Strict | AnchorOnly | Disabled

record VerifiedStorage =
  vslot :: string
  vvalue :: nat

record VerifiedStateRead =
  vaddress :: string
  vblock_number :: int
  vblock_hash :: string
  vstate_root :: string
  vnonce :: int
  vbalance :: nat
  vstorage_hash :: string
  vcode_hash :: string
  storage :: "VerifiedStorage list"
  mode :: StateVerifyMode

record VerifiedCall =
  call_block_number :: int
  call_block_hash :: string
  call_state_root :: string
  call_result :: string
  access_state_reads :: "VerifiedStateRead list"
  call_mode :: StateVerifyMode

datatype ethError =
    IndexerUrlRequired
  | RequestFailed string
  | NoStateProof
  | AccountProofFailed mptError
  | StorageSlotFailed bytes mptError
  | NoStorageProof string
  | BadSlotIndex int
  | BytesRangeError
  | LibraryThrew string

text \<open>Structured data given to \<open>encodeRlp\<close>: hex text and lists.\<close>

datatype RlpHex = HexData string | HexList "RlpHex list"

record ethLib =
  keccak :: "bytes \<Rightarrow> bytes"
  rlpDecode :: "bytes \<Rightarrow> RlpNode option"
  rlpEncode :: "RlpHex \<Rightarrow> bytes option"
  getBytes :: "string \<Rightarrow> bytes option"
  atob :: "string \<Rightarrow> string option"
  toLowerCase :: "string \<Rightarrow> string"

definition orThrow :: "string \<Rightarrow> 'a option \<Rightarrow> ethError + 'a" where
  "orThrow what v = (case v of None \<Rightarrow> Inl (LibraryThrew what) | Some x \<Rightarrow> Inr x)"

subsection \<open>Conversions\<close>

text \<open>\<open>new Uint8Array(arr)\<close> reduces its numbers modulo 256.\<close>

definition bytesFromArray :: "numbers \<Rightarrow> bytes" where
  "bytesFromArray arr = map of_int arr"

definition padStart :: "string \<Rightarrow> nat \<Rightarrow> char \<Rightarrow> string" where
  "padStart s n c = replicate (n - length s) c @ s"

definition bytesToHex20 :: "numbers \<Rightarrow> string" where
  "bytesToHex20 arr = ''0x'' @ padStart (bytesToHex (bytesFromArray arr)) 40 (CHR ''0'')"

definition bytesToHex32 :: "numbers \<Rightarrow> string" where
  "bytesToHex32 arr = ''0x'' @ padStart (bytesToHex (bytesFromArray arr)) 64 (CHR ''0'')"

definition bytesToBigInt :: "bytes \<Rightarrow> nat" where
  "bytesToBigInt arr = (if length arr = 0 then 0 else beNat arr)"

text \<open>\<open>hexlify\<close> of bytes.\<close>

definition hexlify :: "bytes \<Rightarrow> string" where
  "hexlify b = ''0x'' @ bytesToHex b"

text \<open>\<open>value.toString(16)\<close>.\<close>

fun hexText :: "nat \<Rightarrow> string" where
  "hexText n = (if n < 16 then [hexDigit n] else hexText (n div 16) @ [hexDigit (n mod 16)])"

declare hexText.simps [simp del]

definition toString16 :: "int \<Rightarrow> string" where
  "toString16 v = (if v < 0 then CHR ''-'' # hexText (nat (- v)) else hexText (nat v))"

definition bigIntToHex :: "int \<Rightarrow> string" where
  "bigIntToHex v =
     (if v = 0 then ''0x''
      else (let hex = toString16 v in ''0x'' @ (if length hex mod 2 = 0 then hex else CHR ''0'' # hex)))"

text \<open>\<open>toBeArray\<close>: the shortest big-endian bytes, none for zero.\<close>

fun toBeArray :: "nat \<Rightarrow> bytes" where
  "toBeArray n = (if n = 0 then [] else toBeArray (n div 256) @ [of_nat n])"

declare toBeArray.simps [simp del]

text \<open>\<open>target.set(source, offset)\<close> of byte arrays: a \<open>RangeError\<close> when it does not fit.\<close>

definition setBytes :: "bytes \<Rightarrow> bytes \<Rightarrow> int \<Rightarrow> ethError + bytes" where
  "setBytes target source off =
     (if off < 0 \<or> nat off + length source > length target then Inl BytesRangeError
      else Inr (take (nat off) target @ source @ drop (nat off + length source) target))"

definition padBigIntTo32 :: "nat \<Rightarrow> ethError + bytes" where
  "padBigIntTo32 v =
     (let minimal = (if v = 0 then [0] else toBeArray v) in
      if length minimal = 32 then Inr minimal
      else setBytes (replicate 32 0) minimal (32 - int (length minimal)))"

definition slotIndexTo32 :: "int \<Rightarrow> ethError + bytes" where
  "slotIndexTo32 i =
     (if abs i > int MAX_SAFE_INTEGER \<or> i < 0 then Inl (BadSlotIndex i) else padBigIntTo32 (nat i))"

definition numberSlotToHex :: "int \<Rightarrow> ethError + string" where
  "numberSlotToHex i = bnd (slotIndexTo32 i) (\<lambda>b. Inr (hexlify b))"

definition asAddress :: "ethLib \<Rightarrow> string \<Rightarrow> string" where
  "asAddress L s = (if take 2 (toLowerCase L s) = ''0x'' then s else ''0x'' @ s)"

definition mappingSlotForAddressBytes :: "ethLib \<Rightarrow> bytes \<Rightarrow> int \<Rightarrow> ethError + bytes" where
  "mappingSlotForAddressBytes L addrBytes slotIndex =
     bnd (setBytes (replicate 64 0) addrBytes 12) (\<lambda>buf.
     bnd (slotIndexTo32 slotIndex) (\<lambda>i.
     bnd (setBytes buf i 32) (\<lambda>buf. Inr (keccak L buf))))"

definition mappingSlotForAddress :: "ethLib \<Rightarrow> string \<Rightarrow> int \<Rightarrow> ethError + string" where
  "mappingSlotForAddress L addr slotIndex =
     bnd (orThrow ''getBytes'' (getBytes L (asAddress L addr))) (\<lambda>b.
     bnd (mappingSlotForAddressBytes L b slotIndex) (\<lambda>h. Inr (hexlify h)))"

text \<open>\<open>internal/bytes.ts\<close>: \<open>atob\<close>'s binary string, one byte a character.\<close>

definition base64ToBytes :: "ethLib \<Rightarrow> string \<Rightarrow> ethError + bytes" where
  "base64ToBytes L b64 = bnd (orThrow ''atob'' (atob L b64)) (\<lambda>bin. Inr (map (\<lambda>c. of_nat (of_char c)) bin))"

subsection \<open>State proofs\<close>

definition rlpEncodeAccount :: "ethLib \<Rightarrow> AccountState \<Rightarrow> ethError + bytes" where
  "rlpEncodeAccount L state =
     (let nonceHex = bigIntToHex (nonce state);
          balanceHex = bigIntToHex (int (bytesToBigInt (bytesFromArray (balance state))));
          storageRoot = ''0x'' @ bytesToHex (bytesFromArray (storage_hash state));
          codeHash = ''0x'' @ bytesToHex (bytesFromArray (code_hash state))
      in orThrow ''encodeRlp''
           (rlpEncode L (HexList [HexData nonceHex, HexData balanceHex, HexData storageRoot, HexData codeHash])))"

definition verifyStorageSlot :: "ethLib \<Rightarrow> StorageSlotProof \<Rightarrow> bytes \<Rightarrow> ethError + unit" where
  "verifyStorageSlot L sp storageHash =
     (let slotBytes = bytesFromArray (slot sp);
          slotHash = keccak L slotBytes;
          valueBig = bytesToBigInt (bytesFromArray (slotValue sp))
      in bnd (orThrow ''encodeRlp'' (rlpEncode L (HexData (bigIntToHex (int valueBig))))) (\<lambda>valueRlp.
         (case verifyMptProof (keccak L) (rlpDecode L) storageHash slotHash valueRlp
                 (map bytesFromArray (proof_nodes (slotProof sp))) of
            Inl e \<Rightarrow> Inl (StorageSlotFailed slotBytes e)
          | Inr _ \<Rightarrow> Inr ())))"

fun verifyStorageSlots :: "ethLib \<Rightarrow> bytes \<Rightarrow> StorageSlotProof list \<Rightarrow> ethError + unit" where
  "verifyStorageSlots L storageHash [] = Inr ()"
| "verifyStorageSlots L storageHash (sp # sps) =
     bnd (verifyStorageSlot L sp storageHash) (\<lambda>_. verifyStorageSlots L storageHash sps)"

definition verifyStateProof :: "ethLib \<Rightarrow> StateProof \<Rightarrow> ethError + unit" where
  "verifyStateProof L p =
     (let stateRoot = bytesFromArray (state_root p);
          addressHash = keccak L (bytesFromArray (address p))
      in bnd (rlpEncodeAccount L (account_state p)) (\<lambda>accountLeaf.
         (case verifyMptProof (keccak L) (rlpDecode L) stateRoot addressHash accountLeaf
                 (map bytesFromArray (proof_nodes (account_proof p))) of
            Inl e \<Rightarrow> Inl (AccountProofFailed e)
          | Inr _ \<Rightarrow>
              verifyStorageSlots L (bytesFromArray (storage_hash (account_state p))) (storage_proofs p))))"

definition toVerifiedStateRead :: "StateProof \<Rightarrow> StateVerifyMode \<Rightarrow> VerifiedStateRead" where
  "toVerifiedStateRead p m =
     \<lparr>vaddress = bytesToHex20 (address p), vblock_number = block_number p,
      vblock_hash = bytesToHex32 (block_hash p), vstate_root = bytesToHex32 (state_root p),
      vnonce = nonce (account_state p),
      vbalance = bytesToBigInt (bytesFromArray (balance (account_state p))),
      vstorage_hash = bytesToHex32 (storage_hash (account_state p)),
      vcode_hash = bytesToHex32 (code_hash (account_state p)),
      storage = map (\<lambda>sp. \<lparr>vslot = bytesToHex32 (slot sp), vvalue = bytesToBigInt (bytesFromArray (slotValue sp))\<rparr>)
        (storage_proofs p),
      mode = m\<rparr>"

subsection \<open>Operations\<close>

text \<open>\<open>post\<close> sends a request to the indexer; its result is the parsed response or why it failed.\<close>

datatype ethRequest = StateRequest string "string list" int | CallRequest string int

type_synonym ethPost = "ethRequest \<Rightarrow> ethError + EthVerifiableRpcResponse"

record EthOperations =
  indexerBaseUrl :: string
  verifyMode :: StateVerifyMode

definition newEthOperations :: "string \<Rightarrow> EthOperations" where
  "newEthOperations url = \<lparr>indexerBaseUrl = url, verifyMode = Strict\<rparr>"

definition withMode :: "EthOperations \<Rightarrow> StateVerifyMode \<Rightarrow> EthOperations" where
  "withMode self m = (newEthOperations (indexerBaseUrl self))\<lparr>verifyMode := m\<rparr>"

definition requireIndexerUrl :: "string \<Rightarrow> ethError + unit" where
  "requireIndexerUrl url = ensure (url \<noteq> []) IndexerUrlRequired"

definition getState ::
  "ethLib \<Rightarrow> ethPost \<Rightarrow> EthOperations \<Rightarrow> string \<Rightarrow> string list \<Rightarrow> int \<Rightarrow> ethError + VerifiedStateRead" where
  "getState L post self addr slots blockNumber =
     bnd (requireIndexerUrl (indexerBaseUrl self)) (\<lambda>_.
     bnd (post (StateRequest addr slots blockNumber)) (\<lambda>envelope.
       (case state_proofs envelope of
          Some (p # _) \<Rightarrow>
            bnd (if verifyMode self = Strict then verifyStateProof L p else Inr ()) (\<lambda>_.
              Inr (toVerifiedStateRead p (verifyMode self)))
        | _ \<Rightarrow> Inl NoStateProof)))"

fun verifyStateProofs :: "ethLib \<Rightarrow> StateProof list \<Rightarrow> ethError + unit" where
  "verifyStateProofs L [] = Inr ()"
| "verifyStateProofs L (p # ps) = bnd (verifyStateProof L p) (\<lambda>_. verifyStateProofs L ps)"

definition getCall ::
  "ethLib \<Rightarrow> ethPost \<Rightarrow> EthOperations \<Rightarrow> string \<Rightarrow> int \<Rightarrow> ethError + VerifiedCall" where
  "getCall L post self tx blockNumber =
     bnd (requireIndexerUrl (indexerBaseUrl self)) (\<lambda>_.
     bnd (post (CallRequest tx blockNumber)) (\<lambda>envelope.
       (let proofs = (case state_proofs envelope of None \<Rightarrow> [] | Some ps \<Rightarrow> ps) in
        bnd (if verifyMode self = Strict then verifyStateProofs L proofs else Inr ()) (\<lambda>_.
        bnd (base64ToBytes L (answer envelope)) (\<lambda>ans.
          Inr \<lparr>call_block_number = fst (block_range envelope),
               call_block_hash = (case proofs of p # _ \<Rightarrow> bytesToHex32 (block_hash p)
                 | [] \<Rightarrow> ''0x'' @ replicate 64 (CHR ''0'')),
               call_state_root = bytesToHex32 (env_state_root envelope),
               call_result = ''0x'' @ bytesToHex ans,
               access_state_reads = map (\<lambda>p. toVerifiedStateRead p (verifyMode self)) proofs,
               call_mode = verifyMode self\<rparr>)))))"

text \<open>\<open>state.storage[0].value\<close>, or the operation's error.\<close>

definition firstStorage :: "string \<Rightarrow> VerifiedStateRead \<Rightarrow> ethError + nat" where
  "firstStorage operation state =
     (case storage state of [] \<Rightarrow> Inl (NoStorageProof operation) | s # _ \<Rightarrow> Inr (vvalue s))"

definition erc20Balance ::
  "ethLib \<Rightarrow> ethPost \<Rightarrow> EthOperations \<Rightarrow> string \<Rightarrow> string \<Rightarrow> int \<Rightarrow> int \<Rightarrow> ethError + nat" where
  "erc20Balance L post self token holder balanceSlot blockNumber =
     bnd (mappingSlotForAddress L holder balanceSlot) (\<lambda>sl.
     bnd (getState L post self token [sl] blockNumber) (firstStorage ''erc20Balance''))"

definition erc20TotalSupply ::
  "ethLib \<Rightarrow> ethPost \<Rightarrow> EthOperations \<Rightarrow> string \<Rightarrow> int \<Rightarrow> int \<Rightarrow> ethError + nat" where
  "erc20TotalSupply L post self token slotIndex blockNumber =
     bnd (numberSlotToHex slotIndex) (\<lambda>sl.
     bnd (getState L post self token [sl] blockNumber) (firstStorage ''erc20TotalSupply''))"

definition erc20Allowance ::
  "ethLib \<Rightarrow> ethPost \<Rightarrow> EthOperations \<Rightarrow> string \<Rightarrow> string \<Rightarrow> string \<Rightarrow> int \<Rightarrow> int \<Rightarrow> ethError + nat" where
  "erc20Allowance L post self token holder spender allowanceSlot blockNumber =
     bnd (orThrow ''getBytes'' (getBytes L (asAddress L holder))) (\<lambda>h.
     bnd (mappingSlotForAddressBytes L h allowanceSlot) (\<lambda>inner.
     bnd (orThrow ''getBytes'' (getBytes L (asAddress L spender))) (\<lambda>s.
     bnd (setBytes (replicate 64 0) s 12) (\<lambda>buf.
     bnd (setBytes buf inner 32) (\<lambda>buf.
     bnd (getState L post self token [hexlify (keccak L buf)] blockNumber) (firstStorage ''erc20Allowance''))))))"

definition erc721Owner ::
  "ethLib \<Rightarrow> ethPost \<Rightarrow> EthOperations \<Rightarrow> string \<Rightarrow> nat \<Rightarrow> int \<Rightarrow> int \<Rightarrow> ethError + string" where
  "erc721Owner L post self contract tokenId slotIndex blockNumber =
     bnd (padBigIntTo32 tokenId) (\<lambda>tokenIdBytes.
     bnd (setBytes (replicate 64 0) tokenIdBytes 0) (\<lambda>buf.
     bnd (slotIndexTo32 slotIndex) (\<lambda>i.
     bnd (setBytes buf i 32) (\<lambda>buf.
     bnd (getState L post self contract [hexlify (keccak L buf)] blockNumber) (\<lambda>state.
     bnd (firstStorage ''erc721Owner'' state) (\<lambda>v.
     bnd (padBigIntTo32 v) (\<lambda>b. Inr (''0x'' @ bytesToHex (drop 12 b)))))))))"

record reserves =
  reserve0 :: nat
  reserve1 :: nat
  blockTimestampLast :: "32 word"

text \<open>The shifts are of 32-bit integers, and \<open>>>> 0\<close> reads the result unsigned.\<close>

definition unpackReserves :: "bytes \<Rightarrow> reserves" where
  "unpackReserves b =
     \<lparr>reserve0 = bytesToBigInt (take 14 (drop 18 b)), reserve1 = bytesToBigInt (take 14 (drop 4 b)),
      blockTimestampLast =
        push_bit 24 (ucast (b ! 0)) OR push_bit 16 (ucast (b ! 1)) OR push_bit 8 (ucast (b ! 2)) OR ucast (b ! 3)\<rparr>"

definition uniV2Reserves ::
  "ethLib \<Rightarrow> ethPost \<Rightarrow> EthOperations \<Rightarrow> string \<Rightarrow> int \<Rightarrow> ethError + reserves" where
  "uniV2Reserves L post self pair blockNumber =
     bnd (numberSlotToHex 8) (\<lambda>sl.
     bnd (getState L post self pair [sl] blockNumber) (\<lambda>state.
     bnd (firstStorage ''uniV2Reserves'' state) (\<lambda>v.
     bnd (padBigIntTo32 v) (\<lambda>b. Inr (unpackReserves b)))))"

subsection \<open>Facts of the conversions\<close>

lemma bytesToHex_append: "bytesToHex (a @ b) = bytesToHex a @ bytesToHex b"
  by (induction a) simp_all

lemma length_bytesToHex: "length (bytesToHex b) = 2 * length b"
  by (induction b) simp_all

lemma beNat_toBeArray: "beNat (toBeArray n) = n"
proof (induction n rule: toBeArray.induct)
  case (1 n)
  show ?case
  proof (cases "n = 0")
    case False
    with 1 have "beNat (toBeArray (n div 256)) = n div 256" by simp
    then have "beNat (toBeArray (n div 256) @ [of_nat n]) = n div 256 * 256 + n mod 256"
      by (simp only: beNat_append unat_of_nat_byte)
    with False show ?thesis by (subst toBeArray.simps) simp
  qed (simp add: toBeArray.simps)
qed

lemma toBeArray_inj: "toBeArray m = toBeArray n \<longleftrightarrow> m = n"
  by (metis beNat_toBeArray)

lemma length_toBeArray: "n < 256 ^ k \<Longrightarrow> length (toBeArray n) \<le> k"
proof (induction k arbitrary: n)
  case (Suc k)
  then have "n div 256 < 256 ^ k" by (simp add: less_mult_imp_div_less mult.commute)
  with Suc.IH show ?case by (subst toBeArray.simps) simp
qed (simp add: toBeArray.simps)

lemma toBeArray_long: "256 ^ k \<le> n \<Longrightarrow> k < length (toBeArray n)"
proof -
  assume "256 ^ k \<le> n"
  moreover have "n < 256 ^ length (toBeArray n)" using beNat_less [of "toBeArray n"] by (simp add: beNat_toBeArray)
  ultimately have "(256 :: nat) ^ k < 256 ^ length (toBeArray n)" by (rule le_less_trans)
  then show ?thesis by (rule power_less_imp_less_exp [rotated]) simp
qed

definition evenHex :: "string \<Rightarrow> string" where
  "evenHex s = (if length s mod 2 = 0 then s else CHR ''0'' # s)"

lemma evenHex_append: "length t = 2 \<Longrightarrow> evenHex (s @ t) = evenHex s @ t"
  by (simp add: evenHex_def)

lemma hexText_bytes: "0 < n \<Longrightarrow> evenHex (hexText n) = bytesToHex (toBeArray n)"
proof (induction n rule: toBeArray.induct)
  case (1 n)
  have low: "n mod 256 div 16 = n div 16 mod 16" "n mod 256 mod 16 = n mod 16"
    using mod_mult2_eq [of n 16 16] by (simp_all add: mod_mod_cancel)
  show ?case
  proof (cases "n < 256")
    case True
    then have "toBeArray n = [of_nat n]" using 1(2) by (simp add: toBeArray.simps)
    moreover have "hexText n = (if n < 16 then [hexDigit n] else [hexDigit (n div 16), hexDigit (n mod 16)])"
      using True hexText.simps [of "n div 16"] by (subst hexText.simps) (simp add: less_mult_imp_div_less)
    ultimately show ?thesis using True by (simp add: evenHex_def unat_of_nat_byte hexDigit_def [of 0])
  next
    case False
    then have "\<not> n div 16 < 16" by (simp add: div_less_iff_less_mult)
    then have "hexText n = hexText (n div 256) @ [hexDigit (n div 16 mod 16), hexDigit (n mod 16)]"
      using False hexText.simps [of "n div 16"] hexText.simps [of n] by (simp add: div_mult2_eq [symmetric])
    moreover have "toBeArray n = toBeArray (n div 256) @ [of_nat n]" using 1(2) by (subst toBeArray.simps) simp
    moreover have "evenHex (hexText (n div 256)) = bytesToHex (toBeArray (n div 256))"
      using 1 False by simp
    ultimately show ?thesis using low
      by (simp add: evenHex_append bytesToHex_append unat_of_nat_byte)
  qed
qed

lemma bigIntToHex_bytes: "bigIntToHex (int n) = ''0x'' @ bytesToHex (toBeArray n)"
proof (cases "n = 0")
  case True
  then show ?thesis by (simp add: bigIntToHex_def toBeArray.simps)
next
  case False
  then show ?thesis using hexText_bytes [of n] by (simp add: bigIntToHex_def toString16_def evenHex_def Let_def)
qed

lemma setBytes_end:
  "length source \<le> n \<Longrightarrow> setBytes (replicate n 0) source (int n - int (length source)) =
     Inr (replicate (n - length source) 0 @ source)"
  by (simp add: setBytes_def nat_diff_distrib)

lemma beNat_zeros: "beNat (replicate k 0 @ b) = beNat b"
proof (induction k)
  case (Suc k)
  have "beNat ([0] @ replicate k 0 @ b) = beNat (replicate k 0 @ b)"
    unfolding beNat_two [of "[0]"] using beNat_append [of "[]" 0] by simp
  with Suc show ?case by simp
qed simp

lemma beNat_zero: "beNat (replicate k 0) = 0"
  using beNat_zeros [of k "[]"] by simp

lemma padBigIntTo32_spec:
  "v < 2 ^ 256 \<Longrightarrow> \<exists>b. padBigIntTo32 v = Inr b \<and> length b = 32 \<and> beNat b = v"
  "2 ^ 256 \<le> v \<Longrightarrow> padBigIntTo32 v = Inl BytesRangeError"
proof -
  have p: "(2 :: nat) ^ 256 = 256 ^ 32" by (simp add: power_mult [of 2 8 32, simplified])
  let ?m = "if v = 0 then [0] else toBeArray v"
  have m: "beNat ?m = v" using beNat_append [of "[]" 0] by (simp add: beNat_toBeArray)
  show "\<exists>b. padBigIntTo32 v = Inr b \<and> length b = 32 \<and> beNat b = v" if "v < 2 ^ 256"
  proof -
    have len: "length ?m \<le> 32" using length_toBeArray [of v 32] that p by simp
    from setBytes_end [OF len] have "padBigIntTo32 v = Inr (replicate (32 - length ?m) 0 @ ?m)"
      unfolding padBigIntTo32_def Let_def by simp
    with len m show ?thesis by (simp add: beNat_zeros)
  qed
  show "padBigIntTo32 v = Inl BytesRangeError" if "2 ^ 256 \<le> v"
    using toBeArray_long [of 32 v] that p by (auto simp: padBigIntTo32_def Let_def setBytes_def)
qed

subsection \<open>What a state proof shows\<close>

text \<open>The RLP structures the code encodes, and the hex text it gives the encoder.\<close>

fun hexNode :: "RlpNode \<Rightarrow> RlpHex" where
  "hexNode (RlpBytes b) = HexData (''0x'' @ bytesToHex b)"
| "hexNode (RlpList ns) = HexList (map hexNode ns)"

definition accountNode :: "AccountState \<Rightarrow> RlpNode" where
  "accountNode a =
     RlpList [RlpBytes (toBeArray (nat (nonce a))), RlpBytes (toBeArray (beNat (bytesFromArray (balance a)))),
              RlpBytes (bytesFromArray (storage_hash a)), RlpBytes (bytesFromArray (code_hash a))]"

definition valueNode :: "StorageSlotProof \<Rightarrow> RlpNode" where
  "valueNode sp = RlpBytes (toBeArray (beNat (bytesFromArray (slotValue sp))))"

text \<open>The RLP encoder and decoder on the nodes at hand.\<close>

definition rlpFor :: "ethLib \<Rightarrow> (RlpNode \<Rightarrow> bytes) \<Rightarrow> RlpNode set \<Rightarrow> bool" where
  "rlpFor L enc ns \<longleftrightarrow>
     (\<forall>n\<in>ns. rlpEncode L (hexNode n) = Some (enc n) \<and> rlpDecode L (enc n) = Some n \<and> enc n \<noteq> [])"

text \<open>A trie whose root is \<open>r\<close>, with what the proofs rely on.\<close>

definition rooted :: "ethLib \<Rightarrow> (RlpNode \<Rightarrow> bytes) \<Rightarrow> trie \<Rightarrow> bytes \<Rightarrow> bytes set \<Rightarrow> bool" where
  "rooted L enc t r proofNodes \<longleftrightarrow>
     trieHypotheses (keccak L) enc (rlpDecode L) t \<and> r = keccak L (nodeBytes (keccak L) enc t) \<and>
     inj_on (keccak L) (proofNodes \<union> nodeBytes (keccak L) enc ` subtries t)"

definition proofNodesOf :: "MptProof \<Rightarrow> bytes list" where
  "proofNodesOf p = map bytesFromArray (proof_nodes p)"

text \<open>The value a trie holds under the hash of a key.\<close>

definition held :: "ethLib \<Rightarrow> trie \<Rightarrow> numbers \<Rightarrow> bytes" where
  "held L t k = trieGet t (bytesToNibbles (keccak L (bytesFromArray k)))"

lemma rlpEncodeAccount_eq:
  "0 \<le> nonce a \<Longrightarrow> rlpEncodeAccount L a = orThrow ''encodeRlp'' (rlpEncode L (hexNode (accountNode a)))"
  using bigIntToHex_bytes [of "nat (nonce a)"]
  by (simp add: rlpEncodeAccount_def accountNode_def bigIntToHex_bytes bytesToBigInt_def)

lemma slot_encoding:
  "HexData (bigIntToHex (int (bytesToBigInt (bytesFromArray (slotValue sp))))) = hexNode (valueNode sp)"
  by (simp add: valueNode_def bigIntToHex_bytes bytesToBigInt_def)

lemma verified_value:
  assumes "rooted L enc t r (set proofNodes)" "enc n \<noteq> []"
    and "verifyMptProof (keccak L) (rlpDecode L) r (keccak L (bytesFromArray k)) (enc n) proofNodes = Inr u"
  shows "held L t k = enc n"
proof -
  have h: "trieHypotheses (keccak L) enc (rlpDecode L) t"
    "inj_on (keccak L) (set proofNodes \<union> nodeBytes (keccak L) enc ` subtries t)"
    and r: "r = keccak L (nodeBytes (keccak L) enc t)"
    using assms(1) unfolding rooted_def by blast+
  have v: "verifyMptProof (keccak L) (rlpDecode L) (keccak L (nodeBytes (keccak L) enc t)) (keccak L (bytesFromArray k)) (enc n) proofNodes = Inr ()"
    using assms(3) unfolding r by simp
  have "trieGet t (bytesToNibbles (keccak L (bytesFromArray k))) = enc n \<or> enc n = [] \<and> \<not> noneEmbedded (keccak L) enc t"
    by (rule accepted_value [OF h v])
  then show ?thesis using assms(2) by (simp add: held_def)
qed

lemma slot_held:
  assumes "verifyStorageSlot L sp sh = Inr u" "rooted L enc t sh (set (proofNodesOf (slotProof sp)))"
    and "rlpFor L enc {valueNode sp}"
  shows "held L t (slot sp) = enc (valueNode sp)"
proof -
  have e: "rlpEncode L (hexNode (valueNode sp)) = Some (enc (valueNode sp))" "enc (valueNode sp) \<noteq> []"
    using assms(3) by (simp_all add: rlpFor_def)
  have "verifyMptProof (keccak L) (rlpDecode L) sh (keccak L (bytesFromArray (slot sp))) (enc (valueNode sp))
      (proofNodesOf (slotProof sp)) = Inr ()"
    using assms(1) unfolding verifyStorageSlot_def Let_def slot_encoding e(1) proofNodesOf_def
    by (auto simp: orThrow_def split: sum.splits)
  then show ?thesis by (rule verified_value [OF assms(2) e(2)])
qed

lemma verifyStorageSlots_all: "verifyStorageSlots L sh sps = Inr u \<longleftrightarrow> (\<forall>sp\<in>set sps. verifyStorageSlot L sp sh = Inr ())"
  by (induction sps) auto

lemma verifyStateProof_Inr:
  assumes "verifyStateProof L p = Inr u"
  obtains leaf where "rlpEncodeAccount L (account_state p) = Inr leaf"
    "verifyMptProof (keccak L) (rlpDecode L) (bytesFromArray (state_root p)) (keccak L (bytesFromArray (address p)))
       leaf (proofNodesOf (account_proof p)) = Inr ()"
    "\<forall>sp\<in>set (storage_proofs p). verifyStorageSlot L sp (bytesFromArray (storage_hash (account_state p))) = Inr ()"
proof -
  obtain leaf where leaf: "rlpEncodeAccount L (account_state p) = Inr leaf"
    using assms by (cases "rlpEncodeAccount L (account_state p)") (simp_all add: verifyStateProof_def)
  show ?thesis
  proof (cases "verifyMptProof (keccak L) (rlpDecode L) (bytesFromArray (state_root p))
      (keccak L (bytesFromArray (address p))) leaf (proofNodesOf (account_proof p))")
    case (Inl e)
    with leaf assms show ?thesis by (simp add: verifyStateProof_def proofNodesOf_def)
  next
    case (Inr w)
    with leaf assms show ?thesis
      by (intro that [OF leaf]) (simp_all add: verifyStateProof_def proofNodesOf_def verifyStorageSlots_all)
  qed
qed

lemma state_held:
  assumes v: "verifyStateProof L p = Inr u" and n: "0 \<le> nonce (account_state p)"
    and t: "rooted L enc t (bytesFromArray (state_root p)) (set (proofNodesOf (account_proof p)))"
    and ts: "\<forall>sp\<in>set (storage_proofs p).
      rooted L enc ts (bytesFromArray (storage_hash (account_state p))) (set (proofNodesOf (slotProof sp)))"
    and rlp: "rlpFor L enc (insert (accountNode (account_state p)) (valueNode ` set (storage_proofs p)))"
  shows "rlpDecode L (held L t (address p)) = Some (accountNode (account_state p)) \<and>
    (\<forall>sp\<in>set (storage_proofs p). rlpDecode L (held L ts (slot sp)) = Some (valueNode sp))"
proof -
  from v obtain leaf where leaf: "rlpEncodeAccount L (account_state p) = Inr leaf"
    and w: "verifyMptProof (keccak L) (rlpDecode L) (bytesFromArray (state_root p)) (keccak L (bytesFromArray (address p)))
       leaf (proofNodesOf (account_proof p)) = Inr ()"
    and slots: "\<forall>sp\<in>set (storage_proofs p). verifyStorageSlot L sp (bytesFromArray (storage_hash (account_state p))) = Inr ()"
    by (rule verifyStateProof_Inr)
  let ?a = "accountNode (account_state p)"
  have a: "rlpEncode L (hexNode ?a) = Some (enc ?a)" "rlpDecode L (enc ?a) = Some ?a" "enc ?a \<noteq> []"
    using rlp unfolding rlpFor_def by blast+
  have "leaf = enc ?a" using leaf unfolding rlpEncodeAccount_eq [OF n] a(1) by (simp add: orThrow_def)
  with w have "held L t (address p) = enc ?a" using verified_value [OF t a(3)] by simp
  moreover have "rlpDecode L (held L ts (slot sp)) = Some (valueNode sp)" if sp: "sp \<in> set (storage_proofs p)" for sp
  proof -
    have r: "rlpFor L enc {valueNode sp}" using rlp sp by (auto simp: rlpFor_def)
    have "held L ts (slot sp) = enc (valueNode sp)"
      using slot_held [OF _ _ r] slots ts sp by blast
    then show ?thesis using r by (simp add: rlpFor_def)
  qed
  ultimately show ?thesis using a(2) by simp
qed

lemma absent_slot:
  assumes "rooted L enc t sh (set (proofNodesOf (slotProof sp)))" "rlpFor L enc {valueNode sp}" "held L t (slot sp) = []"
  shows "verifyStorageSlot L sp sh \<noteq> Inr u"
  using slot_held [OF _ assms(1,2)] assms(2,3) by (auto simp: rlpFor_def)

subsection \<open>Reserves\<close>

lemma beNat_Cons: "beNat (b # bs) = unat b * 256 ^ length bs + beNat bs"
  using beNat_two [of "[b]" bs] beNat_append [of "[]" b] by simp

lemma shifts_value:
  "unat (push_bit 24 (ucast a) OR push_bit 16 (ucast b) OR push_bit 8 (ucast c) OR ucast d :: 32 word) =
     beNat [a, b, c, d]" for a b c d :: byte
proof -
  have d: "unat (push_bit 24 (ucast a) OR push_bit 16 (ucast b) OR push_bit 8 (ucast c) OR ucast d :: 32 word) =
      push_bit 24 (unat a) OR push_bit 16 (unat b) OR push_bit 8 (unat c) OR unat d"
    by (rule bit_eqI) (auto simp: bit_simps unsigned_or_eq unsigned_push_bit_eq unsigned_ucast_eq dest: bit_imp_le_length)
  have "beNat [a, b, c, d] = push_bit 8 (push_bit 8 (push_bit 8 (unat a) OR unat b) OR unat c) OR unat d"
    by (simp add: beNat_def)
  also have "\<dots> = push_bit 24 (unat a) OR push_bit 16 (unat b) OR push_bit 8 (unat c) OR unat d"
    by (simp add: or.assoc)
  finally show ?thesis using d by simp
qed

lemma split_unique: "a * n + r = b * n + s \<Longrightarrow> r < n \<Longrightarrow> s < n \<Longrightarrow> a = b \<and> r = s" for a b n r s :: nat
proof -
  assume e: "a * n + r = b * n + s" and l: "r < n" "s < n"
  have "a = (a * n + r) div n" "b = (b * n + s) div n" using l by simp_all
  with e have "a = b" by simp
  with e show "a = b \<and> r = s" by simp
qed

lemma reserves_unpacked:
  assumes "length b = 32" "beNat b = ts * 2 ^ 224 + (r1 * 2 ^ 112 + r0)" "r0 < 2 ^ 112" "r1 < 2 ^ 112"
  shows "reserve0 (unpackReserves b) = r0 \<and> reserve1 (unpackReserves b) = r1 \<and> unat (blockTimestampLast (unpackReserves b)) = ts"
proof -
  let ?t = "take 4 b" and ?m = "take 14 (drop 4 b)" and ?l = "take 14 (drop 18 b)"
  have l: "?l = drop 18 b" using assms(1) by simp
  have "drop 4 b = ?m @ drop 14 (drop 4 b)" by (rule append_take_drop_id [symmetric])
  also have "drop 14 (drop 4 b) = ?l" unfolding l by simp
  finally have b: "b = ?t @ ?m @ ?l" by (metis append_take_drop_id)
  have len: "length ?m = 14" "length ?l = 14" using assms(1) by simp_all
  have p: "(256 :: nat) ^ 14 = 2 ^ 112" "(256 :: nat) ^ 28 = 2 ^ 224" by simp_all
  have less: "beNat ?m < 2 ^ 112" "beNat ?l < 2 ^ 112" using beNat_less [of ?m] beNat_less [of ?l] len p by simp_all
  have ml: "beNat (?m @ ?l) = beNat ?m * 2 ^ 112 + beNat ?l"
    unfolding beNat_two len p by simp
  have "length (?m @ ?l) = 28" using len by simp
  then have "beNat (?t @ ?m @ ?l) = beNat ?t * 2 ^ 224 + beNat (?m @ ?l)"
    using beNat_two [of ?t "?m @ ?l"] p by simp
  then have sum: "ts * 2 ^ 224 + (r1 * 2 ^ 112 + r0) = beNat ?t * 2 ^ 224 + (beNat ?m * 2 ^ 112 + beNat ?l)"
    using assms(2) b ml by simp
  have small: "x * 2 ^ 112 + y < 2 ^ 224" if "x < 2 ^ 112" "y < 2 ^ 112" for x y :: nat
  proof -
    have "x * 2 ^ 112 + y < (x + 1) * 2 ^ 112" using that(2) by simp
    also have "\<dots> \<le> 2 ^ 112 * 2 ^ 112" using that(1) by (intro mult_le_mono1) simp
    finally show ?thesis by simp
  qed
  from split_unique [OF sum small [OF assms(4,3)] small [OF less]] have ts: "ts = beNat ?t"
    and rs: "r1 * 2 ^ 112 + r0 = beNat ?m * 2 ^ 112 + beNat ?l" by auto
  from split_unique [OF rs assms(3) less(2)] have rs: "r1 = beNat ?m" "r0 = beNat ?l" by auto
  have "?t = [b ! 0, b ! 1, b ! 2, b ! 3]"
    using assms(1) by (intro nth_equalityI) (auto simp: less_Suc_eq numeral_eq_Suc)
  then have "unat (blockTimestampLast (unpackReserves b)) = beNat ?t"
    unfolding unpackReserves_def by (simp add: shifts_value)
  then show ?thesis using ts rs len by (simp add: unpackReserves_def bytesToBigInt_def)
qed

subsection \<open>A state and its proof\<close>

text \<open>An account with one storage slot holding 5, each the only leaf of its trie; nodes are told apart
  by their first byte, and the hash is the first 32 bytes.\<close>

definition sampleAccount :: AccountState where
  "sampleAccount = \<lparr>nonce = 0, balance = replicate 32 0, storage_hash = 2 # replicate 31 0, code_hash = replicate 32 0\<rparr>"

definition sampleSlot :: StorageSlotProof where
  "sampleSlot = \<lparr>slot = replicate 32 0, slotValue = replicate 31 0 @ [5], slotProof = \<lparr>proof_nodes = [2 # replicate 31 0]\<rparr>\<rparr>"

definition sampleState :: StateProof where
  "sampleState = \<lparr>address = replicate 20 0, block_number = 1, block_hash = replicate 32 0,
     state_root = 1 # replicate 31 0, account_proof = \<lparr>proof_nodes = [1 # replicate 31 0]\<rparr>,
     account_state = sampleAccount, storage_proofs = [sampleSlot]\<rparr>"

definition accountTrie :: trie where
  "accountTrie = Leaf (replicate 64 0) (3 # replicate 31 0)"

definition storageTrie :: trie where
  "storageTrie = Leaf (replicate 64 0) (4 # replicate 31 0)"

definition leafEnc :: "RlpNode \<Rightarrow> bytes" where
  "leafEnc n =
     (case n of
        RlpList ns \<Rightarrow> if length ns = 4 then 3 else if ns ! 1 = RlpBytes (3 # replicate 31 0) then 1 else 2
      | RlpBytes _ \<Rightarrow> 4) # replicate 31 0"

definition ethSample :: ethLib where
  "ethSample = \<lparr>keccak = padHash,
     rlpDecode = (\<lambda>bs. Some (if hd bs = 1 then nodeOf padHash leafEnc accountTrie
       else if hd bs = 2 then nodeOf padHash leafEnc storageTrie
       else if hd bs = 3 then accountNode sampleAccount else valueNode sampleSlot)),
     rlpEncode = (\<lambda>x. Some ((case x of HexData _ \<Rightarrow> 4 | HexList _ \<Rightarrow> 3) # replicate 31 0)),
     getBytes = (\<lambda>_. None), atob = (\<lambda>_. None), toLowerCase = (\<lambda>s. s)\<rparr>"

definition ethPostSample :: ethPost where
  "ethPostSample = (\<lambda>_. Inr \<lparr>answer = [], env_state_root = [], block_range = (1, 1), state_proofs = Some [sampleState]\<rparr>)"

lemma padHash_32 [simp]: "length x = 32 \<Longrightarrow> padHash x = x"
  by (simp add: padHash_def)

lemma padHash_zeros: "padHash (replicate 20 0) = replicate 32 0"
  by (simp add: padHash_def eval_nat_numeral)

lemma leaf_bytes:
  "nodeBytes padHash leafEnc accountTrie = 1 # replicate 31 0"
  "nodeBytes padHash leafEnc storageTrie = 2 # replicate 31 0"
  by (simp_all add: nodeBytes_def leafEnc_def accountTrie_def storageTrie_def)

lemma leaf_rooted:
  "rooted ethSample leafEnc accountTrie (1 # replicate 31 0) {1 # replicate 31 0}"
  "rooted ethSample leafEnc storageTrie (2 # replicate 31 0) {2 # replicate 31 0}"
proof -
  have s: "subtries accountTrie = {accountTrie}" "subtries storageTrie = {storageTrie}"
    by (simp_all add: accountTrie_def storageTrie_def)
  have w: "wfTrie accountTrie" "wfTrie storageTrie"
    by (simp_all add: accountTrie_def storageTrie_def list_all_iff)
  have k: "length (padHash x) = 32" for x by (simp add: padHash_def min_def)
  show "rooted ethSample leafEnc accountTrie (1 # replicate 31 0) {1 # replicate 31 0}"
    "rooted ethSample leafEnc storageTrie (2 # replicate 31 0) {2 # replicate 31 0}"
    by (simp_all add: rooted_def trieHypotheses_def rlpReads_def s w k leaf_bytes ethSample_def)
qed

lemma sample_rlp: "rlpFor ethSample leafEnc {accountNode sampleAccount, valueNode sampleSlot}"
  by (simp add: rlpFor_def ethSample_def leafEnc_def accountNode_def valueNode_def)

lemma zero_nibbles: "bytesToNibbles (replicate 32 0) = replicate 64 0"
  by (simp add: eval_nat_numeral)

lemma leaf_verified:
  assumes "rooted ethSample leafEnc (Leaf (replicate 64 0) v) r S"
  shows "verifyMptProof padHash (rlpDecode ethSample) r (replicate 32 0) v [nodeBytes padHash leafEnc (Leaf (replicate 64 0) v)] = Inr ()"
proof -
  have h: "trieHypotheses padHash leafEnc (rlpDecode ethSample) (Leaf (replicate 64 0) v)"
    and r: "r = padHash (nodeBytes padHash leafEnc (Leaf (replicate 64 0) v))"
    using assms by (simp_all add: rooted_def ethSample_def)
  have "proofOf padHash leafEnc (Leaf (replicate 64 0) v) (replicate 64 0) = [nodeBytes padHash leafEnc (Leaf (replicate 64 0) v)]"
    by (subst proofOf.simps) simp
  then show ?thesis
    using served_accepted [OF h _ _ , of "replicate 32 0" v] by (simp add: zero_nibbles r noneEmbedded_def)
qed

lemma sample_slot_verified: "verifyStorageSlot ethSample sampleSlot (2 # replicate 31 0) = Inr ()"
proof -
  have e: "rlpEncode ethSample (hexNode (valueNode sampleSlot)) = Some (4 # replicate 31 0)"
    by (simp add: ethSample_def valueNode_def)
  have "verifyMptProof padHash (rlpDecode ethSample) (2 # replicate 31 0) (replicate 32 0) (4 # replicate 31 0) [2 # replicate 31 0] = Inr ()"
    using leaf_verified [OF leaf_rooted(2) [unfolded storageTrie_def]] leaf_bytes(2) by (simp add: storageTrie_def)
  moreover have "keccak ethSample = padHash" by (simp add: ethSample_def)
  moreover have "bytesFromArray (slot sampleSlot) = replicate 32 0" "proof_nodes (slotProof sampleSlot) = [2 # replicate 31 0]"
    by (simp_all add: sampleSlot_def bytesFromArray_def)
  ultimately show ?thesis unfolding verifyStorageSlot_def Let_def slot_encoding e
    by (simp add: orThrow_def bytesFromArray_def)
qed

lemma sample_state_verified: "verifyStateProof ethSample sampleState = Inr ()"
proof -
  have e: "rlpEncodeAccount ethSample (account_state sampleState) = Inr (3 # replicate 31 0)"
    by (simp add: rlpEncodeAccount_eq sampleState_def sampleAccount_def ethSample_def accountNode_def orThrow_def)
  have "verifyMptProof padHash (rlpDecode ethSample) (1 # replicate 31 0) (replicate 32 0) (3 # replicate 31 0) [1 # replicate 31 0] = Inr ()"
    using leaf_verified [OF leaf_rooted(1) [unfolded accountTrie_def]] leaf_bytes(1) by (simp add: accountTrie_def)
  moreover have "keccak ethSample = padHash" by (simp add: ethSample_def)
  moreover have "bytesFromArray (address sampleState) = replicate 20 0" "bytesFromArray (state_root sampleState) = 1 # replicate 31 0"
    "map bytesFromArray (proof_nodes (account_proof sampleState)) = [1 # replicate 31 0]"
    "bytesFromArray (storage_hash (account_state sampleState)) = 2 # replicate 31 0" "storage_proofs sampleState = [sampleSlot]"
    by (simp_all add: sampleState_def sampleAccount_def bytesFromArray_def)
  ultimately show ?thesis using sample_slot_verified e by (simp add: verifyStateProof_def padHash_zeros)
qed

subsection \<open>Properties\<close>

text \<open>C6: Verified state reads. When \<open>getState\<close> in strict mode returns a read, it is the conversion
  of the response's first state proof, and the tries its roots commit to hold what it says: under the
  hash of the proof's address, the account with the nonce, balance, storage root and code hash read,
  and under the hash of each slot, the value read for it.\<close>

theorem state_read_sound:
  assumes "getState L post self addr slots blockNumber = Inr r" and "verifyMode self = Strict"
    and "post (StateRequest addr slots blockNumber) = Inr envelope" and "state_proofs envelope = Some (p # ps)"
    and "0 \<le> nonce (account_state p)"
    and "rooted L enc t (bytesFromArray (state_root p)) (set (proofNodesOf (account_proof p)))"
    and "\<forall>sp\<in>set (storage_proofs p).
      rooted L enc ts (bytesFromArray (storage_hash (account_state p))) (set (proofNodesOf (slotProof sp)))"
    and "rlpFor L enc (insert (accountNode (account_state p)) (valueNode ` set (storage_proofs p)))"
  shows "r = toVerifiedStateRead p Strict \<and>
    rlpDecode L (held L t (address p)) =
      Some (RlpList [RlpBytes (toBeArray (nat (vnonce r))), RlpBytes (toBeArray (vbalance r)),
        RlpBytes (bytesFromArray (storage_hash (account_state p))), RlpBytes (bytesFromArray (code_hash (account_state p)))]) \<and>
    list_all2 (\<lambda>sp v. vslot v = bytesToHex32 (slot sp) \<and>
        rlpDecode L (held L ts (slot sp)) = Some (RlpBytes (toBeArray (vvalue v))))
      (storage_proofs p) (storage r)"
proof -
  have r: "r = toVerifiedStateRead p Strict" and v: "verifyStateProof L p = Inr ()"
    using assms(1-4) by (auto simp: getState_def)
  have "list_all2 (\<lambda>sp v. vslot v = bytesToHex32 (slot sp) \<and>
        rlpDecode L (held L ts (slot sp)) = Some (RlpBytes (toBeArray (vvalue v))))
      (storage_proofs p) (storage r)"
    using state_held [OF v assms(5-8)]
    by (auto simp: r toVerifiedStateRead_def list_all2_conv_all_nth valueNode_def bytesToBigInt_def)
  then show ?thesis using state_held [OF v assms(5-8)] r
    by (simp add: toVerifiedStateRead_def accountNode_def bytesToBigInt_def)
qed

theorem state_read_sound_witness:
  "vbalance (toVerifiedStateRead sampleState Strict) = 0 \<and>
   rlpDecode ethSample (held ethSample storageTrie (slot sampleSlot)) = Some (RlpBytes (toBeArray 5))"
proof -
  let ?env = "\<lparr>answer = [], env_state_root = [], block_range = (1, 1), state_proofs = Some [sampleState]\<rparr>"
  have g: "getState ethSample ethPostSample (newEthOperations ''u'') [] [] 1 = Inr (toVerifiedStateRead sampleState Strict)"
    by (simp add: getState_def requireIndexerUrl_def newEthOperations_def ethPostSample_def sample_state_verified)
  have parts: "bytesFromArray (state_root sampleState) = 1 # replicate 31 0"
    "bytesFromArray (storage_hash (account_state sampleState)) = 2 # replicate 31 0"
    "set (proofNodesOf (account_proof sampleState)) = {1 # replicate 31 0}"
    "set (proofNodesOf (slotProof sampleSlot)) = {2 # replicate 31 0}"
    "storage_proofs sampleState = [sampleSlot]" "account_state sampleState = sampleAccount"
    by (simp_all add: sampleState_def sampleAccount_def sampleSlot_def bytesFromArray_def proofNodesOf_def)
  have "0 \<le> nonce (account_state sampleState)" by (simp add: sampleState_def sampleAccount_def)
  from state_read_sound [OF g _ _ _ this, of ?env "[]" leafEnc accountTrie storageTrie]
  have "list_all2 (\<lambda>sp v. vslot v = bytesToHex32 (slot sp) \<and>
      rlpDecode ethSample (held ethSample storageTrie (slot sp)) = Some (RlpBytes (toBeArray (vvalue v))))
    [sampleSlot] (storage (toVerifiedStateRead sampleState Strict))"
    using leaf_rooted sample_rlp parts
    by (simp add: newEthOperations_def ethPostSample_def)
  moreover have "map vvalue (storage (toVerifiedStateRead sampleState Strict)) = [5]"
    "vbalance (toVerifiedStateRead sampleState Strict) = 0"
    by (simp_all add: toVerifiedStateRead_def sampleState_def sampleSlot_def sampleAccount_def bytesFromArray_def
        bytesToBigInt_def beNat_zeros beNat_zero beNat_Cons)
  ultimately show ?thesis
    by (cases "storage (toVerifiedStateRead sampleState Strict)") auto
qed

text \<open>C26: Absent storage slots are never verified. When the storage trie holds nothing under a slot,
  as it does for every slot of value zero, \<open>verifyStorageSlot\<close> refuses each claim about it, the true
  one that its value is zero included: zero is encoded as the byte 0x80, which is not what an absent
  leaf is compared with.\<close>

theorem absent_slot_refused:
  assumes "rooted L enc t storageHash (set (proofNodesOf (slotProof sp)))" and "rlpFor L enc {valueNode sp}"
    and "held L t (slot sp) = []"
  shows "\<exists>e. verifyStorageSlot L sp storageHash = Inl e"
proof (cases "verifyStorageSlot L sp storageHash")
  case (Inr u)
  then show ?thesis using absent_slot [OF assms] by blast
qed simp

theorem absent_slot_refused_witness:
  "\<exists>e. verifyStorageSlot ethSample (sampleSlot\<lparr>slot := replicate 31 0 @ [1]\<rparr>) (2 # replicate 31 0) = Inl e"
proof (rule absent_slot_refused)
  let ?sp = "sampleSlot\<lparr>slot := replicate 31 0 @ [1]\<rparr>"
  show "rooted ethSample leafEnc storageTrie (2 # replicate 31 0) (set (proofNodesOf (slotProof ?sp)))"
    using leaf_rooted(2) by (simp add: proofNodesOf_def sampleSlot_def bytesFromArray_def)
  show "rlpFor ethSample leafEnc {valueNode ?sp}"
    using sample_rlp by (simp add: rlpFor_def valueNode_def)
  have "bytesToNibbles (replicate 31 0 @ [1]) \<noteq> replicate 64 0"
    by (simp add: eval_nat_numeral)
  then show "held ethSample storageTrie (slot ?sp) = []"
    by (simp add: held_def ethSample_def storageTrie_def bytesFromArray_def)
qed

text \<open>Uniswap reserves. \<open>uniV2Reserves\<close> of a verified slot word gives back the two reserves and
  the timestamp packed in it, for reserves of 112 bits and a 32-bit timestamp.\<close>

theorem reserves_roundtrip:
  assumes "r0 < 2 ^ 112" and "r1 < 2 ^ 112" and "ts < 2 ^ 32"
    and "getState L post self pair [hexlify (replicate 31 0 @ [8])] blockNumber = Inr state"
    and "map vvalue (storage state) = [ts * 2 ^ 224 + (r1 * 2 ^ 112 + r0)]"
  shows "uniV2Reserves L post self pair blockNumber =
    Inr \<lparr>reserve0 = r0, reserve1 = r1, blockTimestampLast = of_nat ts\<rparr>"
proof -
  let ?v = "ts * 2 ^ 224 + (r1 * 2 ^ 112 + r0)"
  have "r1 * 2 ^ 112 + r0 < (r1 + 1) * 2 ^ 112" using assms(1) by simp
  also have "\<dots> \<le> 2 ^ 112 * 2 ^ 112" using assms(2) by (intro mult_le_mono1) simp
  finally have "r1 * 2 ^ 112 + r0 < 2 ^ 224" by simp
  then have "?v < (ts + 1) * 2 ^ 224" by simp
  also have "\<dots> \<le> 2 ^ 32 * 2 ^ 224" using assms(3) by (intro mult_le_mono1) simp
  finally have "?v < 2 ^ 256" by simp
  from padBigIntTo32_spec(1) [OF this] obtain b where b: "padBigIntTo32 ?v = Inr b" "length b = 32" "beNat b = ?v" by blast
  have "numberSlotToHex 8 = Inr (hexlify (replicate 31 0 @ [8]))"
    by (simp add: numberSlotToHex_def slotIndexTo32_def MAX_SAFE_INTEGER_def padBigIntTo32_def setBytes_def
        toBeArray.simps)
  moreover have "firstStorage ''uniV2Reserves'' state = Inr ?v"
    using assms(5) by (cases "storage state") (simp_all add: firstStorage_def)
  ultimately have "uniV2Reserves L post self pair blockNumber = Inr (unpackReserves b)"
    using assms(4) b(1) by (simp add: uniV2Reserves_def)
  moreover have "blockTimestampLast (unpackReserves b) = of_nat ts"
    using reserves_unpacked [OF b(2,3) assms(1,2)] by (metis of_nat_unat ucast_id)
  ultimately show ?thesis using reserves_unpacked [OF b(2,3) assms(1,2)]
    by (cases "unpackReserves b") simp
qed

theorem reserves_roundtrip_witness:
  "\<exists>state :: VerifiedStateRead. map vvalue (storage state) = [1 * 2 ^ 224 + (2 * 2 ^ 112 + 3)] \<and>
   uniV2Reserves ethSample (\<lambda>_. Inr \<lparr>answer = [], env_state_root = [], block_range = (1, 1), state_proofs = Some [sampleState
       \<lparr>storage_proofs := [sampleSlot\<lparr>slotValue := [0, 0, 0, 1] @ replicate 13 0 @ [2] @ replicate 13 0 @ [3]\<rparr>]\<rparr>]\<rparr>)
     (withMode (newEthOperations ''u'') AnchorOnly) [] 1 =
     Inr \<lparr>reserve0 = 3, reserve1 = 2, blockTimestampLast = 1\<rparr>"
proof -
  let ?p = "sampleState\<lparr>storage_proofs := [sampleSlot\<lparr>slotValue := [0, 0, 0, 1] @ replicate 13 0 @ [2] @ replicate 13 0 @ [3]\<rparr>]\<rparr>"
  let ?post = "(\<lambda>_. Inr \<lparr>answer = [], env_state_root = [], block_range = (1, 1), state_proofs = Some [?p]\<rparr>) :: ethPost"
  let ?self = "withMode (newEthOperations ''u'') AnchorOnly"
  have g: "getState ethSample ?post ?self [] [hexlify (replicate 31 0 @ [8])] 1 = Inr (toVerifiedStateRead ?p AnchorOnly)"
    by (simp add: getState_def requireIndexerUrl_def newEthOperations_def withMode_def)
  have v: "map vvalue (storage (toVerifiedStateRead ?p AnchorOnly)) = [1 * 2 ^ 224 + (2 * 2 ^ 112 + 3)]"
    by (simp add: toVerifiedStateRead_def bytesFromArray_def bytesToBigInt_def beNat_Cons beNat_zeros beNat_zero)
  have "uniV2Reserves ethSample ?post ?self [] 1 = Inr \<lparr>reserve0 = 3, reserve1 = 2, blockTimestampLast = of_nat 1\<rparr>"
    by (rule reserves_roundtrip [OF _ _ _ g v]) simp_all
  with v show ?thesis by (intro exI [of _ "toVerifiedStateRead ?p AnchorOnly"] conjI) simp_all
qed

end
