(* ===== verification/Completeness.thy ===== *)
theory Completeness
  imports Eth_State
begin

text \<open>
  Completeness of served events (\<open>src/src/completeness/index.ts\<close>, \<open>client.ts\<close>): the canonical
  preimage of an event set, its commitment, and the client that compares the events an indexer serves
  with the chain's commitment. Keccak-256 is the parameter \<open>K\<close>; the chain's and the indexer's
  responses are parameters of the client.
\<close>

subsection \<open>The commitment\<close>

text \<open>\<open>TextEncoder\<close> on the tag, which is ASCII.\<close>

definition DOMAIN_TAG :: bytes where
  "DOMAIN_TAG = map (\<lambda>c. of_nat (of_char c)) ''WILLOW_CRYPTO_EVENTS_V1''"

definition ADDRESS_LEN :: nat where
  "ADDRESS_LEN = 20"

definition TOPIC_LEN :: nat where
  "TOPIC_LEN = 32"

definition COMMITMENT_LEN :: nat where
  "COMMITMENT_LEN = 32"

datatype BlockNumber = NumBlock int | BigBlock int

datatype ByteInput = BytesIn bytes | HexIn string

record Log =
  laddress :: ByteInput
  ltopics :: "ByteInput list"
  ldata :: ByteInput

datatype cerror =
    BadHex gerror
  | WrongLength string nat nat
  | BlockNotSafe int
  | BlockOutOfRange int
  | U32OutOfRange nat
  | MissingMatchedLogs
  | MalformedLog nat string
  | Unavailable string
  | AnchorUndecodable
  | RequestRejected string
  | MissingEndpoint string

definition hexIn :: "string \<Rightarrow> cerror + bytes" where
  "hexIn s = (case hexToBytes s of Inl e \<Rightarrow> Inl (BadHex e) | Inr b \<Rightarrow> Inr b)"

definition toBytes :: "ByteInput \<Rightarrow> cerror + bytes" where
  "toBytes i = (case i of BytesIn b \<Rightarrow> Inr b | HexIn s \<Rightarrow> hexIn s)"

definition toFixedBytes :: "ByteInput \<Rightarrow> nat \<Rightarrow> string \<Rightarrow> cerror + bytes" where
  "toFixedBytes i len what =
     bnd (toBytes i) (\<lambda>b. if length b \<noteq> len then Inl (WrongLength what len (length b)) else Inr b)"

fun blockValue :: "BlockNumber \<Rightarrow> int" where
  "blockValue (NumBlock v) = v"
| "blockValue (BigBlock v) = v"

text \<open>The loop fills the eight bytes from the last.\<close>

definition u64Bytes :: "nat \<Rightarrow> bytes" where
  "u64Bytes v = fst (foldl (\<lambda>(out, n) i. (out[i := of_nat (n AND 0xff)], drop_bit 8 n)) (replicate 8 0, v) (rev [0..<8]))"

definition blockNumberToU64Be :: "BlockNumber \<Rightarrow> cerror + bytes" where
  "blockNumberToU64Be b =
     (let v = blockValue b in
      if (case b of NumBlock _ \<Rightarrow> abs v > int MAX_SAFE_INTEGER | BigBlock _ \<Rightarrow> False) then Inl (BlockNotSafe v)
      else if v < 0 \<or> v > 0xffffffffffffffff then Inl (BlockOutOfRange v)
      else Inr (u64Bytes (nat v)))"

definition u64Be :: "nat \<Rightarrow> cerror + bytes" where
  "u64Be v = blockNumberToU64Be (NumBlock (int v))"

definition u32Be :: "nat \<Rightarrow> cerror + bytes" where
  "u32Be v =
     (if v > MAX_SAFE_INTEGER \<or> v > 0xffffffff then Inl (U32OutOfRange v)
      else Inr [of_nat (drop_bit 24 v AND 0xff), of_nat (drop_bit 16 v AND 0xff), of_nat (drop_bit 8 v AND 0xff),
                of_nat (v AND 0xff)])"

fun topicsPreimage :: "ByteInput list \<Rightarrow> cerror + bytes" where
  "topicsPreimage [] = Inr []"
| "topicsPreimage (t # ts) =
     bnd (toFixedBytes t TOPIC_LEN ''log.topic'') (\<lambda>b. bnd (topicsPreimage ts) (\<lambda>r. Inr (b @ r)))"

definition logPreimage :: "Log \<Rightarrow> cerror + bytes" where
  "logPreimage l =
     bnd (toFixedBytes (laddress l) ADDRESS_LEN ''log.address'') (\<lambda>a.
     bnd (u32Be (length (ltopics l))) (\<lambda>n.
     bnd (topicsPreimage (ltopics l)) (\<lambda>ts.
     bnd (toBytes (ldata l)) (\<lambda>d.
     bnd (u32Be (length d)) (\<lambda>m. Inr (a @ n @ ts @ m @ d))))))"

fun logsPreimage :: "Log list \<Rightarrow> cerror + bytes" where
  "logsPreimage [] = Inr []"
| "logsPreimage (l # ls) = bnd (logPreimage l) (\<lambda>b. bnd (logsPreimage ls) (\<lambda>r. Inr (b @ r)))"

text \<open>The bytes the hasher is given, and their hash.\<close>

definition eventSetPreimage :: "BlockNumber \<Rightarrow> Log list \<Rightarrow> cerror + bytes" where
  "eventSetPreimage blockNumber matchedLogs =
     bnd (blockNumberToU64Be blockNumber) (\<lambda>b.
     bnd (u64Be (length matchedLogs)) (\<lambda>n.
     bnd (logsPreimage matchedLogs) (\<lambda>ls. Inr (DOMAIN_TAG @ b @ n @ ls))))"

definition canonicalEventSetHash :: "(bytes \<Rightarrow> bytes) \<Rightarrow> BlockNumber \<Rightarrow> Log list \<Rightarrow> cerror + bytes" where
  "canonicalEventSetHash K blockNumber matchedLogs =
     bnd (eventSetPreimage blockNumber matchedLogs) (\<lambda>p. Inr (K p))"

definition canonicalEventSetHashHex :: "(bytes \<Rightarrow> bytes) \<Rightarrow> BlockNumber \<Rightarrow> Log list \<Rightarrow> cerror + string" where
  "canonicalEventSetHashHex K blockNumber matchedLogs =
     bnd (canonicalEventSetHash K blockNumber matchedLogs) (\<lambda>h. Inr (''0x'' @ bytesToHex h))"

definition constantTimeEquals :: "bytes \<Rightarrow> bytes \<Rightarrow> bool" where
  "constantTimeEquals a b \<longleftrightarrow>
     length a = length b \<and> foldl (\<lambda>diff i. diff OR (a ! i XOR b ! i)) 0 [0..<length a] = 0"

definition verifyServedEvents :: "(bytes \<Rightarrow> bytes) \<Rightarrow> ByteInput \<Rightarrow> BlockNumber \<Rightarrow> Log list \<Rightarrow> cerror + bool" where
  "verifyServedEvents K commitment blockNumber matchedLogs =
     bnd (toFixedBytes commitment COMMITMENT_LEN ''commitment'') (\<lambda>expected.
     bnd (canonicalEventSetHash K blockNumber matchedLogs) (\<lambda>actual.
       Inr (constantTimeEquals expected actual)))"

subsection \<open>The client\<close>

text \<open>A field of the indexer's JSON that should be text.\<close>

datatype served = Text string | NotText

record IndexedLog =
  iaddress :: served
  itopics :: "served list option"
  idata :: served

text \<open>\<open>matched_logs\<close> is \<open>None\<close> when it is missing or no array.\<close>

record MatchedLogsResponse =
  matched_logs :: "IndexedLog list option"

fun servedTopics :: "nat \<Rightarrow> served list \<Rightarrow> cerror + ByteInput list" where
  "servedTopics i [] = Inr []"
| "servedTopics i (t # ts) =
     (case t of
        NotText \<Rightarrow> Inl (MalformedLog i ''topic'')
      | Text s \<Rightarrow> bnd (hexIn s) (\<lambda>b. bnd (servedTopics i ts) (\<lambda>r. Inr (BytesIn b # r))))"

definition servedLog :: "nat \<Rightarrow> IndexedLog \<Rightarrow> cerror + Log" where
  "servedLog i l =
     (case (iaddress l, itopics l, idata l) of
        (NotText, _, _) \<Rightarrow> Inl (MalformedLog i ''address'')
      | (_, None, _) \<Rightarrow> Inl (MalformedLog i ''topics'')
      | (_, _, NotText) \<Rightarrow> Inl (MalformedLog i ''data'')
      | (Text a, Some ts, Text d) \<Rightarrow>
          bnd (hexIn a) (\<lambda>a.
          bnd (servedTopics i ts) (\<lambda>ts.
          bnd (hexIn d) (\<lambda>d.
            Inr \<lparr>laddress = BytesIn a, ltopics = ts, ldata = BytesIn d\<rparr>))))"

fun servedLogs :: "nat \<Rightarrow> IndexedLog list \<Rightarrow> cerror + Log list" where
  "servedLogs i [] = Inr []"
| "servedLogs i (l # ls) = bnd (servedLog i l) (\<lambda>x. bnd (servedLogs (i + 1) ls) (\<lambda>xs. Inr (x # xs)))"

definition logsFromMatchedResponse :: "MatchedLogsResponse \<Rightarrow> cerror + Log list" where
  "logsFromMatchedResponse body =
     (case matched_logs body of None \<Rightarrow> Inl MissingMatchedLogs | Some ls \<Rightarrow> servedLogs 0 ls)"

record AbciResponse =
  code :: "int option"
  log_text :: "string option"
  info_text :: "string option"
  abci_value :: "string option"

text \<open>The transports: \<open>rpc\<close> the chain's answer to an \<open>abci_query\<close>, \<open>getLogs\<close> the indexer's to the GET
  (the HTTP status of a failed request, or its body), and \<open>anchorField\<close> the \<open>events_commitment\<close> of the
  base64 JSON value (\<open>atob\<close>, \<open>TextDecoder\<close>, \<open>JSON.parse\<close>), \<open>None\<close> when one of them throws.\<close>

datatype httpFailure = HttpStatus int | Other string

record transports =
  rpc :: "string \<Rightarrow> cerror + AbciResponse option"
  getLogs :: "string \<Rightarrow> httpFailure + MatchedLogsResponse"
  anchorField :: "string \<Rightarrow> string option"
  blockText :: "BlockNumber \<Rightarrow> string"

record CompletenessClient =
  consensusRpcUrl :: string
  completenessBaseUrl :: string

definition newCompletenessClient :: "string \<Rightarrow> string \<Rightarrow> cerror + CompletenessClient" where
  "newCompletenessClient rpcUrl baseUrl =
     (if rpcUrl = [] then Inl (MissingEndpoint ''consensusRpcUrl'')
      else if baseUrl = [] then Inl (MissingEndpoint ''indexerBaseUrl'')
      else Inr \<lparr>consensusRpcUrl = rpcUrl, completenessBaseUrl = rev (dropWhile (\<lambda>c. c = CHR ''/'') (rev baseUrl))\<rparr>)"

definition fetchAnchorCommitment :: "transports \<Rightarrow> string \<Rightarrow> BlockNumber \<Rightarrow> cerror + bytes" where
  "fetchAnchorCommitment T subgroveId blockNumber =
     (let path = ''/store/events_commitment/'' @ subgroveId @ ''/'' @ blockText T blockNumber in
      bnd (rpc T path) (\<lambda>result.
        (let response = (case result of
               None \<Rightarrow> \<lparr>code = None, log_text = None, info_text = None, abci_value = None\<rparr> | Some r \<Rightarrow> r);
             c = (case code response of None \<Rightarrow> 0 | Some c \<Rightarrow> c) in
         if c \<noteq> 0 then
           Inl (Unavailable (case (log_text response, info_text response) of
                 (Some (x # l), _) \<Rightarrow> x # l | (_, Some (x # i)) \<Rightarrow> x # i | _ \<Rightarrow> ''code''))
         else
           (case abci_value response of
              Some (x # v) \<Rightarrow>
                (case anchorField T (x # v) of
                   None \<Rightarrow> Inl AnchorUndecodable
                 | Some text \<Rightarrow>
                     bnd (hexIn text) (\<lambda>commitment.
                       if length commitment \<noteq> COMMITMENT_LEN
                       then Inl (WrongLength ''events_commitment'' COMMITMENT_LEN (length commitment))
                       else Inr commitment))
            | _ \<Rightarrow> Inl (Unavailable ''empty events_commitment'')))))"

definition fetchMatchedLogs :: "transports \<Rightarrow> string \<Rightarrow> BlockNumber \<Rightarrow> cerror + MatchedLogsResponse" where
  "fetchMatchedLogs T subgroveId blockNumber =
     (case getLogs T (''/completeness/'' @ subgroveId @ ''/'' @ blockText T blockNumber @ ''/matched-logs'') of
        Inl (HttpStatus s) \<Rightarrow>
          if s = 404 \<or> s = 409 then Inl (Unavailable ''no retained matched logs'') else Inl (RequestRejected ''http'')
      | Inl (Other e) \<Rightarrow> Inl (RequestRejected e)
      | Inr r \<Rightarrow> Inr r)"

text \<open>\<open>Promise.all\<close> rejects with the first rejection in time; here the anchor's when both fail.\<close>

definition verifyBlockCompleteness ::
  "(bytes \<Rightarrow> bytes) \<Rightarrow> transports \<Rightarrow> string \<Rightarrow> BlockNumber \<Rightarrow> cerror + bool" where
  "verifyBlockCompleteness K T subgroveId blockNumber =
     bnd (fetchAnchorCommitment T subgroveId blockNumber) (\<lambda>commitment.
     bnd (fetchMatchedLogs T subgroveId blockNumber) (\<lambda>response.
     bnd (logsFromMatchedResponse response) (\<lambda>logs.
       verifyServedEvents K (BytesIn commitment) blockNumber logs)))"

subsection \<open>The encoding can be read back\<close>

lemma and_255: "n AND 0xff = n mod 256" for n :: nat
proof -
  have "n AND 0xff = take_bit 8 n" using take_bit_eq_mask [of 8 n] by (simp add: mask_eq_exp_minus_1)
  then show ?thesis by (simp add: take_bit_eq_mod)
qed

lemma of_nat_and_255: "(of_nat (n AND 0xff) :: byte) = of_nat n"
  by (rule word_unat_eq_iff [THEN iffD2]) (simp add: and_255 unat_of_nat_byte)

lemma shr8: "drop_bit (8 * k) n = n div 256 ^ k" for n :: nat
proof -
  have "(2 :: nat) ^ (8 * k) = 256 ^ k" by (simp add: power_mult)
  then show ?thesis by (simp add: drop_bit_eq_div)
qed

lemma fill_bytes:
  "fst (foldl (\<lambda>(out, n) i. (out[i := of_nat (n AND 0xff)], drop_bit 8 n)) (replicate k 0 @ rest, v) (rev [0..<k])) =
     beBytes k v @ rest"
proof (induction k arbitrary: v rest)
  case (Suc k)
  have "(replicate (Suc k) 0 @ rest)[k := of_nat (v AND 0xff)] = replicate k 0 @ (of_nat v :: byte) # rest"
    by (simp add: replicate_append_same [symmetric] list_update_append of_nat_and_255)
  then show ?case using Suc.IH [of "of_nat v # rest" "v div 256"] by (simp add: drop_bit_eq_div)
qed simp

lemma u64Bytes_eq: "u64Bytes v = beBytes 8 v"
  using fill_bytes [of 8 "[]" v] by (simp add: u64Bytes_def)

lemma u32Be_eq: "v \<le> 0xffffffff \<Longrightarrow> u32Be v = Inr (beBytes 4 v)"
  using shr8 [of 1 v] shr8 [of 2 v] shr8 [of 3 v]
  by (simp add: u32Be_def MAX_SAFE_INTEGER_def beBytes_numeral of_nat_and_255 div_mult2_eq [symmetric])

lemma u32Be_Inr: "u32Be v = Inr b \<Longrightarrow> v \<le> 0xffffffff \<and> b = beBytes 4 v"
  using u32Be_eq [of v] by (auto simp: u32Be_def split: if_splits)

lemma blockNumberToU64Be_Inr:
  assumes "blockNumberToU64Be b = Inr bs"
  shows "0 \<le> blockValue b \<and> nat (blockValue b) < 256 ^ 8 \<and> bs = beBytes 8 (nat (blockValue b))"
  using assms by (auto simp: blockNumberToU64Be_def u64Bytes_eq Let_def nat_less_iff split: if_splits)

lemma beBytes_inj: "a < 256 ^ n \<Longrightarrow> b < 256 ^ n \<Longrightarrow> beBytes n a = beBytes n b \<Longrightarrow> a = b"
  by (metis beNat_beBytes mod_less)

text \<open>The bytes of a log.\<close>

definition bytesOf :: "ByteInput \<Rightarrow> bytes" where
  "bytesOf i = (case toBytes i of Inl _ \<Rightarrow> [] | Inr b \<Rightarrow> b)"

definition logBytes :: "Log \<Rightarrow> bytes \<times> bytes list \<times> bytes" where
  "logBytes l = (bytesOf (laddress l), map bytesOf (ltopics l), bytesOf (ldata l))"

lemma toFixedBytes_Inr: "toFixedBytes i len what = Inr b \<Longrightarrow> b = bytesOf i \<and> length b = len"
  by (cases "toBytes i") (auto simp: toFixedBytes_def bytesOf_def split: if_splits)

lemma topicsPreimage_Inr:
  "topicsPreimage ts = Inr p \<Longrightarrow> p = concat (map bytesOf ts) \<and> list_all (\<lambda>t. length (bytesOf t) = TOPIC_LEN) ts"
  by (induction ts arbitrary: p) (auto dest: toFixedBytes_Inr)

lemma logPreimage_Inr:
  assumes "logPreimage l = Inr p"
  shows "p = bytesOf (laddress l) @ beBytes 4 (length (ltopics l)) @ concat (map bytesOf (ltopics l)) @
      beBytes 4 (length (bytesOf (ldata l))) @ bytesOf (ldata l) \<and>
    length (bytesOf (laddress l)) = ADDRESS_LEN \<and> length (ltopics l) < 256 ^ 4 \<and>
    length (bytesOf (ldata l)) < 256 ^ 4 \<and> list_all (\<lambda>t. length (bytesOf t) = TOPIC_LEN) (ltopics l)"
proof -
  from assms obtain a n ts d k where parts: "toFixedBytes (laddress l) ADDRESS_LEN ''log.address'' = Inr a"
    "u32Be (length (ltopics l)) = Inr n" "topicsPreimage (ltopics l) = Inr ts" "toBytes (ldata l) = Inr d"
    "u32Be (length d) = Inr k" and p: "p = a @ n @ ts @ k @ d"
    by (auto simp: logPreimage_def)
  have "bytesOf (ldata l) = d" using parts(4) by (simp add: bytesOf_def)
  with p toFixedBytes_Inr [OF parts(1)] u32Be_Inr [OF parts(2)] topicsPreimage_Inr [OF parts(3)] u32Be_Inr [OF parts(5)]
  show ?thesis by auto
qed

lemma concat_fixed:
  "list_all (\<lambda>x. length x = n) xs \<Longrightarrow> list_all (\<lambda>x. length x = n) ys \<Longrightarrow> length xs = length ys \<Longrightarrow>
     concat xs @ r = concat ys @ s \<Longrightarrow> xs = ys \<and> r = s"
proof (induction xs arbitrary: ys)
  case Nil then show ?case by simp
next
  case (Cons x xs)
  from Cons.prems(3) obtain y ys' where ys: "ys = y # ys'" by (cases ys) simp_all
  from Cons.prems(1,2) have len: "length x = length y" "list_all (\<lambda>x. length x = n) xs" "list_all (\<lambda>x. length x = n) ys'"
    by (simp_all add: ys)
  have "x @ (concat xs @ r) = y @ (concat ys' @ s)" using Cons.prems(4) by (simp add: ys)
  then have e: "x = y" "concat xs @ r = concat ys' @ s" using len(1) by (simp_all only: append_eq_append_conv simp_thms)
  have "length xs = length ys'" using Cons.prems(3) ys by simp
  from Cons.IH [OF len(2,3) this e(2)] e(1) show ?case by (simp add: ys)
qed

lemma append_split: "a @ x = b @ y \<Longrightarrow> length a = length b \<Longrightarrow> a = b \<and> x = y"
  by simp

lemma logPreimage_prefix_free:
  assumes "logPreimage l = Inr p" "logPreimage k = Inr q" "p @ r = q @ s"
  shows "logBytes l = logBytes k \<and> r = s"
proof -
  note l = logPreimage_Inr [OF assms(1)] and k = logPreimage_Inr [OF assms(2)]
  have "bytesOf (laddress l) @ beBytes 4 (length (ltopics l)) @ concat (map bytesOf (ltopics l)) @
      beBytes 4 (length (bytesOf (ldata l))) @ bytesOf (ldata l) @ r =
    bytesOf (laddress k) @ beBytes 4 (length (ltopics k)) @ concat (map bytesOf (ltopics k)) @
      beBytes 4 (length (bytesOf (ldata k))) @ bytesOf (ldata k) @ s"
    using assms(3) unfolding conjunct1 [OF l] conjunct1 [OF k] append_assoc .
  from append_split [OF this] have a: "bytesOf (laddress l) = bytesOf (laddress k)"
    and "beBytes 4 (length (ltopics l)) @ concat (map bytesOf (ltopics l)) @ beBytes 4 (length (bytesOf (ldata l))) @ bytesOf (ldata l) @ r =
      beBytes 4 (length (ltopics k)) @ concat (map bytesOf (ltopics k)) @ beBytes 4 (length (bytesOf (ldata k))) @ bytesOf (ldata k) @ s"
    using l k by presburger+
  from append_split [OF this(2)] have n: "beBytes 4 (length (ltopics l)) = beBytes 4 (length (ltopics k))"
    and t: "concat (map bytesOf (ltopics l)) @ beBytes 4 (length (bytesOf (ldata l))) @ bytesOf (ldata l) @ r =
      concat (map bytesOf (ltopics k)) @ beBytes 4 (length (bytesOf (ldata k))) @ bytesOf (ldata k) @ s"
    by (simp_all only: length_beBytes)
  have len: "length (ltopics l) = length (ltopics k)" using beBytes_inj [OF _ _ n] l k by blast
  have "list_all (\<lambda>t. length (bytesOf t) = TOPIC_LEN) (ltopics l)" "list_all (\<lambda>t. length (bytesOf t) = TOPIC_LEN) (ltopics k)"
    using l k by blast+
  then have "list_all (\<lambda>x. length x = TOPIC_LEN) (map bytesOf (ltopics l))" "list_all (\<lambda>x. length x = TOPIC_LEN) (map bytesOf (ltopics k))"
    by (simp_all add: list_all_iff)
  from concat_fixed [OF this _ t] len have ts: "map bytesOf (ltopics l) = map bytesOf (ltopics k)"
    and d: "beBytes 4 (length (bytesOf (ldata l))) @ bytesOf (ldata l) @ r = beBytes 4 (length (bytesOf (ldata k))) @ bytesOf (ldata k) @ s"
    by (simp_all only: length_map)
  from append_split [OF d] have m: "beBytes 4 (length (bytesOf (ldata l))) = beBytes 4 (length (bytesOf (ldata k)))"
    and d: "bytesOf (ldata l) @ r = bytesOf (ldata k) @ s"
    by (simp_all only: length_beBytes)
  have "length (bytesOf (ldata l)) = length (bytesOf (ldata k))" using beBytes_inj [OF _ _ m] l k by blast
  from append_split [OF d this] a ts show ?thesis by (simp only: logBytes_def)
qed

lemma logsPreimage_inj:
  "logsPreimage ls = Inr p \<Longrightarrow> logsPreimage ks = Inr p \<Longrightarrow> length ls = length ks \<Longrightarrow> map logBytes ls = map logBytes ks"
proof (induction ls arbitrary: ks p)
  case (Cons l ls)
  then obtain k ks' where ks: "ks = k # ks'" by (cases ks) auto
  with Cons.prems obtain a b c d where "logPreimage l = Inr a" "logsPreimage ls = Inr b" "p = a @ b"
    "logPreimage k = Inr c" "logsPreimage ks' = Inr d" "p = c @ d" by auto
  moreover from this have "logBytes l = logBytes k \<and> b = d" using logPreimage_prefix_free by blast
  ultimately show ?case using Cons.IH [of b ks'] Cons.prems(3) ks by simp
qed simp

lemma eventSetPreimage_inj:
  assumes "eventSetPreimage n ls = Inr p" "eventSetPreimage m ks = Inr p"
  shows "blockValue n = blockValue m \<and> map logBytes ls = map logBytes ks"
proof -
  from assms obtain a b c d e f where a: "blockNumberToU64Be n = Inr a" "u64Be (length ls) = Inr b" "logsPreimage ls = Inr c"
    and d: "blockNumberToU64Be m = Inr d" "u64Be (length ks) = Inr e" "logsPreimage ks = Inr f"
    and p: "DOMAIN_TAG @ a @ b @ c = DOMAIN_TAG @ d @ e @ f"
    by (auto simp: eventSetPreimage_def)
  note len = blockNumberToU64Be_Inr [OF a(1)] blockNumberToU64Be_Inr [OF d(1)]
    blockNumberToU64Be_Inr [OF a(2) [unfolded u64Be_def]] blockNumberToU64Be_Inr [OF d(2) [unfolded u64Be_def]]
  have eqs: "a = d" "b = e" "c = f" using p len by auto
  have "nat (blockValue n) = nat (blockValue m)"
    by (rule beBytes_inj [of _ 8]) (use len eqs(1) in simp_all)
  moreover have "length ls = length ks"
    by (rule beBytes_inj [of _ 8]) (use len eqs(2) in simp_all)
  ultimately show ?thesis using logsPreimage_inj [OF a(3), of ks] d(3) eqs(3) len by auto
qed

lemma foldl_or_zero: "foldl (\<lambda>diff i. diff OR f i) x is = 0 \<longleftrightarrow> x = 0 \<and> (\<forall>i\<in>set is. f i = 0)" for f :: "nat \<Rightarrow> byte"
  by (induction "is" arbitrary: x) (auto simp: or_eq_0_iff)

lemma constantTimeEquals_iff [simp]: "constantTimeEquals a b \<longleftrightarrow> a = b"
proof -
  have "x XOR y = 0 \<longleftrightarrow> x = y" for x y :: byte
    by (metis xor.assoc xor.left_neutral xor.right_neutral xor_self_eq)
  then show ?thesis by (auto simp: constantTimeEquals_def foldl_or_zero intro: nth_equalityI)
qed

subsection \<open>Equal sets have equal encodings\<close>

lemma logsPreimage_cong:
  "logsPreimage ls = Inr p \<Longrightarrow> logsPreimage ks = Inr q \<Longrightarrow> map logBytes ls = map logBytes ks \<Longrightarrow> p = q"
proof (induction ls arbitrary: ks p q)
  case (Cons l ls)
  from Cons.prems(3) obtain k ks' where ks: "ks = k # ks'" and kl: "logBytes l = logBytes k" "map logBytes ls = map logBytes ks'"
    by (cases ks) simp_all
  from Cons.prems(1,2) ks obtain a b c d where parts: "logPreimage l = Inr a" "logsPreimage ls = Inr b" "p = a @ b"
    "logPreimage k = Inr c" "logsPreimage ks' = Inr d" "q = c @ d" by auto
  have f: "bytesOf (laddress l) = bytesOf (laddress k)" "map bytesOf (ltopics l) = map bytesOf (ltopics k)"
    "bytesOf (ldata l) = bytesOf (ldata k)" using kl(1) by (simp_all add: logBytes_def)
  have "length (ltopics l) = length (ltopics k)" using arg_cong [OF f(2), of length] by simp
  then have "a = c"
    unfolding conjunct1 [OF logPreimage_Inr [OF parts(1)]] conjunct1 [OF logPreimage_Inr [OF parts(4)]] f by simp
  with Cons.IH [OF parts(2,5) kl(2)] parts show ?case by simp
qed simp

lemma eventSetPreimage_cong:
  assumes "eventSetPreimage n ls = Inr p" "eventSetPreimage m ks = Inr q"
    and "blockValue n = blockValue m" "map logBytes ls = map logBytes ks"
  shows "p = q"
proof -
  from assms(1,2) obtain a b c d e f where a: "blockNumberToU64Be n = Inr a" "u64Be (length ls) = Inr b" "logsPreimage ls = Inr c"
    and d: "blockNumberToU64Be m = Inr d" "u64Be (length ks) = Inr e" "logsPreimage ks = Inr f"
    and p: "p = DOMAIN_TAG @ a @ b @ c" "q = DOMAIN_TAG @ d @ e @ f"
    by (auto simp: eventSetPreimage_def)
  have "a = d" using blockNumberToU64Be_Inr [OF a(1)] blockNumberToU64Be_Inr [OF d(1)] assms(3) by simp
  moreover have "b = e" using arg_cong [OF assms(4), of length] a(2) d(2) by simp
  moreover have "c = f" by (rule logsPreimage_cong [OF a(3) d(3) assms(4)])
  ultimately show ?thesis using p by simp
qed

text \<open>What is relied on: Keccak-256 gives 32 bytes and does not collide on the two preimages.\<close>

definition noCollision :: "(bytes \<Rightarrow> bytes) \<Rightarrow> BlockNumber \<Rightarrow> Log list \<Rightarrow> BlockNumber \<Rightarrow> Log list \<Rightarrow> bool" where
  "noCollision K n ls m ks \<longleftrightarrow>
     (\<forall>x. length (K x) = 32) \<and>
     (\<forall>p q. eventSetPreimage n ls = Inr p \<and> eventSetPreimage m ks = Inr q \<and> K p = K q \<longrightarrow> p = q)"

lemma served_iff:
  assumes "canonicalEventSetHash K n ls = Inr h" "noCollision K n ls m ks" "eventSetPreimage m ks = Inr q"
  shows "verifyServedEvents K (BytesIn h) m ks = Inr (blockValue m = blockValue n \<and> map logBytes ks = map logBytes ls)"
proof -
  obtain p where p: "eventSetPreimage n ls = Inr p" "h = K p" using assms(1) by (auto simp: canonicalEventSetHash_def)
  have "length h = 32" using assms(2) p(2) by (simp add: noCollision_def)
  then have v: "verifyServedEvents K (BytesIn h) m ks = Inr (K p = K q)"
    using assms(3) p by (simp add: verifyServedEvents_def canonicalEventSetHash_def toFixedBytes_def toBytes_def COMMITMENT_LEN_def)
  have "K p = K q \<longleftrightarrow> p = q" using assms(2,3) p(1) by (auto simp: noCollision_def)
  also have "\<dots> \<longleftrightarrow> blockValue m = blockValue n \<and> map logBytes ks = map logBytes ls"
  proof
    assume "p = q"
    with eventSetPreimage_inj [OF p(1), of m ks] assms(3)
    show "blockValue m = blockValue n \<and> map logBytes ks = map logBytes ls" by simp
  next
    assume "blockValue m = blockValue n \<and> map logBytes ks = map logBytes ls"
    then show "p = q" using eventSetPreimage_cong [OF p(1) assms(3)] by simp
  qed
  finally show ?thesis using v by simp
qed

text \<open>One log, and a hash that keeps the last bytes of its input.\<close>

definition sampleLog :: Log where
  "sampleLog = \<lparr>laddress = BytesIn (replicate 20 1), ltopics = [], ldata = BytesIn [5]\<rparr>"

definition tailHash :: "bytes \<Rightarrow> bytes" where
  "tailHash x = take 32 (rev x @ replicate 32 0)"

lemma sample_log_preimage:
  "logPreimage (sampleLog\<lparr>ldata := BytesIn [d]\<rparr>) = Inr (replicate 20 1 @ beBytes 4 0 @ beBytes 4 1 @ [d])"
  by (simp add: logPreimage_def sampleLog_def toFixedBytes_def toBytes_def ADDRESS_LEN_def u32Be_eq)

lemma sample_preimage:
  "eventSetPreimage (NumBlock 7) [sampleLog\<lparr>ldata := BytesIn [d]\<rparr>] =
     Inr (DOMAIN_TAG @ beBytes 8 7 @ beBytes 8 1 @ replicate 20 1 @ beBytes 4 0 @ beBytes 4 1 @ [d])"
  by (simp add: eventSetPreimage_def sample_log_preimage u64Be_def blockNumberToU64Be_def MAX_SAFE_INTEGER_def u64Bytes_eq)

lemma sample_collision:
  "noCollision tailHash (NumBlock 7) [sampleLog\<lparr>ldata := BytesIn [d]\<rparr>] (NumBlock 7) [sampleLog\<lparr>ldata := BytesIn [e]\<rparr>]"
  unfolding noCollision_def sample_preimage by (simp add: tailHash_def min_def)

subsection \<open>Properties\<close>

text \<open>C27: Served events. Against the commitment of a block's event set, \<open>verifyServedEvents\<close> accepts
  a well-formed set of served logs exactly when the block number is the committed one and the logs are
  the committed ones, log by log in order, with the same addresses, topics and data: nothing added,
  dropped, reordered or changed, and no boundary between fields shifted.\<close>

theorem served_events_exact:
  assumes "canonicalEventSetHash K n ls = Inr h" and "noCollision K n ls m ks"
    and "eventSetPreimage m ks = Inr q"
  shows "verifyServedEvents K (BytesIn h) m ks = Inr (blockValue m = blockValue n \<and> map logBytes ks = map logBytes ls)"
  using assms by (rule served_iff)

theorem served_events_exact_witness:
  "\<exists>h. canonicalEventSetHash tailHash (NumBlock 7) [sampleLog\<lparr>ldata := BytesIn [5]\<rparr>] = Inr h \<and>
     verifyServedEvents tailHash (BytesIn h) (NumBlock 7) [sampleLog\<lparr>ldata := BytesIn [6]\<rparr>] = Inr False"
proof -
  obtain h where h: "canonicalEventSetHash tailHash (NumBlock 7) [sampleLog\<lparr>ldata := BytesIn [5]\<rparr>] = Inr h"
    by (simp add: canonicalEventSetHash_def sample_preimage)
  with served_events_exact [OF h sample_collision sample_preimage, of 6] show ?thesis
    by (simp add: logBytes_def bytesOf_def toBytes_def)
qed

text \<open>C28: Block completeness. When \<open>verifyBlockCompleteness\<close> returns true, the anchor the chain served
  was read and the logs the indexer served, decoded from hex, are those of the event set whose
  commitment the anchor is.\<close>

theorem block_completeness:
  assumes "verifyBlockCompleteness K T subgroveId m = Inr True"
    and "fetchAnchorCommitment T subgroveId m = canonicalEventSetHash K n ls"
    and "\<forall>response ks. fetchMatchedLogs T subgroveId m = Inr response \<and> logsFromMatchedResponse response = Inr ks \<longrightarrow>
      noCollision K n ls m ks"
  shows "\<exists>response ks. fetchMatchedLogs T subgroveId m = Inr response \<and> logsFromMatchedResponse response = Inr ks \<and>
    blockValue m = blockValue n \<and> map logBytes ks = map logBytes ls"
proof -
  from assms(1) obtain h response ks where h: "fetchAnchorCommitment T subgroveId m = Inr h"
    and r: "fetchMatchedLogs T subgroveId m = Inr response" "logsFromMatchedResponse response = Inr ks"
    and v: "verifyServedEvents K (BytesIn h) m ks = Inr True"
    by (auto simp: verifyBlockCompleteness_def)
  obtain q where "eventSetPreimage m ks = Inr q" using v by (auto simp: verifyServedEvents_def canonicalEventSetHash_def)
  moreover have "canonicalEventSetHash K n ls = Inr h" using assms(2) h by simp
  moreover have "noCollision K n ls m ks" using assms(3) r by blast
  ultimately show ?thesis using served_iff [of K n ls h m ks q] v r by auto
qed

definition sampleTransports :: transports where
  "sampleTransports =
     \<lparr>rpc = (\<lambda>_. Inr (Some \<lparr>code = None, log_text = None, info_text = None, abci_value = Some ''v''\<rparr>)),
      getLogs = (\<lambda>_. Inr \<lparr>matched_logs = Some [\<lparr>iaddress = Text (bytesToHex (replicate 20 1)), itopics = Some [],
        idata = Text (bytesToHex [5])\<rparr>]\<rparr>),
      anchorField = (\<lambda>_. Some (bytesToHex (tailHash (DOMAIN_TAG @ beBytes 8 7 @ beBytes 8 1 @ replicate 20 1 @
        beBytes 4 0 @ beBytes 4 1 @ [5])))), blockText = (\<lambda>_. ''7'')\<rparr>"

theorem block_completeness_witness:
  "verifyBlockCompleteness tailHash sampleTransports ''s'' (NumBlock 7) = Inr True \<and>
   (\<exists>response ks. fetchMatchedLogs sampleTransports ''s'' (NumBlock 7) = Inr response \<and>
      logsFromMatchedResponse response = Inr ks \<and> map logBytes ks = [(replicate 20 1, [], [5])])"
proof -
  have hex: "hexIn (bytesToHex b) = Inr b" for b
    by (simp add: hexIn_def hexToBytes_def strip0x_bytesToHex hexPairs_bytesToHex del: bytesToHex.simps)
  have len: "length (tailHash x) = 32" for x by (simp add: tailHash_def min_def)
  let ?l = "sampleLog\<lparr>ldata := BytesIn [5]\<rparr>"
  have a: "fetchAnchorCommitment sampleTransports ''s'' (NumBlock 7) = canonicalEventSetHash tailHash (NumBlock 7) [?l]"
    by (simp add: fetchAnchorCommitment_def sampleTransports_def hex len COMMITMENT_LEN_def canonicalEventSetHash_def
        sample_preimage del: bytesToHex.simps)
  obtain response where r: "fetchMatchedLogs sampleTransports ''s'' (NumBlock 7) = Inr response"
    and logs: "logsFromMatchedResponse response = Inr [?l]"
    by (simp add: fetchMatchedLogs_def sampleTransports_def logsFromMatchedResponse_def servedLog_def hex sampleLog_def
        del: bytesToHex.simps)
  obtain h where h: "canonicalEventSetHash tailHash (NumBlock 7) [?l] = Inr h"
    by (simp add: canonicalEventSetHash_def sample_preimage)
  have v: "verifyBlockCompleteness tailHash sampleTransports ''s'' (NumBlock 7) = Inr True"
    using served_iff [OF h sample_collision sample_preimage, of 5] a r logs h
    by (simp add: verifyBlockCompleteness_def)
  have "\<forall>response ks. fetchMatchedLogs sampleTransports ''s'' (NumBlock 7) = Inr response \<and>
      logsFromMatchedResponse response = Inr ks \<longrightarrow> noCollision tailHash (NumBlock 7) [?l] (NumBlock 7) ks"
    using r logs sample_collision [of 5 5] by auto
  from block_completeness [OF v a this] v show ?thesis
    by (auto simp: logBytes_def bytesOf_def toBytes_def sampleLog_def)
qed

end
