(* ===== verification/Element.thy ===== *)
theory Element
  imports Bincode
begin

text \<open>
  Decoding GroveDB elements (\<open>src/src/grovedb/element.ts\<close>): \<open>deserializeElement\<close>, the element
  and reference-path readers it runs, and the questions the verifier asks of an element. The
  lemmas: every element's wire encoding (\<open>encElement\<close>, the Rust type in that file's header
  comment) is read back, and bytes with anything after an element are refused.
\<close>

definition readReferencePath :: "bytes list rmeth" where
  "readReferencePath = bind readVariant (\<lambda>variant.
     if variant = 0 then readVecOfByteVec
     else if variant = 1 \<or> variant = 2 \<or> variant = 3 then bind readU8 (\<lambda>_. readVecOfByteVec)
     else if variant = 4 then bind readByteVec (\<lambda>p. ret [p])
     else if variant = 5 then readVecOfByteVec
     else if variant = 6 then bind readByteVec (\<lambda>p. ret [p])
     else throw (UnknownReferenceVariant variant))"

definition readElement :: "Element rmeth" where
  "readElement = bind readVariant (\<lambda>variant.
     if variant = 0 then
       bind readByteVec (\<lambda>value. bind readOptionByteVec (\<lambda>flags. ret (Item value flags)))
     else if variant = 1 then
       bind readReferencePath (\<lambda>path. bind readOptionU8 (\<lambda>_. bind readOptionByteVec (\<lambda>flags.
         ret (Reference path flags))))
     else if variant = 2 then
       bind readOptionByteVec (\<lambda>rootKey. bind readOptionByteVec (\<lambda>flags.
         ret (Tree rootKey flags)))
     else if variant = 3 then
       bind readVarintI64 (\<lambda>value. bind readOptionByteVec (\<lambda>flags. ret (SumItem value flags)))
     else if variant = 4 then
       bind readOptionByteVec (\<lambda>rootKey. bind readVarintI64 (\<lambda>sumValue.
         bind readOptionByteVec (\<lambda>flags. ret (SumTree rootKey sumValue flags))))
     else if variant = 5 then
       bind readOptionByteVec (\<lambda>rootKey. bind readVarintI128 (\<lambda>sumValue.
         bind readOptionByteVec (\<lambda>flags. ret (BigSumTree rootKey sumValue flags))))
     else if variant = 6 then
       bind readOptionByteVec (\<lambda>rootKey. bind readVarintU64 (\<lambda>count.
         bind readOptionByteVec (\<lambda>flags. ret (CountTree rootKey count flags))))
     else if variant = 7 then
       bind readOptionByteVec (\<lambda>rootKey. bind readVarintU64 (\<lambda>count.
         bind readVarintI64 (\<lambda>sum. bind readOptionByteVec (\<lambda>flags.
           ret (CountSumTree rootKey count sum flags)))))
     else throw (UnknownElementVariant variant))"

definition deserializeElement :: "bytes \<Rightarrow> gerror + Element" where
  "deserializeElement bs =
     bnd (readElement (newReader bs)) (\<lambda>(element, reader).
       if hasMore reader then Inl (TrailingElementBytes (remaining reader) (position reader))
       else Inr element)"

fun isTreeElement :: "Element \<Rightarrow> bool" where
  "isTreeElement (Tree _ _) = True"
| "isTreeElement (SumTree _ _ _) = True"
| "isTreeElement (BigSumTree _ _ _) = True"
| "isTreeElement (CountTree _ _ _) = True"
| "isTreeElement (CountSumTree _ _ _ _) = True"
| "isTreeElement _ = False"

fun hasRootKey :: "Element \<Rightarrow> bool" where
  "hasRootKey (Tree rootKey _) = (rootKey \<noteq> None)"
| "hasRootKey (SumTree rootKey _ _) = (rootKey \<noteq> None)"
| "hasRootKey (BigSumTree rootKey _ _) = (rootKey \<noteq> None)"
| "hasRootKey (CountTree rootKey _ _) = (rootKey \<noteq> None)"
| "hasRootKey (CountSumTree rootKey _ _ _) = (rootKey \<noteq> None)"
| "hasRootKey _ = False"

fun getTreeFeatureType :: "Element \<Rightarrow> string option" where
  "getTreeFeatureType (Tree _ _) = Some ''BasicMerkNode''"
| "getTreeFeatureType (SumTree _ _ _) = Some ''SummedMerkNode''"
| "getTreeFeatureType (BigSumTree _ _ _) = Some ''BigSummedMerkNode''"
| "getTreeFeatureType (CountTree _ _ _) = Some ''CountedMerkNode''"
| "getTreeFeatureType (CountSumTree _ _ _ _) = Some ''CountedSummedMerkNode''"
| "getTreeFeatureType _ = None"

lemma hasRootKey_isTree: "hasRootKey e \<Longrightarrow> isTreeElement e"
  by (cases e) auto

lemma getTreeFeatureType_isTree: "getTreeFeatureType e \<noteq> None \<longleftrightarrow> isTreeElement e"
  by (cases e) auto

subsection \<open>The wire encoding\<close>

text \<open>A reference's path in one of its seven variants, its height byte where it has one, and its
  hop limit: what the reader drops.\<close>

record wireRef =
  refVariant :: nat
  refHeight :: byte
  refHops :: "byte option"

definition encReferencePath :: "wireRef \<Rightarrow> bytes list \<Rightarrow> bytes" where
  "encReferencePath w path = bincodeUint (refVariant w) @
     (if refVariant w \<in> {1, 2, 3} then refHeight w # bincodeVec bincodeBytes path
      else if refVariant w \<in> {4, 6} then bincodeBytes (hd path)
      else bincodeVec bincodeBytes path)"

definition refDom :: "wireRef \<Rightarrow> bytes list \<Rightarrow> bool" where
  "refDom w path \<longleftrightarrow> refVariant w \<le> 6 \<and> vecsDom path \<and>
     (refVariant w \<in> {4, 6} \<longrightarrow> length path = 1)"

abbreviation encOpt :: "bytes option \<Rightarrow> bytes" where
  "encOpt \<equiv> bincodeOption bincodeBytes"

abbreviation encInt :: "int \<Rightarrow> bytes" where
  "encInt i \<equiv> bincodeUint (zigzagEnc i)"

fun encElement :: "wireRef \<Rightarrow> Element \<Rightarrow> bytes" where
  "encElement w (Item v f) = bincodeUint 0 @ bincodeBytes v @ encOpt f"
| "encElement w (Reference p f) =
     bincodeUint 1 @ encReferencePath w p @ bincodeOption (\<lambda>b. [b]) (refHops w) @ encOpt f"
| "encElement w (Tree k f) = bincodeUint 2 @ encOpt k @ encOpt f"
| "encElement w (SumItem i f) = bincodeUint 3 @ encInt i @ encOpt f"
| "encElement w (SumTree k i f) = bincodeUint 4 @ encOpt k @ encInt i @ encOpt f"
| "encElement w (BigSumTree k i f) = bincodeUint 5 @ encOpt k @ encInt i @ encOpt f"
| "encElement w (CountTree k c f) = bincodeUint 6 @ encOpt k @ bincodeUint c @ encOpt f"
| "encElement w (CountSumTree k c i f) =
     bincodeUint 7 @ encOpt k @ bincodeUint c @ encInt i @ encOpt f"

definition inI64 :: "int \<Rightarrow> bool" where
  "inI64 i \<longleftrightarrow> - (2 ^ 63) \<le> i \<and> i < 2 ^ 63"

definition inI128 :: "int \<Rightarrow> bool" where
  "inI128 i \<longleftrightarrow> - (2 ^ 127) \<le> i \<and> i < 2 ^ 127"

fun elementDom :: "wireRef \<Rightarrow> Element \<Rightarrow> bool" where
  "elementDom w (Item v f) \<longleftrightarrow> vecDom v \<and> optDom vecDom f"
| "elementDom w (Reference p f) \<longleftrightarrow> refDom w p \<and> optDom vecDom f"
| "elementDom w (Tree k f) \<longleftrightarrow> optDom vecDom k \<and> optDom vecDom f"
| "elementDom w (SumItem i f) \<longleftrightarrow> inI64 i \<and> optDom vecDom f"
| "elementDom w (SumTree k i f) \<longleftrightarrow> optDom vecDom k \<and> inI64 i \<and> optDom vecDom f"
| "elementDom w (BigSumTree k i f) \<longleftrightarrow> optDom vecDom k \<and> inI128 i \<and> optDom vecDom f"
| "elementDom w (CountTree k c f) \<longleftrightarrow> optDom vecDom k \<and> c < 2 ^ 64 \<and> optDom vecDom f"
| "elementDom w (CountSumTree k c i f) \<longleftrightarrow>
     optDom vecDom k \<and> c < 2 ^ 64 \<and> inI64 i \<and> optDom vecDom f"

lemma reads_variant: "v < 100 \<Longrightarrow> reads feeds readVariant (bincodeUint v) v"
  by (rule reads_readVariant) (simp add: MAX_SAFE_INTEGER_def)

lemma reads_i64: "inI64 i \<Longrightarrow> reads feeds readVarintI64 (encInt i) i"
  unfolding readVarintI64_eq by (rule i128.reads_enc) (simp add: inI64_def)

lemma reads_i128: "inI128 i \<Longrightarrow> reads feeds readVarintI128 (encInt i) i"
  by (rule i128.reads_enc) (simp add: inI128_def)

lemmas reads_fields = byteVec.reads_enc optByteVec.reads_enc vecOfByteVec.reads_enc
  u64.reads_enc reads_i64 reads_i128 optU8.reads_enc

lemma reads_readReferencePath:
  assumes "refDom w path"
  shows "reads feeds readReferencePath (encReferencePath w path) path"
proof -
  have le: "refVariant w < 100" using assms by (simp add: refDom_def)
  have vec: "reads feeds readVecOfByteVec (bincodeVec bincodeBytes path) path"
    using assms by (simp add: refDom_def vecOfByteVec.reads_enc)
  have height: "reads feeds (bind readU8 (\<lambda>_. readVecOfByteVec)) (h # bincodeVec bincodeBytes path) path"
    for h
    using reads_bind [where m = readU8 and bs = "[h]" and f = "\<lambda>_. readVecOfByteVec",
        OF reads_readU8 vec] by simp
  have one: "reads feeds (bind readByteVec (\<lambda>p. ret [p])) (bincodeBytes (hd path)) path"
    if "refVariant w \<in> {4, 6}"
    using assms that
    by (intro reads_last [OF byteVec.reads_enc]) (auto simp: refDom_def vecsDom_def length_Suc_conv)
  have "refVariant w \<le> 6" using assms by (simp add: refDom_def)
  then show ?thesis
    unfolding readReferencePath_def encReferencePath_def
    by (intro reads_bind [OF reads_variant [OF le]]) (use vec height one in \<open>auto simp: numeral_eq_Suc le_Suc_eq\<close>)
qed

lemma reads_readElement: "elementDom w e \<Longrightarrow> reads feeds readElement (encElement w e) e"
  unfolding readElement_def
  by (cases e)
    (auto intro!: reads_bind [OF reads_variant] reads_bind [OF byteVec.reads_enc]
      reads_bind [OF optByteVec.reads_enc] reads_bind [OF reads_readReferencePath]
      reads_bind [OF optU8.reads_enc] reads_bind [OF reads_i64] reads_bind [OF reads_i128]
      reads_bind [OF u64.reads_enc] reads_last [OF optByteVec.reads_enc])

lemma isLocal_readReferencePath [isLocal_intros]: "isLocal readReferencePath"
  unfolding readReferencePath_def by (intro isLocal_intros)

lemma isLocal_readElement [isLocal_intros]: "isLocal readElement"
  unfolding readElement_def by (intro isLocal_intros)

lemma staysIn_readReferencePath [staysIn_intros]: "staysIn readReferencePath"
  unfolding readReferencePath_def by (intro staysIn_intros)

lemma staysIn_readElement [staysIn_intros]: "staysIn readElement"
  unfolding readElement_def by (intro staysIn_intros)

interpretation element: codec feeds newReader "elementDom w" "encElement w" readElement
  by unfold_locales (auto intro: feeds_det reads_readElement)

text \<open>The empty-tree and the non-empty-tree answers the verifier branches on.\<close>

lemma deserializeElement_Inr:
  "deserializeElement bs = Inr e \<longleftrightarrow>
     (\<exists>r. readElement (newReader bs) = Inr (e, r) \<and> \<not> hasMore r)"
  by (auto simp: deserializeElement_def split: if_splits)

lemma deserialize_encElement: "elementDom w e \<Longrightarrow> deserializeElement (encElement w e) = Inr e"
proof -
  assume "elementDom w e"
  then obtain r where "readElement (newReader (encElement w e)) = Inr (e, r)" "feeds r []"
    using element.read_back [of w e "[]"] by auto
  then show ?thesis by (simp add: deserializeElement_Inr feeds_hasMore)
qed

text \<open>Element round trip. The wire encoding of any element (whose vectors have a safe length
  and whose sums and counts fit their Rust types), with any of the seven reference-path variants,
  deserializes to that element.\<close>

theorem element_roundtrip:
  assumes "elementDom w e"
  shows "deserializeElement (encElement w e) = Inr e"
  using assms by (rule deserialize_encElement)

theorem element_roundtrip_witness:
  "deserializeElement [1, 3, 2, 1, 1, 97, 0, 1, 1, 9] = Inr (Reference [[97]] (Some [9]))"
proof -
  let ?w = "\<lparr>refVariant = 3, refHeight = 2, refHops = None\<rparr>"
  have "encElement ?w (Reference [[97]] (Some [9])) = [1, 3, 2, 1, 1, 97, 0, 1, 1, 9]"
    by (simp add: encReferencePath_def bincodeUint_def bincodeVec_def bincodeBytes_def
        bincodeOption_def)
  with element_roundtrip [of ?w "Reference [[97]] (Some [9])"] show ?thesis
    by (simp add: refDom_def vecsDom_def vecDom_def optDom_def MAX_SAFE_INTEGER_def)
qed

text \<open>No trailing bytes. When bytes deserialize to an element, the same bytes with anything
  after them are refused, whatever follows: no two accepted byte strings are one a prefix of the
  other.\<close>

theorem element_no_trailing_bytes:
  assumes "deserializeElement bs = Inr e" and "x \<noteq> []"
  shows "\<exists>n p. deserializeElement (bs @ x) = Inl (TrailingElementBytes n p)"
proof -
  obtain r where r: "readElement (newReader bs) = Inr (e, r)" "\<not> hasMore r"
    using assms(1) by (auto simp: deserializeElement_Inr)
  then have "readElement (newReader (bs @ x)) = Inr (e, followed x r)"
    using isLocalD [OF isLocal_readElement r(1), of x] by simp
  moreover have "rdata r = bs" "roffset r \<le> length bs"
    using staysInD [OF staysIn_readElement r(1)] by (auto simp: newReader_def)
  moreover have "0 < length x" using assms(2) by simp
  ultimately show ?thesis
    by (simp add: deserializeElement_def hasMore_def del: length_greater_0_conv)
qed

theorem element_no_trailing_bytes_witness:
  "deserializeElement [0, 1, 9, 0] = Inr (Item [9] None) \<and>
   (\<exists>n p. deserializeElement ([0, 1, 9, 0] @ [5]) = Inl (TrailingElementBytes n p))"
proof -
  let ?w = "\<lparr>refVariant = 0, refHeight = 0, refHops = None\<rparr>"
  have "encElement ?w (Item [9] None) = [0, 1, 9, 0]"
    by (simp add: bincodeUint_def bincodeBytes_def bincodeOption_def)
  then have "deserializeElement [0, 1, 9, 0] = Inr (Item [9] None)"
    using deserialize_encElement [of ?w "Item [9] None"]
    by (simp add: vecDom_def optDom_def MAX_SAFE_INTEGER_def)
  with element_no_trailing_bytes [of "[0, 1, 9, 0]" _ "[5]"] show ?thesis by blast
qed

end
