(* ===== verification/Merk_Decoder.thy ===== *)
theory Merk_Decoder
  imports Bincode
begin

unbundle bit_operations_syntax

text \<open>
  The decoder of merk proof operations (\<open>src/src/grovedb/merk-decoder.ts\<close>). The class
  \<open>MerkDecoder\<close> is the record \<open>decoder\<close>; \<open>nextOp\<close> is its \<open>next\<close> and \<open>decodeMerkOps\<close> runs it to
  the end. The lemmas: it terminates because every operation moves the offset forward; every
  list of operations is read back from its encoding (\<open>encOps\<close>); and what it returns is well
  formed (32-byte hashes, keys of at most 255 bytes, values of at most \<open>MAX_VALUE_LEN\<close>).
\<close>

subsection \<open>The decoder\<close>

record decoder =
  dbytes :: bytes
  doffset :: nat

type_synonym 'a dmeth = "(decoder, gerror, 'a) meth"

definition newDecoder :: "bytes \<Rightarrow> decoder" where
  "newDecoder bs = \<lparr>dbytes = bs, doffset = 0\<rparr>"

definition LARGE_VALUE_THRESHOLD :: nat where
  "LARGE_VALUE_THRESHOLD = 65536"

definition MAX_VALUE_LEN :: nat where
  "MAX_VALUE_LEN = 64 * 1024 * 1024"

definition hasMoreOps :: "decoder \<Rightarrow> bool" where
  "hasMoreOps d \<longleftrightarrow> doffset d < length (dbytes d)"

definition decU8 :: "byte dmeth" where
  "decU8 d =
     (if doffset d \<ge> length (dbytes d) then Inl UnexpectedEndOfData
      else Inr (dbytes d ! doffset d, d\<lparr>doffset := doffset d + 1\<rparr>))"

definition decU16 :: "nat dmeth" where
  "decU16 d =
     (if doffset d + 2 > length (dbytes d) then Inl UnexpectedEndOfData
      else Inr (push_bit 8 (unat (dbytes d ! doffset d)) OR unat (dbytes d ! (doffset d + 1)),
                d\<lparr>doffset := doffset d + 2\<rparr>))"

definition decU32 :: "nat dmeth" where
  "decU32 d =
     (if doffset d + 4 > length (dbytes d) then Inl UnexpectedEndOfData
      else
        (let b = dbytes d; p = doffset d in
         Inr (unat (b ! p) * 0x1000000 +
                (push_bit 16 (unat (b ! (p + 1))) OR push_bit 8 (unat (b ! (p + 2))) OR
                 unat (b ! (p + 3))),
              d\<lparr>doffset := doffset d + 4\<rparr>)))"

definition decBytes :: "nat \<Rightarrow> bytes dmeth" where
  "decBytes n d =
     (if doffset d + n > length (dbytes d) then Inl UnexpectedEndOfData
      else Inr (take n (drop (doffset d) (dbytes d)), d\<lparr>doffset := doffset d + n\<rparr>))"

definition decValueLength :: "bool \<Rightarrow> nat dmeth" where
  "decValueLength large =
     (if \<not> large then decU16
      else bind decU32 (\<lambda>len.
        if len < LARGE_VALUE_THRESHOLD then throw (LargeValueTooShort len)
        else if len > MAX_VALUE_LEN then throw (LargeValueTooLong len)
        else ret len))"

definition decVarint64 :: "nat dmeth" where
  "decVarint64 d = bnd (decodeVarint64 (dbytes d) (doffset d)) (\<lambda>(v, n).
     Inr (v, d\<lparr>doffset := doffset d + n\<rparr>))"

definition decSignedVarint64 :: "int dmeth" where
  "decSignedVarint64 d = bnd (decodeSignedVarint64 (dbytes d) (doffset d)) (\<lambda>(v, n).
     Inr (v, d\<lparr>doffset := doffset d + n\<rparr>))"

text \<open>The little-endian i128 of a big sum: 16 bytes, negative when the top bit is set.\<close>

definition leNat :: "bytes \<Rightarrow> nat" where
  "leNat bs = foldl (\<lambda>s (i, b). s OR push_bit (8 * i) (unat b)) 0 (enumerate 0 bs)"

definition leI128 :: "bytes \<Rightarrow> int" where
  "leI128 bs =
     (if bs ! 15 AND 128 \<noteq> 0 then int (leNat bs) - 2 ^ 128 else int (leNat bs))"

definition decodeFeatureType :: "TreeFeatureType dmeth" where
  "decodeFeatureType = bind decU8 (\<lambda>code.
     if code = 0x00 then ret BasicMerkNode
     else if code = 0x01 then bind decSignedVarint64 (\<lambda>sum. ret (SummedMerkNode sum))
     else if code = 0x02 then bind (decBytes 16) (\<lambda>bs. ret (BigSummedMerkNode (leI128 bs)))
     else if code = 0x03 then bind decVarint64 (\<lambda>count. ret (CountedMerkNode count))
     else if code = 0x04 then
       bind decVarint64 (\<lambda>count. bind decSignedVarint64 (\<lambda>sum.
         ret (CountedSummedMerkNode count sum)))
     else throw (UnknownFeatureType (unat code)))"

definition decKey :: "bytes dmeth" where
  "decKey = bind decU8 (\<lambda>keyLen. decBytes (unat keyLen))"

definition decValue :: "bool \<Rightarrow> bytes dmeth" where
  "decValue large = bind (decValueLength large) decBytes"

definition decodeHash :: "MerkNode dmeth" where
  "decodeHash = bind (decBytes HASH_LENGTH) (\<lambda>h. ret (Hash h))"

definition decodeKVHash :: "MerkNode dmeth" where
  "decodeKVHash = bind (decBytes HASH_LENGTH) (\<lambda>h. ret (KVHash h))"

definition decodeKV :: "bool \<Rightarrow> MerkNode dmeth" where
  "decodeKV large = bind decKey (\<lambda>key. bind (decValue large) (\<lambda>value. ret (KV key value)))"

definition decodeKVValueHash :: "bool \<Rightarrow> MerkNode dmeth" where
  "decodeKVValueHash large = bind decKey (\<lambda>key. bind (decValue large) (\<lambda>value.
     bind (decBytes HASH_LENGTH) (\<lambda>h. ret (KVValueHash key value h))))"

definition decodeKVDigest :: "MerkNode dmeth" where
  "decodeKVDigest = bind decKey (\<lambda>key. bind (decBytes HASH_LENGTH) (\<lambda>h. ret (KVDigest key h)))"

definition decodeKVRefValueHash :: "bool \<Rightarrow> MerkNode dmeth" where
  "decodeKVRefValueHash large = bind decKey (\<lambda>key. bind (decValue large) (\<lambda>value.
     bind (decBytes HASH_LENGTH) (\<lambda>h. ret (KVRefValueHash key value h))))"

definition decodeKVValueHashFeatureType :: "bool \<Rightarrow> MerkNode dmeth" where
  "decodeKVValueHashFeatureType large = bind decKey (\<lambda>key. bind (decValue large) (\<lambda>value.
     bind (decBytes HASH_LENGTH) (\<lambda>h. bind decodeFeatureType (\<lambda>ft.
       ret (KVValueHashFeatureType key value h ft)))))"

definition push :: "MerkNode dmeth \<Rightarrow> MerkOp option dmeth" where
  "push m = bind m (\<lambda>node. ret (Some (Push node)))"

definition pushInverted :: "MerkNode dmeth \<Rightarrow> MerkOp option dmeth" where
  "pushInverted m = bind m (\<lambda>node. ret (Some (PushInverted node)))"

definition decodeOp :: "byte \<Rightarrow> MerkOp option dmeth" where
  "decodeOp opCode =
     (if opCode = 0x01 then push decodeHash
      else if opCode = 0x02 then push decodeKVHash
      else if opCode = 0x03 then push (decodeKV False)
      else if opCode = 0x04 then push (decodeKVValueHash False)
      else if opCode = 0x05 then push decodeKVDigest
      else if opCode = 0x06 then push (decodeKVRefValueHash False)
      else if opCode = 0x07 then push (decodeKVValueHashFeatureType False)
      else if opCode = 0x20 then push (decodeKV True)
      else if opCode = 0x21 then push (decodeKVValueHash True)
      else if opCode = 0x22 then push (decodeKVRefValueHash True)
      else if opCode = 0x23 then push (decodeKVValueHashFeatureType True)
      else if opCode = 0x08 then pushInverted decodeHash
      else if opCode = 0x09 then pushInverted decodeKVHash
      else if opCode = 0x0a then pushInverted (decodeKV False)
      else if opCode = 0x0b then pushInverted (decodeKVValueHash False)
      else if opCode = 0x0c then pushInverted decodeKVDigest
      else if opCode = 0x0d then pushInverted (decodeKVRefValueHash False)
      else if opCode = 0x0e then pushInverted (decodeKVValueHashFeatureType False)
      else if opCode = 0x28 then pushInverted (decodeKV True)
      else if opCode = 0x29 then pushInverted (decodeKVValueHash True)
      else if opCode = 0x2a then pushInverted (decodeKVRefValueHash True)
      else if opCode = 0x2b then pushInverted (decodeKVValueHashFeatureType True)
      else if opCode = 0x10 then ret (Some Parent)
      else if opCode = 0x11 then ret (Some Child)
      else if opCode = 0x12 then ret (Some ParentInverted)
      else if opCode = 0x13 then ret (Some ChildInverted)
      else throw (UnknownOpCode (unat opCode)))"

definition nextOp :: "MerkOp option dmeth" where
  "nextOp d = (if \<not> hasMoreOps d then Inr (None, d) else bind decU8 decodeOp d)"

subsection \<open>The offset only moves forward\<close>

definition goesOn :: "'a dmeth \<Rightarrow> bool" where
  "goesOn m \<longleftrightarrow> (\<forall>d x e. m d = Inr (x, e) \<longrightarrow> dbytes e = dbytes d \<and> doffset d \<le> doffset e)"

named_theorems goesOn_intros \<open>decoding methods that keep the bytes and move the offset forward\<close>

lemma goesOnI:
  "(\<And>d x e. m d = Inr (x, e) \<Longrightarrow> dbytes e = dbytes d \<and> doffset d \<le> doffset e) \<Longrightarrow> goesOn m"
  unfolding goesOn_def by blast

lemma goesOnD: "goesOn m \<Longrightarrow> m d = Inr (x, e) \<Longrightarrow> dbytes e = dbytes d \<and> doffset d \<le> doffset e"
  unfolding goesOn_def by blast

lemma goesOn_bind [goesOn_intros]:
  assumes "goesOn m" and "\<And>x. goesOn (f x)"
  shows "goesOn (bind m f)"
proof (rule goesOnI)
  fix d y e
  assume "bind m f d = Inr (y, e)"
  then obtain x c where m: "m d = Inr (x, c)" and f: "f x c = Inr (y, e)" by auto
  from goesOnD [OF assms(1) m] goesOnD [OF assms(2) f]
  show "dbytes e = dbytes d \<and> doffset d \<le> doffset e" by auto
qed

lemma goesOn_basic [goesOn_intros]:
  "goesOn (ret x)" "goesOn (throw e)" "goesOn decU8" "goesOn decU16" "goesOn decU32"
  "goesOn (decBytes n)" "goesOn decVarint64" "goesOn decSignedVarint64"
  by (auto intro!: goesOnI simp: decU8_def decU16_def decU32_def decBytes_def decVarint64_def
      decSignedVarint64_def Let_def split: if_splits)

lemma goesOn_if [goesOn_intros]: "goesOn m \<Longrightarrow> goesOn n \<Longrightarrow> goesOn (if c then m else n)"
  by simp

lemma goesOn_fields [goesOn_intros]:
  "goesOn (decValueLength l)" "goesOn decKey" "goesOn decodeFeatureType"
  unfolding decValueLength_def decKey_def decodeFeatureType_def
  by (intro goesOn_intros)+

lemma goesOn_decValue [goesOn_intros]: "goesOn (decValue l)"
  unfolding decValue_def by (intro goesOn_intros)

lemma goesOn_nodes [goesOn_intros]:
  "goesOn decodeHash" "goesOn decodeKVHash" "goesOn (decodeKV l)" "goesOn (decodeKVValueHash l)"
  "goesOn decodeKVDigest" "goesOn (decodeKVRefValueHash l)"
  "goesOn (decodeKVValueHashFeatureType l)"
  unfolding decodeHash_def decodeKVHash_def decodeKV_def decodeKVValueHash_def
    decodeKVDigest_def decodeKVRefValueHash_def decodeKVValueHashFeatureType_def
  by (intro goesOn_intros)+

lemma goesOn_push [goesOn_intros]: "goesOn m \<Longrightarrow> goesOn (push m)" "goesOn m \<Longrightarrow> goesOn (pushInverted m)"
  unfolding push_def pushInverted_def by (intro goesOn_intros; assumption)+

lemma goesOn_decodeOp [goesOn_intros]: "goesOn (decodeOp b)"
  unfolding decodeOp_def by (intro goesOn_intros)

lemma nextOp_progress:
  assumes "nextOp d = Inr (Some op, e)"
  shows "dbytes e = dbytes d \<and> doffset d < doffset e \<and> doffset d < length (dbytes d)"
proof -
  from assms have more: "doffset d < length (dbytes d)"
    and "bind decU8 decodeOp d = Inr (Some op, e)"
    by (auto simp: nextOp_def hasMoreOps_def split: if_splits)
  then obtain b c where c: "decU8 d = Inr (b, c)" and e: "decodeOp b c = Inr (Some op, e)" by auto
  from c have "dbytes c = dbytes d \<and> doffset c = doffset d + 1"
    by (auto simp: decU8_def split: if_splits)
  with goesOnD [OF goesOn_decodeOp e] more show ?thesis by auto
qed

subsection \<open>Decoding all operations\<close>

function collectOps :: "decoder \<Rightarrow> gerror + MerkOp list" where
  "collectOps d =
     (case nextOp d of
        Inl e \<Rightarrow> Inl e
      | Inr (None, _) \<Rightarrow> Inr []
      | Inr (Some op, d') \<Rightarrow> bnd (collectOps d') (\<lambda>ops. Inr (op # ops)))"
  by pat_completeness auto
termination
  by (relation "measure (\<lambda>d. length (dbytes d) - doffset d)") (auto dest!: nextOp_progress)

declare collectOps.simps [simp del]

definition decodeMerkOps :: "bytes \<Rightarrow> gerror + MerkOp list" where
  "decodeMerkOps bs = collectOps (newDecoder bs)"

subsection \<open>The encoding of operations\<close>

definition encValue :: "bytes \<Rightarrow> bytes" where
  "encValue v =
     (if length v < LARGE_VALUE_THRESHOLD then beBytes 2 (length v) else beBytes 4 (length v)) @ v"

definition encKey :: "bytes \<Rightarrow> bytes" where
  "encKey k = of_nat (length k) # k"

fun encFeature :: "TreeFeatureType \<Rightarrow> bytes" where
  "encFeature BasicMerkNode = [0x00]"
| "encFeature (SummedMerkNode i) = 0x01 # varintBytes (zigzagEnc i)"
| "encFeature (BigSummedMerkNode i) = 0x02 # rev (beBytes 16 (nat (i mod 2 ^ 128)))"
| "encFeature (CountedMerkNode c) = 0x03 # varintBytes c"
| "encFeature (CountedSummedMerkNode c i) = 0x04 # varintBytes c @ varintBytes (zigzagEnc i)"

text \<open>The op code of a push: inverted codes mirror the others, large-value codes are apart.\<close>

fun pushCode :: "bool \<Rightarrow> MerkNode \<Rightarrow> byte" where
  "pushCode iv (Hash _) = (if iv then 0x08 else 0x01)"
| "pushCode iv (KVHash _) = (if iv then 0x09 else 0x02)"
| "pushCode iv (KV _ v) =
     (if length v < LARGE_VALUE_THRESHOLD then if iv then 0x0a else 0x03
      else if iv then 0x28 else 0x20)"
| "pushCode iv (KVValueHash _ v _) =
     (if length v < LARGE_VALUE_THRESHOLD then if iv then 0x0b else 0x04
      else if iv then 0x29 else 0x21)"
| "pushCode iv (KVDigest _ _) = (if iv then 0x0c else 0x05)"
| "pushCode iv (KVRefValueHash _ v _) =
     (if length v < LARGE_VALUE_THRESHOLD then if iv then 0x0d else 0x06
      else if iv then 0x2a else 0x22)"
| "pushCode iv (KVValueHashFeatureType _ v _ _) =
     (if length v < LARGE_VALUE_THRESHOLD then if iv then 0x0e else 0x07
      else if iv then 0x2b else 0x23)"

fun encNode :: "MerkNode \<Rightarrow> bytes" where
  "encNode (Hash h) = h"
| "encNode (KVHash h) = h"
| "encNode (KV k v) = encKey k @ encValue v"
| "encNode (KVValueHash k v h) = encKey k @ encValue v @ h"
| "encNode (KVDigest k h) = encKey k @ h"
| "encNode (KVRefValueHash k v h) = encKey k @ encValue v @ h"
| "encNode (KVValueHashFeatureType k v h ft) = encKey k @ encValue v @ h @ encFeature ft"

fun encOp :: "MerkOp \<Rightarrow> bytes" where
  "encOp (Push n) = pushCode False n # encNode n"
| "encOp (PushInverted n) = pushCode True n # encNode n"
| "encOp Parent = [0x10]"
| "encOp Child = [0x11]"
| "encOp ParentInverted = [0x12]"
| "encOp ChildInverted = [0x13]"

definition encOps :: "MerkOp list \<Rightarrow> bytes" where
  "encOps ops = concat (map encOp ops)"

text \<open>Well-formed operations: what fits the encoding.\<close>

fun wfFeature :: "TreeFeatureType \<Rightarrow> bool" where
  "wfFeature BasicMerkNode = True"
| "wfFeature (SummedMerkNode i) = (- (2 ^ 63) \<le> i \<and> i < 2 ^ 63)"
| "wfFeature (BigSummedMerkNode i) = (- (2 ^ 127) \<le> i \<and> i < 2 ^ 127)"
| "wfFeature (CountedMerkNode c) = (c < 2 ^ 64)"
| "wfFeature (CountedSummedMerkNode c i) = (c < 2 ^ 64 \<and> - (2 ^ 63) \<le> i \<and> i < 2 ^ 63)"

fun wfNode :: "MerkNode \<Rightarrow> bool" where
  "wfNode (Hash h) = (length h = 32)"
| "wfNode (KVHash h) = (length h = 32)"
| "wfNode (KV k v) = (length k \<le> 255 \<and> length v \<le> MAX_VALUE_LEN)"
| "wfNode (KVValueHash k v h) = (length k \<le> 255 \<and> length v \<le> MAX_VALUE_LEN \<and> length h = 32)"
| "wfNode (KVDigest k h) = (length k \<le> 255 \<and> length h = 32)"
| "wfNode (KVRefValueHash k v h) = (length k \<le> 255 \<and> length v \<le> MAX_VALUE_LEN \<and> length h = 32)"
| "wfNode (KVValueHashFeatureType k v h ft) =
     (length k \<le> 255 \<and> length v \<le> MAX_VALUE_LEN \<and> length h = 32 \<and> wfFeature ft)"

fun wfOp :: "MerkOp \<Rightarrow> bool" where
  "wfOp (Push n) = wfNode n"
| "wfOp (PushInverted n) = wfNode n"
| "wfOp _ = True"

subsection \<open>Reading back\<close>

definition dfeeds :: "decoder \<Rightarrow> bytes \<Rightarrow> bool" where
  "dfeeds d bs \<longleftrightarrow> doffset d \<le> length (dbytes d) \<and> drop (doffset d) (dbytes d) = bs"

lemma dfeeds_new [simp]: "dfeeds (newDecoder bs) bs"
  by (simp add: dfeeds_def newDecoder_def)

lemma dfeeds_det: "dfeeds d bs \<Longrightarrow> dfeeds d cs \<Longrightarrow> bs = cs"
  by (simp add: dfeeds_def)

lemma dfeeds_length: "dfeeds d bs \<Longrightarrow> doffset d + length bs = length (dbytes d)"
  by (auto simp: dfeeds_def)

lemma dfeeds_more: "dfeeds d bs \<Longrightarrow> hasMoreOps d \<longleftrightarrow> bs \<noteq> []"
  by (auto simp: dfeeds_def hasMoreOps_def)

lemma dfeeds_advance:
  assumes "dfeeds d (bs @ ys)" and "n = length bs"
  shows "dfeeds (d\<lparr>doffset := doffset d + n\<rparr>) ys"
proof -
  have "drop (length bs + doffset d) (dbytes d) = ys"
    using assms drop_drop [of "length bs" "doffset d" "dbytes d"] by (simp add: dfeeds_def)
  then show ?thesis
    using dfeeds_length [OF assms(1)] assms(2) by (simp add: dfeeds_def add.commute)
qed

lemma dfeeds_nth: "dfeeds d bs \<Longrightarrow> i < length bs \<Longrightarrow> dbytes d ! (doffset d + i) = bs ! i"
  unfolding dfeeds_def by (metis nth_drop)

text \<open>A method that takes a fixed number of bytes reads what it computes from them.\<close>

lemma reads_fixed:
  assumes "\<And>d ys. dfeeds d (bs @ ys) \<Longrightarrow> doffset d + length bs \<le> length (dbytes d) \<Longrightarrow>
      m d = Inr (x, d\<lparr>doffset := doffset d + length bs\<rparr>)"
  shows "reads dfeeds m bs x"
proof (rule readsI)
  fix d ys
  assume d: "dfeeds d (bs @ ys)"
  then have "doffset d + length bs \<le> length (dbytes d)"
    using dfeeds_length [OF d] by simp
  then show "\<exists>t. m d = Inr (x, t) \<and> dfeeds t ys"
    using assms [OF d] dfeeds_advance [OF d] by simp
qed

lemma reads_decU8: "reads dfeeds decU8 [b] b"
proof (rule reads_fixed)
  fix d ys
  assume "dfeeds d ([b] @ ys)" "doffset d + length [b] \<le> length (dbytes d)"
  then show "decU8 d = Inr (b, d\<lparr>doffset := doffset d + length [b]\<rparr>)"
    using dfeeds_nth [of d "[b] @ ys" 0] by (simp add: decU8_def)
qed

lemma reads_decBytes: "length bs = n \<Longrightarrow> reads dfeeds (decBytes n) bs bs"
  by (rule reads_fixed) (auto simp: decBytes_def dfeeds_def)

lemma beBytes_2: "beBytes 2 v = [of_nat (v div 256), of_nat v]"
  by (simp add: beBytes_numeral)

lemma reads_decU16: "v < 65536 \<Longrightarrow> reads dfeeds decU16 (beBytes 2 v) v"
proof (rule reads_fixed)
  fix d ys
  assume v: "v < 65536" and d: "dfeeds d (beBytes 2 v @ ys)"
    and le: "doffset d + length (beBytes 2 v) \<le> length (dbytes d)"
  let ?b = "\<lambda>i. unat (dbytes d ! (doffset d + i))"
  have b: "?b 0 = v div 256" "?b 1 = v mod 256"
    using dfeeds_nth [OF d, of 0] dfeeds_nth [OF d, of 1] v by (simp_all add: beBytes_2)
  then have "push_bit 8 (?b 0) OR ?b 1 = v"
    using or_push_bit [of "?b 1" 8 "?b 0"] by (simp add: or.commute)
  then show "decU16 d = Inr (v, d\<lparr>doffset := doffset d + length (beBytes 2 v)\<rparr>)"
    using le by (simp add: decU16_def)
qed

lemma or_bytes3:
  assumes "b < (256 :: nat)" "c < 256"
  shows "push_bit 16 a OR push_bit 8 b OR c = a * 65536 + b * 256 + c"
proof -
  have 1: "push_bit 8 b OR c = c + b * 256"
    using or_push_bit [of c 8 b] assms by (simp add: or.commute)
  then have "push_bit 8 b OR c < 2 ^ 16" using assms by simp
  from or_push_bit [OF this, of a] 1 show ?thesis by (simp add: or.commute)
qed

lemma beNat_4: "beNat [a, b, c, d] = unat a * 0x1000000 + unat b * 65536 + unat c * 256 + unat d"
proof -
  have "beNat [a, b, c, d] = ((unat a * 256 + unat b) * 256 + unat c) * 256 + unat d"
    using beNat_append [of "[a, b, c]" d] beNat_append [of "[a, b]" c] beNat_append [of "[a]" b]
      beNat_append [of "[]" a] by simp
  then show ?thesis by simp
qed

lemma length_4: "length bs = 4 \<Longrightarrow> bs = [bs ! 0, bs ! 1, bs ! 2, bs ! 3]"
  by (auto simp: numeral_eq_Suc length_Suc_conv)

lemma reads_decU32: "v < 2 ^ 32 \<Longrightarrow> reads dfeeds decU32 (beBytes 4 v) v"
proof (rule reads_fixed)
  fix d ys
  assume v: "v < 2 ^ 32" and d: "dfeeds d (beBytes 4 v @ ys)"
    and le: "doffset d + length (beBytes 4 v) \<le> length (dbytes d)"
  let ?e = "beBytes 4 v"
  have nth: "dbytes d ! (doffset d + i) = ?e ! i" if "i < 4" for i
    using dfeeds_nth [OF d, of i] that by (simp add: nth_append)
  have "beNat [?e ! 0, ?e ! 1, ?e ! 2, ?e ! 3] = v"
    using length_4 [of ?e] beNat_beBytes [of 4 v] v by simp
  then have "unat (?e ! 0) * 0x1000000 +
      (push_bit 16 (unat (?e ! 1)) OR push_bit 8 (unat (?e ! 2)) OR unat (?e ! 3)) = v"
    by (simp add: beNat_4 or_bytes3)
  then show "decU32 d = Inr (v, d\<lparr>doffset := doffset d + length (beBytes 4 v)\<rparr>)"
    using le nth [of 0] nth [of 1] nth [of 2] nth [of 3] by (simp add: decU32_def Let_def)
qed

lemma reads_decVarint64: "v < 2 ^ 64 \<Longrightarrow> reads dfeeds decVarint64 (varintBytes v) v"
  by (rule reads_fixed)
    (auto simp: decVarint64_def dfeeds_def U64_MAX_def decodeVarint64_varintBytes)

lemma reads_decSignedVarint64:
  assumes "- (2 ^ 63) \<le> i" "i < 2 ^ 63"
  shows "reads dfeeds decSignedVarint64 (varintBytes (zigzagEnc i)) i"
proof (rule reads_fixed)
  fix d ys
  have "zigzagEnc i \<le> U64_MAX"
    using assms by (auto simp: zigzagEnc_def U64_MAX_def nat_le_iff)
  moreover assume "dfeeds d (varintBytes (zigzagEnc i) @ ys)"
  ultimately show "decSignedVarint64 d =
      Inr (i, d\<lparr>doffset := doffset d + length (varintBytes (zigzagEnc i))\<rparr>)"
    by (simp add: decSignedVarint64_def decodeSignedVarint64_def dfeeds_def
        decodeVarint64_varintBytes zigzag_zigzagEnc)
qed

lemma leNat_append: "leNat (bs @ [b]) = leNat bs OR push_bit (8 * length bs) (unat b)"
  by (simp add: leNat_def enumerate_append_eq)

lemma leNat_rev: "leNat (rev bs) = beNat bs \<and> beNat bs < 2 ^ (8 * length bs)"
proof (induction bs)
  case Nil
  show ?case by (simp add: leNat_def)
next
  case (Cons b bs)
  have "leNat (rev (b # bs)) = beNat bs OR push_bit (8 * length bs) (unat b)"
    using Cons.IH by (simp add: leNat_append)
  also have "\<dots> = beNat bs + unat b * 2 ^ (8 * length bs)"
    using Cons.IH by (intro or_push_bit) simp
  also have "\<dots> = beNat (b # bs)"
    using beNat_two [of "[b]" bs] beNat_append [of "[]" b] by (simp add: power_mult)
  finally show ?case
    using beNat_less [of "b # bs"] by (simp add: power_mult power_add)
qed

lemma leI128_inverse:
  assumes "- (2 ^ 127) \<le> i" "i < 2 ^ 127"
  shows "leI128 (rev (beBytes 16 (nat (i mod 2 ^ 128)))) = i"
proof -
  let ?u = "nat (i mod 2 ^ 128)"
  have u: "?u < 2 ^ 128" by (simp add: nat_less_iff)
  then have le: "leNat (rev (beBytes 16 ?u)) = ?u"
    using leNat_rev [of "beBytes 16 ?u"] beNat_beBytes [of 16 ?u] by simp
  have "rev (beBytes 16 ?u) ! 15 = hd (beBytes 16 ?u)"
    by (simp add: rev_nth hd_conv_nth flip: length_greater_0_conv)
  also have "\<dots> = of_nat (?u div 2 ^ 120)"
    using beBytes_split [of 1 15 ?u] by simp
  finally have "unat (rev (beBytes 16 ?u) ! 15) = ?u div 2 ^ 120"
    using u by (simp add: div_less_iff_less_mult)
  then have top: "rev (beBytes 16 ?u) ! 15 AND 128 \<noteq> 0 \<longleftrightarrow> 2 ^ 127 \<le> ?u"
    by (simp add: and_128_eq_0 not_less less_eq_div_iff_mult_less_eq)
  show ?thesis
  proof (cases "0 \<le> i")
    case True
    then have "i mod 2 ^ 128 = i" using assms by simp
    with True assms top le show ?thesis by (simp add: leI128_def nat_less_iff le_nat_iff)
  next
    case False
    have "i mod 2 ^ 128 = (i + 2 ^ 128) mod 2 ^ 128" by simp
    also have "\<dots> = i + 2 ^ 128" using False assms by (intro mod_pos_pos_trivial) auto
    finally have "i mod 2 ^ 128 = i + 2 ^ 128" .
    with False assms top le show ?thesis by (simp add: leI128_def le_nat_iff)
  qed
qed

lemma reads_tag: "reads dfeeds (f b) cs y \<Longrightarrow> reads dfeeds (bind decU8 f) (b # cs) y"
  using reads_bind [OF reads_decU8, of f b cs y] by simp

lemma reads_decodeFeatureType:
  "wfFeature ft \<Longrightarrow> reads dfeeds decodeFeatureType (encFeature ft) ft"
proof (induction ft)
  case BasicMerkNode
  show ?case unfolding decodeFeatureType_def encFeature.simps
    by (rule reads_tag) (simp add: reads_ret)
next
  case (SummedMerkNode i)
  then show ?case unfolding decodeFeatureType_def encFeature.simps
    by (intro reads_tag) (auto intro!: reads_last [OF reads_decSignedVarint64])
next
  case (BigSummedMerkNode i)
  then show ?case unfolding decodeFeatureType_def encFeature.simps
    by (intro reads_tag)
      (auto intro!: reads_last [OF reads_decBytes] simp: leI128_inverse simp del: power_numeral)
next
  case (CountedMerkNode c)
  then show ?case unfolding decodeFeatureType_def encFeature.simps
    by (intro reads_tag) (auto intro!: reads_last [OF reads_decVarint64])
next
  case (CountedSummedMerkNode c i)
  then show ?case unfolding decodeFeatureType_def encFeature.simps
    by (intro reads_tag)
      (auto intro!: reads_bind [OF reads_decVarint64] reads_last [OF reads_decSignedVarint64])
qed

lemma reads_decKey: "length k \<le> 255 \<Longrightarrow> reads dfeeds decKey (encKey k) k"
  unfolding decKey_def encKey_def by (intro reads_tag reads_decBytes) simp

definition isLarge :: "bytes \<Rightarrow> bool" where
  "isLarge v \<longleftrightarrow> \<not> length v < LARGE_VALUE_THRESHOLD"

lemma reads_decValue:
  assumes "length v \<le> MAX_VALUE_LEN"
  shows "reads dfeeds (decValue (isLarge v)) (encValue v) v"
proof (cases "isLarge v")
  case False
  then have "length v < 65536" by (simp add: isLarge_def LARGE_VALUE_THRESHOLD_def)
  from reads_bind [OF reads_decU16 [OF this], of decBytes v v] False reads_decBytes [OF refl]
  show ?thesis by (simp add: decValue_def decValueLength_def encValue_def isLarge_def)
next
  case True
  then have ge: "\<not> length v < LARGE_VALUE_THRESHOLD" by (simp add: isLarge_def)
  have "length v < 2 ^ 32" using assms by (simp add: MAX_VALUE_LEN_def)
  note r = reads_last [OF reads_decU32 [OF this]]
  have "reads dfeeds (decValueLength True) (beBytes 4 (length v)) (length v)"
    unfolding decValueLength_def using ge assms by (simp add: r)
  from reads_bind [OF this, of decBytes v v] True ge reads_decBytes [OF refl] show ?thesis
    by (simp add: decValue_def encValue_def isLarge_def)
qed

lemma reads_hash: "length h = 32 \<Longrightarrow> reads dfeeds (decBytes HASH_LENGTH) h h"
  by (rule reads_decBytes) (simp add: HASH_LENGTH_def)

lemmas reads_node_fields = reads_hash reads_decKey reads_decValue reads_decodeFeatureType

text \<open>The method that reads each kind of node.\<close>

fun nodeReader :: "MerkNode \<Rightarrow> MerkNode dmeth" where
  "nodeReader (Hash _) = decodeHash"
| "nodeReader (KVHash _) = decodeKVHash"
| "nodeReader (KV _ v) = decodeKV (isLarge v)"
| "nodeReader (KVValueHash _ v _) = decodeKVValueHash (isLarge v)"
| "nodeReader (KVDigest _ _) = decodeKVDigest"
| "nodeReader (KVRefValueHash _ v _) = decodeKVRefValueHash (isLarge v)"
| "nodeReader (KVValueHashFeatureType _ v _ _) = decodeKVValueHashFeatureType (isLarge v)"

lemmas node_reader_defs = decodeHash_def decodeKVHash_def decodeKV_def decodeKVValueHash_def
  decodeKVDigest_def decodeKVRefValueHash_def decodeKVValueHashFeatureType_def

lemma reads_node: "wfNode n \<Longrightarrow> reads dfeeds (nodeReader n) (encNode n) n"
  by (cases n; simp add: node_reader_defs;
      (rule reads_bind [OF reads_decKey], simp)?; (rule reads_bind [OF reads_decValue], simp)?;
      (rule reads_bind [OF reads_hash], simp)?; rule reads_last;
      (rule reads_node_fields, simp)?; simp)

lemma decodeOp_pushCode:
  "decodeOp (pushCode False n) = push (nodeReader n)"
  "decodeOp (pushCode True n) = pushInverted (nodeReader n)"
  by (cases n; simp add: decodeOp_def isLarge_def)+

lemma reads_op: "wfOp op \<Longrightarrow> reads dfeeds (bind decU8 decodeOp) (encOp op) (Some op)"
proof (cases op)
  case (Push n)
  assume "wfOp op"
  with Push have "reads dfeeds (push (nodeReader n)) (encNode n) (Some op)"
    unfolding push_def by (auto intro!: reads_last [OF reads_node])
  from reads_bind [OF reads_decU8, of decodeOp "pushCode False n", unfolded decodeOp_pushCode, OF this]
  show ?thesis using Push by simp
next
  case (PushInverted n)
  assume "wfOp op"
  with PushInverted have "reads dfeeds (pushInverted (nodeReader n)) (encNode n) (Some op)"
    unfolding pushInverted_def by (auto intro!: reads_last [OF reads_node])
  from reads_bind [OF reads_decU8, of decodeOp "pushCode True n", unfolded decodeOp_pushCode, OF this]
  show ?thesis using PushInverted by simp
qed (auto simp: decodeOp_def intro!: reads_last [OF reads_decU8])

interpretation feature: codec dfeeds newDecoder wfFeature encFeature decodeFeatureType
  by unfold_locales (auto intro: dfeeds_det reads_decodeFeatureType)

interpretation merkOp: codec dfeeds newDecoder "\<lambda>r. \<exists>op. r = Some op \<and> wfOp op" "\<lambda>r. encOp (the r)"
    "bind decU8 decodeOp"
  by unfold_locales (auto intro: dfeeds_det reads_op)

lemma encOp_nonempty [simp]: "encOp op \<noteq> []"
  by (cases op) auto

lemma collectOps_encOps:
  "list_all wfOp ops \<Longrightarrow> dfeeds d (encOps ops) \<Longrightarrow> collectOps d = Inr ops"
proof (induction ops arbitrary: d)
  case Nil
  then have "\<not> hasMoreOps d" using dfeeds_more [of d "[]"] by (simp add: encOps_def)
  then show ?case by (simp add: collectOps.simps [of d] nextOp_def)
next
  case (Cons op ops)
  then have d: "dfeeds d (encOp op @ encOps ops)" by (simp add: encOps_def)
  from Cons.prems have "reads dfeeds (bind decU8 decodeOp) (encOp op) (Some op)"
    by (simp add: reads_op)
  from readsD [OF this d] obtain e
    where "bind decU8 decodeOp d = Inr (Some op, e)" "dfeeds e (encOps ops)"
    by (auto simp del: bind_eq_Inr)
  moreover have "hasMoreOps d" using dfeeds_more [OF d] by simp
  ultimately show ?case
    using Cons by (simp add: collectOps.simps [of d] nextOp_def del: bind_eq_Inr)
qed

subsection \<open>What is decoded is well formed\<close>

definition yields :: "('a \<Rightarrow> bool) \<Rightarrow> 'a dmeth \<Rightarrow> bool" where
  "yields P m \<longleftrightarrow> (\<forall>d x e. m d = Inr (x, e) \<longrightarrow> P x)"

lemma yieldsD: "yields P m \<Longrightarrow> m d = Inr (x, e) \<Longrightarrow> P x"
  unfolding yields_def by blast

lemma yields_bind: "yields Q m \<Longrightarrow> (\<And>x. Q x \<Longrightarrow> yields P (f x)) \<Longrightarrow> yields P (bind m f)"
  unfolding yields_def by fastforce

lemma yields_ret: "P x \<Longrightarrow> yields P (ret x)"
  by (simp add: yields_def)

lemma yields_throw: "yields P (throw e)"
  by (simp add: yields_def)

lemma yields_if: "(c \<Longrightarrow> yields P m) \<Longrightarrow> (\<not> c \<Longrightarrow> yields P n) \<Longrightarrow> yields P (if c then m else n)"
  by simp

lemma yields_any: "yields (\<lambda>_. True) m"
  by (simp add: yields_def)

lemma yields_decBytes: "yields (\<lambda>bs. length bs = n) (decBytes n)"
  by (auto simp: yields_def decBytes_def split: if_splits)

lemma yields_decHash: "yields (\<lambda>h. length h = 32) (decBytes HASH_LENGTH)"
  using yields_decBytes [of HASH_LENGTH] by (simp add: HASH_LENGTH_def)

lemma yields_decVarint64: "yields (\<lambda>v. v < 2 ^ 64) decVarint64"
  by (auto simp: yields_def decVarint64_def simp del: power_numeral dest!: decodeVarint64_bounds)

lemma yields_decSignedVarint64: "yields (\<lambda>v. - (2 ^ 63) \<le> v \<and> v < 2 ^ 63) decSignedVarint64"
  by (auto simp: yields_def decSignedVarint64_def simp del: power_numeral
      dest!: decodeSignedVarint64_bounds)

lemma yields_decKey: "yields (\<lambda>k. length k \<le> 255) decKey"
  unfolding decKey_def
proof (rule yields_bind [OF yields_any])
  fix x :: byte
  show "yields (\<lambda>k. length k \<le> 255) (decBytes (unat x))"
    using yields_decBytes [of "unat x"] by (auto simp: yields_def)
qed

lemma yields_decU16: "yields (\<lambda>n. n \<le> MAX_VALUE_LEN) decU16"
proof -
  have "push_bit 8 (unat a) OR unat b \<le> MAX_VALUE_LEN" for a b :: byte
  proof -
    have "push_bit 8 (unat a) OR unat b = unat b + unat a * 256"
      using or_push_bit [of "unat b" 8 "unat a"] by (simp add: or.commute)
    then show ?thesis
      using unat_byte_less [of a] unat_byte_less [of b] unfolding MAX_VALUE_LEN_def by linarith
  qed
  then show ?thesis by (auto simp: yields_def decU16_def split: if_splits)
qed

lemma yields_decValue: "yields (\<lambda>v. length v \<le> MAX_VALUE_LEN) (decValue l)"
  unfolding decValue_def
proof (rule yields_bind)
  show "yields (\<lambda>n. n \<le> MAX_VALUE_LEN) (decValueLength l)"
    unfolding decValueLength_def
    by (intro yields_if yields_decU16 yields_bind [OF yields_any] yields_throw yields_ret) simp
next
  fix n
  assume "n \<le> MAX_VALUE_LEN"
  then show "yields (\<lambda>v. length v \<le> MAX_VALUE_LEN) (decBytes n)"
    using yields_decBytes [of n] by (auto simp: yields_def)
qed

lemma leNat_less: "length bs = 16 \<Longrightarrow> leNat bs < 2 ^ 128"
  using leNat_rev [of "rev bs"] by simp

lemma leNat_top:
  assumes "length bs = 16"
  shows "leNat bs = leNat (take 15 bs) OR push_bit 120 (unat (bs ! 15))"
proof -
  have "bs = take 15 bs @ [bs ! 15]"
    using assms id_take_nth_drop [of 15 bs] by simp
  with leNat_append [of "take 15 bs" "bs ! 15"] assms show ?thesis by simp
qed

lemma leI128_bounds:
  assumes len: "length bs = 16"
  shows "- (2 ^ 127) \<le> leI128 bs \<and> leI128 bs < 2 ^ 127"
proof -
  have "leNat (take 15 bs) < 2 ^ 120"
    using leNat_rev [of "rev (take 15 bs)"] len by simp
  then have eq: "leNat bs = leNat (take 15 bs) + unat (bs ! 15) * 2 ^ 120"
    and lo: "leNat (take 15 bs) < 2 ^ 120"
    using leNat_top [OF len] or_push_bit [of "leNat (take 15 bs)" 120] by simp_all
  show ?thesis
  proof (cases "unat (bs ! 15) < 128")
    case True
    then have "unat (bs ! 15) \<le> 127" by simp
    with eq lo have "leNat bs < 2 ^ 127" by simp
    then have "int (leNat bs) < 2 ^ 127" by simp
    with True show ?thesis by (simp add: leI128_def and_128_eq_0)
  next
    case False
    then have "128 * 2 ^ 120 \<le> leNat bs" using eq by simp
    then have "2 ^ 127 \<le> int (leNat bs)" by simp
    moreover have "int (leNat bs) < 2 ^ 128" using leNat_less [OF len] by simp
    ultimately show ?thesis using False by (simp add: leI128_def and_128_eq_0)
  qed
qed

lemma yields_leI128: "length bs = 16 \<Longrightarrow> yields wfFeature (ret (BigSummedMerkNode (leI128 bs)))"
  by (rule yields_ret) (simp add: leI128_bounds [simplified])

lemma yields_decodeFeatureType: "yields wfFeature decodeFeatureType"
  unfolding decodeFeatureType_def
  by (intro yields_if yields_bind [OF yields_any] yields_throw
      yields_bind [OF yields_decVarint64] yields_bind [OF yields_decSignedVarint64]
      yields_bind [OF yields_decBytes] yields_leI128)
    (auto intro: yields_ret)

lemmas yields_fields = yields_bind [OF yields_decKey] yields_bind [OF yields_decValue]
  yields_bind [OF yields_decHash] yields_bind [OF yields_decodeFeatureType] yields_ret

lemma yields_nodes:
  "yields wfNode decodeHash" "yields wfNode decodeKVHash" "yields wfNode (decodeKV l)"
  "yields wfNode (decodeKVValueHash l)" "yields wfNode decodeKVDigest"
  "yields wfNode (decodeKVRefValueHash l)" "yields wfNode (decodeKVValueHashFeatureType l)"
  unfolding decodeHash_def decodeKVHash_def decodeKV_def decodeKVValueHash_def decodeKVDigest_def
    decodeKVRefValueHash_def decodeKVValueHashFeatureType_def
  by (intro yields_fields; simp)+

lemma yields_push:
  assumes "yields wfNode m"
  shows "yields (\<lambda>r. \<forall>op. r = Some op \<longrightarrow> wfOp op) (push m)"
    "yields (\<lambda>r. \<forall>op. r = Some op \<longrightarrow> wfOp op) (pushInverted m)"
  unfolding push_def pushInverted_def
  by (rule yields_bind [OF assms], rule yields_ret, simp)+

lemma yields_decodeOp: "yields (\<lambda>r. \<forall>op. r = Some op \<longrightarrow> wfOp op) (decodeOp b)"
  unfolding decodeOp_def
  by (intro yields_if yields_push yields_nodes yields_throw; rule yields_ret; simp)

lemma nextOp_wf: "nextOp d = Inr (Some op, e) \<Longrightarrow> wfOp op"
  by (auto simp: nextOp_def split: if_splits dest: yieldsD [OF yields_decodeOp])

lemma collectOps_Inr:
  "collectOps d = Inr ops \<longleftrightarrow>
     (ops = [] \<and> (\<exists>e. nextOp d = Inr (None, e))) \<or>
     (\<exists>op e rest. nextOp d = Inr (Some op, e) \<and> collectOps e = Inr rest \<and> ops = op # rest)"
  by (subst collectOps.simps) (auto split: sum.splits option.splits)

lemma collectOps_wf: "collectOps d = Inr ops \<Longrightarrow> list_all wfOp ops"
proof (induction ops arbitrary: d)
  case (Cons op ops)
  then obtain e where "nextOp d = Inr (Some op, e)" "collectOps e = Inr ops"
    using collectOps_Inr [of d] by blast
  with Cons.IH nextOp_wf show ?case by simp
qed simp

lemma decodeMerkOps_encOps: "list_all wfOp ops \<Longrightarrow> decodeMerkOps (encOps ops) = Inr ops"
  by (simp add: decodeMerkOps_def collectOps_encOps)

text \<open>Merk proof operations round trip. What \<open>decodeMerkOps\<close> returns is well formed: hashes
  of 32 bytes, keys of at most 255, values of at most 64 MiB, counts and sums in the range of
  their width. And every list of such operations, of all seven node kinds, plain and inverted,
  with short or large values, is read back from its encoding.\<close>

theorem merk_ops_roundtrip:
  "(\<forall>bs ops. decodeMerkOps bs = Inr ops \<longrightarrow> list_all wfOp ops) \<and>
   (\<forall>ops. list_all wfOp ops \<longrightarrow> decodeMerkOps (encOps ops) = Inr ops)"
  using collectOps_wf decodeMerkOps_encOps by (auto simp: decodeMerkOps_def)

theorem merk_ops_roundtrip_witness:
  "decodeMerkOps (encOps [Push (KV [1] [2, 3]), Push (KVDigest [4] NULL_HASH), Child]) =
     Inr [Push (KV [1] [2, 3]), Push (KVDigest [4] NULL_HASH), Child]"
  by (rule merk_ops_roundtrip [THEN conjunct2, rule_format]) (simp add: MAX_VALUE_LEN_def)

end
