(* ===== verification/Grove_Hash.thy ===== *)
theory Grove_Hash
  imports Bincode
begin

text \<open>
  The hash functions of \<open>src/src/grovedb/hash.ts\<close>. BLAKE3 (\<open>@noble/hashes\<close>) is the parameter
  \<open>H\<close> of every definition that hashes; \<open>hash32\<close> is what the code relies on of it, that its output
  is 32 bytes. Collision freedom is never assumed of all inputs (no function to 32 bytes has
  it): \<open>collision_free H S\<close> says it of a set \<open>S\<close> of inputs, and the theorems take for \<open>S\<close> the
  finite set of byte strings the verification at hand really hashes.

  The code builds each preimage in a buffer with 32 bytes for each hash (\<open>combined.set\<close>). A hash
  that reaches it is 32 bytes long (the decoder reads 32, BLAKE3 returns 32); \<open>hashField\<close> pads a
  shorter one with the zeros the buffer starts with.
\<close>

subsection \<open>The code\<close>

definition blake3Hash :: "(bytes \<Rightarrow> bytes) \<Rightarrow> bytes \<Rightarrow> CryptoHash" where
  "blake3Hash H d = H d"

definition hashField :: "CryptoHash \<Rightarrow> bytes" where
  "hashField h = take HASH_LENGTH (h @ replicate HASH_LENGTH 0)"

definition valueInput :: "bytes \<Rightarrow> bytes" where
  "valueInput v = varintBytes (length v) @ v"

definition valueHash :: "(bytes \<Rightarrow> bytes) \<Rightarrow> bytes \<Rightarrow> CryptoHash" where
  "valueHash H v = blake3Hash H (valueInput v)"

definition kvInput :: "bytes \<Rightarrow> CryptoHash \<Rightarrow> bytes" where
  "kvInput k vh = varintBytes (length k) @ k @ hashField vh"

definition kvHash :: "(bytes \<Rightarrow> bytes) \<Rightarrow> bytes \<Rightarrow> bytes \<Rightarrow> CryptoHash" where
  "kvHash H k v = blake3Hash H (kvInput k (valueHash H v))"

definition kvDigestToKvHash :: "(bytes \<Rightarrow> bytes) \<Rightarrow> bytes \<Rightarrow> CryptoHash \<Rightarrow> CryptoHash" where
  "kvDigestToKvHash H k vh = blake3Hash H (kvInput k vh)"

definition nodeInput :: "CryptoHash \<Rightarrow> CryptoHash \<Rightarrow> CryptoHash \<Rightarrow> bytes" where
  "nodeInput kv l r = hashField kv @ hashField l @ hashField r"

definition nodeHash :: "(bytes \<Rightarrow> bytes) \<Rightarrow> CryptoHash \<Rightarrow> CryptoHash \<Rightarrow> CryptoHash \<Rightarrow> CryptoHash" where
  "nodeHash H kv l r = blake3Hash H (nodeInput kv l r)"

definition combineInput :: "CryptoHash \<Rightarrow> CryptoHash \<Rightarrow> bytes" where
  "combineInput a b = hashField a @ hashField b"

definition combineHash :: "(bytes \<Rightarrow> bytes) \<Rightarrow> CryptoHash \<Rightarrow> CryptoHash \<Rightarrow> CryptoHash" where
  "combineHash H a b = blake3Hash H (combineInput a b)"

definition hashEquals :: "CryptoHash \<Rightarrow> CryptoHash \<Rightarrow> bool" where
  "hashEquals a b =
     (if length a \<noteq> length b then False else list_all (\<lambda>i. a ! i = b ! i) [0..<length a])"

definition isNullHash :: "CryptoHash \<Rightarrow> bool" where
  "isNullHash h = hashEquals h NULL_HASH"

definition hashToHex :: "CryptoHash \<Rightarrow> string" where
  "hashToHex h = bytesToHex h"

definition hexToHash :: "string \<Rightarrow> gerror + CryptoHash" where
  "hexToHash hex = bnd (hexToBytes hex) (\<lambda>bs.
     if length bs \<noteq> HASH_LENGTH then Inl (InvalidHashHexLength (length bs)) else Inr bs)"

subsection \<open>What the code relies on of BLAKE3\<close>

definition hash32 :: "(bytes \<Rightarrow> bytes) \<Rightarrow> bool" where
  "hash32 H \<longleftrightarrow> (\<forall>x. length (H x) = 32)"

text \<open>No two inputs of \<open>S\<close> have one hash, and none hashes to the null hash (the hash that stands
  for an absent child).\<close>

definition collision_free :: "(bytes \<Rightarrow> bytes) \<Rightarrow> bytes set \<Rightarrow> bool" where
  "collision_free H S \<longleftrightarrow> inj_on H S \<and> NULL_HASH \<notin> H ` S"

lemma collision_freeD: "collision_free H S \<Longrightarrow> H x = H y \<Longrightarrow> x \<in> S \<Longrightarrow> y \<in> S \<Longrightarrow> x = y"
  by (auto simp: collision_free_def inj_on_def)

lemma collision_free_null: "collision_free H S \<Longrightarrow> x \<in> S \<Longrightarrow> H x \<noteq> NULL_HASH"
  unfolding collision_free_def by (metis image_eqI)

lemma collision_free_subset: "collision_free H S \<Longrightarrow> T \<subseteq> S \<Longrightarrow> collision_free H T"
  by (auto simp: collision_free_def intro: inj_on_subset)

subsection \<open>Lemmas\<close>

lemma hashField_id [simp]: "length h = 32 \<Longrightarrow> hashField h = h"
  by (simp add: hashField_def HASH_LENGTH_def)

lemma length_hashField [simp]: "length (hashField h) = 32"
  by (simp add: hashField_def HASH_LENGTH_def)

lemma hashEquals_iff [simp]: "hashEquals a b \<longleftrightarrow> a = b"
  by (auto simp: hashEquals_def list_all_iff intro: nth_equalityI)

lemma hash32D [simp]: "hash32 H \<Longrightarrow> length (H x) = 32"
  by (simp add: hash32_def)

lemma length_hashes [simp]:
  assumes "hash32 H"
  shows "length (valueHash H v) = 32" "length (kvHash H k v) = 32"
    "length (kvDigestToKvHash H k vh) = 32" "length (nodeHash H a b c) = 32"
    "length (combineHash H a b) = 32"
  using assms
  by (simp_all add: valueHash_def kvHash_def kvDigestToKvHash_def nodeHash_def combineHash_def
      blake3Hash_def)

lemma kvHash_eq: "kvHash H k v = kvDigestToKvHash H k (valueHash H v)"
  by (simp add: kvHash_def kvDigestToKvHash_def)

text \<open>A preimage determines its fields.\<close>

lemma varintBytes_prefix_free:
  assumes "varintBytes m @ us = varintBytes n @ vs"
  shows "m = n \<and> us = vs"
  using assms
proof (induction m arbitrary: n rule: varintBytes.induct)
  case (1 m)
  have cont: "((of_nat v :: byte) AND 127) OR 128 \<noteq> (of_nat w :: byte)" if "w \<le> 127" for v w
    using continue_byte_flag [of v] unat_last_byte [OF that] by metis
  show ?case
  proof (cases "m > 127")
    case True
    then have n: "n > 127"
      using "1.prems" cont [of n m]
      by (cases "n > 127") (simp_all add: varintBytes.simps [of m] varintBytes.simps [of n])
    have "unat (((of_nat m :: byte) AND 127) OR 128) = unat (((of_nat n :: byte) AND 127) OR 128)"
      and "varintBytes (m div 128) @ us = varintBytes (n div 128) @ vs"
      using "1.prems" True n by (simp_all add: varintBytes.simps [of m] varintBytes.simps [of n])
    moreover from this(1) have "m mod 128 = n mod 128" by (simp only: unat_continue_byte)
    ultimately show ?thesis
      using "1.IH" [OF True] by (metis div_mult_mod_eq)
  next
    case False
    then have n: "\<not> n > 127"
      using "1.prems" cont [of m n] by (auto simp: varintBytes.simps [of m] varintBytes.simps [of n])
    have "(of_nat m :: byte) = of_nat n" "us = vs"
      using "1.prems" False n by (simp_all add: varintBytes.simps [of m] varintBytes.simps [of n])
    moreover from this(1) have "m mod 256 = n mod 256"
      by (metis unat_of_nat_byte)
    ultimately show ?thesis using False n by simp
  qed
qed

lemma valueInput_inj [simp]: "valueInput v = valueInput w \<longleftrightarrow> v = w"
  unfolding valueInput_def by (metis varintBytes_prefix_free)

lemma kvInput_inj:
  "kvInput k a = kvInput l b \<Longrightarrow> length a = 32 \<Longrightarrow> length b = 32 \<Longrightarrow> k = l \<and> a = b"
  unfolding kvInput_def by (metis append_eq_append_conv hashField_id varintBytes_prefix_free)

lemma nodeInput_inj:
  "nodeInput a b c = nodeInput a' b' c' \<Longrightarrow>
     hashField a = hashField a' \<and> hashField b = hashField b' \<and> hashField c = hashField c'"
  unfolding nodeInput_def by (metis append_eq_append_conv length_hashField)

lemma combineInput_inj:
  "combineInput a b = combineInput a' b' \<Longrightarrow> hashField a = hashField a' \<and> hashField b = hashField b'"
  unfolding combineInput_def by (metis append_eq_append_conv length_hashField)

lemma length_inputs [simp]:
  "length (nodeInput a b c) = 96" "length (combineInput a b) = 64"
  by (simp_all add: nodeInput_def combineInput_def)

text \<open>A value's preimage has one length byte for values of up to 127 bytes, so it is as long as a
  \<open>combine\<close> preimage (64) only for a value of 63 bytes, and as a node's (96) only for 95.\<close>

lemma length_varintBytes_pos: "0 < length (varintBytes n)"
  by simp

lemma length_varintBytes_le: "length (varintBytes n) \<le> Suc n"
proof (induction n rule: varintBytes.induct)
  case (1 n)
  show ?case
  proof (cases "n > 127")
    case True
    then have "Suc (n div 128) \<le> n" by (simp add: Suc_le_eq div_less_dividend)
    with "1.IH" [OF True] True show ?thesis by (subst varintBytes.simps) simp
  qed (subst varintBytes.simps, simp)
qed

lemma length_valueInput: "length v \<le> 127 \<Longrightarrow> length (valueInput v) = Suc (length v)"
  by (simp add: valueInput_def varintBytes.simps [of "length v"])

lemma valueInput_64: "length (valueInput v) = 64 \<longleftrightarrow> length v = 63"
  using length_valueInput [of v] length_varintBytes_pos [of "length v"]
  by (cases "length v \<le> 127") (auto simp: valueInput_def)

lemma valueInput_96: "length (valueInput v) = 96 \<longleftrightarrow> length v = 95"
  using length_valueInput [of v] length_varintBytes_pos [of "length v"]
  by (cases "length v \<le> 127") (auto simp: valueInput_def)

lemma valueHash_eqD:
  "collision_free H S \<Longrightarrow> valueInput v \<in> S \<Longrightarrow> valueInput w \<in> S \<Longrightarrow>
     valueHash H v = valueHash H w \<Longrightarrow> v = w"
  using collision_freeD [of H S "valueInput v" "valueInput w"]
  by (simp add: valueHash_def blake3Hash_def)

end
