(* ===== verification/Merk_Tree.thy ===== *)
theory Merk_Tree
  imports Grove_Hash
begin

text \<open>
  The partial merk tree a proof rebuilds (\<open>src/src/grovedb/tree.ts\<close>): the class \<open>Tree\<close> with its
  cached child hashes, and the byte comparison that orders keys. The code changes a \<open>Tree\<close> only
  by \<open>attach\<close>, which the model returns as a new tree. The lemmas: a tree's hash never fails and is
  the fold of its nodes when every cached hash is right (\<open>cached\<close>); and \<open>compareBytes\<close> is a
  strict total order, as the interpretation of the locale \<open>comparator\<close>, which also gives the
  facts on ascending lists of keys that the executor and the verifier rest on.
\<close>

subsection \<open>Trees\<close>

datatype mtree = MTree (mnode: MerkNode) (mleft: child) (mright: child)
  and child = NoChild | ChildOf mtree CryptoHash

definition newTree :: "MerkNode \<Rightarrow> mtree" where
  "newTree n = MTree n NoChild NoChild"

fun cachedHash :: "child \<Rightarrow> CryptoHash" where
  "cachedHash NoChild = NULL_HASH"
| "cachedHash (ChildOf _ h) = h"

definition childHash :: "mtree \<Rightarrow> bool \<Rightarrow> CryptoHash" where
  "childHash t lft = cachedHash (if lft then mleft t else mright t)"

fun computeKVHash :: "(bytes \<Rightarrow> bytes) \<Rightarrow> MerkNode \<Rightarrow> gerror + CryptoHash" where
  "computeKVHash H (Hash h) = Inl HashNodeHasNoKVHash"
| "computeKVHash H (KVHash h) = Inr h"
| "computeKVHash H (KV k v) = Inr (kvHash H k v)"
| "computeKVHash H (KVValueHash k v vh) = Inr (kvDigestToKvHash H k vh)"
| "computeKVHash H (KVValueHashFeatureType k v vh ft) = Inr (kvDigestToKvHash H k vh)"
| "computeKVHash H (KVDigest k vh) = Inr (kvDigestToKvHash H k vh)"
| "computeKVHash H (KVRefValueHash k v vh) =
     (let refValueHash = valueHash H v;
          combinedValueHash = combineHash H vh refValueHash
      in Inr (kvDigestToKvHash H k combinedValueHash))"

definition treeHash :: "(bytes \<Rightarrow> bytes) \<Rightarrow> mtree \<Rightarrow> gerror + CryptoHash" where
  "treeHash H t =
     (case mnode t of
        Hash h \<Rightarrow> Inr h
      | n \<Rightarrow> bnd (computeKVHash H n) (\<lambda>kvh.
          Inr (nodeHash H kvh (childHash t True) (childHash t False))))"

definition attach :: "(bytes \<Rightarrow> bytes) \<Rightarrow> mtree \<Rightarrow> bool \<Rightarrow> mtree \<Rightarrow> gerror + mtree" where
  "attach H t lft ch =
     (if nodeTag (mnode t) = THash then Inl HashNodeHasNoChildren
      else if lft \<and> mleft t \<noteq> NoChild then Inl LeftChildAttached
      else if \<not> lft \<and> mright t \<noteq> NoChild then Inl RightChildAttached
      else bnd (treeHash H ch) (\<lambda>h.
        Inr (if lft then MTree (mnode t) (ChildOf ch h) (mright t)
             else MTree (mnode t) (mleft t) (ChildOf ch h))))"

definition intoHash :: "(bytes \<Rightarrow> bytes) \<Rightarrow> mtree \<Rightarrow> gerror + mtree" where
  "intoHash H t = bnd (treeHash H t) (\<lambda>h. Inr (newTree (Hash h)))"

fun nodeKey :: "MerkNode \<Rightarrow> bytes option" where
  "nodeKey (KV k _) = Some k"
| "nodeKey (KVValueHash k _ _) = Some k"
| "nodeKey (KVDigest k _) = Some k"
| "nodeKey (KVRefValueHash k _ _) = Some k"
| "nodeKey (KVValueHashFeatureType k _ _ _) = Some k"
| "nodeKey _ = None"

definition getKey :: "mtree \<Rightarrow> bytes option" where
  "getKey t = nodeKey (mnode t)"

fun nodeValue :: "MerkNode \<Rightarrow> bytes option" where
  "nodeValue (KV _ v) = Some v"
| "nodeValue (KVValueHash _ v _) = Some v"
| "nodeValue (KVRefValueHash _ v _) = Some v"
| "nodeValue (KVValueHashFeatureType _ v _ _) = Some v"
| "nodeValue _ = None"

definition getValue :: "mtree \<Rightarrow> bytes option" where
  "getValue t = nodeValue (mnode t)"

fun nodeValueHash :: "(bytes \<Rightarrow> bytes) \<Rightarrow> MerkNode \<Rightarrow> CryptoHash option" where
  "nodeValueHash H (KVValueHash _ _ vh) = Some vh"
| "nodeValueHash H (KVDigest _ vh) = Some vh"
| "nodeValueHash H (KVRefValueHash _ _ vh) = Some vh"
| "nodeValueHash H (KVValueHashFeatureType _ _ vh _) = Some vh"
| "nodeValueHash H (KV _ v) = Some (valueHash H v)"
| "nodeValueHash H _ = None"

definition getValueHash :: "(bytes \<Rightarrow> bytes) \<Rightarrow> mtree \<Rightarrow> CryptoHash option" where
  "getValueHash H t = nodeValueHash H (mnode t)"

definition hasKV :: "mtree \<Rightarrow> bool" where
  "hasKV t \<longleftrightarrow> nodeTag (mnode t) \<noteq> THash \<and> nodeTag (mnode t) \<noteq> TKVHash"

primrec inOrder :: "mtree \<Rightarrow> mtree list" and inOrderC :: "child \<Rightarrow> mtree list" where
  "inOrder (MTree n l r) = inOrderC l @ [MTree n l r] @ inOrderC r"
| "inOrderC NoChild = []"
| "inOrderC (ChildOf t h) = inOrder t"

fun compareBytes :: "bytes \<Rightarrow> bytes \<Rightarrow> int" where
  "compareBytes (x # a) (y # b) =
     (if x < y then -1 else if x > y then 1 else compareBytes a b)"
| "compareBytes a b = int (length a) - int (length b)"

subsection \<open>The hash of a tree\<close>

text \<open>The kv hash of a node that has one, without the error branch the code never reaches.\<close>

fun kvOf :: "(bytes \<Rightarrow> bytes) \<Rightarrow> MerkNode \<Rightarrow> CryptoHash" where
  "kvOf H (Hash h) = h"
| "kvOf H (KVHash h) = h"
| "kvOf H (KV k v) = kvDigestToKvHash H k (valueHash H v)"
| "kvOf H (KVValueHash k v vh) = kvDigestToKvHash H k vh"
| "kvOf H (KVValueHashFeatureType k v vh ft) = kvDigestToKvHash H k vh"
| "kvOf H (KVDigest k vh) = kvDigestToKvHash H k vh"
| "kvOf H (KVRefValueHash k v vh) = kvDigestToKvHash H k (combineHash H vh (valueHash H v))"

definition thash :: "(bytes \<Rightarrow> bytes) \<Rightarrow> mtree \<Rightarrow> CryptoHash" where
  "thash H t =
     (if nodeTag (mnode t) = THash then kvOf H (mnode t)
      else nodeHash H (kvOf H (mnode t)) (cachedHash (mleft t)) (cachedHash (mright t)))"

lemma treeHash_eq [simp]: "treeHash H t = Inr (thash H t)"
  by (cases t; cases "mnode t")
    (auto simp: treeHash_def thash_def childHash_def kvHash_eq Let_def)

lemma thash_Hash [simp]: "thash H (newTree (Hash h)) = h"
  by (simp add: thash_def newTree_def)

lemma intoHash_eq [simp]: "intoHash H t = Inr (newTree (Hash (thash H t)))"
  by (simp add: intoHash_def)

lemma newTree_simps [simp]:
  "mnode (newTree n) = n" "mleft (newTree n) = NoChild" "mright (newTree n) = NoChild"
  "inOrder (newTree n) = [newTree n]"
  by (simp_all add: newTree_def)

lemma nodeTag_THash: "nodeTag n = THash \<longleftrightarrow> (\<exists>h. n = Hash h)"
  by (cases n) auto

lemma nodeKey_None: "nodeKey n = None \<longleftrightarrow> nodeTag n \<in> {THash, TKVHash}"
  by (cases n) auto

lemma attach_eq:
  "attach H t lft ch =
     (if nodeTag (mnode t) = THash then Inl HashNodeHasNoChildren
      else if lft \<and> mleft t \<noteq> NoChild then Inl LeftChildAttached
      else if \<not> lft \<and> mright t \<noteq> NoChild then Inl RightChildAttached
      else Inr (if lft then MTree (mnode t) (ChildOf ch (thash H ch)) (mright t)
                else MTree (mnode t) (mleft t) (ChildOf ch (thash H ch))))"
  by (simp add: attach_def)

lemma hasKV_getKey: "hasKV t \<longleftrightarrow> getKey t \<noteq> None"
  by (cases "mnode t") (auto simp: hasKV_def getKey_def)

text \<open>Every cached hash is the hash of the child it is kept for, and pruned nodes have no child.\<close>

primrec cached :: "(bytes \<Rightarrow> bytes) \<Rightarrow> mtree \<Rightarrow> bool"
  and cachedC :: "(bytes \<Rightarrow> bytes) \<Rightarrow> child \<Rightarrow> bool" where
  "cached H (MTree n l r) \<longleftrightarrow>
     cachedC H l \<and> cachedC H r \<and> (nodeTag n = THash \<longrightarrow> l = NoChild \<and> r = NoChild)"
| "cachedC H NoChild \<longleftrightarrow> True"
| "cachedC H (ChildOf t h) \<longleftrightarrow> cached H t \<and> h = thash H t"

lemma cached_newTree [simp]: "cached H (newTree n)"
  by (simp add: newTree_def)

lemma cached_alt: "cached H t \<longleftrightarrow> cachedC H (mleft t) \<and> cachedC H (mright t) \<and>
    (nodeTag (mnode t) = THash \<longrightarrow> mleft t = NoChild \<and> mright t = NoChild)"
  by (cases t) simp

lemma attach_cached: "attach H t lft ch = Inr u \<Longrightarrow> cached H t \<Longrightarrow> cached H ch \<Longrightarrow> cached H u"
  by (auto simp: attach_eq cached_alt split: if_splits)

text \<open>The nodes of a tree in order.\<close>

definition nodes :: "mtree \<Rightarrow> MerkNode list" where
  "nodes t = map mnode (inOrder t)"

definition nodesC :: "child \<Rightarrow> MerkNode list" where
  "nodesC c = map mnode (inOrderC c)"

lemma nodes_simps [simp]:
  "nodes (MTree n l r) = nodesC l @ n # nodesC r"
  "nodesC NoChild = []"
  "nodesC (ChildOf t h) = nodes t"
  by (simp_all add: nodes_def nodesC_def)

lemma nodes_newTree [simp]: "nodes (newTree n) = [n]"
  by (simp add: newTree_def)

lemma attach_nodes:
  assumes "attach H t lft ch = Inr u"
  shows "nodes u = (if lft then nodes ch @ nodes t else nodes t @ nodes ch)"
  using assms by (cases t) (auto simp: attach_eq split: if_splits)

lemma mtree_induct_childless:
  assumes "\<And>n l r. (\<And>t h. l = ChildOf t h \<Longrightarrow> P t) \<Longrightarrow> (\<And>t h. r = ChildOf t h \<Longrightarrow> P t) \<Longrightarrow> P (MTree n l r)"
  shows "P t"
proof (induction t rule: mtree.induct [where ?P2.0 = "\<lambda>c. \<forall>t h. c = ChildOf t h \<longrightarrow> P t"])
  case (MTree n l r)
  then show ?case using assms by simp
qed auto

subsection \<open>The order of keys\<close>

text \<open>
  What a client of a comparison function relies on: its sign is antisymmetric, zero means equal,
  and less-than is transitive. Everything the verifier concludes from ascending keys is proved here.
\<close>

locale comparator =
  fixes cmp :: "'a \<Rightarrow> 'a \<Rightarrow> int"
  assumes cmp_0: "cmp a b = 0 \<longleftrightarrow> a = b"
    and cmp_swap: "cmp a b < 0 \<longleftrightarrow> cmp b a > 0"
    and cmp_trans: "cmp a b < 0 \<Longrightarrow> cmp b c < 0 \<Longrightarrow> cmp a c < 0"
begin

lemma irrefl: "\<not> cmp a a < 0"
  using cmp_0 [of a a] by simp

lemma asym: "cmp a b < 0 \<Longrightarrow> \<not> cmp b a < 0"
  using cmp_trans irrefl by blast

lemma total: "a \<noteq> b \<Longrightarrow> \<not> cmp a b < 0 \<Longrightarrow> cmp b a < 0"
  using cmp_0 [of a b] cmp_swap [of b a] by linarith

lemma le_lt_trans: "cmp a b \<le> 0 \<Longrightarrow> cmp b c < 0 \<Longrightarrow> cmp a c < 0"
  using cmp_trans [of a b c] cmp_0 [of a b] by (cases "cmp a b = 0") auto

lemma ascending_distinct: "sorted_wrt (\<lambda>a b. cmp a b < 0) ks \<Longrightarrow> distinct ks"
  by (induction ks) (auto simp: irrefl)

text \<open>A key next to both sides of where it would stand is not in an ascending list.\<close>

lemma gap_absent:
  assumes "sorted_wrt (\<lambda>a b. cmp a b < 0) (xs @ ys)"
    and "\<forall>x\<in>set xs. cmp x k < 0" and "\<forall>y\<in>set ys. cmp k y < 0"
  shows "k \<notin> set (xs @ ys)"
  using assms irrefl by auto

lemma below_prefix:
  assumes "sorted_wrt (\<lambda>a b. cmp a b < 0) (xs @ [x])" and "cmp x k < 0"
  shows "\<forall>y\<in>set (xs @ [x]). cmp y k < 0"
  using assms cmp_trans by (auto simp: sorted_wrt_append)

lemma above_suffix:
  assumes "sorted_wrt (\<lambda>a b. cmp a b < 0) (y # ys)" and "cmp k y < 0"
  shows "\<forall>z\<in>set (y # ys). cmp k z < 0"
  using assms cmp_trans by auto

end

lemma compareBytes_0: "compareBytes a b = 0 \<longleftrightarrow> a = b"
  by (induction a b rule: compareBytes.induct) (auto simp: not_less_iff_gr_or_eq)

lemma compareBytes_swap: "compareBytes a b < 0 \<longleftrightarrow> compareBytes b a > 0"
  by (induction a b rule: compareBytes.induct) auto

lemma compareBytes_trans:
  "compareBytes a b < 0 \<Longrightarrow> compareBytes b c < 0 \<Longrightarrow> compareBytes a c < 0"
proof (induction a b arbitrary: c rule: compareBytes.induct)
  case (1 x a y b)
  then show ?case by (cases c) (auto split: if_splits)
qed (auto elim: compareBytes.elims)

interpretation key: comparator compareBytes
  by unfold_locales (fact compareBytes_0 compareBytes_swap compareBytes_trans)+

abbreviation ascending :: "bytes list \<Rightarrow> bool" where
  "ascending \<equiv> sorted_wrt (\<lambda>a b. compareBytes a b < 0)"

lemma compareBytes_lex: "compareBytes a b < 0 \<longleftrightarrow> ord_class.lexordp a b"
  by (induction a b rule: compareBytes.induct) auto

text \<open>Key order. \<open>compareBytes\<close> is zero exactly on equal keys, its sign swaps with its
  arguments, and it is negative exactly when the first key is before the second in the
  lexicographic order on unsigned bytes, where a key comes before its extensions.\<close>

theorem compareBytes_order:
  "(compareBytes a b = 0 \<longleftrightarrow> a = b) \<and>
   (compareBytes a b < 0 \<longleftrightarrow> 0 < compareBytes b a) \<and>
   (compareBytes a b < 0 \<longleftrightarrow> ord_class.lexordp a b)"
  using compareBytes_0 compareBytes_swap compareBytes_lex by blast

end
