(* ===== verification/Executor.thy ===== *)
theory Executor
  imports Merk_Decoder Merk_Tree "HOL-Library.Multiset"
begin

text \<open>
  The stack machine that runs a merk proof (\<open>src/src/grovedb/executor.ts\<close>). The variables of
  \<open>executeOps\<close> are the record \<open>exec\<close> (the stack with its top first, the last key and the
  direction it was pushed in, and the state of the visitor callback); its nested functions are
  methods on it. An \<open>Iterable<MerkOp>\<close> is the list of what its \<open>next()\<close> gives, an operation or
  an error, so that an error of the decoder comes after the steps of the operations before it.
  The lemmas: collapsing changes no result but the tree; the visitor sees the pushed nodes; the
  tree holds exactly them, in key order for a plain proof; and any tree in key order is rebuilt
  from its postfix operations.
\<close>

subsection \<open>The machine\<close>

record 'v exec =
  stack :: "mtree list"
  lastKey :: "bytes option"
  lastKeyInverted :: bool
  visitor :: 'v

type_synonym ('v, 'a) emeth = "('v exec, gerror, 'a) meth"

definition newExec :: "'v \<Rightarrow> 'v exec" where
  "newExec v = \<lparr>stack = [], lastKey = None, lastKeyInverted = False, visitor = v\<rparr>"

fun getNodeKey :: "MerkNode \<Rightarrow> bytes option" where
  "getNodeKey (KV k _) = Some k"
| "getNodeKey (KVValueHash k _ _) = Some k"
| "getNodeKey (KVDigest k _) = Some k"
| "getNodeKey (KVRefValueHash k _ _) = Some k"
| "getNodeKey (KVValueHashFeatureType k _ _ _) = Some k"
| "getNodeKey _ = None"

definition pop :: "('v, mtree) emeth" where
  "pop e = (case stack e of [] \<Rightarrow> Inl StackUnderflow | t # ts \<Rightarrow> Inr (t, e\<lparr>stack := ts\<rparr>))"

definition pushTree :: "mtree \<Rightarrow> ('v, unit) emeth" where
  "pushTree t e = Inr ((), e\<lparr>stack := t # stack e\<rparr>)"

definition outOfOrder :: "bytes option \<Rightarrow> bool \<Rightarrow> 'v exec \<Rightarrow> bool" where
  "outOfOrder key inverted e =
     (case (key, lastKey e) of
        (Some k, Some l) \<Rightarrow> lastKeyInverted e = inverted \<and>
          (let cmp = compareBytes k l in if inverted then cmp \<ge> 0 else cmp \<le> 0)
      | _ \<Rightarrow> False)"

definition pushNode :: "(MerkNode \<Rightarrow> 'v \<Rightarrow> 'v) \<Rightarrow> MerkNode \<Rightarrow> bool \<Rightarrow> ('v, unit) emeth" where
  "pushNode visit n inverted e =
     (let key = getNodeKey n in
      if outOfOrder key inverted e
      then Inl (if inverted then IncorrectKeyOrderingInverted else IncorrectKeyOrdering)
      else
        (let e = (if key \<noteq> None then e\<lparr>lastKey := key, lastKeyInverted := inverted\<rparr> else e);
             e = e\<lparr>visitor := visit n (visitor e)\<rparr>
         in pushTree (newTree n) e))"

definition attachChild ::
  "(bytes \<Rightarrow> bytes) \<Rightarrow> bool \<Rightarrow> bool \<Rightarrow> bool \<Rightarrow> ('v, unit) emeth" where
  "attachChild H collapse parentFirst lft =
     bind pop (\<lambda>fst. bind pop (\<lambda>snd.
       let parent = (if parentFirst then fst else snd);
           ch = (if parentFirst then snd else fst)
       in bind (lift (bnd (if collapse then intoHash H ch else Inr ch) (attach H parent lft)))
            pushTree))"

fun step :: "(bytes \<Rightarrow> bytes) \<Rightarrow> bool \<Rightarrow> (MerkNode \<Rightarrow> 'v \<Rightarrow> 'v) \<Rightarrow> MerkOp \<Rightarrow> ('v, unit) emeth" where
  "step H collapse visit (Push n) = pushNode visit n False"
| "step H collapse visit (PushInverted n) = pushNode visit n True"
| "step H collapse visit Parent = attachChild H collapse True True"
| "step H collapse visit Child = attachChild H collapse False False"
| "step H collapse visit ParentInverted = attachChild H collapse True False"
| "step H collapse visit ChildInverted = attachChild H collapse False True"

fun runOps :: "(bytes \<Rightarrow> bytes) \<Rightarrow> bool \<Rightarrow> (MerkNode \<Rightarrow> 'v \<Rightarrow> 'v) \<Rightarrow> (gerror + MerkOp) list \<Rightarrow>
    ('v, unit) emeth" where
  "runOps H collapse visit [] = ret ()"
| "runOps H collapse visit (Inl err # ops) = throw err"
| "runOps H collapse visit (Inr op # ops) =
     bind (step H collapse visit op) (\<lambda>_. runOps H collapse visit ops)"

definition executeOps :: "(bytes \<Rightarrow> bytes) \<Rightarrow> bool \<Rightarrow> (MerkNode \<Rightarrow> 'v \<Rightarrow> 'v) \<Rightarrow> 'v \<Rightarrow>
    (gerror + MerkOp) list \<Rightarrow> gerror + mtree \<times> 'v" where
  "executeOps H collapse visit v ops =
     bnd (runOps H collapse visit ops (newExec v)) (\<lambda>(_, e).
       case stack e of [t] \<Rightarrow> Inr (t, visitor e) | ts \<Rightarrow> Inl (StackItems (length ts)))"

text \<open>\<open>MerkDecoder[Symbol.iterator]\<close>: what the decoder's \<open>next()\<close> gives until the end or an error.\<close>

function opStream :: "decoder \<Rightarrow> (gerror + MerkOp) list" where
  "opStream d =
     (case nextOp d of
        Inl e \<Rightarrow> [Inl e]
      | Inr (None, _) \<Rightarrow> []
      | Inr (Some op, d') \<Rightarrow> Inr op # opStream d')"
  by pat_completeness auto
termination
  by (relation "measure (\<lambda>d. length (dbytes d) - doffset d)") (auto dest!: nextOp_progress)

declare opStream.simps [simp del]

definition executeMerkProof :: "(bytes \<Rightarrow> bytes) \<Rightarrow> bytes \<Rightarrow> bool \<Rightarrow> gerror + mtree" where
  "executeMerkProof H bs collapse =
     bnd (executeOps H collapse (\<lambda>_ u. u) () (opStream (newDecoder bs))) (\<lambda>(t, _). Inr t)"

subsection \<open>Running a query's proof\<close>

record MerkExecutionResult =
  merkRoot :: CryptoHash
  resultSet :: "ProvedKeyValue list"
  limitLeft :: "int option"
  valueKeys :: "string set"

text \<open>The variables the visitor of \<open>executeMerkProofWithQuery\<close> closes over: the limit left, the
  results and the value keys.\<close>

type_synonym collected = "int option \<times> ProvedKeyValue list \<times> string set"

definition carriesValue :: "MerkNode \<Rightarrow> bool" where
  "carriesValue n \<longleftrightarrow>
     nodeTag n = TKV \<or> nodeTag n = TKVValueHash \<or> nodeTag n = TKVValueHashFeatureType \<or>
     nodeTag n = TKVRefValueHash"

definition decLimit :: "int option \<Rightarrow> int option" where
  "decLimit l = map_option (\<lambda>x. x - 1) l"

fun visitNode :: "(bytes \<Rightarrow> bytes) \<Rightarrow> MerkNode \<Rightarrow> collected \<Rightarrow> collected" where
  "visitNode H n (currentLimit, results, keys) =
     (let keys = (if carriesValue n then insert (bytesToHex (the (nodeKey n))) keys else keys) in
      if (case currentLimit of None \<Rightarrow> False | Some l \<Rightarrow> l \<le> 0) then (currentLimit, results, keys)
      else
        (case n of
           KV k v \<Rightarrow>
             (decLimit currentLimit,
              results @ [\<lparr>pkey = k, pvalue = Some v, pproof = valueHash H v, pnodeType = TKV\<rparr>], keys)
         | KVValueHash k v h \<Rightarrow>
             (decLimit currentLimit,
              results @ [\<lparr>pkey = k, pvalue = Some v, pproof = h, pnodeType = TKVValueHash\<rparr>], keys)
         | KVValueHashFeatureType k v h _ \<Rightarrow>
             (decLimit currentLimit,
              results @ [\<lparr>pkey = k, pvalue = Some v, pproof = h,
                pnodeType = TKVValueHashFeatureType\<rparr>], keys)
         | KVRefValueHash k v h \<Rightarrow>
             (decLimit currentLimit,
              results @ [\<lparr>pkey = k, pvalue = Some v, pproof = h, pnodeType = TKVRefValueHash\<rparr>], keys)
         | KVDigest k h \<Rightarrow>
             (currentLimit,
              results @ [\<lparr>pkey = k, pvalue = None, pproof = h, pnodeType = TKVDigest\<rparr>], keys)
         | _ \<Rightarrow> (currentLimit, results, keys)))"

definition executeMerkProofWithQuery ::
  "(bytes \<Rightarrow> bytes) \<Rightarrow> bytes \<Rightarrow> int option \<Rightarrow> gerror + MerkExecutionResult" where
  "executeMerkProofWithQuery H bs limit =
     bnd (executeOps H True (visitNode H) (limit, [], {}) (opStream (newDecoder bs)))
       (\<lambda>(t, currentLimit, results, keys). bnd (treeHash H t) (\<lambda>h.
          Inr \<lparr>merkRoot = h, resultSet = results, limitLeft = currentLimit, valueKeys = keys\<rparr>))"

subsection \<open>The steps of an operation\<close>

lemma getNodeKey_eq [simp]: "getNodeKey n = nodeKey n"
  by (cases n) auto

lemma pop_eq: "pop e = Inr (t, e') \<longleftrightarrow> (\<exists>ts. stack e = t # ts \<and> e' = e\<lparr>stack := ts\<rparr>)"
  by (auto simp: pop_def split: list.splits)

fun isPush :: "MerkOp \<Rightarrow> bool" where
  "isPush (Push _) = True"
| "isPush (PushInverted _) = True"
| "isPush _ = False"

text \<open>The node an operation pushes, and which operations end a list that did not fail.\<close>

fun pushed :: "MerkOp list \<Rightarrow> MerkNode list" where
  "pushed [] = []"
| "pushed (Push n # ops) = n # pushed ops"
| "pushed (PushInverted n # ops) = n # pushed ops"
| "pushed (_ # ops) = pushed ops"

lemma pushed_append [simp]: "pushed (xs @ ys) = pushed xs @ pushed ys"
  by (induction xs rule: pushed.induct) auto

definition okOps :: "(gerror + MerkOp) list \<Rightarrow> MerkOp list option" where
  "okOps xs = (if list_all is_ok xs then Some (map projr xs) else None)"

lemma okOps_simps [simp]:
  "okOps [] = Some []"
  "okOps (Inl e # xs) = None"
  "okOps (Inr op # xs) = map_option ((#) op) (okOps xs)"
  by (auto simp: okOps_def)

lemma okOps_map_Inr [simp]: "okOps (map Inr ops) = Some ops"
  by (induction ops) auto

lemma okOps_Some: "okOps xs = Some ops \<Longrightarrow> xs = map Inr ops"
proof (induction xs arbitrary: ops)
  case (Cons x xs)
  then show ?case by (cases x) auto
qed simp

lemma step_push:
  "step H c visit (Push n) e = pushNode visit n False e"
  "step H c visit (PushInverted n) e = pushNode visit n True e"
  by simp_all

lemma pushNode_Inr:
  "pushNode visit n iv e = Inr (u, e') \<longleftrightarrow> \<not> outOfOrder (nodeKey n) iv e \<and>
     e' = \<lparr>stack = newTree n # stack e,
           lastKey = (if nodeKey n = None then lastKey e else nodeKey n),
           lastKeyInverted = (if nodeKey n = None then lastKeyInverted e else iv),
           visitor = visit n (visitor e)\<rparr>"
  by (cases e) (auto simp: pushNode_def pushTree_def Let_def)

lemma attachChild_Inr:
  "attachChild H c pf lft e = Inr (u, e') \<longleftrightarrow>
     (\<exists>a b ts t. stack e = a # b # ts \<and>
        attach H (if pf then a else b) lft
          (let ch = (if pf then b else a) in if c then newTree (Hash (thash H ch)) else ch) = Inr t \<and>
        e' = e\<lparr>stack := t # ts\<rparr>)"
  by (cases e; cases c; cases pf) (auto simp: attachChild_def pop_eq pushTree_def Let_def)

lemma executeOps_Inr:
  "executeOps H c visit v xs = Inr (t, w) \<longleftrightarrow>
     (\<exists>e. runOps H c visit xs (newExec v) = Inr ((), e) \<and> stack e = [t] \<and> visitor e = w)"
proof -
  have "(case ts of [t] \<Rightarrow> Inr (t, w') | ts \<Rightarrow> Inl (StackItems (length ts))) = Inr (t, w) \<longleftrightarrow>
      ts = [t] \<and> w' = w" for ts w'
    by (cases ts; cases "tl ts") auto
  then show ?thesis by (simp add: executeOps_def)
qed

text \<open>
  A property of a run that every step keeps holds when it ends: \<open>I hist e\<close> relates the
  operations run so far to the machine's state.
\<close>

locale run_invariant =
  fixes H :: "bytes \<Rightarrow> bytes" and collapse :: bool and visit :: "MerkNode \<Rightarrow> 'v \<Rightarrow> 'v" and v0 :: 'v
    and I :: "MerkOp list \<Rightarrow> 'v exec \<Rightarrow> bool"
  assumes I_start: "I [] (newExec v0)"
    and I_step: "I hist e \<Longrightarrow> step H collapse visit op e = Inr ((), e') \<Longrightarrow> I (hist @ [op]) e'"
begin

lemma I_run:
  "I hist e \<Longrightarrow> runOps H collapse visit xs e = Inr ((), e') \<Longrightarrow>
     \<exists>ops. okOps xs = Some ops \<and> I (hist @ ops) e'"
proof (induction xs arbitrary: hist e)
  case (Cons x xs)
  from Cons.prems obtain op e1 where x: "x = Inr op"
    and s: "step H collapse visit op e = Inr ((), e1)"
    and r: "runOps H collapse visit xs e1 = Inr ((), e')"
    by (cases x) auto
  from Cons.IH [OF I_step [OF Cons.prems(1) s] r] obtain ops
    where "okOps xs = Some ops" "I ((hist @ [op]) @ ops) e'" by blast
  with x show ?case by auto
qed simp

lemma I_executeOps:
  assumes "executeOps H collapse visit v0 xs = Inr (t, v)"
  shows "\<exists>ops e. okOps xs = Some ops \<and> stack e = [t] \<and> visitor e = v \<and> I ops e"
proof -
  from assms obtain e where r: "runOps H collapse visit xs (newExec v0) = Inr ((), e)"
    and e: "stack e = [t]" "visitor e = v"
    by (auto simp: executeOps_Inr)
  from I_run [OF I_start r] e show ?thesis by auto
qed

end

subsection \<open>What a run keeps\<close>

definition isVisited :: "(MerkNode \<Rightarrow> 'v \<Rightarrow> 'v) \<Rightarrow> 'v \<Rightarrow> MerkOp list \<Rightarrow> 'v exec \<Rightarrow> bool" where
  "isVisited visit v0 hist e \<longleftrightarrow> visitor e = fold visit (pushed hist) v0"

definition allCached :: "(bytes \<Rightarrow> bytes) \<Rightarrow> MerkOp list \<Rightarrow> 'v exec \<Rightarrow> bool" where
  "allCached H hist e \<longleftrightarrow> list_all (cached H) (stack e)"

definition sameNodes :: "MerkOp list \<Rightarrow> 'v exec \<Rightarrow> bool" where
  "sameNodes hist e \<longleftrightarrow> mset (concat (map nodes (stack e))) = mset (pushed hist)"

lemma step_cases:
  assumes "step H c visit op e = Inr ((), e')"
  obtains (push) n iv where "op = (if iv then PushInverted n else Push n)"
      "\<not> outOfOrder (nodeKey n) iv e"
      "e' = \<lparr>stack = newTree n # stack e,
           lastKey = (if nodeKey n = None then lastKey e else nodeKey n),
           lastKeyInverted = (if nodeKey n = None then lastKeyInverted e else iv),
           visitor = visit n (visitor e)\<rparr>"
    | (attach) pf lft a b ts t where
      "op = (if pf then if lft then Parent else ParentInverted else if lft then ChildInverted else Child)"
      "stack e = a # b # ts" "e' = e\<lparr>stack := t # ts\<rparr>"
      "attach H (if pf then a else b) lft
         (let ch = (if pf then b else a) in if c then newTree (Hash (thash H ch)) else ch) = Inr t"
proof (cases op)
  case (Push n)
  then show thesis using assms push [of False n] by (simp add: pushNode_Inr)
next
  case (PushInverted n)
  then show thesis using assms push [of True n] by (simp add: pushNode_Inr)
next
  case Parent
  then show thesis using assms attach [of True True] by (auto simp: attachChild_Inr)
next
  case Child
  then show thesis using assms attach [of False False] by (auto simp: attachChild_Inr)
next
  case ParentInverted
  then show thesis using assms attach [of True False] by (auto simp: attachChild_Inr)
next
  case ChildInverted
  then show thesis using assms attach [of False True] by (auto simp: attachChild_Inr)
qed

lemma pushed_push: "pushed [if iv then PushInverted n else Push n] = [n]"
  by simp

lemma pushed_attach:
  "pushed [if pf then if lft then Parent else ParentInverted else if lft then ChildInverted else Child] = []"
  by simp

interpretation visits: run_invariant H collapse visit v0 "isVisited visit v0"
proof
  show "isVisited visit v0 [] (newExec v0)" by (simp add: isVisited_def newExec_def)
  fix hist e op e'
  assume I: "isVisited visit v0 hist e" and s: "step H collapse visit op e = Inr ((), e')"
  from s show "isVisited visit v0 (hist @ [op]) e'"
    by (cases rule: step_cases) (use I in \<open>simp_all add: isVisited_def pushed_push pushed_attach\<close>)
qed

interpretation cachedRun: run_invariant H collapse visit v0 "allCached H"
proof
  show "allCached H [] (newExec v0)" by (simp add: allCached_def newExec_def)
  fix hist e op e'
  assume I: "allCached H hist e" and s: "step H collapse visit op e = Inr ((), e')"
  from s show "allCached H (hist @ [op]) e'"
  proof (cases rule: step_cases)
    case (push n iv)
    with I show ?thesis by (simp add: allCached_def)
  next
    case (attach pf lft a b ts t)
    have "cached H t"
      using attach(4) by (rule attach_cached) (use I attach(2) in \<open>auto simp: allCached_def Let_def\<close>)
    with I attach show ?thesis by (simp add: allCached_def)
  qed
qed

interpretation keepsNodes: run_invariant H False visit v0 sameNodes
proof
  show "sameNodes [] (newExec v0)" by (simp add: sameNodes_def newExec_def)
  fix hist e op e'
  assume I: "sameNodes hist e" and s: "step H False visit op e = Inr ((), e')"
  from s show "sameNodes (hist @ [op]) e'"
  proof (cases rule: step_cases)
    case (push n iv)
    with I show ?thesis by (simp add: sameNodes_def)
  next
    case (attach pf lft a b ts t)
    from attach_nodes [OF attach(4)] attach(1-3) I show ?thesis
      by (simp add: sameNodes_def Let_def ac_simps split: if_splits)
  qed
qed

subsection \<open>Plain and inverted proofs\<close>

fun plainOp :: "MerkOp \<Rightarrow> bool" where
  "plainOp (Push _) = True"
| "plainOp Parent = True"
| "plainOp Child = True"
| "plainOp _ = False"

fun invertedOp :: "MerkOp \<Rightarrow> bool" where
  "invertedOp (PushInverted _) = True"
| "invertedOp ParentInverted = True"
| "invertedOp ChildInverted = True"
| "invertedOp _ = False"

definition keysOf :: "MerkNode list \<Rightarrow> bytes list" where
  "keysOf ns = List.map_filter nodeKey ns"

lemma keysOf_simps [simp]:
  "keysOf [] = []"
  "keysOf (n # ns) = (case nodeKey n of None \<Rightarrow> keysOf ns | Some k \<Rightarrow> k # keysOf ns)"
  "keysOf (ns @ ms) = keysOf ns @ keysOf ms"
  "keysOf (rev ns) = rev (keysOf ns)"
  by (simp_all add: keysOf_def map_filter_def rev_map flip: rev_filter split: option.splits)

text \<open>The last key a run pushed is the machine's \<open>lastKey\<close>, with its direction.\<close>

definition lastPushed :: "bool \<Rightarrow> bytes list \<Rightarrow> 'v exec \<Rightarrow> bool" where
  "lastPushed iv ks e \<longleftrightarrow>
     (if ks = [] then lastKey e = None else lastKey e = Some (last ks) \<and> lastKeyInverted e = iv)"

definition plainOrder :: "MerkOp list \<Rightarrow> 'v exec \<Rightarrow> bool" where
  "plainOrder hist e \<longleftrightarrow> (list_all plainOp hist \<longrightarrow>
     concat (map nodes (rev (stack e))) = pushed hist \<and> ascending (keysOf (pushed hist)) \<and>
     lastPushed False (keysOf (pushed hist)) e)"

definition invertedOrder :: "MerkOp list \<Rightarrow> 'v exec \<Rightarrow> bool" where
  "invertedOrder hist e \<longleftrightarrow> (list_all invertedOp hist \<longrightarrow>
     concat (map nodes (stack e)) = rev (pushed hist) \<and> ascending (rev (keysOf (pushed hist))) \<and>
     lastPushed True (keysOf (pushed hist)) e)"

lemma ascending_snoc: "ascending ks \<Longrightarrow> ks \<noteq> [] \<Longrightarrow> compareBytes (last ks) k < 0 \<Longrightarrow> ascending (ks @ [k])"
  using key.below_prefix [of "butlast ks" "last ks" k] by (simp add: sorted_wrt_append)

lemma ascending_Cons: "ascending ks \<Longrightarrow> ks \<noteq> [] \<Longrightarrow> compareBytes k (hd ks) < 0 \<Longrightarrow> ascending (k # ks)"
  using key.above_suffix [of "hd ks" "tl ks" k] by simp

interpretation plainRun: run_invariant H False visit v0 plainOrder
proof
  show "plainOrder [] (newExec v0)" by (simp add: plainOrder_def lastPushed_def newExec_def)
  fix hist e op e'
  assume I: "plainOrder hist e" and s: "step H False visit op e = Inr ((), e')"
  from s show "plainOrder (hist @ [op]) e'"
  proof (cases rule: step_cases)
    case (push n iv)
    show ?thesis
    proof (cases "iv \<or> \<not> list_all plainOp hist")
      case False
      with I have I: "concat (map nodes (rev (stack e))) = pushed hist"
        "ascending (keysOf (pushed hist))" "lastPushed False (keysOf (pushed hist)) e"
        by (simp_all add: plainOrder_def)
      have "ascending (keysOf (pushed hist) @ [k])" if "nodeKey n = Some k" for k
        using that push(2) False I(2,3) ascending_snoc [OF I(2), of k] key.cmp_swap [of _ k]
        by (cases "keysOf (pushed hist) = []") (auto simp: lastPushed_def outOfOrder_def Let_def)
      with push(1,3) False I show ?thesis
        by (auto simp: plainOrder_def lastPushed_def split: option.splits)
    qed (use push in \<open>auto simp: plainOrder_def\<close>)
  next
    case (attach pf lft a b ts t)
    from attach_nodes [OF attach(4)] attach(1-3) I show ?thesis
      by (auto simp: plainOrder_def lastPushed_def Let_def split: if_splits)
  qed
qed

interpretation invertedRun: run_invariant H False visit v0 invertedOrder
proof
  show "invertedOrder [] (newExec v0)" by (simp add: invertedOrder_def lastPushed_def newExec_def)
  fix hist e op e'
  assume I: "invertedOrder hist e" and s: "step H False visit op e = Inr ((), e')"
  from s show "invertedOrder (hist @ [op]) e'"
  proof (cases rule: step_cases)
    case (push n iv)
    show ?thesis
    proof (cases "\<not> iv \<or> \<not> list_all invertedOp hist")
      case False
      with I have I: "concat (map nodes (stack e)) = rev (pushed hist)"
        "ascending (rev (keysOf (pushed hist)))" "lastPushed True (keysOf (pushed hist)) e"
        by (simp_all add: invertedOrder_def)
      have "ascending (k # rev (keysOf (pushed hist)))" if "nodeKey n = Some k" for k
        using that push(2) False I(2,3) ascending_Cons [OF I(2), of k]
        by (cases "keysOf (pushed hist) = []") (auto simp: lastPushed_def outOfOrder_def Let_def hd_rev)
      with push(1,3) False I show ?thesis
        by (auto simp: invertedOrder_def lastPushed_def split: option.splits)
    qed (use push in \<open>auto simp: invertedOrder_def\<close>)
  next
    case (attach pf lft a b ts t)
    from attach_nodes [OF attach(4)] attach(1-3) I show ?thesis
      by (auto simp: invertedOrder_def lastPushed_def Let_def split: if_splits)
  qed
qed

subsection \<open>Collapsing\<close>

text \<open>What a collapsed tree keeps: the node and the cached hashes of the children it has. Two
  machines that agree on it make the same steps, whether they collapse or not and whatever their
  visitor does.\<close>

fun childShape :: "child \<Rightarrow> CryptoHash option" where
  "childShape NoChild = None"
| "childShape (ChildOf _ h) = Some h"

definition shape :: "mtree \<Rightarrow> MerkNode \<times> CryptoHash option \<times> CryptoHash option" where
  "shape t = (mnode t, childShape (mleft t), childShape (mright t))"

definition alike :: "'v exec \<Rightarrow> 'w exec \<Rightarrow> bool" where
  "alike e f \<longleftrightarrow> map shape (stack e) = map shape (stack f) \<and> lastKey e = lastKey f \<and>
     lastKeyInverted e = lastKeyInverted f"

lemma childShape_None [simp]: "childShape c = None \<longleftrightarrow> c = NoChild"
  by (cases c) auto

lemma cachedHash_shape: "childShape c = childShape d \<Longrightarrow> cachedHash c = cachedHash d"
  by (cases c; cases d) auto

lemma shape_thash: "shape t = shape u \<Longrightarrow> thash H t = thash H u"
  using cachedHash_shape [of "mleft t" "mleft u"] cachedHash_shape [of "mright t" "mright u"]
  by (simp add: shape_def thash_def)

lemma shape_NoChild:
  "shape t = shape u \<Longrightarrow> mnode t = mnode u \<and> (mleft t = NoChild \<longleftrightarrow> mleft u = NoChild) \<and>
     (mright t = NoChild \<longleftrightarrow> mright u = NoChild)"
  unfolding shape_def by (metis childShape_None prod.inject)

lemma attach_shape:
  assumes "shape t = shape u" and "thash H ch = thash H dh"
  shows "rel_sum (=) (\<lambda>a b. shape a = shape b) (attach H t lft ch) (attach H u lft dh)"
  using shape_NoChild [OF assms(1)] assms by (auto simp: attach_eq shape_def)

definition sameRun ::
  "('a \<Rightarrow> 'a \<Rightarrow> bool) \<Rightarrow> gerror + 'a \<times> 'v exec \<Rightarrow> gerror + 'a \<times> 'w exec \<Rightarrow> bool" where
  "sameRun R = rel_sum (=) (\<lambda>(a, e) (b, f). R a b \<and> alike e f)"

lemma sameRun_simps [simp]:
  "sameRun R (Inl x) (Inl y) \<longleftrightarrow> x = y"
  "sameRun R (Inr (a, e)) (Inr (b, f)) \<longleftrightarrow> R a b \<and> alike e f"
  "\<not> sameRun R (Inl x) (Inr z)"
  "\<not> sameRun R (Inr z) (Inl x)"
  by (simp_all add: sameRun_def)

lemma alike_pop: "alike e f \<Longrightarrow> sameRun (\<lambda>t u. shape t = shape u) (pop e) (pop f)"
  by (cases "stack e"; cases "stack f") (auto simp: alike_def pop_def)

lemma sameRun_bind:
  assumes "sameRun R (m e) (n f)"
    and "\<And>a b e f. R a b \<Longrightarrow> alike e f \<Longrightarrow> sameRun Q (k a e) (l b f)"
  shows "sameRun Q (bind m k e) (bind n l f)"
  using assms(1) by (cases "m e"; cases "n f") (auto simp: bind_def intro: assms(2))

lemma sameRun_pushTree:
  "shape t = shape u \<Longrightarrow> alike e f \<Longrightarrow> sameRun (=) (pushTree t e) (pushTree u f)"
  by (simp add: pushTree_def alike_def)

lemma sameRun_lift:
  "rel_sum (=) R x y \<Longrightarrow> alike e f \<Longrightarrow> sameRun R (lift x e) (lift y f)"
  by (auto elim: rel_sum.cases)

lemma attachChild_alike:
  fixes e :: "'v exec" and f :: "'w exec"
  assumes "alike e f"
  shows "sameRun (=) (attachChild H c pf lft e) (attachChild H c' pf lft f)"
  unfolding attachChild_def
proof (rule sameRun_bind [where R = "\<lambda>t u. shape t = shape u"], rule alike_pop [OF assms],
    rule sameRun_bind [where R = "\<lambda>t u. shape t = shape u"], erule alike_pop)
  fix a b a' b' and e :: "'v exec" and f :: "'w exec"
  assume s: "shape a = shape b" "shape a' = shape b'" and ef: "alike e f"
  let ?p = "if pf then a else a'" and ?q = "if pf then b else b'"
    and ?c = "if pf then a' else a" and ?d = "if pf then b' else b"
  have "rel_sum (=) (\<lambda>a b. shape a = shape b)
      (bnd (if c then intoHash H ?c else Inr ?c) (attach H ?p lft))
      (bnd (if c' then intoHash H ?d else Inr ?d) (attach H ?q lft))"
    using s by (auto intro!: attach_shape dest: shape_thash [of _ _ H])
  note l = sameRun_lift [OF this ef]
  show "sameRun (=)
     ((let parent = ?p; ch = ?c
      in bind (lift (bnd (if c then intoHash H ch else Inr ch) (attach H parent lft))) pushTree)
     e)
     ((let parent = ?q; ch = ?d
      in bind (lift (bnd (if c' then intoHash H ch else Inr ch) (attach H parent lft))) pushTree)
     f)"
    unfolding Let_def
    by (rule sameRun_bind [where R = "\<lambda>t u. shape t = shape u"], rule l, rule sameRun_pushTree)
qed

lemma outOfOrder_alike: "alike e f \<Longrightarrow> outOfOrder k iv e = outOfOrder k iv f"
  unfolding alike_def outOfOrder_def by (cases k; cases "lastKey f") auto

lemma pushNode_alike: "alike e f \<Longrightarrow> sameRun (=) (pushNode visit n iv e) (pushNode visit' n iv f)"
  using outOfOrder_alike [of e f "nodeKey n" iv]
  by (simp add: pushNode_def alike_def Let_def pushTree_def)

lemma step_alike: "alike e f \<Longrightarrow> sameRun (=) (step H c visit op e) (step H c' visit' op f)"
  by (cases op) (simp_all only: step.simps pushNode_alike attachChild_alike)

lemma runOps_alike: "alike e f \<Longrightarrow> sameRun (=) (runOps H c visit xs e) (runOps H c' visit' xs f)"
proof (induction xs arbitrary: e f)
  case (Cons x xs)
  show ?case
  proof (cases x)
    case (Inr op)
    show ?thesis
      unfolding Inr runOps.simps
      by (rule sameRun_bind [where R = "(=)"], rule step_alike [OF Cons.prems], rule Cons.IH)
  qed simp
qed simp

lemma finish_alike:
  assumes "map shape ts = map shape us"
  shows "rel_sum (=) (\<lambda>(t, _) (u, _). shape t = shape u)
    (case ts of [t] \<Rightarrow> Inr (t, v) | ts \<Rightarrow> Inl (StackItems (length ts)))
    (case us of [u] \<Rightarrow> Inr (u, w) | us \<Rightarrow> Inl (StackItems (length us)))"
proof -
  have "length ts = length us" using assms by (metis length_map)
  then show ?thesis using assms
    by (induction ts us rule: list_induct2) (auto split: list.splits)
qed

lemma executeOps_alike:
  "rel_sum (=) (\<lambda>(t, _) (u, _). shape t = shape u)
    (executeOps H c visit v xs) (executeOps H c' visit' v' xs)"
proof -
  have "alike (newExec v) (newExec v')" by (simp add: alike_def newExec_def)
  from runOps_alike [OF this, of H c visit xs c' visit'] show ?thesis
    unfolding executeOps_def
    by (cases "runOps H c visit xs (newExec v)"; cases "runOps H c' visit' xs (newExec v')")
      (auto simp: alike_def intro!: finish_alike)
qed

lemma executeOps_visitor:
  assumes "executeOps H c visit v xs = Inr (t, w)"
  shows "\<exists>ops. okOps xs = Some ops \<and> w = fold visit (pushed ops) v"
  using visits.I_executeOps [OF assms] by (auto simp: isVisited_def)

text \<open>The tree operations build, and the run without collapsing that a run stands for.\<close>

definition rebuilt :: "(bytes \<Rightarrow> bytes) \<Rightarrow> MerkOp list \<Rightarrow> mtree \<Rightarrow> bool" where
  "rebuilt H ops u \<longleftrightarrow> cached H u \<and> mset (nodes u) = mset (pushed ops) \<and>
     (list_all plainOp ops \<longrightarrow> nodes u = pushed ops \<and> ascending (keysOf (nodes u))) \<and>
     (list_all invertedOp ops \<longrightarrow> nodes u = rev (pushed ops) \<and> ascending (keysOf (nodes u)))"

lemma executeOps_rebuilt:
  assumes "executeOps H False visit v xs = Inr (u, w)"
  shows "\<exists>ops. okOps xs = Some ops \<and> w = fold visit (pushed ops) v \<and> rebuilt H ops u"
proof -
  from executeOps_visitor [OF assms] obtain ops
    where ops: "okOps xs = Some ops" "w = fold visit (pushed ops) v" by blast
  from cachedRun.I_executeOps [OF assms] ops(1) have "cached H u" by (auto simp: allCached_def)
  moreover from keepsNodes.I_executeOps [OF assms] ops(1) have "mset (nodes u) = mset (pushed ops)"
    by (auto simp: sameNodes_def)
  moreover from plainRun.I_executeOps [OF assms] ops(1)
  have "list_all plainOp ops \<longrightarrow> nodes u = pushed ops \<and> ascending (keysOf (nodes u))"
    by (auto simp: plainOrder_def)
  moreover from invertedRun.I_executeOps [OF assms] ops(1)
  have "list_all invertedOp ops \<longrightarrow> nodes u = rev (pushed ops) \<and> ascending (keysOf (nodes u))"
    by (auto simp: invertedOrder_def simp flip: keysOf_simps(4))
  ultimately show ?thesis using ops unfolding rebuilt_def by blast
qed

lemma executeOps_uncollapsed:
  assumes "executeOps H c visit v xs = Inr (t, w)"
  shows "\<exists>u ops. executeOps H False (\<lambda>_ x. x) () xs = Inr (u, ()) \<and> thash H t = thash H u \<and>
    okOps xs = Some ops \<and> w = fold visit (pushed ops) v \<and> rebuilt H ops u"
proof -
  from executeOps_alike [of H c visit v xs False "\<lambda>_ x. x" "()"] assms obtain u
    where u: "executeOps H False (\<lambda>_ x. x) () xs = Inr (u, ())" and s: "shape t = shape u"
    by (cases "executeOps H False (\<lambda>_ x. x) () xs") auto
  from executeOps_rebuilt [OF u] executeOps_visitor [OF assms] u shape_thash [OF s, of H]
  show ?thesis by auto
qed

subsection \<open>The nodes a query's proof reports\<close>

text \<open>What one node adds to the results, and how much of the limit it takes.\<close>

fun provedOf :: "(bytes \<Rightarrow> bytes) \<Rightarrow> MerkNode \<Rightarrow> ProvedKeyValue option" where
  "provedOf H (KV k v) = Some \<lparr>pkey = k, pvalue = Some v, pproof = valueHash H v, pnodeType = TKV\<rparr>"
| "provedOf H (KVValueHash k v h) =
     Some \<lparr>pkey = k, pvalue = Some v, pproof = h, pnodeType = TKVValueHash\<rparr>"
| "provedOf H (KVValueHashFeatureType k v h _) =
     Some \<lparr>pkey = k, pvalue = Some v, pproof = h, pnodeType = TKVValueHashFeatureType\<rparr>"
| "provedOf H (KVRefValueHash k v h) =
     Some \<lparr>pkey = k, pvalue = Some v, pproof = h, pnodeType = TKVRefValueHash\<rparr>"
| "provedOf H (KVDigest k h) = Some \<lparr>pkey = k, pvalue = None, pproof = h, pnodeType = TKVDigest\<rparr>"
| "provedOf H _ = None"

fun reported :: "(bytes \<Rightarrow> bytes) \<Rightarrow> int option \<Rightarrow> MerkNode list \<Rightarrow> ProvedKeyValue list" where
  "reported H lim [] = []"
| "reported H lim (n # ns) =
     (if (case lim of None \<Rightarrow> False | Some l \<Rightarrow> l \<le> 0) then []
      else (case provedOf H n of None \<Rightarrow> [] | Some p \<Rightarrow> [p]) @
        reported H (if carriesValue n then decLimit lim else lim) ns)"

definition valueKeysOf :: "MerkNode list \<Rightarrow> string set" where
  "valueKeysOf ns = {bytesToHex k | k n. n \<in> set ns \<and> carriesValue n \<and> nodeKey n = Some k}"

lemma carriesValue_iff: "carriesValue n \<longleftrightarrow> nodeValue n \<noteq> None"
  by (cases n) (auto simp: carriesValue_def)

lemma reported_stop: "l \<le> 0 \<Longrightarrow> reported H (Some l) ns = []"
  by (cases ns) auto

lemma valueKeysOf_Cons:
  "valueKeysOf (n # ns) =
     (if carriesValue n then {bytesToHex (the (nodeKey n))} else {}) \<union> valueKeysOf ns"
  by (cases n; fastforce simp: valueKeysOf_def carriesValue_def)

lemma visitNode_eq:
  "visitNode H n (lim, rs, ks) =
     (if (case lim of None \<Rightarrow> False | Some l \<Rightarrow> l \<le> 0) then lim
        else if carriesValue n then decLimit lim else lim,
      rs @ reported H lim [n], valueKeysOf [n] \<union> ks)"
  by (cases n) (auto simp: carriesValue_def valueKeysOf_def split: option.splits)

lemma fold_visitNode:
  "\<exists>lim'. fold (visitNode H) ns (lim, rs, ks) = (lim', rs @ reported H lim ns, valueKeysOf ns \<union> ks)"
proof (induction ns arbitrary: lim rs ks)
  case Nil
  then show ?case by (simp add: valueKeysOf_def)
next
  case (Cons n ns)
  let ?lim = "if (case lim of None \<Rightarrow> False | Some l \<Rightarrow> l \<le> 0) then lim
        else if carriesValue n then decLimit lim else lim"
  from Cons.IH [of ?lim "rs @ reported H lim [n]" "valueKeysOf [n] \<union> ks"] obtain lim' where
    *: "fold (visitNode H) (n # ns) (lim, rs, ks) =
      (lim', (rs @ reported H lim [n]) @ reported H ?lim ns, valueKeysOf ns \<union> (valueKeysOf [n] \<union> ks))"
    using visitNode_eq [of H n lim rs ks] by auto
  have r: "reported H lim [n] @ reported H ?lim ns = reported H lim (n # ns)"
    by (auto simp: reported_stop split: option.splits)
  have k: "valueKeysOf ns \<union> (valueKeysOf [n] \<union> ks) = valueKeysOf (n # ns) \<union> ks"
    unfolding valueKeysOf_Cons [of n ns] valueKeysOf_Cons [of n "[]"] by (auto simp: valueKeysOf_def)
  from * show ?case unfolding append_assoc r k by blast
qed

lemma reported_no_limit: "reported H None ns = List.map_filter (provedOf H) ns"
  by (induction ns) (auto simp: List.map_filter_def decLimit_def split: option.splits)

subsection \<open>Proof bytes\<close>

lemma okOps_opStream: "okOps (opStream d) = Some ops \<longleftrightarrow> collectOps d = Inr ops"
proof (induction d arbitrary: ops rule: opStream.induct)
  case (1 d)
  show ?case
  proof (cases "nextOp d")
    case (Inr p)
    obtain r e where p: "p = (r, e)" by (cases p)
    show ?thesis
    proof (cases r)
      case (Some op)
      with Inr p "1.IH" [of p r e op] show ?thesis
        by (auto simp: opStream.simps [of d] collectOps.simps [of d])
    qed (use Inr p in \<open>auto simp: opStream.simps [of d] collectOps.simps [of d]\<close>)
  qed (auto simp: opStream.simps [of d] collectOps.simps [of d])
qed

lemma decodeMerkOps_stream: "okOps (opStream (newDecoder bs)) = Some ops \<longleftrightarrow> decodeMerkOps bs = Inr ops"
  by (simp add: okOps_opStream decodeMerkOps_def)

lemma decodeMerkOps_wf: "decodeMerkOps bs = Inr ops \<Longrightarrow> list_all wfOp ops"
  by (simp add: decodeMerkOps_def collectOps_wf)

lemma executeMerkProof_tree:
  assumes "executeMerkProof H bs False = Inr t"
  shows "\<exists>ops. decodeMerkOps bs = Inr ops \<and> list_all wfOp ops \<and> rebuilt H ops t"
proof -
  from assms have "executeOps H False (\<lambda>_ x. x) () (opStream (newDecoder bs)) = Inr (t, ())"
    by (auto simp: executeMerkProof_def)
  from executeOps_rebuilt [OF this] show ?thesis
    by (auto simp: decodeMerkOps_stream dest: decodeMerkOps_wf)
qed

lemma executeMerkProofWithQuery_tree:
  assumes "executeMerkProofWithQuery H bs lim = Inr r"
  shows "\<exists>t ops. executeMerkProof H bs False = Inr t \<and> merkRoot r = thash H t \<and>
    decodeMerkOps bs = Inr ops \<and> list_all wfOp ops \<and> rebuilt H ops t \<and>
    resultSet r = reported H lim (pushed ops) \<and> valueKeys r = valueKeysOf (pushed ops)"
proof -
  from assms obtain t l rs ks
    where x: "executeOps H True (visitNode H) (lim, [], {}) (opStream (newDecoder bs)) = Inr (t, l, rs, ks)"
      and r: "merkRoot r = thash H t" "resultSet r = rs" "valueKeys r = ks"
    by (auto simp: executeMerkProofWithQuery_def)
  from executeOps_uncollapsed [OF x] obtain u ops
    where u: "executeOps H False (\<lambda>_ x. x) () (opStream (newDecoder bs)) = Inr (u, ())"
      "thash H t = thash H u" "decodeMerkOps bs = Inr ops"
      "(l, rs, ks) = fold (visitNode H) (pushed ops) (lim, [], {})" "rebuilt H ops u"
    by (auto simp: decodeMerkOps_stream)
  moreover have "rs = reported H lim (pushed ops)" "ks = valueKeysOf (pushed ops)"
    using fold_visitNode [of H "pushed ops" lim "[]" "{}"] u(4) by auto
  moreover have "executeMerkProof H bs False = Inr u" using u(1) by (simp add: executeMerkProof_def)
  ultimately show ?thesis using r decodeMerkOps_wf [OF u(3)] by auto
qed

lemma opStream_ok: "decodeMerkOps bs = Inr ops \<Longrightarrow> opStream (newDecoder bs) = map Inr ops"
  using okOps_Some decodeMerkOps_stream by blast

subsection \<open>Rebuilding a tree\<close>

text \<open>The operations that rebuild a tree, left subtree first.\<close>

primrec treeOps :: "mtree \<Rightarrow> MerkOp list" and childOps :: "child \<Rightarrow> MerkOp list" where
  "treeOps (MTree n l r) =
     childOps l @ [Push n] @ (if l = NoChild then [] else [Parent]) @
     childOps r @ (if r = NoChild then [] else [Child])"
| "childOps NoChild = []"
| "childOps (ChildOf t h) = treeOps t"

definition runList :: "(bytes \<Rightarrow> bytes) \<Rightarrow> bool \<Rightarrow> (MerkNode \<Rightarrow> 'v \<Rightarrow> 'v) \<Rightarrow> MerkOp list \<Rightarrow> ('v, unit) emeth" where
  "runList H c visit ops = runOps H c visit (map Inr ops)"

lemma runOps_append:
  "runOps H c visit (map Inr xs @ ys) e = bind (runOps H c visit (map Inr xs)) (\<lambda>_. runOps H c visit ys) e"
  by (induction xs arbitrary: e) (auto simp: bind_def split: sum.splits)

lemma runList_append:
  "runList H c visit xs e = Inr ((), f) \<Longrightarrow> runList H c visit (xs @ ys) e = runList H c visit ys f"
  by (simp add: runList_def runOps_append bind_def)

lemma runList_Nil [simp]: "runList H c visit [] e = Inr ((), e)"
  by (simp add: runList_def)

lemma runList_single [simp]: "runList H c visit [op] e = step H c visit op e"
  by (cases "step H c visit op e") (auto simp: runList_def bind_def)

text \<open>The machine after nodes \<open>ns\<close> were pushed plainly and combined to the trees \<open>ts\<close>, and when
  nodes with the keys \<open>ks\<close> may be pushed.\<close>

definition afterNodes :: "(MerkNode \<Rightarrow> 'v \<Rightarrow> 'v) \<Rightarrow> MerkNode list \<Rightarrow> mtree list \<Rightarrow> 'v exec \<Rightarrow> 'v exec" where
  "afterNodes visit ns ts e =
     \<lparr>stack = ts @ stack e,
      lastKey = (if keysOf ns = [] then lastKey e else Some (last (keysOf ns))),
      lastKeyInverted = (if keysOf ns = [] then lastKeyInverted e else False),
      visitor = fold visit ns (visitor e)\<rparr>"

definition mayPush :: "bytes list \<Rightarrow> 'v exec \<Rightarrow> bool" where
  "mayPush ks e \<longleftrightarrow> ascending (case lastKey e of None \<Rightarrow> ks | Some k \<Rightarrow> k # ks) \<and>
     (lastKey e \<noteq> None \<longrightarrow> \<not> lastKeyInverted e)"

lemma mayPush_append:
  "mayPush (ks @ ls) e \<Longrightarrow> mayPush ks e"
  by (auto simp: mayPush_def sorted_wrt_append split: option.splits)

lemma mayPush_after:
  assumes "mayPush (keysOf (ns @ ms)) e"
  shows "mayPush (keysOf ms) (afterNodes visit ns ts e)"
proof (cases "keysOf ns = []")
  case False
  then have "last (keysOf ns) \<in> set (keysOf ns)" by simp
  with False assms show ?thesis
    by (auto simp: mayPush_def afterNodes_def sorted_wrt_append split: option.splits)
qed (use assms in \<open>simp add: mayPush_def afterNodes_def\<close>)

lemma after_after: "afterNodes visit ns ts (afterNodes visit ms us e) = afterNodes visit (ms @ ns) (ts @ us) e"
  by (simp add: afterNodes_def)

lemma after_none: "afterNodes visit [] [] e = e"
  by (simp add: afterNodes_def)

lemma run_push:
  assumes "mayPush (keysOf [n]) e"
  shows "runList H c visit [Push n] e = Inr ((), afterNodes visit [n] [newTree n] e)"
proof -
  have "\<not> outOfOrder (nodeKey n) False e"
    using assms key.asym key.cmp_0
    by (auto simp: mayPush_def outOfOrder_def Let_def order_le_less split: option.splits)
  then show ?thesis
    by (auto simp: pushNode_Inr afterNodes_def split: option.splits)
qed

lemma run_Parent:
  "nodeTag n \<noteq> THash \<Longrightarrow>
   runList H False visit [Parent] (afterNodes visit ns [newTree n, t] e) =
     Inr ((), afterNodes visit ns [MTree n (ChildOf t (thash H t)) NoChild] e)"
  by (auto simp: attachChild_Inr afterNodes_def attach_eq Let_def)

lemma run_Child:
  "nodeTag n \<noteq> THash \<Longrightarrow>
   runList H False visit [Child] (afterNodes visit ns [t, MTree n l NoChild] e) =
     Inr ((), afterNodes visit ns [MTree n l (ChildOf t (thash H t))] e)"
  by (auto simp: attachChild_Inr afterNodes_def attach_eq Let_def)

fun treesC :: "child \<Rightarrow> mtree list" where
  "treesC NoChild = []"
| "treesC (ChildOf t _) = [t]"

lemma runList_treeOps:
  fixes e :: "'v exec"
  shows "cached H t \<Longrightarrow> mayPush (keysOf (nodes t)) e \<Longrightarrow>
      runList H False visit (treeOps t) e = Inr ((), afterNodes visit (nodes t) [t] e)"
    and "cachedC H c \<Longrightarrow> mayPush (keysOf (nodesC c)) e \<Longrightarrow>
      runList H False visit (childOps c) e = Inr ((), afterNodes visit (nodesC c) (treesC c) e)"
proof (induction t and c arbitrary: e and e rule: mtree.induct child.induct)
  case (MTree n l r)
  let ?e1 = "afterNodes visit (nodesC l) (treesC l) e"
  let ?t2 = "MTree n l NoChild"
  let ?e2 = "afterNodes visit (nodesC l @ [n]) [?t2] e"
  have m: "mayPush (keysOf (nodesC l @ [n] @ nodesC r)) e" using MTree.prems by simp
  have 1: "runList H False visit (childOps l) e = Inr ((), ?e1)"
    using MTree m by (intro MTree.IH) (auto dest: mayPush_append)
  have "mayPush (keysOf ([n] @ nodesC r)) ?e1" by (rule mayPush_after) (use m in simp)
  then have "mayPush (keysOf [n]) ?e1"
    using mayPush_append [of "keysOf [n]" "keysOf (nodesC r)"] by (simp only: keysOf_simps(3))
  from run_push [OF this] have 2: "runList H False visit [Push n] ?e1 =
      Inr ((), afterNodes visit (nodesC l @ [n]) (newTree n # treesC l) e)"
    by (simp add: after_after)
  have 3: "runList H False visit (if l = NoChild then [] else [Parent])
      (afterNodes visit (nodesC l @ [n]) (newTree n # treesC l) e) = Inr ((), ?e2)"
    using MTree.prems(1) run_Parent [of n H visit]
    by (cases l) (auto simp: newTree_def)
  have "mayPush (keysOf (nodesC r)) ?e2" by (rule mayPush_after) (use m in simp)
  with MTree have 4: "runList H False visit (childOps r) ?e2 =
      Inr ((), afterNodes visit (nodesC l @ [n] @ nodesC r) (treesC r @ [?t2]) e)"
    by (simp add: after_after)
  have 5: "runList H False visit (if r = NoChild then [] else [Child])
      (afterNodes visit (nodesC l @ [n] @ nodesC r) (treesC r @ [?t2]) e) =
      Inr ((), afterNodes visit (nodes (MTree n l r)) [MTree n l r] e)"
    using MTree.prems(1) run_Child [of n H visit] by (cases r) auto
  show ?case
    unfolding treeOps.simps
    by (simp only: runList_append [OF 1] runList_append [OF 2] runList_append [OF 3]
        runList_append [OF 4] 5)
qed (auto simp: after_none)

lemma executeOps_treeOps:
  assumes "cached H t" and "ascending (keysOf (nodes t))"
  shows "executeOps H False visit v (map Inr (treeOps t)) = Inr (t, fold visit (nodes t) v)"
proof -
  have "mayPush (keysOf (nodes t)) (newExec v)"
    using assms(2) by (simp add: mayPush_def newExec_def)
  from runList_treeOps(1) [OF assms(1) this, of visit] show ?thesis
    by (simp add: runList_def executeOps_def afterNodes_def newExec_def)
qed

lemma executeMerkProof_treeOps:
  assumes "cached H t" "ascending (keysOf (nodes t))" "list_all wfOp (treeOps t)"
  shows "executeMerkProof H (encOps (treeOps t)) False = Inr t"
  using executeOps_treeOps [OF assms(1,2), of "\<lambda>_ u. u" "()"]
    opStream_ok [OF decodeMerkOps_encOps [OF assms(3)]]
  by (simp add: executeMerkProof_def)

lemma pushed_treeOps:
  "pushed (treeOps t) = nodes t"
  "pushed (childOps c) = nodesC c"
  by (induction t and c rule: mtree.induct child.induct) auto

subsection \<open>The limit\<close>

definition valueCount :: "ProvedKeyValue list \<Rightarrow> nat" where
  "valueCount ps = length (filter (\<lambda>p. pvalue p \<noteq> None) ps)"

lemma valueCount_append [simp]: "valueCount (xs @ ys) = valueCount xs + valueCount ys"
  by (simp add: valueCount_def)

lemma valueCount_provedOf:
  "valueCount (case provedOf H n of None \<Rightarrow> [] | Some p \<Rightarrow> [p]) = (if carriesValue n then 1 else 0)"
  by (cases n) (auto simp: carriesValue_def valueCount_def)

lemma fold_visitNode_limit:
  "fst (fold (visitNode H) ns (lim, rs, ks)) =
     map_option (\<lambda>l. l - int (valueCount (reported H lim ns))) lim"
proof (induction ns arbitrary: lim rs ks)
  case Nil
  then show ?case by (cases lim) (simp_all add: valueCount_def)
next
  case (Cons n ns)
  let ?lim = "if (case lim of None \<Rightarrow> False | Some l \<Rightarrow> l \<le> 0) then lim
        else if carriesValue n then decLimit lim else lim"
  have "fst (fold (visitNode H) (n # ns) (lim, rs, ks)) =
      map_option (\<lambda>l. l - int (valueCount (reported H ?lim ns))) ?lim"
    using Cons.IH by (simp only: fold_Cons comp_apply visitNode_eq)
  also have "\<dots> = map_option (\<lambda>l. l - int (valueCount (reported H lim (n # ns)))) lim"
    using valueCount_provedOf [of H n]
    by (cases lim) (auto simp: reported_stop decLimit_def valueCount_def)
  finally show ?case .
qed

lemma reported_count: "int (valueCount (reported H (Some l) ns)) \<le> max 0 l"
proof (induction ns arbitrary: l)
  case (Cons n ns)
  from Cons.IH [of l] Cons.IH [of "l - 1"] valueCount_provedOf [of H n] show ?case
    by (auto simp: decLimit_def valueCount_def)
qed (simp add: valueCount_def)

lemma reported_prefix: "\<exists>rest. reported H None ns = reported H lim ns @ rest"
proof (induction ns arbitrary: lim)
  case (Cons n ns)
  from Cons.IH [of "if carriesValue n then decLimit lim else lim"] show ?case
    by (auto simp: decLimit_def split: option.splits)
qed simp

lemma fold_visitNode_eq:
  "fold (visitNode H) ns (lim, [], {}) =
     (map_option (\<lambda>l. l - int (valueCount (reported H lim ns))) lim, reported H lim ns, valueKeysOf ns)"
proof -
  obtain l where "fold (visitNode H) ns (lim, [], {}) = (l, reported H lim ns, valueKeysOf ns)"
    using fold_visitNode [of H ns lim "[]" "{}"] by auto
  with fold_visitNode_limit [of H ns lim "[]" "{}"] show ?thesis by simp
qed

lemma executeMerkProofWithQuery_treeOps:
  assumes "cached H t" "ascending (keysOf (nodes t))" "list_all wfOp (treeOps t)"
  shows "executeMerkProofWithQuery H (encOps (treeOps t)) lim =
    Inr \<lparr>merkRoot = thash H t, resultSet = reported H lim (nodes t),
         limitLeft = map_option (\<lambda>l. l - int (valueCount (reported H lim (nodes t)))) lim,
         valueKeys = valueKeysOf (nodes t)\<rparr>"
proof -
  note s = opStream_ok [OF decodeMerkOps_encOps [OF assms(3)]]
  have "rel_sum (=) (\<lambda>(t, _) (u, _). shape t = shape u)
      (executeOps H True (visitNode H) (lim, [], {}) (map Inr (treeOps t)))
      (executeOps H False (\<lambda>_ x. x) () (map Inr (treeOps t)))"
    by (rule executeOps_alike)
  then obtain u v where u: "executeOps H True (visitNode H) (lim, [], {}) (map Inr (treeOps t)) = Inr (u, v)"
    and "shape u = shape t"
    by (cases "executeOps H True (visitNode H) (lim, [], {}) (map Inr (treeOps t))")
      (auto simp: executeOps_treeOps [OF assms(1,2)])
  then have h: "thash H u = thash H t" by (auto intro: shape_thash)
  with executeOps_visitor [OF u] have "v = fold (visitNode H) (nodes t) (lim, [], {})"
    by (simp add: pushed_treeOps)
  with u h s show ?thesis by (simp add: executeMerkProofWithQuery_def fold_visitNode_eq)
qed

subsection \<open>Properties\<close>

text \<open>C18: Collapsing is invisible. Whatever the operations, the visitor and the hash function,
  running them with \<open>collapse\<close> (children replaced by their hash) throws the same error as running
  them without, or gives a tree with the same root hash and the same visits.\<close>

theorem collapse_invisible:
  "map_sum id (\<lambda>(t, v). (treeHash H t, v)) (executeOps H True visit v xs) =
   map_sum id (\<lambda>(t, v). (treeHash H t, v)) (executeOps H False visit v xs)"
proof (cases "executeOps H True visit v xs")
  case (Inl e)
  with executeOps_alike [of H True visit v xs False visit v] show ?thesis
    by (cases "executeOps H False visit v xs") auto
next
  case (Inr p)
  obtain t w where p: "p = (t, w)" by (cases p)
  from Inr p executeOps_alike [of H True visit v xs False visit v] obtain u x
    where u: "executeOps H False visit v xs = Inr (u, x)" and s: "shape t = shape u"
    by (cases "executeOps H False visit v xs") auto
  have "w = x"
    using executeOps_visitor [OF Inr [unfolded p]] executeOps_visitor [OF u] by auto
  with Inr p u shape_thash [OF s, of H] show ?thesis by simp
qed

text \<open>C11: What an accepted merk proof is. If \<open>executeMerkProof\<close> accepts bytes, they decode to
  well-formed operations, and the tree it builds has every cached hash right and holds exactly the
  nodes they push: in push order when the proof is plain, in the reverse order when it is
  inverted, with the revealed keys strictly ascending in the tree in both cases.\<close>

theorem merk_proof_tree:
  assumes "executeMerkProof H bs False = Inr t"
  shows "\<exists>ops. decodeMerkOps bs = Inr ops \<and> list_all wfOp ops \<and> cached H t \<and>
     mset (nodes t) = mset (pushed ops) \<and>
     (list_all plainOp ops \<longrightarrow> nodes t = pushed ops \<and> ascending (keysOf (nodes t))) \<and>
     (list_all invertedOp ops \<longrightarrow> nodes t = rev (pushed ops) \<and> ascending (keysOf (nodes t)))"
  using executeMerkProof_tree [OF assms] by (auto simp: rebuilt_def)

text \<open>A tree of two nodes and its proof, for the witnesses.\<close>

definition twoNodes :: mtree where
  "twoNodes = MTree (KV [2] [9, 9])
     (ChildOf (newTree (KVDigest [1] NULL_HASH)) NULL_HASH) NoChild"

lemma twoNodes_ok:
  "cached (\<lambda>_. NULL_HASH) twoNodes" "ascending (keysOf (nodes twoNodes))"
  "list_all wfOp (treeOps twoNodes)"
  by (simp_all add: twoNodes_def newTree_def thash_def nodeHash_def blake3Hash_def MAX_VALUE_LEN_def)

theorem merk_proof_tree_witness:
  "\<exists>ops. decodeMerkOps (encOps (treeOps twoNodes)) = Inr ops \<and> list_all wfOp ops \<and>
     cached (\<lambda>_. NULL_HASH) twoNodes \<and> mset (nodes twoNodes) = mset (pushed ops) \<and>
     (list_all plainOp ops \<longrightarrow> nodes twoNodes = pushed ops \<and> ascending (keysOf (nodes twoNodes))) \<and>
     (list_all invertedOp ops \<longrightarrow>
        nodes twoNodes = rev (pushed ops) \<and> ascending (keysOf (nodes twoNodes)))"
  by (rule merk_proof_tree [OF executeMerkProof_treeOps [OF twoNodes_ok]])

text \<open>C12: Completeness of merk proofs. Any tree with right cached hashes, revealed keys ascending
  and nodes that fit the encoding is rebuilt by \<open>executeMerkProof\<close> from the bytes of its postfix
  operations; the query executor gives its root hash, every node's entry in key order as far as
  the limit goes, and the keys of all its values.\<close>

theorem merk_proof_complete:
  assumes "cached H t" "ascending (keysOf (nodes t))" "list_all wfOp (treeOps t)"
  shows "executeMerkProof H (encOps (treeOps t)) False = Inr t \<and>
    executeMerkProofWithQuery H (encOps (treeOps t)) lim =
      Inr \<lparr>merkRoot = thash H t, resultSet = reported H lim (nodes t),
           limitLeft = map_option (\<lambda>l. l - int (valueCount (reported H lim (nodes t)))) lim,
           valueKeys = valueKeysOf (nodes t)\<rparr>"
  using executeMerkProof_treeOps [OF assms] executeMerkProofWithQuery_treeOps [OF assms] by blast

theorem merk_proof_complete_witness:
  "executeMerkProof (\<lambda>_. NULL_HASH) (encOps (treeOps twoNodes)) False = Inr twoNodes"
  using merk_proof_complete [OF twoNodes_ok] by blast

text \<open>The limit. The results of a query's proof are a prefix of the entries of all its pushed
  nodes; a limit bounds how many of them carry a value, and what is left of it is the difference;
  the keys of values are collected past the limit.\<close>

theorem query_limit:
  assumes "executeMerkProofWithQuery H bs lim = Inr r"
  shows "\<exists>ops. decodeMerkOps bs = Inr ops \<and> valueKeys r = valueKeysOf (pushed ops) \<and>
    (\<exists>rest. List.map_filter (provedOf H) (pushed ops) = resultSet r @ rest \<and>
       (lim = None \<longrightarrow> rest = [])) \<and>
    limitLeft r = map_option (\<lambda>l. l - int (valueCount (resultSet r))) lim \<and>
    (case lim of None \<Rightarrow> True | Some l \<Rightarrow> int (valueCount (resultSet r)) \<le> max 0 l)"
proof -
  from assms obtain t l rs ks
    where x: "executeOps H True (visitNode H) (lim, [], {}) (opStream (newDecoder bs)) = Inr (t, l, rs, ks)"
      and r: "resultSet r = rs" "valueKeys r = ks" "limitLeft r = l"
    by (auto simp: executeMerkProofWithQuery_def)
  from executeOps_visitor [OF x] obtain ops
    where ops: "decodeMerkOps bs = Inr ops" "(l, rs, ks) = fold (visitNode H) (pushed ops) (lim, [], {})"
    by (auto simp: decodeMerkOps_stream)
  with r fold_visitNode_eq [of H "pushed ops" lim]
  have "resultSet r = reported H lim (pushed ops)" "valueKeys r = valueKeysOf (pushed ops)"
    "limitLeft r = map_option (\<lambda>l. l - int (valueCount (resultSet r))) lim" by auto
  with ops(1) reported_prefix [of H "pushed ops" lim] reported_no_limit [of H "pushed ops"]
    reported_count [of H _ "pushed ops"] show ?thesis
    by (auto split: option.splits)
qed

theorem query_limit_witness:
  "\<exists>ops. decodeMerkOps (encOps (treeOps twoNodes)) = Inr ops \<and>
     valueKeysOf (nodes twoNodes) = valueKeysOf (pushed ops)"
  using query_limit [OF executeMerkProofWithQuery_treeOps [OF twoNodes_ok, of "Some 1"]] by auto

end
