(* ===== verification/Proof_Decoder.thy ===== *)
theory Proof_Decoder
  imports Bincode
begin

text \<open>
  The decoder of \<open>GroveDBProof\<close> (\<open>src/src/grovedb/decoder.ts\<close>). \<open>decodeLayerProof\<close> terminates
  because its depth is at most \<open>MAX_LAYER_DEPTH\<close>. The lemmas: a proof is read back from its bincode
  encoding, and what is decoded is at most that deep, has distinct lower-layer keys, each the hex
  text of a key, and covers the input to its last byte.
\<close>

subsection \<open>The code\<close>

definition MAX_LAYER_DEPTH :: nat where
  "MAX_LAYER_DEPTH = 64"

text \<open>One turn of the loop reads a key and its layer; \<open>lowerLayers.set\<close> adds them in order.\<close>

definition setLayers :: "(bytes \<times> LayerProof) list \<Rightarrow> (string \<times> LayerProof) list" where
  "setLayers kvs = foldl (\<lambda>m (k, v). AList.update (bytesToHex k) v m) [] kvs"

function decodeLayerProof :: "nat \<Rightarrow> LayerProof rmeth" where
  "decodeLayerProof depth =
     (if depth > MAX_LAYER_DEPTH then throw LayerNestingTooDeep
      else bind readByteVec (\<lambda>merkProof. bind readLength (\<lambda>mapLen.
        bind (repeatM mapLen (bind readByteVec (\<lambda>keyBytes.
          bind (decodeLayerProof (depth + 1)) (\<lambda>value. ret (keyBytes, value)))))
        (\<lambda>kvs. ret (LayerProof merkProof (setLayers kvs))))))"
  by pat_completeness auto
termination
  by (relation "measure (\<lambda>d. Suc MAX_LAYER_DEPTH - d)") auto

declare decodeLayerProof.simps [simp del]

definition decodeProveOptions :: "ProveOptions rmeth" where
  "decodeProveOptions = bind readBool (\<lambda>b. ret \<lparr>decreaseLimitOnEmptySubQueryResult = b\<rparr>)"

definition decodeGroveDBProofV0 :: "GroveDBProofV0 rmeth" where
  "decodeGroveDBProofV0 =
     bind (decodeLayerProof 0) (\<lambda>rootLayer. bind decodeProveOptions (\<lambda>proveOptions.
       ret \<lparr>rootLayer = rootLayer, proveOptions = proveOptions\<rparr>))"

definition decodeGroveDBProof :: "bytes \<Rightarrow> gerror + GroveDBProof" where
  "decodeGroveDBProof bs =
     bnd (bind readVariant (\<lambda>variant.
            if variant \<noteq> 0 then throw (UnknownProofVariant variant)
            else decodeGroveDBProofV0) (newReader bs))
       (\<lambda>(proof, r).
          if hasMore r then Inl (TrailingProofBytes (remaining r) (position r))
          else Inr \<lparr>version = 0, proofV0 = proof\<rparr>)"

subsection \<open>The encoding\<close>

text \<open>A layer as grovedb writes it: a map from key bytes to layers.\<close>

datatype wireLayer = WireLayer bytes "(bytes \<times> wireLayer) list"

fun toLayer :: "wireLayer \<Rightarrow> LayerProof" where
  "toLayer (WireLayer mp lls) = LayerProof mp (map (\<lambda>(k, w). (bytesToHex k, toLayer w)) lls)"

fun encLayer :: "wireLayer \<Rightarrow> bytes" where
  "encLayer (WireLayer mp lls) =
     bincodeBytes mp @ bincodeUint (length lls) @
     concat (map (\<lambda>(k, w). bincodeBytes k @ encLayer w) lls)"

fun wireDepth :: "wireLayer \<Rightarrow> nat" where
  "wireDepth (WireLayer mp lls) = fold max (map (\<lambda>(k, w). Suc (wireDepth w)) lls) 0"

fun wireDom :: "wireLayer \<Rightarrow> bool" where
  "wireDom (WireLayer mp lls) \<longleftrightarrow>
     vecDom mp \<and> length lls \<le> MAX_SAFE_INTEGER \<and> distinct (map fst lls) \<and>
     list_all (\<lambda>(k, w). vecDom k \<and> wireDom w) lls"

definition encProof :: "wireLayer \<Rightarrow> bool \<Rightarrow> bytes" where
  "encProof w b = bincodeUint 0 @ encLayer w @ [if b then 1 else 0]"

subsection \<open>Round trip\<close>

lemma update_new: "k \<notin> fst ` set m \<Longrightarrow> AList.update k v m = m @ [(k, v)]"
  by (induction m) auto

lemma setLayers_snoc: "setLayers (kvs @ [(k, v)]) = AList.update (bytesToHex k) v (setLayers kvs)"
  by (simp add: setLayers_def)

lemma setLayers_distinct:
  "distinct (map fst kvs) \<Longrightarrow> setLayers kvs = map (\<lambda>(k, v). (bytesToHex k, v)) kvs"
proof (induction kvs rule: rev_induct)
  case (snoc kv kvs)
  obtain k v where kv: "kv = (k, v)" by (cases kv)
  with snoc have "bytesToHex k \<notin> fst ` set (setLayers kvs)" by (auto simp: image_iff)
  with snoc kv show ?case by (simp add: setLayers_snoc update_new)
qed (simp add: setLayers_def)

lemma fold_max_le: "fold max xs (a :: nat) \<le> n \<longleftrightarrow> a \<le> n \<and> (\<forall>x\<in>set xs. x \<le> n)"
  by (induction xs arbitrary: a) auto

lemma reads_decodeLayerProof:
  "wireDom w \<Longrightarrow> depth + wireDepth w \<le> MAX_LAYER_DEPTH \<Longrightarrow>
     reads feeds (decodeLayerProof depth) (encLayer w) (toLayer w)"
proof (induction w arbitrary: depth)
  case (WireLayer mp lls)
  let ?turn = "bind readByteVec (\<lambda>k. bind (decodeLayerProof (depth + 1)) (\<lambda>v. ret (k, v)))"
  have deep: "Suc (depth + wireDepth w) \<le> MAX_LAYER_DEPTH" if "(k, w) \<in> set lls" for k w
    using WireLayer.prems(2) that fold_max_le [of "map (\<lambda>(k, w). Suc (wireDepth w)) lls" 0
        "MAX_LAYER_DEPTH - depth"] by fastforce
  have turn: "reads feeds ?turn (bincodeBytes k @ encLayer w) (k, toLayer w)"
    if "(k, w) \<in> set lls" for k w
  proof (rule reads_bind [OF byteVec.reads_enc])
    show "vecDom k" using that WireLayer.prems(1) by (auto simp: list_all_iff)
    show "reads feeds (bind (decodeLayerProof (depth + 1)) (\<lambda>v. ret (k, v))) (encLayer w) (k, toLayer w)"
    proof (rule reads_last [OF WireLayer.IH])
      show "wireDom w" using that WireLayer.prems(1) by (auto simp: list_all_iff)
    qed (use that deep [OF that] in auto)
  qed
  let ?kvs = "map (\<lambda>(k, w). (k, toLayer w)) lls"
  have "list_all2 (\<lambda>bs x. reads feeds ?turn bs x)
      (map (\<lambda>(k, w). bincodeBytes k @ encLayer w) lls) ?kvs"
    using turn by (auto simp: list_all2_map1 list_all2_map2 intro!: list.rel_refl_strong)
  note loop = reads_repeatM [OF this]
  have set: "setLayers ?kvs = map (\<lambda>(k, w). (bytesToHex k, toLayer w)) lls"
    using WireLayer.prems(1) setLayers_distinct [of ?kvs] by (simp add: case_prod_unfold comp_def)
  have "reads feeds (bind readByteVec (\<lambda>mp. bind readLength (\<lambda>n. bind (repeatM n ?turn)
      (\<lambda>kvs. ret (LayerProof mp (setLayers kvs)))))) (encLayer (WireLayer mp lls)) (toLayer (WireLayer mp lls))"
    unfolding encLayer.simps
  proof (rule reads_bind [OF byteVec.reads_enc], use WireLayer.prems(1) in simp,
      rule reads_bind [OF reads_readLength], use WireLayer.prems(1) in simp)
    show "reads feeds (bind (repeatM (length lls) ?turn) (\<lambda>kvs. ret (LayerProof mp (setLayers kvs))))
        (concat (map (\<lambda>(k, w). bincodeBytes k @ encLayer w) lls)) (toLayer (WireLayer mp lls))"
      by (rule reads_last, use loop in simp, use set in simp)
  qed
  moreover have "depth \<le> MAX_LAYER_DEPTH" using WireLayer.prems(2) by simp
  ultimately show ?case by (subst decodeLayerProof.simps) simp
qed

lemma reads_readBool: "reads feeds readBool [if b then 1 else 0] b"
  unfolding readBool_def by (rule reads_last [OF reads_readU8]) simp

lemma decodeGroveDBProof_encProof:
  assumes "wireDom w" "wireDepth w \<le> MAX_LAYER_DEPTH"
  shows "decodeGroveDBProof (encProof w b) =
    Inr \<lparr>version = 0, proofV0 = \<lparr>rootLayer = toLayer w,
      proveOptions = \<lparr>decreaseLimitOnEmptySubQueryResult = b\<rparr>\<rparr>\<rparr>" (is "_ = Inr \<lparr>version = 0, proofV0 = ?p\<rparr>")
proof -
  have opts: "reads feeds decodeProveOptions [if b then 1 else 0] \<lparr>decreaseLimitOnEmptySubQueryResult = b\<rparr>"
    unfolding decodeProveOptions_def by (rule reads_last [OF reads_readBool]) simp
  have "reads feeds decodeGroveDBProofV0 (encLayer w @ [if b then 1 else 0]) ?p"
    unfolding decodeGroveDBProofV0_def
    by (rule reads_bind [OF reads_decodeLayerProof]) (use assms opts in \<open>auto intro: reads_last\<close>)
  moreover have "reads feeds readVariant (bincodeUint 0) 0"
    by (rule reads_readVariant) simp
  ultimately have r: "reads feeds (bind readVariant (\<lambda>variant.
      if variant \<noteq> 0 then throw (UnknownProofVariant variant) else decodeGroveDBProofV0))
      (encProof w b) ?p"
    unfolding encProof_def by (auto intro!: reads_bind)
  have "feeds (newReader (encProof w b)) (encProof w b @ [])" by simp
  from readsD [OF r this] obtain t where "bind readVariant (\<lambda>variant.
      if variant \<noteq> 0 then throw (UnknownProofVariant variant) else decodeGroveDBProofV0)
      (newReader (encProof w b)) = Inr (?p, t)" "feeds t []" by blast
  then show ?thesis by (simp add: decodeGroveDBProof_def feeds_hasMore del: bind_eq_Inr)
qed

subsection \<open>What is decoded\<close>

fun layerDepth :: "LayerProof \<Rightarrow> nat" where
  "layerDepth (LayerProof mp lls) = fold max (map (\<lambda>(k, l). Suc (layerDepth l)) lls) 0"

fun wfLayer :: "LayerProof \<Rightarrow> bool" where
  "wfLayer (LayerProof mp lls) \<longleftrightarrow>
     distinct (map fst lls) \<and> list_all (\<lambda>(k, l). k \<in> range bytesToHex \<and> wfLayer l) lls"

lemma setLayers_props:
  "distinct (map fst (setLayers kvs)) \<and>
   (\<forall>k l. (k, l) \<in> set (setLayers kvs) \<longrightarrow> (\<exists>b. k = bytesToHex b \<and> (b, l) \<in> set kvs))"
proof (induction kvs rule: rev_induct)
  case (snoc kv kvs)
  obtain b v where kv: "kv = (b, v)" by (cases kv)
  have "distinct (map fst (setLayers (kvs @ [kv])))"
    using snoc kv by (simp add: setLayers_snoc distinct_update)
  moreover have "\<exists>b'. k = bytesToHex b' \<and> (b', l) \<in> set (kvs @ [kv])"
    if "(k, l) \<in> set (setLayers (kvs @ [kv]))" for k l
  proof -
    from that have "map_of (setLayers (kvs @ [kv])) k = Some l"
      using calculation by (simp add: map_of_is_SomeI)
    then show ?thesis
      using snoc kv by (auto simp: setLayers_snoc map_of_update split: if_splits dest: map_of_SomeD)
  qed
  ultimately show ?case by blast
qed (simp add: setLayers_def)

lemma decodeLayerProof_wf:
  "decodeLayerProof depth r = Inr (l, t) \<Longrightarrow> wfLayer l \<and> depth + layerDepth l \<le> MAX_LAYER_DEPTH"
proof (induction depth arbitrary: r l t rule: decodeLayerProof.induct)
  case (1 depth)
  let ?turn = "bind readByteVec (\<lambda>k. bind (decodeLayerProof (depth + 1)) (\<lambda>v. ret (k, v)))"
  from "1.prems" obtain mp n s kvs u where d: "depth \<le> MAX_LAYER_DEPTH"
    and kvs: "repeatM n ?turn s = Inr (kvs, u)" and l: "l = LayerProof mp (setLayers kvs)"
    by (subst (asm) decodeLayerProof.simps) (auto split: if_splits)
  have "list_all (\<lambda>(k, l). wfLayer l \<and> Suc depth + layerDepth l \<le> MAX_LAYER_DEPTH) kvs"
    by (rule repeatM_all [OF _ kvs]) (use d "1.IH" in \<open>fastforce simp: not_less\<close>)
  then have "wfLayer v \<and> Suc depth + layerDepth v \<le> MAX_LAYER_DEPTH \<and> k \<in> range bytesToHex"
    if "(k, v) \<in> set (setLayers kvs)" for k v
    using that setLayers_props [of kvs] by (fastforce simp: list_all_iff)
  moreover from this have "layerDepth l \<le> MAX_LAYER_DEPTH - depth"
    using d by (fastforce simp: l fold_max_le)
  ultimately show ?case
    using setLayers_props [of kvs] d by (auto simp: l list_all_iff)
qed

lemma decodeGroveDBProof_wf:
  assumes "decodeGroveDBProof bs = Inr p"
  shows "version p = 0 \<and> wfLayer (rootLayer (proofV0 p)) \<and>
    layerDepth (rootLayer (proofV0 p)) \<le> MAX_LAYER_DEPTH"
proof -
  from assms obtain s t l u where "decodeLayerProof 0 s = Inr (l, t)" "p = \<lparr>version = 0, proofV0 = u\<rparr>"
    "rootLayer u = l"
    by (auto simp: decodeGroveDBProof_def decodeGroveDBProofV0_def split: if_splits)
  with decodeLayerProof_wf [of 0 s l t] show ?thesis by simp
qed

text \<open>C19: Proof envelope. Every proof of at most 64 nested layers is read back from its bincode
  encoding, lower layers in order; and what \<open>decodeGroveDBProof\<close> returns for any input is version 0,
  nests at most 64 layers deep, and keys its lower layers by distinct hex texts of keys.\<close>

theorem proof_envelope_roundtrip:
  "(\<forall>w b. wireDom w \<and> wireDepth w \<le> MAX_LAYER_DEPTH \<longrightarrow>
      decodeGroveDBProof (encProof w b) = Inr \<lparr>version = 0, proofV0 = \<lparr>rootLayer = toLayer w,
        proveOptions = \<lparr>decreaseLimitOnEmptySubQueryResult = b\<rparr>\<rparr>\<rparr>) \<and>
   (\<forall>bs p. decodeGroveDBProof bs = Inr p \<longrightarrow> version p = 0 \<and> wfLayer (rootLayer (proofV0 p)) \<and>
      layerDepth (rootLayer (proofV0 p)) \<le> MAX_LAYER_DEPTH)"
  using decodeGroveDBProof_encProof decodeGroveDBProof_wf by blast

theorem proof_envelope_roundtrip_witness:
  "decodeGroveDBProof (encProof (WireLayer [3, 1] [([7], WireLayer [] []), ([8], WireLayer [1] [])]) True) =
     Inr \<lparr>version = 0, proofV0 = \<lparr>rootLayer =
        LayerProof [3, 1] [(''07'', LayerProof [] []), (''08'', LayerProof [1] [])],
        proveOptions = \<lparr>decreaseLimitOnEmptySubQueryResult = True\<rparr>\<rparr>\<rparr>"
  using proof_envelope_roundtrip [THEN conjunct1, rule_format,
      of "WireLayer [3, 1] [([7], WireLayer [] []), ([8], WireLayer [1] [])]" True]
  by (simp add: vecDom_def MAX_SAFE_INTEGER_def MAX_LAYER_DEPTH_def hexDigit_def)

end
