(* ===== verification/Verifier.thy ===== *)
theory Verifier
  imports Element Executor Proof_Decoder
begin

text \<open>
  The proof verifier (\<open>src/src/grovedb/verifier.ts\<close>), one definition per function. The arrays and
  sets \<open>verifyLayerProof\<close> accumulates into are the record \<open>vstate\<close>. An error carries the path and
  key its message prints; \<open>pathToString\<close>, which only formats messages, is not modelled. The
  termination arguments: a lower layer is a part of its layer, and the traversal of
  \<open>merkProvesAbsent\<close> visits each node once.
\<close>

subsection \<open>Data\<close>

record ProvenEntry =
  epath :: "bytes list"
  ekey :: bytes
  evalue :: "bytes option"
  eelement :: "Element option"
  etree :: bool
  enodeType :: NodeType

record GroveDBVerificationResult =
  rootHash :: CryptoHash
  results :: "ProvenEntry list"

record VerifyOptions =
  limitOpt :: "int option"
  deserializeElementsOpt :: "bool option"
  expectedPath :: "bytes list option"

fun lowerLayersOf :: "LayerProof \<Rightarrow> (string \<times> LayerProof) list" where
  "lowerLayersOf (LayerProof _ lls) = lls"

fun merkProofOf :: "LayerProof \<Rightarrow> bytes" where
  "merkProofOf (LayerProof mp _) = mp"

subsection \<open>The envelope\<close>

definition checkProveOptions :: "GroveDBProof \<Rightarrow> gerror + unit" where
  "checkProveOptions p =
     ensure (decreaseLimitOnEmptySubQueryResult (proveOptions (proofV0 p))) NonDefaultProveOptions"

definition checkHeader :: "GroveDBProof \<Rightarrow> gerror + unit" where
  "checkHeader p =
     (if version p \<noteq> 0 then Inl (UnsupportedProofVersion (version p)) else checkProveOptions p)"

text \<open>The loop of \<open>envelopeDepth\<close> at segment \<open>i\<close>: \<open>done\<close> is the path above, \<open>rest\<close> the path from it on.\<close>

fun envelopeLoop :: "bytes list \<Rightarrow> bytes list \<Rightarrow> nat \<Rightarrow> LayerProof \<Rightarrow> gerror + nat" where
  "envelopeLoop done [] i layer =
     (if lowerLayersOf layer \<noteq> [] then Inl LayersBelowPath else Inr i)"
| "envelopeLoop done (s # rest) i layer =
     (let segment = bytesToHex s in
      case List.find (\<lambda>keyHex. keyHex \<noteq> segment) (map fst (lowerLayersOf layer)) of
        Some keyHex \<Rightarrow> Inl (LayerOffPath done keyHex)
      | None \<Rightarrow>
          (case map_of (lowerLayersOf layer) segment of
             None \<Rightarrow> Inr i
           | Some next \<Rightarrow> envelopeLoop (done @ [s]) rest (i + 1) next))"

definition envelopeDepth :: "GroveDBProof \<Rightarrow> bytes list \<Rightarrow> gerror + nat" where
  "envelopeDepth p path = envelopeLoop [] path 0 (rootLayer (proofV0 p))"

definition checkEnvelope :: "GroveDBProof \<Rightarrow> bytes list \<Rightarrow> gerror + unit" where
  "checkEnvelope p path =
     bnd (checkHeader p) (\<lambda>_. bnd (envelopeDepth p path) (\<lambda>depth.
       if depth < length path then Inl (NoLowerLayer depth (path ! depth)) else Inr ()))"

subsection \<open>Layers\<close>

fun joinSlash :: "string list \<Rightarrow> string" where
  "joinSlash [] = []"
| "joinSlash [s] = s"
| "joinSlash (s # t # ss) = s @ ''/'' @ joinSlash (t # ss)"

definition entryId :: "bytes list \<Rightarrow> bytes \<Rightarrow> string" where
  "entryId path key = joinSlash (map bytesToHex (path @ [key]))"

definition tryDeserializeElement :: "bytes \<Rightarrow> Element option" where
  "tryDeserializeElement v = (case deserializeElement v of Inl _ \<Rightarrow> None | Inr e \<Rightarrow> Some e)"

datatype LeafBinding = Bound | EmptyTree | UnboundTree

definition bindLeafValue ::
  "(bytes \<Rightarrow> bytes) \<Rightarrow> ProvedKeyValue \<Rightarrow> Element option \<Rightarrow> gerror + LeafBinding" where
  "bindLeafValue H proved element =
     (case pvalue proved of
        None \<Rightarrow> Inr Bound
      | Some value \<Rightarrow>
          if pnodeType proved = TKVValueHash \<or> pnodeType proved = TKVValueHashFeatureType then
            (case element of
               Some el \<Rightarrow>
                 if isTreeElement el then
                   if hasRootKey el then Inr UnboundTree
                   else
                     (let layered = combineHash H (valueHash H value) NULL_HASH in
                      if \<not> hashEquals layered (pproof proved) then Inl EmptySubtreeMismatch
                      else Inr EmptyTree)
                 else if \<not> hashEquals (valueHash H value) (pproof proved) then Inl LeafValueMismatch
                 else Inr Bound
             | None \<Rightarrow>
                 if \<not> hashEquals (valueHash H value) (pproof proved) then Inl LeafValueMismatch
                 else Inr Bound)
          else Inr Bound)"

record vstate =
  vresults :: "ProvenEntry list"
  emptyTrees :: "string set"

type_synonym 'a vmeth = "(vstate, gerror, 'a) meth"

definition leafEntry ::
  "(bytes \<Rightarrow> bytes) \<Rightarrow> bytes list \<Rightarrow> bool \<Rightarrow> ProvedKeyValue \<Rightarrow> bytes \<Rightarrow> unit vmeth" where
  "leafEntry H currentPath deserializeElements proved value =
     (let element = tryDeserializeElement value in
      bind (lift (bindLeafValue H proved element)) (\<lambda>binding s.
        let s = (if binding = EmptyTree
                 then s\<lparr>emptyTrees := insert (entryId currentPath (pkey proved)) (emptyTrees s)\<rparr>
                 else s);
            bound = (binding \<noteq> UnboundTree)
        in Inr ((), s\<lparr>vresults := vresults s @
             [\<lparr>epath = currentPath, ekey = pkey proved,
               evalue = (if bound then Some value else None),
               eelement = (if bound \<and> deserializeElements then element else None),
               etree = (case element of None \<Rightarrow> False | Some el \<Rightarrow> isTreeElement el),
               enodeType = pnodeType proved\<rparr>]\<rparr>)))"

definition isTreeWithRoot :: "Element option \<Rightarrow> bool" where
  "isTreeWithRoot element =
     (case element of None \<Rightarrow> False | Some el \<Rightarrow> isTreeElement el \<and> hasRootKey el)"

function verifyLayerProof ::
  "(bytes \<Rightarrow> bytes) \<Rightarrow> LayerProof \<Rightarrow> bytes list \<Rightarrow> int option \<Rightarrow> bool \<Rightarrow> CryptoHash vmeth" where
  "verifyLayerProof H layer currentPath limit deserializeElements s0 =
     bind (lift (executeMerkProofWithQuery H (merkProofOf layer) limit)) (\<lambda>merkResult s1.
     case List.find (\<lambda>keyHex. keyHex \<notin> valueKeys merkResult) (map fst (lowerLayersOf layer)) of
       Some keyHex \<Rightarrow> Inl (LayerUnderUnprovedKey currentPath keyHex)
     | None \<Rightarrow>
         bind
           (forEach (resultSet merkResult) (\<lambda>proved s.
              case pvalue proved of
                None \<Rightarrow> Inr ((), s)
              | Some value \<Rightarrow>
                  (case map_of (lowerLayersOf layer) (bytesToHex (pkey proved)) of
                     None \<Rightarrow> leafEntry H currentPath deserializeElements proved value s
                   | Some lowerLayer \<Rightarrow>
                       if isTreeWithRoot (tryDeserializeElement value) then
                         bind (verifyLayerProof H lowerLayer (currentPath @ [pkey proved])
                             (map_option (\<lambda>l. l - int (length (vresults s))) limit)
                             deserializeElements)
                           (\<lambda>lowerHash.
                              let combined = combineHash H (valueHash H value) lowerHash in
                              if \<not> hashEquals combined (pproof proved)
                              then throw (LowerLayerHashMismatch (currentPath @ [pkey proved]))
                              else ret ()) s
                       else Inl (LayerForNonTree (currentPath @ [pkey proved])))))
           (\<lambda>_. ret (merkRoot merkResult)) s1) s0"
  by pat_completeness auto
termination
proof (relation "measure (\<lambda>(_, layer, _, _, _, _). size layer)", goal_cases)
  case (2 H layer currentPath limit deser s0 merkResult s1 proved s val lowerLayer)
  then show ?case
    using size_map_of_less [of "lowerLayersOf layer" "bytesToHex (pkey proved)" lowerLayer size]
    by (cases layer) auto
qed auto

declare verifyLayerProof.simps [simp del]

subsection \<open>Whole proofs\<close>

text \<open>\<open>verifyProof\<close> returns the root, the results and the depth it descends along the path.\<close>

definition verifyProof ::
  "(bytes \<Rightarrow> bytes) \<Rightarrow> GroveDBProof \<Rightarrow> VerifyOptions \<Rightarrow>
     gerror + CryptoHash \<times> ProvenEntry list \<times> nat option" where
  "verifyProof H p options =
     bnd (checkHeader p) (\<lambda>_.
     bnd (case expectedPath options of
            None \<Rightarrow> Inr None
          | Some path \<Rightarrow> bnd (envelopeDepth p path) (\<lambda>d. Inr (Some d))) (\<lambda>depth.
     bnd (verifyLayerProof H (rootLayer (proofV0 p)) [] (limitOpt options)
            (case deserializeElementsOpt options of None \<Rightarrow> True | Some b \<Rightarrow> b)
            \<lparr>vresults = [], emptyTrees = {}\<rparr>) (\<lambda>(root, s).
     case (expectedPath options, depth) of
       (Some path, Some d) \<Rightarrow>
         if d < length path \<and> entryId (take d path) (path ! d) \<notin> emptyTrees s
         then Inl (NoLowerLayer d (path ! d))
         else Inr (root, vresults s, depth)
     | _ \<Rightarrow> Inr (root, vresults s, depth))))"

definition verifyGroveDBProof ::
  "(bytes \<Rightarrow> bytes) \<Rightarrow> bytes \<Rightarrow> VerifyOptions \<Rightarrow> gerror + GroveDBVerificationResult" where
  "verifyGroveDBProof H proofBytes options =
     bnd (decodeGroveDBProof proofBytes) (\<lambda>p.
     bnd (verifyProof H p options) (\<lambda>(root, rs, _).
       Inr \<lparr>rootHash = root, results = rs\<rparr>))"

definition pathOptions :: "bytes list \<Rightarrow> VerifyOptions" where
  "pathOptions path =
     \<lparr>limitOpt = None, deserializeElementsOpt = None, expectedPath = Some path\<rparr>"

text \<open>\<open>for (const segment of path) layer = layer.lowerLayers.get(bytesToHex(segment))!\<close>.\<close>

fun layerAt :: "LayerProof \<Rightarrow> bytes list \<Rightarrow> LayerProof option" where
  "layerAt layer [] = Some layer"
| "layerAt layer (s # path) =
     (case map_of (lowerLayersOf layer) (bytesToHex s) of
        None \<Rightarrow> None | Some l \<Rightarrow> layerAt l path)"

text \<open>The traversal of \<open>merkProvesAbsent\<close>: the inner loop pushes a node and its left descendants,
  the outer one pops a node, records it and goes right.\<close>

primrec pushLefts :: "mtree \<Rightarrow> mtree list \<Rightarrow> mtree list"
  and pushLeftsC :: "child \<Rightarrow> mtree list \<Rightarrow> mtree list" where
  "pushLefts (MTree n l r) stk = pushLeftsC l (MTree n l r # stk)"
| "pushLeftsC NoChild stk = stk"
| "pushLeftsC (ChildOf t _) stk = pushLefts t stk"

definition weight :: "mtree list \<Rightarrow> nat" where
  "weight stk = sum_list (map (\<lambda>t. Suc (length (inOrderC (mright t)))) stk)"

lemma weight_pushLefts:
  "weight (pushLefts t stk) = length (inOrder t) + weight stk"
  "weight (pushLeftsC c stk) = length (inOrderC c) + weight stk"
  by (induction t and c arbitrary: stk and stk rule: mtree.induct child.induct)
    (auto simp: weight_def)

function collectNodes :: "child \<Rightarrow> mtree list \<Rightarrow> mtree list \<Rightarrow> mtree list" where
  "collectNodes current stk ns =
     (case pushLeftsC current stk of
        [] \<Rightarrow> ns
      | n # stk' \<Rightarrow> collectNodes (mright n) stk' (ns @ [n]))"
  by pat_completeness auto
termination
proof (relation "measure (\<lambda>(c, stk, _). length (inOrderC c) + weight stk)", goal_cases)
  case (2 current stk ns n stk')
  then show ?case using weight_pushLefts(2) [of current stk] by (auto simp: weight_def)
qed auto

declare collectNodes.simps [simp del]

text \<open>The scan over the nodes, from node \<open>i\<close>; \<open>None\<close> is an early \<open>return false\<close>.\<close>

fun scanNodes :: "bytes \<Rightarrow> nat \<Rightarrow> mtree list \<Rightarrow> nat \<Rightarrow> int \<times> nat \<times> bytes option \<Rightarrow> (int \<times> nat) option" where
  "scanNodes key cnt [] i (before, after, prevKey) = Some (before, after)"
| "scanNodes key cnt (t # ts) i (before, after, prevKey) =
     (case getKey t of
        None \<Rightarrow> scanNodes key cnt ts (i + 1) (before, after, prevKey)
      | Some k \<Rightarrow>
          if (case prevKey of None \<Rightarrow> False | Some l \<Rightarrow> compareBytes k l \<le> 0) then None
          else
            (let c = compareBytes k key in
             if c = 0 then None
             else if c < 0 then scanNodes key cnt ts (i + 1) (int i, after, Some k)
             else if after = cnt then scanNodes key cnt ts (i + 1) (before, i, Some k)
             else scanNodes key cnt ts (i + 1) (before, after, Some k)))"

definition merkProvesAbsent :: "mtree \<Rightarrow> bytes \<Rightarrow> bool" where
  "merkProvesAbsent tree key =
     (let nodes = collectNodes (ChildOf tree []) [] [] in
      case scanNodes key (length nodes) nodes 0 (-1, length nodes, None) of
        None \<Rightarrow> False
      | Some (before, after) \<Rightarrow> int after = before + 1)"

definition verifyKeyAbsence ::
  "(bytes \<Rightarrow> bytes) \<Rightarrow> bytes \<Rightarrow> bytes list \<Rightarrow> bytes \<Rightarrow> gerror + CryptoHash" where
  "verifyKeyAbsence H proofBytes path key =
     bnd (decodeGroveDBProof proofBytes) (\<lambda>p.
     bnd (verifyProof H p (pathOptions path)) (\<lambda>(root, _, depth).
       if (case depth of None \<Rightarrow> False | Some d \<Rightarrow> d < length path) then Inr root
       else
         (case layerAt (rootLayer (proofV0 p)) path of
            None \<Rightarrow> Inl UndefinedLayer
          | Some layer \<Rightarrow>
              bnd (executeMerkProof H (merkProofOf layer) False) (\<lambda>tree.
                if \<not> merkProvesAbsent tree key then Inl (KeyNotProvedAbsent (path @ [key]))
                else Inr root))))"

record CompleteEntry =
  ckey :: bytes
  cvalue :: bytes
  celement :: "Element option"
  creference :: bool

text \<open>The loop of \<open>verifyCompleteLayer\<close> over the nodes in order.\<close>

fun completeLoop ::
  "(bytes \<Rightarrow> bytes) \<Rightarrow> bytes list \<Rightarrow> bytes option \<Rightarrow> mtree list \<Rightarrow> gerror + CompleteEntry list" where
  "completeLoop H path prevKey [] = Inr []"
| "completeLoop H path prevKey (t # ts) =
     (let n = mnode t in
      case (nodeKey n, nodeValue n) of
        (Some key, Some val) \<Rightarrow>
          if (case prevKey of None \<Rightarrow> False | Some l \<Rightarrow> compareBytes key l \<le> 0)
          then Inl (KeysOutOfOrder path)
          else
            (let element = tryDeserializeElement val in
             bnd (if nodeTag n = TKVValueHash \<or> nodeTag n = TKVValueHashFeatureType then
                    bnd (bindLeafValue H \<lparr>pkey = key, pvalue = Some val,
                           pproof = the (nodeValueHash H n), pnodeType = nodeTag n\<rparr> element)
                      (\<lambda>binding. if binding = UnboundTree then Inl (SubtreeNotRevealed (path @ [key]))
                         else Inr ())
                  else Inr ())
               (\<lambda>_. bnd (completeLoop H path (Some key) ts) (\<lambda>es.
                  Inr (\<lparr>ckey = key, cvalue = val, celement = element,
                        creference = (nodeTag n = TKVRefValueHash)\<rparr> # es))))
      | _ \<Rightarrow> Inl (HidesEntries path (nodeTag n)))"

definition verifyCompleteLayer ::
  "(bytes \<Rightarrow> bytes) \<Rightarrow> bytes \<Rightarrow> bytes list \<Rightarrow> gerror + CryptoHash \<times> CompleteEntry list" where
  "verifyCompleteLayer H proofBytes path =
     bnd (decodeGroveDBProof proofBytes) (\<lambda>p.
     bnd (verifyProof H p (pathOptions path)) (\<lambda>(root, _, depth).
       if (case depth of None \<Rightarrow> False | Some d \<Rightarrow> d < length path) then Inr (root, [])
       else
         (case layerAt (rootLayer (proofV0 p)) path of
            None \<Rightarrow> Inl UndefinedLayer
          | Some layer \<Rightarrow>
              bnd (executeMerkProof H (merkProofOf layer) False) (\<lambda>tree.
              bnd (completeLoop H path None (inOrder tree)) (\<lambda>entries.
                Inr (root, entries))))))"

definition verifyProofAgainstRoot ::
  "(bytes \<Rightarrow> bytes) \<Rightarrow> bytes \<Rightarrow> CryptoHash \<Rightarrow> VerifyOptions \<Rightarrow> gerror + GroveDBVerificationResult" where
  "verifyProofAgainstRoot H proofBytes expectedRootHash options =
     bnd (verifyGroveDBProof H proofBytes options) (\<lambda>result.
       if \<not> hashEquals (rootHash result) expectedRootHash then Inl RootHashMismatch
       else Inr result)"

subsection \<open>Quick verification\<close>

text \<open>A lower layer's turn; \<open>provedByKey\<close> is the last proved entry of each key.\<close>

definition provedByKey :: "ProvedKeyValue list \<Rightarrow> (string \<times> ProvedKeyValue) list" where
  "provedByKey rs = foldl (\<lambda>m r. AList.update (bytesToHex (pkey r)) r m) [] rs"

function quickVerifyLayer :: "(bytes \<Rightarrow> bytes) \<Rightarrow> LayerProof \<Rightarrow> gerror + CryptoHash" where
  "quickVerifyLayer H layer =
     bnd (executeMerkProofWithQuery H (merkProofOf layer) None) (\<lambda>merkResult.
     bnd (forEach (lowerLayersOf layer) (\<lambda>entry s.
            case entry of (keyHex, lowerLayer) \<Rightarrow>
              (case map_of (provedByKey (resultSet merkResult)) keyHex of
                 None \<Rightarrow> Inl (QuickLayerKeyNotFound keyHex)
               | Some proved \<Rightarrow>
                   (case pvalue proved of
                      None \<Rightarrow> Inl (QuickLayerKeyNotFound keyHex)
                    | Some value \<Rightarrow>
                        bnd (quickVerifyLayer H lowerLayer) (\<lambda>lowerHash.
                          let combined = combineHash H (valueHash H value) lowerHash in
                          if \<not> hashEquals combined (pproof proved)
                          then Inl (QuickLayerHashMismatch keyHex)
                          else Inr ((), s))))) ())
       (\<lambda>_. Inr (merkRoot merkResult)))"
  by pat_completeness auto
termination
proof (relation "measure (\<lambda>(_, layer). size layer)", goal_cases)
  case (2 H layer merkResult entry s keyHex lowerLayer proved val)
  then have "size lowerLayer < size_list (size_prod (\<lambda>_. 0) size) (lowerLayersOf layer)"
    by (induction "lowerLayersOf layer") (auto simp: size_list_conv_sum_list in_set_conv_decomp)
  then show ?case by (cases layer) auto
qed auto

declare quickVerifyLayer.simps [simp del]

definition quickVerify :: "(bytes \<Rightarrow> bytes) \<Rightarrow> bytes \<Rightarrow> gerror + CryptoHash" where
  "quickVerify H proofBytes =
     bnd (decodeGroveDBProof proofBytes) (\<lambda>p. quickVerifyLayer H (rootLayer (proofV0 p)))"

end
