(* ===== verification/Json_Number.thy ===== *)
theory Json_Number
  imports Node_Json Complex_Main
begin

unbundle bit_operations_syntax

text \<open>
  The numbers of JSON text (\<open>src/src/proof/node-json.ts\<close>, \<open>src/src/proof/shared.ts\<close>): their exact
  decimal value as the node compares them, the double Rust parses from them, and JavaScript's
  numbers as the 64 bits of an IEEE double. An index into a text that only skips zeros is given as
  the text it leaves.
\<close>

subsection \<open>Exact decimals\<close>

definition I128_MAX :: int where
  "I128_MAX = 2 ^ 127 - 1"

definition I128_MIN :: int where
  "I128_MIN = - (2 ^ 127)"

definition skipZeros :: "jsstr \<Rightarrow> jsstr" where
  "skipZeros s = dropWhile (\<lambda>c. c = 0x30) s"

definition dropZeros :: "jsstr \<Rightarrow> jsstr" where
  "dropZeros s = rev (dropWhile (\<lambda>c. c = 0x30) (rev s))"

record ExactDecimal =
  eneg :: bool
  edigits :: jsstr
  eexp :: int

definition notExpMark :: "16 word \<Rightarrow> bool" where
  "notExpMark c \<longleftrightarrow> c \<noteq> 0x65 \<and> c \<noteq> 0x45"

text \<open>The exponent's text, \<open>/^([+-]?)([0-9]+)$/\<close>, as an i128.\<close>

definition exponentI128 :: "jsstr \<Rightarrow> int option" where
  "exponentI128 lit =
     (let ds = (if peek lit = Some 0x2b \<or> peek lit = Some 0x2d then tl lit else lit) in
      if ds = [] \<or> \<not> list_all isDigit ds then None
      else
        (let m = skipZeros ds in
         if length m > 39 then None
         else
           (let magnitude = int (decVal m);
                e = (if peek lit = Some 0x2d then - magnitude else magnitude) in
            if e > I128_MAX \<or> e < I128_MIN then None else Some e)))"

definition nodeExactDecimal :: "jsstr \<Rightarrow> ExactDecimal option" where
  "nodeExactDecimal text =
     (let neg = (peek text = Some 0x2d);
          rest = unsigned text;
          mantissa = takeWhile notExpMark rest;
          marked = dropWhile notExpMark rest in
      case (if marked = [] then Some 0 else exponentI128 (tl marked)) of
        None \<Rightarrow> None
      | Some e \<Rightarrow>
          (let int_part = takeWhile (\<lambda>c. c \<noteq> 0x2e) mantissa;
               frac_part = tl (dropWhile (\<lambda>c. c \<noteq> 0x2e) mantissa) in
           if int_part = [] \<or> \<not> list_all isDigit (int_part @ frac_part) then None
           else
             (let ds = int_part @ frac_part; lead = skipZeros ds in
              if lead = [] then Some \<lparr>eneg = False, edigits = [], eexp = 0\<rparr>
              else
                (let kept = dropZeros lead; e1 = e - int (length frac_part) in
                 if e1 < I128_MIN then None
                 else
                   (let e2 = e1 + int (length lead - length kept) in
                    if e2 > I128_MAX then None
                    else Some \<lparr>eneg = neg, edigits = kept, eexp = e2\<rparr>)))))"

definition nodeNumbersEqual :: "jsstr \<Rightarrow> jsstr \<Rightarrow> bool" where
  "nodeNumbersEqual a b =
     (if a = b then True
      else
        (case (nodeExactDecimal a, nodeExactDecimal b) of
           (Some x, Some y) \<Rightarrow>
             eneg x = eneg y \<and> edigits x = edigits y \<and> eexp x = eexp y
         | _ \<Rightarrow> False))"

text \<open>\<open>/^(-?)([0-9]+)(?:\.([0-9]+))?(?:[eE]([+-]?)([0-9]+))?$/\<close>: the sign, the whole part, the fraction,
  the exponent's sign, and the exponent's digits.\<close>

record numberParts =
  minus :: bool
  whole :: jsstr
  fraction :: jsstr
  expMinus :: bool
  expDigits :: jsstr

definition splitNumber :: "jsstr \<Rightarrow> numberParts option" where
  "splitNumber text =
     (let r = unsigned text;
          w = takeWhile isDigit r;
          r1 = dropWhile isDigit r;
          dotted = (peek r1 = Some 0x2e);
          f = (if dotted then takeWhile isDigit (tl r1) else []);
          r2 = (if dotted then dropWhile isDigit (tl r1) else r1);
          marked = (peek r2 = Some 0x65 \<or> peek r2 = Some 0x45);
          sgn = (peek (tl r2) = Some 0x2b \<or> peek (tl r2) = Some 0x2d);
          x = (if marked then (if sgn then tl (tl r2) else tl r2) else []) in
      if w = [] \<or> (dotted \<and> f = []) \<or> (if marked then x = [] \<or> \<not> list_all isDigit x else r2 \<noteq> []) then None
      else Some \<lparr>minus = (peek text = Some 0x2d), whole = w, fraction = f,
             expMinus = (marked \<and> peek (tl r2) = Some 0x2d), expDigits = (if marked then x else [0x30])\<rparr>)"

subsection \<open>JavaScript numbers\<close>

text \<open>A number is the 64 bits of its double.\<close>

type_synonym number = "64 word"

definition f64 :: "bool \<Rightarrow> nat \<Rightarrow> nat \<Rightarrow> number" where
  "f64 neg biased m =
     (if neg then push_bit 63 1 else 0) OR push_bit 52 (of_nat biased) OR (of_nat m AND mask 52)"

definition Infinity :: "bool \<Rightarrow> number" where
  "Infinity neg = f64 neg 2047 0"

definition NaN :: number where
  "NaN = f64 False 2047 (2 ^ 51)"

definition biasedOf :: "number \<Rightarrow> nat" where
  "biasedOf n = unat (drop_bit 52 n AND mask 11)"

definition fracOf :: "number \<Rightarrow> nat" where
  "fracOf n = unat (n AND mask 52)"

definition signOf :: "number \<Rightarrow> bool" where
  "signOf n = bit n 63"

definition isFiniteNumber :: "number \<Rightarrow> bool" where
  "isFiniteNumber n \<longleftrightarrow> biasedOf n \<noteq> 2047"

text \<open>The value of a finite double, and \<open><\<close> on finite doubles.\<close>

definition numberVal :: "number \<Rightarrow> rat" where
  "numberVal n =
     (let m = (if biasedOf n = 0 then rat_of_nat (fracOf n) / 2 ^ 1074
               else rat_of_nat (2 ^ 52 + fracOf n) * 2 ^ biasedOf n / 2 ^ 1075)
      in if signOf n then - m else m)"

definition MAX_ROUNDING_DIGITS :: nat where
  "MAX_ROUNDING_DIGITS = 800"

fun bitLength :: "nat \<Rightarrow> nat" where
  "bitLength n = (if n < 2 then 1 else Suc (bitLength (n div 2)))"

declare bitLength.simps [simp del]

text \<open>\<open>floor(num / (den * 2^e))\<close>, with its remainder and divisor.\<close>

definition quotient :: "nat \<Rightarrow> nat \<Rightarrow> int \<Rightarrow> nat \<times> nat \<times> nat" where
  "quotient num den e =
     (let (n, d) = (if e \<ge> 0 then (num, push_bit (nat e) den) else (push_bit (nat (- e)) num, den))
      in (n div d, n mod d, d))"

text \<open>The rounding of \<open>num / den\<close>: the significand and exponent of the nearest double, ties to even.\<close>

definition roundQuotient :: "nat \<Rightarrow> nat \<Rightarrow> nat \<times> int" where
  "roundQuotient num den =
     (let e0 = max (int (bitLength num) - int (bitLength den) - 53) (- 1074);
          (q0, r0, d0) = quotient num den e0;
          (e, q, r, d) =
            (if q0 \<ge> 2 ^ 53 then (let (q, r, d) = quotient num den (e0 + 1) in (e0 + 1, q, r, d))
             else (e0, q0, r0, d0));
          q = (if 2 * r > d \<or> (2 * r = d \<and> odd q) then q + 1 else q)
      in if q = 2 ^ 53 then (q div 2, e + 1) else (q, e))"

definition parseF64 :: "jsstr \<Rightarrow> number" where
  "parseF64 text =
     (case splitNumber text of
        None \<Rightarrow> NaN
      | Some p \<Rightarrow>
          (let neg = minus p;
               lead = skipZeros (whole p @ fraction p) in
           if lead = [] then f64 neg 0 0
           else
             (let ds = dropZeros lead;
                  expo = skipZeros (expDigits p) in
              if length expo > 15 then (if expMinus p then f64 neg 0 0 else Infinity neg)
              else
                (let x = (if expMinus p then - 1 else 1) * int (decVal expo) - int (length (fraction p))
                         + int (length lead - length ds) in
                 if int (length ds) - 1 + x \<ge> 309 then Infinity neg
                 else if int (length ds) + x \<le> - 324 then f64 neg 0 0
                 else
                   (let cut = length ds > MAX_ROUNDING_DIGITS;
                        x = (if cut then x + (int (length ds) - int (MAX_ROUNDING_DIGITS + 1)) else x);
                        ds = (if cut then take MAX_ROUNDING_DIGITS ds @ [0x31] else ds);
                        num = decVal ds * (if x > 0 then 10 ^ nat x else 1);
                        den = (if x < 0 then 10 ^ nat (- x) else 1);
                        (q, e) = roundQuotient num den in
                    if e > 971 then Infinity neg
                    else f64 neg (if q \<ge> 2 ^ 52 then nat (e + 1075) else 0) q)))))"

end
