(* ===== verification/Json_Value.thy ===== *)
theory Json_Value
  imports Json_Number
begin

text \<open>
  What the proof modules do with JSON values: the node's equality and the length of its text
  (\<open>src/src/proof/node-json.ts\<close>), JavaScript's values, exact numbers and structural equality
  (\<open>src/src/proof/shared.ts\<close>). \<open>Number(text)\<close> and \<open>String(number)\<close>, whose digits the language leaves
  partly to the engine, are the parameters \<open>toNumber\<close> and \<open>numberText\<close>.
\<close>

subsection \<open>The node's equality\<close>

fun nodeJsonEqual :: "NodeJson \<Rightarrow> NodeJson \<Rightarrow> bool" where
  "nodeJsonEqual JNull JNull = True"
| "nodeJsonEqual (JBool a) (JBool b) = (a = b)"
| "nodeJsonEqual (JNum a) (JNum b) = nodeNumbersEqual a b"
| "nodeJsonEqual (JStr a) (JStr b) = (a = b)"
| "nodeJsonEqual (JArr a) (JArr b) \<longleftrightarrow> length a = length b \<and> list_all (\<lambda>(x, y). nodeJsonEqual x y) (zip a b)"
| "nodeJsonEqual (JObj a) (JObj b) \<longleftrightarrow>
     length a = length b \<and>
     list_all (\<lambda>(k, x). case map_of b k of None \<Rightarrow> False | Some y \<Rightarrow> nodeJsonEqual x y) a"
| "nodeJsonEqual _ _ = False"

subsection \<open>The length of a value's text\<close>

fun utf8Length :: "jsstr \<Rightarrow> nat" where
  "utf8Length [] = 0"
| "utf8Length (c # s) =
     (if c < 0x80 then 1 + utf8Length s
      else if c < 0x800 then 2 + utf8Length s
      else if c \<ge> 0xd800 \<and> c \<le> 0xdbff then
        (case s of
           [] \<Rightarrow> 3
         | d # t \<Rightarrow> if d \<ge> 0xdc00 \<and> d \<le> 0xdfff then 4 + utf8Length t else 3 + utf8Length s)
      else 3 + utf8Length s)"

definition escapeExtra :: "16 word \<Rightarrow> nat" where
  "escapeExtra c =
     (if c = 0x22 \<or> c = 0x5c \<or> c = 0x08 \<or> c = 0x09 \<or> c = 0x0a \<or> c = 0x0c \<or> c = 0x0d then 1
      else if c < 0x20 then 5
      else 0)"

definition quotedLength :: "jsstr \<Rightarrow> nat" where
  "quotedLength s = utf8Length s + 2 + sum_list (map escapeExtra s)"

fun nodeJsonTextLength :: "NodeJson \<Rightarrow> nat" where
  "nodeJsonTextLength JNull = 4"
| "nodeJsonTextLength (JBool v) = (if v then 4 else 5)"
| "nodeJsonTextLength (JNum n) = length n"
| "nodeJsonTextLength (JStr v) = quotedLength v"
| "nodeJsonTextLength (JArr v) = 2 + (length v - 1) + sum_list (map nodeJsonTextLength v)"
| "nodeJsonTextLength (JObj v) =
     2 + (length v - 1) + sum_list (map (\<lambda>(k, x). quotedLength k + 1 + nodeJsonTextLength x) v)"

subsection \<open>JavaScript values\<close>

text \<open>An object is its own enumerable properties; \<open>VBytes\<close> is a \<open>Uint8Array\<close>.\<close>

datatype jsval =
    VUndefined
  | VNull
  | VBool bool
  | VNum number
  | VStr jsstr
  | VArr "jsval list"
  | VObj "(jsstr \<times> jsval) list"
  | VBytes bytes

datatype jstype = TyUndefined | TyObject | TyBoolean | TyNumber | TyString

fun js_typeof :: "jsval \<Rightarrow> jstype" where
  "js_typeof VUndefined = TyUndefined"
| "js_typeof VNull = TyObject"
| "js_typeof (VBool _) = TyBoolean"
| "js_typeof (VNum _) = TyNumber"
| "js_typeof (VStr _) = TyString"
| "js_typeof (VArr _) = TyObject"
| "js_typeof (VObj _) = TyObject"
| "js_typeof (VBytes _) = TyObject"

fun nodeJsonToJs :: "(jsstr \<Rightarrow> number) \<Rightarrow> NodeJson \<Rightarrow> jsval" where
  "nodeJsonToJs toNumber JNull = VNull"
| "nodeJsonToJs toNumber (JBool v) = VBool v"
| "nodeJsonToJs toNumber (JStr v) = VStr v"
| "nodeJsonToJs toNumber (JNum n) = VNum (toNumber n)"
| "nodeJsonToJs toNumber (JArr v) = VArr (map (nodeJsonToJs toNumber) v)"
| "nodeJsonToJs toNumber (JObj v) = VObj (map (\<lambda>(k, x). (k, nodeJsonToJs toNumber x)) v)"

text \<open>\<open>Object.is(n, -0)\<close> compares bits.\<close>

definition isFidelitySafeNumber :: "number \<Rightarrow> bool" where
  "isFidelitySafeNumber n \<longleftrightarrow> isFiniteNumber n \<and> n \<noteq> f64 True 0 0"

text \<open>The own properties of an object, a byte array's being its elements by index.\<close>

definition byteNumber :: "byte \<Rightarrow> number" where
  "byteNumber b = parseF64 (decText (unat b))"

fun ownEntries :: "jsval \<Rightarrow> (jsstr \<times> jsval) list" where
  "ownEntries (VObj v) = v"
| "ownEntries (VBytes bs) = map (\<lambda>(i, b). (decText i, VNum (byteNumber b))) (List.enumerate 0 bs)"
| "ownEntries _ = []"

definition isArrayVal :: "jsval \<Rightarrow> bool" where
  "isArrayVal v = (case v of VArr _ \<Rightarrow> True | _ \<Rightarrow> False)"

definition isObjectVal :: "jsval \<Rightarrow> bool" where
  "isObjectVal v = (case v of VObj _ \<Rightarrow> True | VBytes _ \<Rightarrow> True | _ \<Rightarrow> False)"

text \<open>\<open>Object.is(a, b) && isFidelitySafeNumber(a)\<close>.\<close>

definition sameNumber :: "number \<Rightarrow> number \<Rightarrow> bool" where
  "sameNumber a b \<longleftrightarrow> a = b \<and> isFidelitySafeNumber a"

text \<open>\<open>===\<close> on two objects, true only for one object given twice, is left out: the first argument is
  always built afresh.\<close>

fun jsonDeepEqual :: "jsval \<Rightarrow> jsval \<Rightarrow> bool" where
  "jsonDeepEqual VUndefined b = (b = VUndefined)"
| "jsonDeepEqual VNull b = (b = VNull)"
| "jsonDeepEqual (VBool a) b = (b = VBool a)"
| "jsonDeepEqual (VNum a) b = (case b of VNum n \<Rightarrow> sameNumber a n | _ \<Rightarrow> False)"
| "jsonDeepEqual (VStr a) b = (b = VStr a)"
| "jsonDeepEqual (VArr a) b =
     (case b of
        VArr bs \<Rightarrow> length a = length bs \<and> list_all (\<lambda>(x, y). jsonDeepEqual x y) (zip a bs)
      | _ \<Rightarrow> False)"
| "jsonDeepEqual (VObj a) b =
     (isObjectVal b \<and> length a = length (ownEntries b) \<and>
      list_all (\<lambda>(k, x). case map_of (ownEntries b) k of None \<Rightarrow> False | Some y \<Rightarrow> jsonDeepEqual x y) a)"
| "jsonDeepEqual (VBytes a) b =
     (isObjectVal b \<and> length a = length (ownEntries b) \<and>
      list_all (\<lambda>(i, x). case map_of (ownEntries b) (decText i) of
          Some (VNum n) \<Rightarrow> sameNumber (byteNumber x) n
        | _ \<Rightarrow> False) (List.enumerate 0 a))"

subsection \<open>Exact numbers\<close>

definition exactDecimal :: "jsstr \<Rightarrow> ExactDecimal option" where
  "exactDecimal text =
     (case splitNumber text of
        None \<Rightarrow> None
      | Some p \<Rightarrow>
          (let lead = skipZeros (whole p @ fraction p);
               ds = dropZeros lead in
           if ds = [] then Some \<lparr>eneg = False, edigits = [], eexp = 0\<rparr>
           else
             (let e = (if expMinus p then - int (decVal (expDigits p)) else int (decVal (expDigits p))) in
              Some \<lparr>eneg = minus p, edigits = ds,
                    eexp = e - int (length (fraction p)) + int (length lead - length ds)\<rparr>)))"

definition isExactJsonNumber :: "(jsstr \<Rightarrow> number) \<Rightarrow> (number \<Rightarrow> jsstr) \<Rightarrow> jsstr \<Rightarrow> bool" where
  "isExactJsonNumber toNumber numberText text =
     (let v = toNumber text in
      if \<not> isFiniteNumber v then False
      else
        (case (exactDecimal text, exactDecimal (numberText v)) of
           (Some written, Some shortest) \<Rightarrow>
             eneg written = eneg shortest \<and> edigits written = edigits shortest \<and> eexp written = eexp shortest
         | _ \<Rightarrow> False))"

text \<open>The first number of the value that is not exact; \<open>or_else\<close> is the loop's return at the first find.\<close>

definition or_else :: "'a option \<Rightarrow> 'a option \<Rightarrow> 'a option" where
  "or_else a b = (case a of None \<Rightarrow> b | Some x \<Rightarrow> Some x)"

fun inexactNumber :: "(jsstr \<Rightarrow> bool) \<Rightarrow> NodeJson \<Rightarrow> jsstr option" where
  "inexactNumber exact (JNum n) = (if exact n then None else Some n)"
| "inexactNumber exact (JArr v) = foldr or_else (map (inexactNumber exact) v) None"
| "inexactNumber exact (JObj v) = foldr or_else (map (\<lambda>(k, x). inexactNumber exact x) v) None"
| "inexactNumber exact _ = None"

end
