(* ===== verification/Json_Text.thy ===== *)
theory Json_Text
  imports Json_Value
begin

text \<open>
  The text of a JSON value and the parser of \<open>Node_Json\<close>: \<open>jsonText\<close> is \<open>serde_json\<close>'s compact text.
  The lemmas, by part: number tokens and their canonical form, strings and their escapes, the fuel,
  what is read is well formed, and what is well formed is read back from its text, whose length is
  the one the code computes.
\<close>

subsection \<open>Number tokens\<close>

definition wholeOk :: "jsstr \<Rightarrow> bool" where
  "wholeOk w \<longleftrightarrow> w \<noteq> [] \<and> list_all isDigit w \<and> (hd w = 0x30 \<longrightarrow> length w = 1)"

definition fractionOk :: "jsstr \<Rightarrow> bool" where
  "fractionOk f \<longleftrightarrow> f = [] \<or> (\<exists>ds. f = 0x2e # ds \<and> ds \<noteq> [] \<and> list_all isDigit ds)"

definition exponentOk :: "jsstr \<Rightarrow> bool" where
  "exponentOk x \<longleftrightarrow> x = [] \<or>
     (\<exists>c sg ds. x = c # sg @ ds \<and> (c = 0x65 \<or> c = 0x45) \<and> (sg = [] \<or> sg = [0x2b] \<or> sg = [0x2d]) \<and>
        ds \<noteq> [] \<and> list_all isDigit ds)"

definition signOk :: "jsstr \<Rightarrow> bool" where
  "signOk sg \<longleftrightarrow> sg = [] \<or> sg = [0x2d]"

definition numberToken :: "jsstr \<Rightarrow> bool" where
  "numberToken tok \<longleftrightarrow>
     (\<exists>sg w f x. tok = sg @ w @ f @ x \<and> signOk sg \<and> wholeOk w \<and> fractionOk f \<and> exponentOk x)"

text \<open>What may follow a number: nothing that could continue it.\<close>

definition sep :: "jsstr \<Rightarrow> bool" where
  "sep t \<longleftrightarrow> t = [] \<or> (\<not> isDigit (hd t) \<and> hd t \<noteq> 0x2e \<and> hd t \<noteq> 0x65 \<and> hd t \<noteq> 0x45)"

lemma peek_append: "s \<noteq> [] \<Longrightarrow> peek (s @ t) = peek s"
  by (cases s) auto

lemma peek_Some: "peek s = Some c \<longleftrightarrow> (\<exists>t. s = c # t)"
  by (cases s) auto

lemma isDigit_consts [simp]:
  "isDigit 0x30" "\<not> isDigit 0x2e" "\<not> isDigit 0x65" "\<not> isDigit 0x45" "\<not> isDigit 0x2d" "\<not> isDigit 0x2b"
  "\<not> isDigit 0x2c" "\<not> isDigit 0x5d" "\<not> isDigit 0x7d" "\<not> isDigit 0x22" "\<not> isDigit 0x5b" "\<not> isDigit 0x7b"
  "\<not> isDigit 0x6e" "\<not> isDigit 0x74" "\<not> isDigit 0x66"
  by (simp_all add: isDigit_def)

lemma digits_append:
  assumes "list_all isDigit ds" "t = [] \<or> \<not> isDigit (hd t)"
  shows "digits (ds @ t) = Inr (length ds, t)"
proof -
  have "takeWhile isDigit (ds @ t) = ds" "dropWhile isDigit (ds @ t) = t"
    using assms by (cases t; simp add: list_all_iff takeWhile_append2 dropWhile_append2)+
  then show ?thesis by (simp add: digits_def)
qed

lemma digits_split:
  "digits s = Inr (n, t) \<Longrightarrow> \<exists>ds. s = ds @ t \<and> list_all isDigit ds \<and> n = length ds \<and> (t = [] \<or> \<not> isDigit (hd t))"
  by (auto simp: digits_def list_all_iff dest: set_takeWhileD hd_dropWhile
      intro!: exI [of _ "takeWhile isDigit s"])

lemma digits1_append:
  "list_all isDigit ds \<Longrightarrow> ds \<noteq> [] \<Longrightarrow> t = [] \<or> \<not> isDigit (hd t) \<Longrightarrow> digits1 (ds @ t) = Inr ((), t)"
  by (simp add: digits1_def bind_def digits_append)

lemma digits1_split:
  "digits1 s = Inr (u, t) \<Longrightarrow> \<exists>ds. s = ds @ t \<and> ds \<noteq> [] \<and> list_all isDigit ds \<and> (t = [] \<or> \<not> isDigit (hd t))"
  by (auto simp: digits1_def split: if_splits dest!: digits_split)

lemma whole_append:
  assumes "wholeOk w" "t = [] \<or> \<not> isDigit (hd t)"
  shows "wholePart (w @ t) = Inr ((), t)"
proof (cases "hd w = 0x30")
  case True
  then have "w = [0x30]" using assms(1) by (cases w) (auto simp: wholeOk_def)
  then show ?thesis using digits_append [of "[]" t] assms(2) by (simp add: wholePart_def bind_def)
next
  case False
  then have "peek (w @ t) \<noteq> Some 0x30" using assms(1) by (cases w) (auto simp: wholeOk_def)
  then show ?thesis using assms digits1_append [of w t] by (simp add: wholePart_def wholeOk_def)
qed

lemma whole_split:
  "wholePart s = Inr (u, t) \<Longrightarrow> \<exists>w. s = w @ t \<and> wholeOk w \<and> (t = [] \<or> \<not> isDigit (hd t))"
proof (cases "peek s = Some 0x30")
  case True
  assume "wholePart s = Inr (u, t)"
  then show ?thesis
    using True by (auto simp: wholePart_def peek_Some wholeOk_def split: if_splits dest!: digits_split)
next
  case False
  assume "wholePart s = Inr (u, t)"
  then obtain ds where "s = ds @ t" "ds \<noteq> []" "list_all isDigit ds" "t = [] \<or> \<not> isDigit (hd t)"
    using False digits1_split by (auto simp: wholePart_def)
  moreover from this have "hd ds \<noteq> 0x30" using False by (cases ds) auto
  ultimately show ?thesis by (auto simp: wholeOk_def)
qed

lemma fraction_append:
  "fractionOk f \<Longrightarrow> t = [] \<or> \<not> isDigit (hd t) \<Longrightarrow> f = [] \<longrightarrow> peek t \<noteq> Some 0x2e \<Longrightarrow>
     fractionPart (f @ t) = Inr ((), t)"
  using digits1_append [of "tl f" t] by (auto simp: fractionOk_def fractionPart_def)

lemma fraction_split:
  "fractionPart s = Inr (u, t) \<Longrightarrow> s = [] \<or> \<not> isDigit (hd s) \<Longrightarrow>
     \<exists>f. s = f @ t \<and> fractionOk f \<and> (t = [] \<or> \<not> isDigit (hd t)) \<and> (f = [] \<longrightarrow> peek t \<noteq> Some 0x2e)"
  by (auto simp: fractionPart_def fractionOk_def peek_Some split: if_splits dest!: digits1_split)

lemma sign_digits:
  "list_all isDigit ds \<Longrightarrow> ds \<noteq> [] \<Longrightarrow> peek (ds @ t) \<noteq> Some 0x2b \<and> peek (ds @ t) \<noteq> Some 0x2d"
  by (cases ds) auto

lemma exponent_append:
  assumes "exponentOk x" "t = [] \<or> \<not> isDigit (hd t)" "x = [] \<longrightarrow> peek t \<noteq> Some 0x65 \<and> peek t \<noteq> Some 0x45"
  shows "exponentPart (x @ t) = Inr ((), t)"
proof (cases "x = []")
  case False
  then obtain c sg ds where x: "x = c # sg @ ds" "c = 0x65 \<or> c = 0x45" "sg = [] \<or> sg = [0x2b] \<or> sg = [0x2d]"
    "ds \<noteq> []" "list_all isDigit ds" using assms(1) by (auto simp: exponentOk_def)
  then show ?thesis
    using digits1_append [OF x(5,4) assms(2)] sign_digits [OF x(5,4), of t]
    by (auto simp: exponentPart_def Let_def)
qed (use assms(3) in \<open>simp add: exponentPart_def\<close>)

lemma exponent_split:
  "exponentPart s = Inr (u, t) \<Longrightarrow> \<exists>x. s = x @ t \<and> exponentOk x"
proof (cases "peek s = Some 0x65 \<or> peek s = Some 0x45")
  case True
  then obtain c r where s: "s = c # r" "c = 0x65 \<or> c = 0x45" by (auto simp: peek_Some)
  assume "exponentPart s = Inr (u, t)"
  then obtain ds where ds: "(if peek r = Some 0x2b \<or> peek r = Some 0x2d then tl r else r) = ds @ t"
    "ds \<noteq> []" "list_all isDigit ds"
    using s digits1_split by (auto simp: exponentPart_def Let_def)
  then have "\<exists>sg. r = sg @ ds @ t \<and> (sg = [] \<or> sg = [0x2b] \<or> sg = [0x2d])"
    by (cases r) (auto split: if_splits)
  then obtain sg where "r = sg @ ds @ t" "sg = [] \<or> sg = [0x2b] \<or> sg = [0x2d]" by blast
  then have "s = (c # sg @ ds) @ t" "exponentOk (c # sg @ ds)"
    using s ds(2,3) unfolding exponentOk_def by auto
  then show ?thesis by blast
qed (auto simp: exponentPart_def exponentOk_def)

lemma nondigit_parts:
  "exponentOk x \<Longrightarrow> sep t \<Longrightarrow> (x @ t = [] \<or> \<not> isDigit (hd (x @ t))) \<and> peek (x @ t) \<noteq> Some 0x2e"
  by (cases t) (auto simp: exponentOk_def sep_def)

text \<open>\<open>number\<close> reads exactly the tokens.\<close>

lemma number_append:
  assumes "numberToken tok" "sep t"
  shows "number (tok @ t) = Inr (canonicalNumber tok, t)"
proof -
  obtain sg w f x where tok: "tok = sg @ w @ f @ x" and ok: "signOk sg" "wholeOk w" "fractionOk f" "exponentOk x"
    using assms(1) by (auto simp: numberToken_def)
  have xt: "x @ t = [] \<or> \<not> isDigit (hd (x @ t))" "peek (x @ t) \<noteq> Some 0x2e"
    using nondigit_parts [OF ok(4) assms(2)] by auto
  have ft: "f @ x @ t = [] \<or> \<not> isDigit (hd (f @ x @ t))"
    using xt(1) ok(3) by (auto simp: fractionOk_def)
  have tt: "t = [] \<or> \<not> isDigit (hd t)" "x = [] \<longrightarrow> peek t \<noteq> Some 0x65 \<and> peek t \<noteq> Some 0x45"
    using assms(2) by (cases t; auto simp: sep_def)+
  have "w \<noteq> []" "hd w \<noteq> 0x2d" using ok(2) by (cases w; auto simp: wholeOk_def)+
  then have "unsigned (tok @ t) = w @ f @ x @ t"
    using ok(1) tok by (cases w) (auto simp: signOk_def unsigned_def)
  moreover have "take (length (tok @ t) - length t) (tok @ t) = tok" by simp
  ultimately show ?thesis
    using whole_append [OF ok(2) ft] fraction_append [OF ok(3) xt(1)] xt(2) exponent_append [OF ok(4) tt]
    by (simp add: number_def bind_def)
qed

lemma number_split:
  assumes "number s = Inr (m, t)"
  shows "\<exists>tok. s = tok @ t \<and> numberToken tok \<and> m = canonicalNumber tok"
proof -
  obtain r1 r2 where p: "wholePart (unsigned s) = Inr ((), r1)" "fractionPart r1 = Inr ((), r2)"
    "exponentPart r2 = Inr ((), t)" and m: "m = canonicalNumber (take (length s - length t) s)"
    using assms by (auto simp: number_def)
  obtain w where w: "unsigned s = w @ r1" "wholeOk w" "r1 = [] \<or> \<not> isDigit (hd r1)"
    using whole_split [OF p(1)] by blast
  obtain f where f: "r1 = f @ r2" "fractionOk f" using fraction_split [OF p(2) w(3)] by blast
  obtain x where x: "r2 = x @ t" "exponentOk x" using exponent_split [OF p(3)] by blast
  have "\<exists>sg. s = sg @ unsigned s \<and> signOk sg"
    by (cases s) (auto simp: unsigned_def signOk_def)
  then obtain sg where sg: "s = sg @ unsigned s" "signOk sg" by blast
  let ?tok = "sg @ w @ f @ x"
  have s: "s = ?tok @ t" using sg(1) w(1) f(1) x(1) by simp
  then have "m = canonicalNumber ?tok" using m by simp
  then show ?thesis using s sg(2) w(2) f(2) x(2) by (auto simp: numberToken_def)
qed

subsection \<open>The kept text of a number\<close>

lemma normExp_append: "list_all notExpMark s \<Longrightarrow> normExp (s @ t) = s @ normExp t"
  by (induction s) (auto simp: notExpMark_def)

lemma notExpMark_digits: "list_all isDigit ds \<Longrightarrow> list_all notExpMark ds"
  by (auto simp: list_all_iff notExpMark_def isDigit_def)

lemma normExp_exponent:
  assumes "exponentOk x"
  shows "exponentOk (normExp x) \<and> normExp (normExp x) = normExp x"
proof (cases "x = []")
  case False
  then obtain c sg ds where x: "x = c # sg @ ds" "c = 0x65 \<or> c = 0x45" "sg = [] \<or> sg = [0x2b] \<or> sg = [0x2d]"
    "ds \<noteq> []" "list_all isDigit ds" using assms by (auto simp: exponentOk_def)
  let ?sg = "if sg = [] then [0x2b] else sg"
  have n: "normExp x = 0x65 # ?sg @ ds" using x sign_digits [OF x(5,4), of "[]"] by auto
  have "exponentOk (normExp x)"
    unfolding n exponentOk_def
    by (intro disjI2 exI [of _ "0x65"] exI [of _ ?sg] exI [of _ ds]) (use x in auto)
  moreover have "normExp (normExp x) = normExp x" using n x(3) by auto
  ultimately show ?thesis by blast
qed (simp add: exponentOk_def)

lemma normExp_token:
  assumes "numberToken tok"
  shows "numberToken (normExp tok) \<and> normExp (normExp tok) = normExp tok"
proof -
  obtain sg w f x where tok: "tok = (sg @ w @ f) @ x" and ok: "signOk sg" "wholeOk w" "fractionOk f" "exponentOk x"
    using assms by (auto simp: numberToken_def)
  have m: "list_all notExpMark (sg @ w @ f)"
    using ok(1,2,3) by (auto simp: signOk_def wholeOk_def fractionOk_def notExpMark_digits) (auto simp: notExpMark_def)
  have n: "normExp tok = sg @ w @ f @ normExp x" using normExp_append [OF m, of x] tok by simp
  have x: "exponentOk (normExp x)" "normExp (normExp x) = normExp x"
    using normExp_exponent [OF ok(4)] by blast+
  have "numberToken (normExp tok)"
    unfolding numberToken_def n using ok(1,2,3) x(1) by blast
  moreover have "normExp (normExp tok) = normExp tok" using normExp_append [OF m, of "normExp x"] n x(2) by simp
  ultimately show ?thesis by blast
qed

lemma decText_whole: "wholeOk (decText n)"
proof (cases "n = 0")
  case True
  then show ?thesis by (simp add: decText.simps [of 0] wholeOk_def digitChar_def)
next
  case False
  then obtain c s where "decText n = c # s" "c \<noteq> 0x30" using decText_no_zero by blast
  then show ?thesis using decText_digits [of n] by (simp add: wholeOk_def)
qed

lemma peek_decText: "c \<noteq> 0x30 \<Longrightarrow> \<not> isDigit c \<Longrightarrow> peek (decText n) \<noteq> Some c"
  using decText_digits [of n] by (cases "decText n") auto

lemma whole_token: "signOk sg \<Longrightarrow> wholeOk w \<Longrightarrow> numberToken (sg @ w)"
  unfolding numberToken_def
  by (intro exI [of _ sg] exI [of _ w] exI [of _ "[]"]) (simp add: fractionOk_def exponentOk_def)

lemma intText_facts:
  "numberToken (intText v)" "normExp (intText v) = intText v" "isInteger (intText v)" "integerVal (intText v) = v"
  "peek (intText v) = Some 0x2d \<longleftrightarrow> v < 0"
proof -
  have m: "list_all notExpMark (decText n)" for n using notExpMark_digits [OF decText_digits] by simp
  show "numberToken (intText v)"
    using whole_token [of "[0x2d]" "decText (nat (- v))"] whole_token [of "[]" "decText (nat v)"]
    by (simp add: intText_def decText_whole signOk_def)
  show "normExp (intText v) = intText v"
    using normExp_append [OF m, of _ "[]"] by (simp add: intText_def)
  show "isInteger (intText v)" "integerVal (intText v) = v" "peek (intText v) = Some 0x2d \<longleftrightarrow> v < 0"
    by (auto simp: isInteger_def integerVal_def intText_def unsigned_def decText_digits peek_decText)
qed

lemma canonical_token:
  assumes "numberToken tok"
  shows "numberToken (canonicalNumber tok) \<and> canonicalNumber (canonicalNumber tok) = canonicalNumber tok"
proof -
  let ?buf = "normExp tok"
  let ?in = "isInteger ?buf \<and> (if peek ?buf = Some 0x2d then integerVal ?buf \<ge> I64_MIN else integerVal ?buf \<le> U64_MAX)"
  show ?thesis
  proof (cases ?in)
    case True
    let ?v = "integerVal ?buf"
    have v: "if ?v < 0 then ?v \<ge> I64_MIN else ?v \<le> U64_MAX"
      using True by (auto simp: integerVal_def I64_MIN_def U64_MAX_def split: if_splits)
    have "canonicalNumber tok = intText ?v" using True by (simp add: canonicalNumber_def Let_def)
    moreover have "canonicalNumber (intText ?v) = intText ?v"
      using v intText_facts [of ?v] by (simp add: canonicalNumber_def Let_def)
    ultimately show ?thesis using intText_facts(1) [of ?v] by simp
  next
    case False
    then have "canonicalNumber tok = ?buf" by (auto simp: canonicalNumber_def Let_def)
    moreover have "canonicalNumber ?buf = ?buf"
      using False normExp_token [OF assms] by (auto simp: canonicalNumber_def Let_def)
    ultimately show ?thesis using normExp_token [OF assms] by simp
  qed
qed

definition wfNumber :: "jsstr \<Rightarrow> bool" where
  "wfNumber n \<longleftrightarrow> numberToken n \<and> canonicalNumber n = n"

lemma number_reads: "wfNumber n \<Longrightarrow> sep t \<Longrightarrow> number (n @ t) = Inr (n, t)"
  using number_append [of n t] by (simp add: wfNumber_def)

lemma number_wf: "number s = Inr (n, t) \<Longrightarrow> wfNumber n \<and> length t < length s"
proof -
  assume "number s = Inr (n, t)"
  then obtain tok where tok: "s = tok @ t" "numberToken tok" "n = canonicalNumber tok" using number_split by blast
  then have "tok \<noteq> []" by (auto simp: numberToken_def wholeOk_def)
  with tok canonical_token [OF tok(2)] show ?thesis by (auto simp: wfNumber_def)
qed

subsection \<open>Strings\<close>

definition hexDigit :: "nat \<Rightarrow> 16 word" where
  "hexDigit d = (if d < 10 then of_nat (0x30 + d) else of_nat (0x57 + d))"

definition escapeChar :: "16 word \<Rightarrow> jsstr" where
  "escapeChar c =
     (if c = 0x22 then [0x5c, 0x22]
      else if c = 0x5c then [0x5c, 0x5c]
      else if c = 0x08 then [0x5c, 0x62]
      else if c = 0x09 then [0x5c, 0x74]
      else if c = 0x0a then [0x5c, 0x6e]
      else if c = 0x0c then [0x5c, 0x66]
      else if c = 0x0d then [0x5c, 0x72]
      else if c < 0x20 then [0x5c, 0x75, 0x30, 0x30, hexDigit (unat c div 16), hexDigit (unat c mod 16)]
      else [c])"

definition quoted :: "jsstr \<Rightarrow> jsstr" where
  "quoted s = 0x22 # concat (map escapeChar s) @ [0x22]"

lemma hexVal_hexdigit: "d < 16 \<Longrightarrow> hexVal (hexDigit d) = Some d"
proof -
  assume d: "d < 16"
  then have u: "unat (hexDigit d) = (if d < 10 then 0x30 + d else 0x57 + d)"
    by (simp only: hexDigit_def unat_of_nat split: if_split) simp
  show ?thesis
    using d by (auto simp: hexVal_def isDigit_iff digitVal_def word_le_nat_alt u)
qed

lemma escape_reads:
  assumes "escapeChar c = 0x5c # e"
  shows "escape (e @ t) = Inr ([c], t)"
proof -
  consider "c \<in> {0x22, 0x5c, 0x08, 0x09, 0x0a, 0x0c, 0x0d}" | "c < 0x20" "c \<notin> {0x22, 0x5c, 0x08, 0x09, 0x0a, 0x0c, 0x0d}"
    using assms by (auto simp: escapeChar_def split: if_splits)
  then show ?thesis
  proof cases
    case 1
    then show ?thesis using assms by (auto simp: escapeChar_def escape_def)
  next
    case 2
    then have e: "e = [0x75, 0x30, 0x30, hexDigit (unat c div 16), hexDigit (unat c mod 16)]"
      using assms by (auto simp: escapeChar_def)
    have c: "unat c < 32" using 2(1) by (simp add: word_less_nat_alt)
    then have "hexVal (hexDigit (unat c div 16)) = Some (unat c div 16)"
      "hexVal (hexDigit (unat c mod 16)) = Some (unat c mod 16)"
      by (auto intro!: hexVal_hexdigit)
    moreover have "hexVal 0x30 = Some 0" by (simp add: hexVal_def digitVal_def)
    moreover have "of_nat (unat c div 16 * 16 + unat c mod 16) = c" by simp
    ultimately have "hex4 (0x30 # 0x30 # hexDigit (unat c div 16) # hexDigit (unat c mod 16) # t) = Inr (c, t)"
      by (simp add: hex4_def del: of_nat_add of_nat_mult)
    moreover have "\<not> c \<ge> 0xdc00" "\<not> c \<ge> 0xd800" using c by (simp_all add: word_le_nat_alt)
    ultimately show ?thesis by (simp add: e escape_def unicodeEscape_def bind_def)
  qed
qed

lemma stringLoop_reads: "stringLoop out (concat (map escapeChar s) @ 0x22 # t) = Inr (out @ s, t)"
proof (induction s arbitrary: out)
  case (Cons c s)
  show ?case
  proof (cases "\<exists>e. escapeChar c = 0x5c # e")
    case True
    then obtain e where e: "escapeChar c = 0x5c # e" by blast
    then show ?thesis
      using escape_reads [OF e, of "concat (map escapeChar s) @ 0x22 # t"] Cons [of "out @ [c]"] by simp
  next
    case False
    then have "escapeChar c = [c]" "c \<noteq> 0x22" "c \<noteq> 0x5c" "\<not> c < 0x20"
      by (auto simp: escapeChar_def split: if_splits)
    then show ?thesis using Cons [of "out @ [c]"] by simp
  qed
qed simp

lemma string_reads: "string (quoted s @ t) = Inr (s, t)"
  using stringLoop_reads [of "[]" s t] by (simp add: string_def quoted_def)

lemma stringLoop_shorter: "stringLoop out s = Inr (v, t) \<Longrightarrow> length t < length s"
  by (induction out s arbitrary: v t rule: stringLoop.induct)
    (fastforce split: if_splits dest: escape_shorter)+

lemma string_shorter: "string s = Inr (v, t) \<Longrightarrow> length t < length s"
  by (cases s) (auto simp: string_def dest: stringLoop_shorter)

subsection \<open>Every call reads something, and the fuel is enough\<close>

lemma ws_shorter: "length (ws s) \<le> length s"
  by (simp add: ws_def length_dropWhile_le)

lemma ws_Cons_shorter: "ws s = c # u \<Longrightarrow> length u < length s"
  using ws_shorter [of s] by simp

lemma literal_shorter: "literal w s = Inr (u, t) \<Longrightarrow> w \<noteq> [] \<Longrightarrow> length t < length s"
  by (cases w) (auto simp: literal_def isPrefix_iff split: if_splits)

lemma entryKey_shorter: "entryKey first s = Inr (key, t) \<Longrightarrow> length t < length s"
  by (auto simp: entryKey_def split: if_splits list.splits dest!: string_shorter ws_Cons_shorter)

lemma itemEnd_Inr:
  "itemEnd items again s = Inr (v, t) \<Longrightarrow>
     (\<exists>u. s = 0x5d # u \<and> v = JArr items \<and> t = u) \<or> (\<exists>u. s = 0x2c # u \<and> again u = Inr (v, t))"
  by (auto simp: itemEnd_def split: list.splits if_splits)

lemma entryEnd_Inr:
  "entryEnd entries again s = Inr (v, t) \<Longrightarrow>
     (\<exists>u. s = 0x7d # u \<and> v = JObj entries \<and> t = u) \<or> (\<exists>u. s = 0x2c # u \<and> again u = Inr (v, t))"
  by (auto simp: entryEnd_def split: list.splits if_splits)

text \<open>What \<open>atom\<close> read: by the first code unit, one of the simple values, an array or an object.\<close>

fun leaf :: "NodeJson \<Rightarrow> bool" where
  "leaf (JArr _) = False"
| "leaf (JObj _) = False"
| "leaf (JNum n) = wfNumber n"
| "leaf _ = True"

lemma atom_Inr:
  assumes "atom array object s = Inr (v, t)"
  shows "s \<noteq> [] \<and> (leaf v \<and> length t < length s \<or> array s = Inr (v, t) \<or> object s = Inr (v, t))"
  using assms
  by (auto simp: atom_def split: list.splits if_splits dest!: literal_shorter string_shorter number_wf)

lemma jarray_Inr:
  "jarray items nesting s = Inr (v, t) \<Longrightarrow> nesting \<le> MAX_NESTING \<and>
     ((\<exists>u. ws (tl s) = 0x5d # u \<and> v = JArr [] \<and> t = u) \<or> items (ws (tl s)) = Inr (v, t))"
  by (auto simp: jarray_def Let_def peek_Some split: if_splits)

lemma jobject_Inr:
  "jobject entries nesting s = Inr (v, t) \<Longrightarrow> nesting \<le> MAX_NESTING \<and>
     ((\<exists>u. ws (tl s) = 0x7d # u \<and> v = JObj [] \<and> t = u) \<or> entries (ws (tl s)) = Inr (v, t))"
  by (auto simp: jobject_def Let_def peek_Some split: if_splits)

lemma group_shorter:
  assumes "ws (tl s) = c # t \<or> p (ws (tl s)) = Inr (v, t)" "s \<noteq> []"
    and "\<And>u. p u = Inr (v, t) \<Longrightarrow> length t < length u"
  shows "length t < length s"
  using assms(1)
proof
  assume "ws (tl s) = c # t"
  then have "length t < length (tl s)" by (rule ws_Cons_shorter)
  then show ?thesis by simp
next
  assume "p (ws (tl s)) = Inr (v, t)"
  then have "length t < length (ws (tl s))" by (rule assms(3))
  with ws_shorter [of "tl s"] show ?thesis by simp
qed

lemma jitems_Suc_Inr:
  assumes "jitems (Suc k) n items s = Inr (v, t)"
  obtains x u where "jvalue k n s = Inr (x, u)"
    "(\<exists>w. ws u = 0x5d # w \<and> v = JArr (items @ [x]) \<and> t = w) \<or>
     (\<exists>w. ws u = 0x2c # w \<and> jitems k n (items @ [x]) w = Inr (v, t))"
proof -
  obtain x u where 1: "jvalue k n s = Inr (x, u)" "itemEnd (items @ [x]) (jitems k n (items @ [x])) (ws u) = Inr (v, t)"
    using assms by auto
  show thesis by (rule that [OF 1(1) itemEnd_Inr [OF 1(2)]])
qed

lemma jentries_Suc_Inr:
  assumes "jentries (Suc k) n first entries s = Inr (v, t)"
  obtains key p x u where "entryKey first (ws s) = Inr (key, p)" "jvalue k n p = Inr (x, u)"
    "(\<exists>w. ws u = 0x7d # w \<and> v = JObj (AList.update key x entries) \<and> t = w) \<or>
     (\<exists>w. ws u = 0x2c # w \<and> jentries k n False (AList.update key x entries) w = Inr (v, t))"
proof -
  obtain key p x u where 1: "entryKey first (ws s) = Inr (key, p)" "jvalue k n p = Inr (x, u)"
    "entryEnd (AList.update key x entries) (jentries k n False (AList.update key x entries)) (ws u) = Inr (v, t)"
    using assms by auto
  show thesis by (rule that [OF 1(1,2) entryEnd_Inr [OF 1(3)]])
qed

lemma parse_shorter:
  "jvalue k n s = Inr (v, t) \<Longrightarrow> length t < length s"
  "jitems k n items s = Inr (v, t) \<Longrightarrow> length t < length s"
  "jentries k n first entries s = Inr (v, t) \<Longrightarrow> length t < length s"
proof (induction k n s and k n items s and k n first entries s arbitrary: v t and v t and v t
    rule: jvalue_jitems_jentries.induct)
  case (2 k n s)
  note a = atom_Inr [OF 2(3) [unfolded jvalue.simps]]
  then have "length t < length (ws s)"
    using group_shorter [of "ws s" "0x5d" t "jitems k (n + 1) []" v]
      group_shorter [of "ws s" "0x7d" t "jentries k (n + 1) True []" v] 2(1,2)
    by (auto dest!: jarray_Inr jobject_Inr)
  then show ?case using ws_shorter [of s] by simp
next
  case (4 k n items s)
  from 4(3) show ?case
  proof (rule jitems_Suc_Inr)
    fix x u
    assume v: "jvalue k n s = Inr (x, u)"
    assume "(\<exists>w. ws u = 0x5d # w \<and> v = JArr (items @ [x]) \<and> t = w) \<or>
      (\<exists>w. ws u = 0x2c # w \<and> jitems k n (items @ [x]) w = Inr (v, t))"
    then obtain c w where "ws u = c # w" "length t \<le> length w"
      using less_imp_le [OF 4(2) [OF v refl]] by auto
    with 4(1) [OF v] ws_Cons_shorter [of u c w] show "length t < length s" by simp
  qed
next
  case (6 k n first entries s)
  from 6(3) show ?case
  proof (rule jentries_Suc_Inr)
    fix key p x u
    assume k: "entryKey first (ws s) = Inr (key, p)" and v: "jvalue k n p = Inr (x, u)"
    assume "(\<exists>w. ws u = 0x7d # w \<and> v = JObj (AList.update key x entries) \<and> t = w) \<or>
      (\<exists>w. ws u = 0x2c # w \<and> jentries k n False (AList.update key x entries) w = Inr (v, t))"
    then obtain c w where "ws u = c # w" "length t \<le> length w"
      using less_imp_le [OF 6(2) [OF k refl v refl]] by auto
    with 6(1) [OF k refl v] ws_Cons_shorter [of u c w] entryKey_shorter [OF k] ws_shorter [of s]
    show "length t < length s" by simp
  qed
qed simp_all

lemma leaf_errors:
  "literal w s = Inl e \<Longrightarrow> e = Refused"
  "digits1 s = Inl e \<Longrightarrow> e = Refused"
  "hex4 s = Inl e \<Longrightarrow> e = Refused"
  by (auto simp: literal_def digits1_def digits_def hex4_def bind_def split: if_splits list.splits option.splits)

lemma number_error: "number s = Inl e \<Longrightarrow> e = Refused"
  by (auto simp: number_def bind_def wholePart_def fractionPart_def exponentPart_def digits_def Let_def
      split: sum.splits if_splits dest!: leaf_errors)

lemma escape_error: "escape s = Inl e \<Longrightarrow> e = Refused"
  by (auto simp: escape_def unicodeEscape_def bind_def split: list.splits if_splits sum.splits dest!: leaf_errors)

lemma stringLoop_error: "stringLoop out s = Inl e \<Longrightarrow> e = Refused"
  by (induction out s rule: stringLoop.induct) (auto simp: bnd_eq_Inl split: if_splits dest: escape_error)

lemma string_error: "string s = Inl e \<Longrightarrow> e = Refused"
  by (simp add: string_def stringLoop_error)

lemma entryKey_error: "entryKey first s \<noteq> Inl OutOfFuel"
  by (auto simp: entryKey_def bnd_eq_Inl split: if_splits list.splits dest: string_error)

lemma atom_error: "atom array object s = Inl OutOfFuel \<Longrightarrow> s \<noteq> [] \<and> (array s = Inl OutOfFuel \<or> object s = Inl OutOfFuel)"
  by (auto simp: atom_def bind_def split: list.splits if_splits sum.splits dest: leaf_errors number_error string_error)

lemma group_error:
  "jarray items n s = Inl OutOfFuel \<Longrightarrow> items (ws (tl s)) = Inl OutOfFuel"
  "jobject items n s = Inl OutOfFuel \<Longrightarrow> items (ws (tl s)) = Inl OutOfFuel"
  by (auto simp: jarray_def jobject_def Let_def split: if_splits)

lemma loop_error:
  "itemEnd items again s = Inl OutOfFuel \<Longrightarrow> \<exists>w. s = 0x2c # w \<and> again w = Inl OutOfFuel"
  "entryEnd entries again s = Inl OutOfFuel \<Longrightarrow> \<exists>w. s = 0x2c # w \<and> again w = Inl OutOfFuel"
  by (auto simp: itemEnd_def entryEnd_def split: list.splits if_splits)

lemma enough_fuel:
  "2 * length s + 1 \<le> k \<Longrightarrow> jvalue k n s \<noteq> Inl OutOfFuel"
  "2 * length s + 2 \<le> k \<Longrightarrow> jitems k n items s \<noteq> Inl OutOfFuel"
  "2 * length s + 2 \<le> k \<Longrightarrow> jentries k n first entries s \<noteq> Inl OutOfFuel"
proof (induction k n s and k n items s and k n first entries s rule: jvalue_jitems_jentries.induct)
  case (2 k n s)
  show ?case
  proof
    assume "jvalue (Suc k) n s = Inl OutOfFuel"
    then have a: "ws s \<noteq> []" "jitems k (n + 1) [] (ws (tl (ws s))) = Inl OutOfFuel \<or>
        jentries k (n + 1) True [] (ws (tl (ws s))) = Inl OutOfFuel"
      by (auto dest!: atom_error group_error)
    have "2 * length (ws (tl (ws s))) + 2 \<le> k"
      using 2(3) a(1) ws_shorter [of s] ws_shorter [of "tl (ws s)"] by (cases "ws s") auto
    then show False using 2(1,2) a(2) by blast
  qed
next
  case (4 k n items s)
  show ?case
  proof
    assume "jitems (Suc k) n items s = Inl OutOfFuel"
    moreover have "jvalue k n s \<noteq> Inl OutOfFuel" using 4(1,3) by simp
    ultimately obtain x u w where x: "jvalue k n s = Inr (x, u)" "ws u = 0x2c # w"
      "jitems k n (items @ [x]) w = Inl OutOfFuel"
      by (auto simp: bnd_eq_Inl dest!: loop_error)
    have "2 * length w + 2 \<le> k" using ws_Cons_shorter [OF x(2)] parse_shorter(1) [OF x(1)] 4(3) by simp
    then show False using 4(2) [OF x(1) refl] x(3) by blast
  qed
next
  case (6 k n first entries s)
  show ?case
  proof
    assume e: "jentries (Suc k) n first entries s = Inl OutOfFuel"
    then obtain key p where p: "entryKey first (ws s) = Inr (key, p)"
      by (cases "entryKey first (ws s)") (auto simp: entryKey_error)
    have len: "length p < length s" using entryKey_shorter [OF p] ws_shorter [of s] by simp
    have "jvalue k n p \<noteq> Inl OutOfFuel" using 6(1) [OF p refl] 6(3) len by simp
    then obtain x u w where x: "jvalue k n p = Inr (x, u)" "ws u = 0x2c # w"
      "jentries k n False (AList.update key x entries) w = Inl OutOfFuel"
      using e p by (auto simp: bnd_eq_Inl dest!: loop_error)
    have "2 * length w + 2 \<le> k" using ws_Cons_shorter [OF x(2)] parse_shorter(1) [OF x(1)] 6(3) len by simp
    then show False using 6(2) [OF p refl x(1) refl] x(3) by blast
  qed
qed simp_all

subsection \<open>What is read is well formed\<close>

fun wfJson :: "nat \<Rightarrow> NodeJson \<Rightarrow> bool" where
  "wfJson n (JNum m) = wfNumber m"
| "wfJson n (JArr vs) \<longleftrightarrow> n < MAX_NESTING \<and> list_all (wfJson (Suc n)) vs"
| "wfJson n (JObj kvs) \<longleftrightarrow> n < MAX_NESTING \<and> distinct (map fst kvs) \<and>
     (kvs \<noteq> [] \<longrightarrow> fst (hd kvs) \<notin> set PRIVATE_TOKENS) \<and> list_all (\<lambda>(k, v). wfJson (Suc n) v) kvs"
| "wfJson n _ = True"

definition wfEntries :: "nat \<Rightarrow> bool \<Rightarrow> (jsstr \<times> NodeJson) list \<Rightarrow> bool" where
  "wfEntries n first kvs \<longleftrightarrow> (first \<longleftrightarrow> kvs = []) \<and> distinct (map fst kvs) \<and>
     (kvs \<noteq> [] \<longrightarrow> fst (hd kvs) \<notin> set PRIVATE_TOKENS) \<and> list_all (\<lambda>(k, v). wfJson n v) kvs"

lemma leaf_wf: "leaf v \<Longrightarrow> wfJson n v"
  by (cases v) auto

lemma entryKey_token: "entryKey first s = Inr (key, t) \<Longrightarrow> first \<Longrightarrow> key \<notin> set PRIVATE_TOKENS"
  by (auto simp: entryKey_def split: if_splits list.splits)

lemma set_update: "set (AList.update k v m) \<subseteq> insert (k, v) (set m)"
  by (induction m) auto

lemma wfEntries_update:
  assumes "wfEntries n first m" "wfJson n v" "first \<longrightarrow> key \<notin> set PRIVATE_TOKENS"
  shows "wfEntries n False (AList.update key v m)"
proof -
  have "fst (hd (AList.update key v m)) = (if m = [] then key else fst (hd m))"
    by (cases m) auto
  moreover have "AList.update key v m \<noteq> []" by (cases m) auto
  moreover have "list_all (\<lambda>(k, v). wfJson n v) (AList.update key v m)"
    using assms(1,2) set_update [of key v m] by (fastforce simp: wfEntries_def list_all_iff)
  ultimately show ?thesis using assms by (auto simp: wfEntries_def distinct_update)
qed

lemma parse_wf:
  "jvalue k n s = Inr (v, t) \<Longrightarrow> wfJson n v"
  "jitems k n items s = Inr (v, t) \<Longrightarrow> list_all (wfJson n) items \<Longrightarrow> \<exists>vs. v = JArr vs \<and> list_all (wfJson n) vs"
  "jentries k n first entries s = Inr (v, t) \<Longrightarrow> wfEntries n first entries \<Longrightarrow> \<exists>kvs. v = JObj kvs \<and> wfEntries n False kvs"
proof (induction k n s and k n items s and k n first entries s arbitrary: v t and v t and v t
    rule: jvalue_jitems_jentries.induct)
  case (2 k n s)
  have "wfEntries (n + 1) True []" by (simp add: wfEntries_def)
  then have "n < MAX_NESTING \<Longrightarrow> jitems k (n + 1) [] u = Inr (v, t) \<Longrightarrow> wfJson n v"
    "n < MAX_NESTING \<Longrightarrow> jentries k (n + 1) True [] u = Inr (v, t) \<Longrightarrow> wfJson n v" for u
    using 2(1) [of u v t] 2(2) [of u v t] by (auto simp: wfEntries_def)
  with atom_Inr [OF 2(3) [unfolded jvalue.simps]] show ?case
    by (auto simp: leaf_wf dest!: jarray_Inr jobject_Inr)
next
  case (4 k n items s)
  from 4(3) show ?case
  proof (rule jitems_Suc_Inr)
    fix x u
    assume v: "jvalue k n s = Inr (x, u)"
    have "list_all (wfJson n) (items @ [x])" using 4(1) [OF v] 4(4) by simp
    moreover assume "(\<exists>w. ws u = 0x5d # w \<and> v = JArr (items @ [x]) \<and> t = w) \<or>
      (\<exists>w. ws u = 0x2c # w \<and> jitems k n (items @ [x]) w = Inr (v, t))"
    ultimately show "\<exists>vs. v = JArr vs \<and> list_all (wfJson n) vs" using 4(2) [OF v refl] by blast
  qed
next
  case (6 k n first entries s)
  from 6(3) show ?case
  proof (rule jentries_Suc_Inr)
    fix key p x u
    assume k: "entryKey first (ws s) = Inr (key, p)" and v: "jvalue k n p = Inr (x, u)"
    have "wfEntries n False (AList.update key x entries)"
      using wfEntries_update [OF 6(4) 6(1) [OF k refl v]] entryKey_token [OF k] by blast
    moreover assume "(\<exists>w. ws u = 0x7d # w \<and> v = JObj (AList.update key x entries) \<and> t = w) \<or>
      (\<exists>w. ws u = 0x2c # w \<and> jentries k n False (AList.update key x entries) w = Inr (v, t))"
    ultimately show "\<exists>kvs. v = JObj kvs \<and> wfEntries n False kvs" using 6(2) [OF k refl v refl] by blast
  qed
qed simp_all

subsection \<open>Reading a value's text back\<close>

fun joinComma :: "jsstr list \<Rightarrow> jsstr" where
  "joinComma [] = []"
| "joinComma [s] = s"
| "joinComma (s # t # ts) = s @ 0x2c # joinComma (t # ts)"

fun jsonText :: "NodeJson \<Rightarrow> jsstr" where
  "jsonText JNull = js ''null''"
| "jsonText (JBool b) = (if b then js ''true'' else js ''false'')"
| "jsonText (JNum n) = n"
| "jsonText (JStr s) = quoted s"
| "jsonText (JArr vs) = 0x5b # joinComma (map jsonText vs) @ [0x5d]"
| "jsonText (JObj kvs) = 0x7b # joinComma (map (\<lambda>(k, v). quoted k @ 0x3a # jsonText v) kvs) @ [0x7d]"

text \<open>What may follow a value inside a text.\<close>

definition follow :: "jsstr \<Rightarrow> bool" where
  "follow t \<longleftrightarrow> t = [] \<or> hd t = 0x2c \<or> hd t = 0x5d \<or> hd t = 0x7d"

lemma follow_sep: "follow t \<Longrightarrow> sep t"
  by (auto simp: follow_def sep_def)

lemma follow_Cons [simp]: "follow (0x2c # t)" "follow (0x5d # t)" "follow (0x7d # t)" "follow []"
  by (simp_all add: follow_def)

lemma ws_Cons [simp]: "\<not> isWs c \<Longrightarrow> ws (c # s) = c # s"
  by (simp add: ws_def)

lemma isWs_consts [simp]:
  "\<not> isWs 0x2c" "\<not> isWs 0x5d" "\<not> isWs 0x7d" "\<not> isWs 0x5b" "\<not> isWs 0x7b" "\<not> isWs 0x22" "\<not> isWs 0x3a"
  "\<not> isWs 0x6e" "\<not> isWs 0x74" "\<not> isWs 0x66" "\<not> isWs 0x2d"
  by (simp_all add: isWs_def)

lemma isWs_digit: "isDigit c \<Longrightarrow> \<not> isWs c"
  by (auto simp: isWs_def isDigit_def)

lemma number_first: "wfNumber n \<Longrightarrow> \<exists>c s. n = c # s \<and> (c = 0x2d \<or> isDigit c)"
proof -
  assume "wfNumber n"
  then obtain sg w r where n: "n = sg @ w @ r" "signOk sg" "wholeOk w" by (auto simp: wfNumber_def numberToken_def)
  then obtain c w' where "w = c # w'" "isDigit c" by (cases w) (auto simp: wholeOk_def)
  with n show ?thesis by (auto simp: signOk_def)
qed

text \<open>A text starts with neither white space nor a closing bracket.\<close>

lemma jsonText_first: "wfJson n v \<Longrightarrow> \<exists>c s. jsonText v = c # s \<and> \<not> isWs c \<and> c \<noteq> 0x5d \<and> c \<noteq> 0x7d"
  by (cases v) (auto simp: quoted_def isWs_digit dest!: number_first)

lemma ws_jsonText: "wfJson n v \<Longrightarrow> ws (jsonText v @ t) = jsonText v @ t"
  using jsonText_first [of n v] by auto

lemma atom_reads:
  assumes "leaf v" "follow t"
  shows "atom array object (jsonText v @ t) = Inr (v, t)"
proof (cases v)
  case (JNum n)
  then have "wfNumber n" using assms(1) by simp
  then obtain c s where n: "n = c # s" "c = 0x2d \<or> isDigit c" using number_first by blast
  then have "c \<noteq> 0x6e \<and> c \<noteq> 0x74 \<and> c \<noteq> 0x66 \<and> c \<noteq> 0x22 \<and> c \<noteq> 0x5b \<and> c \<noteq> 0x7b" by auto
  then show ?thesis
    using number_reads [OF \<open>wfNumber n\<close> follow_sep [OF assms(2)]] n JNum by (auto simp: atom_def bind_def)
next
  case (JStr s)
  then show ?thesis using string_reads [of s t] by (simp add: atom_def bind_def quoted_def)
qed (use assms(1) in \<open>auto simp: atom_def bind_def literal_def split: if_splits\<close>)

lemma entryKey_reads:
  "first \<longrightarrow> key \<notin> set PRIVATE_TOKENS \<Longrightarrow> entryKey first (quoted key @ 0x3a # t) = Inr (key, t)"
  using string_reads [of key "0x3a # t"] by (simp add: entryKey_def quoted_def)

lemma ws_quoted: "ws (quoted k @ t) = quoted k @ t"
  by (simp add: quoted_def)

definition entryText :: "jsstr \<times> NodeJson \<Rightarrow> jsstr" where
  "entryText e = quoted (fst e) @ 0x3a # jsonText (snd e)"

lemma jsonText_JObj [simp]: "jsonText (JObj kvs) = 0x7b # joinComma (map entryText kvs) @ [0x7d]"
  by (simp add: entryText_def [abs_def] case_prod_beta')

declare jsonText.simps(6) [simp del]

text \<open>The loops, given that each element is read.\<close>

lemma jitems_reads:
  assumes "\<And>v k t. v \<in> set vs \<Longrightarrow> 2 * length (jsonText v) + 1 \<le> k \<Longrightarrow> follow t \<Longrightarrow> jvalue k n (jsonText v @ t) = Inr (v, t)"
    and "vs \<noteq> []" "2 * length (joinComma (map jsonText vs)) + 2 \<le> k"
  shows "jitems k n items (joinComma (map jsonText vs) @ 0x5d # t) = Inr (JArr (items @ vs), t)"
  using assms
proof (induction vs arbitrary: k items)
  case (Cons v vs)
  obtain j where k: "k = Suc j" using Cons.prems(3) by (cases k) auto
  show ?case
  proof (cases vs)
    case Nil
    then show ?thesis using Cons.prems(1) [of v j "0x5d # t"] Cons.prems(3) k by (simp add: itemEnd_def)
  next
    case (Cons w ws')
    let ?rest = "joinComma (map jsonText vs) @ 0x5d # t"
    have "jvalue j n (jsonText v @ 0x2c # ?rest) = Inr (v, 0x2c # ?rest)"
      using Cons.prems(1) [of v j "0x2c # ?rest"] Cons.prems(3) k Cons by simp
    moreover have "jitems j n (items @ [v]) ?rest = Inr (JArr (items @ v # vs), t)"
      using Cons.IH [of j "items @ [v]"] Cons.prems k Cons by simp
    ultimately show ?thesis using k Cons by (simp add: itemEnd_def)
  qed
qed simp

lemma jentries_reads:
  assumes "\<And>key v k t. (key, v) \<in> set kvs \<Longrightarrow> 2 * length (jsonText v) + 1 \<le> k \<Longrightarrow> follow t \<Longrightarrow>
      jvalue k n (jsonText v @ t) = Inr (v, t)"
    and "kvs \<noteq> []" "2 * length (joinComma (map entryText kvs)) + 2 \<le> k"
    and "first \<longrightarrow> fst (hd kvs) \<notin> set PRIVATE_TOKENS" "distinct (map fst (m @ kvs))"
  shows "jentries k n first m (joinComma (map entryText kvs) @ 0x7d # t) = Inr (JObj (m @ kvs), t)"
  using assms
proof (induction kvs arbitrary: k first m)
  case (Cons e kvs)
  obtain j where k: "k = Suc j" using Cons.prems(3) by (cases k) auto
  obtain key v where e [simp]: "e = (key, v)" by fastforce
  have upd: "AList.update key v m = m @ [(key, v)]"
    using Cons.prems(5) by (auto intro: update_nonempty simp: update_keys) (induction m; auto)
  have key: "entryKey first (quoted key @ 0x3a # r) = Inr (key, r)" for r
    using entryKey_reads Cons.prems(4) by simp
  show ?case
  proof (cases kvs)
    case Nil
    then show ?thesis
      using Cons.prems(1) [of key v j "0x7d # t"] Cons.prems(3) k key upd
      by (simp add: entryEnd_def entryText_def ws_quoted)
  next
    case (Cons w ws')
    let ?rest = "joinComma (map entryText kvs) @ 0x7d # t"
    have "jvalue j n (jsonText v @ 0x2c # ?rest) = Inr (v, 0x2c # ?rest)"
      using Cons.prems(1) [of key v j "0x2c # ?rest"] Cons.prems(3) k Cons by (simp add: entryText_def)
    moreover have "jentries j n False (m @ [(key, v)]) ?rest = Inr (JObj ((m @ [(key, v)]) @ kvs), t)"
      by (rule Cons.IH [OF Cons.prems(1)]) (use Cons.prems(3,5) k Cons in auto)
    moreover have "entryText (key, v) = quoted key @ 0x3a # jsonText v" by (simp add: entryText_def)
    ultimately show ?thesis
      using k Cons key upd by (simp add: entryEnd_def ws_quoted)
  qed
qed simp

lemma length_joinComma: "x \<in> set ss \<Longrightarrow> length x \<le> length (joinComma ss)"
  by (induction ss rule: joinComma.induct) auto

lemma joinComma_first:
  "vs \<noteq> [] \<Longrightarrow> joinComma (map f vs) @ t = f (hd vs) @ (if tl vs = [] then t else 0x2c # joinComma (map f (tl vs)) @ t)"
  by (cases vs; cases "tl vs") auto

lemma jvalue_reads:
  "wfJson n v \<Longrightarrow> 2 * length (jsonText v) + 1 \<le> k \<Longrightarrow> follow t \<Longrightarrow> jvalue k n (jsonText v @ t) = Inr (v, t)"
proof (induction v arbitrary: n k t)
  case (JArr vs)
  obtain j where k: "k = Suc j" using JArr.prems(2) by (cases k) auto
  have wf: "n < MAX_NESTING" "\<And>v. v \<in> set vs \<Longrightarrow> wfJson (Suc n) v"
    using JArr.prems(1) by (auto simp: list_all_iff)
  show ?case
  proof (cases "vs = []")
    case True
    then show ?thesis using k wf(1) by (simp add: atom_def jarray_def)
  next
    case False
    let ?body = "joinComma (map jsonText vs) @ 0x5d # t"
    have "jitems j (Suc n) [] ?body = Inr (JArr ([] @ vs), t)"
      by (rule jitems_reads [OF _ False]) (use JArr.IH wf(2) JArr.prems(2) k in auto)
    moreover have "\<exists>c s. ?body = c # s \<and> \<not> isWs c \<and> c \<noteq> 0x5d"
      using joinComma_first [OF False, of jsonText "0x5d # t"] jsonText_first [OF wf(2), of "hd vs"] False by auto
    ultimately show ?thesis using k wf(1) by (auto simp: atom_def jarray_def)
  qed
next
  case (JObj kvs)
  obtain j where k: "k = Suc j" using JObj.prems(2) by (cases k) auto
  have wf: "n < MAX_NESTING" "distinct (map fst kvs)" "kvs \<noteq> [] \<longrightarrow> fst (hd kvs) \<notin> set PRIVATE_TOKENS"
    "\<And>key v. (key, v) \<in> set kvs \<Longrightarrow> wfJson (Suc n) v"
    using JObj.prems(1) by (auto simp: list_all_iff)
  show ?case
  proof (cases "kvs = []")
    case True
    then show ?thesis using k wf(1) by (simp add: atom_def jobject_def)
  next
    case False
    let ?body = "joinComma (map entryText kvs) @ 0x7d # t"
    have "jentries j (Suc n) True [] ?body = Inr (JObj ([] @ kvs), t)"
    proof (rule jentries_reads [OF _ False])
      show "jvalue i (Suc n) (jsonText v @ u) = Inr (v, u)"
        if "(key, v) \<in> set kvs" "2 * length (jsonText v) + 1 \<le> i" "follow u" for key v i u
        using JObj.IH [OF that(1)] wf(4) [OF that(1)] that(2,3) by auto
    qed (use wf(2,3) False JObj.prems(2) k in auto)
    moreover have "\<exists>s. ?body = 0x22 # s"
      using joinComma_first [OF False, of entryText "0x7d # t"] by (simp add: entryText_def quoted_def)
    ultimately show ?thesis using k wf(1) by (auto simp: atom_def jobject_def)
  qed
next
  case (JNum m)
  obtain j where "k = Suc j" using JNum.prems(2) by (cases k) auto
  then show ?case
    using atom_reads [of "JNum m" t] ws_jsonText [of n "JNum m" t] JNum.prems by simp
next
  case JNull
  obtain j where "k = Suc j" using JNull.prems(2) by (cases k) auto
  then show ?case using atom_reads [of JNull t] JNull.prems by simp
next
  case (JBool b)
  obtain j where "k = Suc j" using JBool.prems(2) by (cases k) auto
  then show ?case using atom_reads [of "JBool b" t] JBool.prems by (simp split: if_splits)
next
  case (JStr s)
  obtain j where "k = Suc j" using JStr.prems(2) by (cases k) auto
  then show ?case using atom_reads [of "JStr s" t] JStr.prems by (simp add: ws_quoted)
qed

lemma json_text_read: "wfJson 0 v \<Longrightarrow> parseNodeJsonText (jsonText v) = Inr (Some v)"
  using jvalue_reads [of 0 v "fuelFor (jsonText v)" "[]"]
  by (simp add: fuelFor_def parseNodeJsonText_def ws_def)

text \<open>C9: Reading and writing JSON. The text of every well-formed value (at most 127 levels, distinct
  keys, numbers in their kept form, no private token first) is read back as that value; whatever is
  read is such a value, so reading the written text of anything read gives the same value again; and
  reading never runs out of fuel: it ends with a value, a refusal, or an object the node would not
  read as one.\<close>

theorem json_roundtrip:
  "(wfJson 0 v \<longrightarrow> parseNodeJsonText (jsonText v) = Inr (Some v)) \<and>
   (parseNodeJsonText text = Inr (Some v) \<longrightarrow> wfJson 0 v \<and> parseNodeJsonText (jsonText v) = Inr (Some v)) \<and>
   ((\<exists>r. parseNodeJsonText text = Inr r) \<or>
     (\<exists>key. parseNodeJsonText text = Inl (NotReproducible key)))"
proof -
  have again: "parseNodeJsonText (jsonText v) = Inr (Some v)" if "wfJson 0 v"
    using that by (rule json_text_read)
  have wf: "wfJson 0 v" if "parseNodeJsonText text = Inr (Some v)"
    using that parse_wf(1) by (auto simp: parseNodeJsonText_def split: sum.splits jerr.splits if_splits)
  have "jvalue (fuelFor text) 0 text \<noteq> Inl OutOfFuel"
    by (rule enough_fuel(1)) (simp add: fuelFor_def)
  then have "(\<exists>r. parseNodeJsonText text = Inr r) \<or> (\<exists>key. parseNodeJsonText text = Inl (NotReproducible key))"
    by (auto simp: parseNodeJsonText_def split: sum.splits jerr.splits)
  with again wf show ?thesis by blast
qed

definition sampleJson :: NodeJson where
  "sampleJson = JArr [JNum (js ''1.5''), JObj [(js ''k'', JStr [0x0a]), (js ''n'', JNull)], JBool True]"

lemma wf_sampleJson: "wfJson 0 sampleJson"
proof -
  have "number (js ''1.5'') = Inr (js ''1.5'', [])"
    by (simp add: number_def unsigned_def wholePart_def fractionPart_def exponentPart_def digits1_def digits_def
        bind_def canonicalNumber_def Let_def isInteger_def isDigit_def)
  then have "wfNumber (js ''1.5'')" using number_wf by blast
  then show ?thesis by (simp add: sampleJson_def MAX_NESTING_def PRIVATE_TOKENS_def)
qed

lemma json_roundtrip_witness:
  "parseNodeJsonText (jsonText sampleJson) = Inr (Some sampleJson) \<and> wfJson 0 sampleJson"
  using json_roundtrip [of sampleJson "jsonText sampleJson"] wf_sampleJson by blast

subsection \<open>The length of a value's text\<close>

definition lowSurrogate :: "16 word \<Rightarrow> bool" where
  "lowSurrogate c \<longleftrightarrow> c \<ge> 0xdc00 \<and> c \<le> 0xdfff"

lemma utf8Length_append:
  "t = [] \<or> \<not> lowSurrogate (hd t) \<Longrightarrow> utf8Length (s @ t) = utf8Length s + utf8Length t"
proof (induction s rule: utf8Length.induct)
  case (2 c s)
  then show ?case by (cases s; cases t) (auto simp: lowSurrogate_def)
qed simp

lemma lone_high:
  assumes "c \<ge> 0xd800 \<and> c \<le> 0xdbff" "s = [] \<or> \<not> lowSurrogate (hd s)"
  shows "utf8Length (c # s) = 3 + utf8Length s"
proof -
  have "\<not> c < 0x80" "\<not> c < 0x800" using assms(1) by (simp_all add: word_less_nat_alt word_le_nat_alt)
  then show ?thesis using assms by (cases s) (auto simp: lowSurrogate_def simp del: utf8Length.simps(2) simp: utf8Length.simps(2) [of c])
qed

lemma utf8Length_ascii: "list_all (\<lambda>c. c < 0x80) s \<Longrightarrow> utf8Length s = length s"
  by (induction s) auto

lemma ascii_high:
  fixes c :: "16 word"
  assumes "\<not> c < 0x20" "c \<noteq> 0x22" "c \<noteq> 0x5c"
  shows "escapeChar c = [c]" "escapeExtra c = 0"
  using assms by (auto simp: escapeChar_def escapeExtra_def)

lemma escaped_first: "escapeChar c = d # e \<Longrightarrow> \<not> lowSurrogate c \<Longrightarrow> \<not> lowSurrogate d"
  by (auto simp: escapeChar_def lowSurrogate_def split: if_splits)

lemma escapeChar_Cons: "\<exists>d e. escapeChar c = d # e"
  by (auto simp: escapeChar_def)

lemma hexDigit_ascii: "d < 16 \<Longrightarrow> hexDigit d < 0x80"
proof -
  assume "d < 16"
  then have "unat (hexDigit d) = (if d < 10 then 0x30 + d else 0x57 + d)"
    by (simp only: hexDigit_def unat_of_nat split: if_split) simp
  with \<open>d < 16\<close> show ?thesis by (simp add: word_less_nat_alt)
qed

lemma escapeChar_length: "c < 0x80 \<Longrightarrow> utf8Length (escapeChar c) = 1 + escapeExtra c"
proof -
  assume c: "c < 0x80"
  have "c < 0x20 \<Longrightarrow> unat c div 16 < 16" by (simp add: word_less_nat_alt)
  with c show ?thesis by (auto simp: escapeChar_def escapeExtra_def hexDigit_ascii)
qed

lemma utf8Length_escaped:
  "utf8Length (concat (map escapeChar s) @ [0x22]) = utf8Length s + sum_list (map escapeExtra s) + 1"
proof (induction s rule: measure_induct_rule [of length])
  case (less cs)
  show ?case
  proof (cases cs)
  case (Cons c s)
  note cs = Cons
  have IH: "length t < length (c # s) \<Longrightarrow> utf8Length (concat (map escapeChar t) @ [0x22]) =
      utf8Length t + sum_list (map escapeExtra t) + 1" for t
    using less [of t] cs by simp
  let ?r = "concat (map escapeChar s) @ [0x22]"
  have first: "\<exists>d e. ?r = d # e \<and> (case s of [] \<Rightarrow> \<not> lowSurrogate d | x # _ \<Rightarrow> \<not> lowSurrogate x \<longrightarrow> \<not> lowSurrogate d)"
  proof (cases s)
    case (Cons x u)
    obtain d e where d: "escapeChar x = d # e" using escapeChar_Cons by blast
    then show ?thesis using escaped_first [OF d] Cons by simp
  qed (simp add: lowSurrogate_def)
  show ?thesis
  proof (cases "c < 0x80")
    case True
    have "utf8Length (escapeChar c @ u) = 1 + escapeExtra c + utf8Length u" for u
    proof -
      have a: "list_all (\<lambda>c. c < 0x80) (escapeChar c)"
        using True word_less_nat_alt [of c "0x20"] by (auto simp: escapeChar_def hexDigit_ascii)
      have "utf8Length (v @ u) = length v + utf8Length u" if "list_all (\<lambda>c. c < 0x80) v" for v
        using that by (induction v) auto
      from this [OF a] escapeChar_length [OF True] utf8Length_ascii [OF a] show ?thesis by simp
    qed
    then show ?thesis using IH [of s] True cs by simp
  next
    case False
    then have "\<not> c < 0x20" "c \<noteq> 0x22" "c \<noteq> 0x5c" by (auto simp: word_less_nat_alt)
    note e = ascii_high [OF this]
    consider (pair) d t where "c \<ge> 0xd800 \<and> c \<le> 0xdbff" "s = d # t" "lowSurrogate d"
      | (lone) "c \<ge> 0xd800 \<and> c \<le> 0xdbff" "s = [] \<or> \<not> lowSurrogate (hd s)"
      | (other) "\<not> (c \<ge> 0xd800 \<and> c \<le> 0xdbff)" by (cases s) auto
    then show ?thesis
    proof cases
      case pair
      then have "\<not> d < 0x20" "d \<noteq> 0x22" "d \<noteq> 0x5c" by (auto simp: lowSurrogate_def word_less_nat_alt word_le_nat_alt)
      note ed = ascii_high [OF this]
      have "\<not> c < 0x800" using pair(1) by (simp add: word_less_nat_alt word_le_nat_alt)
      then show ?thesis using IH [of t] False e ed pair cs by (auto simp: lowSurrogate_def)
    next
      case lone
      then obtain d u where "?r = d # u" "\<not> lowSurrogate d" using first by (cases s) auto
      then have "utf8Length (c # ?r) = 3 + utf8Length ?r" using lone_high [OF lone(1), of ?r] by simp
      moreover have "utf8Length (c # s) = 3 + utf8Length s" using lone_high [OF lone(1,2)] .
      moreover have "utf8Length ?r = utf8Length s + sum_list (map escapeExtra s) + 1"
        using IH [of s] by simp
      ultimately show ?thesis using e cs by simp
    next
      case other
      then show ?thesis using IH [of s] False e cs by auto
    qed
  qed
  qed simp
qed

lemma quotedLength_eq: "utf8Length (quoted s @ t) = quotedLength s + utf8Length t"
proof -
  have "utf8Length (quoted s) = quotedLength s"
    using utf8Length_escaped [of s] by (simp add: quoted_def quotedLength_def)
  moreover have "utf8Length (u @ [0x22] @ t) = utf8Length (u @ [0x22]) + utf8Length t" for u
    using utf8Length_append [of "0x22 # t" u] utf8Length_append [of "[0x22]" u]
    by (simp add: lowSurrogate_def)
  from this [of "0x22 # concat (map escapeChar s)"]
  have "utf8Length (quoted s @ t) = utf8Length (quoted s) + utf8Length t" by (simp add: quoted_def)
  ultimately show ?thesis by simp
qed

lemma quotedLength_eq0: "utf8Length (quoted s) = quotedLength s"
  using quotedLength_eq [of s "[]"] by simp

lemma number_ascii: "numberToken n \<Longrightarrow> list_all (\<lambda>c. c < 0x80) n"
proof -
  have "isDigit c \<Longrightarrow> c < 0x80" for c by (simp add: isDigit_iff word_less_nat_alt)
  then have "list_all isDigit ds \<Longrightarrow> list_all (\<lambda>c. c < 0x80) ds" for ds by (auto simp: list_all_iff)
  then show "numberToken n \<Longrightarrow> list_all (\<lambda>c. c < 0x80) n"
    by (auto simp: numberToken_def signOk_def wholeOk_def fractionOk_def exponentOk_def)
qed

lemma utf8Length_joinComma:
  "list_all (\<lambda>s. s \<noteq> [] \<and> \<not> lowSurrogate (hd s)) ss \<Longrightarrow>
     utf8Length (joinComma ss) = sum_list (map utf8Length ss) + (length ss - 1)"
proof (induction ss rule: joinComma.induct)
  case (3 s t ts)
  then show ?case using utf8Length_append [of "0x2c # joinComma (t # ts)" s] by (simp add: lowSurrogate_def)
qed simp_all

lemma number_not_low: "c = 0x2d \<or> isDigit c \<Longrightarrow> \<not> lowSurrogate c"
  by (auto simp: lowSurrogate_def isDigit_iff word_le_nat_alt)

lemma jsonText_not_low: "wfJson n v \<Longrightarrow> jsonText v \<noteq> [] \<and> \<not> lowSurrogate (hd (jsonText v))"
proof (cases v)
  case (JNum m)
  assume "wfJson n v"
  then show ?thesis using JNum number_first [of m] number_not_low by auto
qed (auto simp: quoted_def lowSurrogate_def)

text \<open>The length the code computes for a value (and compares with the API's 4,096 bytes) is the
  length in UTF-8 of the value's \<open>serde_json\<close> text.\<close>

theorem text_length:
  assumes "wfJson n v"
  shows "nodeJsonTextLength v = utf8Length (jsonText v)"
  using assms
proof (induction v arbitrary: n)
  case (JNum m)
  then show ?case using utf8Length_ascii [OF number_ascii] by (simp add: wfNumber_def)
next
  case (JStr s)
  then show ?case by (simp add: quotedLength_eq0)
next
  case (JArr vs)
  then have wf: "\<And>v. v \<in> set vs \<Longrightarrow> wfJson (Suc n) v" by (simp add: list_all_iff)
  have "utf8Length (joinComma (map jsonText vs) @ [0x5d]) = utf8Length (joinComma (map jsonText vs)) + 1"
    using utf8Length_append [of "[0x5d]"] by (simp add: lowSurrogate_def)
  moreover have "utf8Length (joinComma (map jsonText vs)) = sum_list (map utf8Length (map jsonText vs)) + (length vs - 1)"
    using utf8Length_joinComma [of "map jsonText vs"] jsonText_not_low [OF wf] by (simp add: list_all_iff)
  moreover have "sum_list (map nodeJsonTextLength vs) = sum_list (map utf8Length (map jsonText vs))"
    unfolding map_map by (rule arg_cong [of _ _ sum_list], rule map_cong) (simp_all add: JArr.IH [OF _ wf])
  ultimately show ?case by simp
next
  case (JObj kvs)
  then have wf: "\<And>k v. (k, v) \<in> set kvs \<Longrightarrow> wfJson (Suc n) v" by (auto simp: list_all_iff)
  have e: "utf8Length (entryText (k, v)) = quotedLength k + 1 + nodeJsonTextLength v" if "(k, v) \<in> set kvs" for k v
    using JObj.IH [OF that] wf [OF that] by (simp add: entryText_def quotedLength_eq)
  have "utf8Length (joinComma (map entryText kvs) @ [0x7d]) = utf8Length (joinComma (map entryText kvs)) + 1"
    using utf8Length_append [of "[0x7d]"] by (simp add: lowSurrogate_def)
  moreover have "utf8Length (joinComma (map entryText kvs)) = sum_list (map utf8Length (map entryText kvs)) + (length kvs - 1)"
    using utf8Length_joinComma [of "map entryText kvs"] by (simp add: list_all_iff entryText_def quoted_def lowSurrogate_def)
  moreover have "sum_list (map (\<lambda>(k, v). quotedLength k + 1 + nodeJsonTextLength v) kvs) =
      sum_list (map utf8Length (map entryText kvs))"
    unfolding map_map by (rule arg_cong [of _ _ sum_list], rule map_cong) (auto simp: e)
  ultimately show ?case by simp
qed simp_all

lemma text_length_witness: "nodeJsonTextLength sampleJson = utf8Length (jsonText sampleJson)"
  by (rule text_length [OF wf_sampleJson])

end
