(* ===== verification/Json_Decimal.thy ===== *)
theory Json_Decimal
  imports Json_Text
begin

text \<open>
  The exact decimal values of \<open>Json_Number\<close> and \<open>Json_Value\<close>: what a number's text denotes as a
  rational (\<open>tokenVal\<close>), that both readers give the one normal form of that rational, and so that
  the node's number equality is equality of values and that the numbers that bind to a JavaScript
  number are determined by it.
\<close>

subsection \<open>Normal forms\<close>

definition exactVal :: "ExactDecimal \<Rightarrow> rat" where
  "exactVal x = (if eneg x then - 1 else 1) * rat_of_nat (decVal (edigits x)) * 10 powi eexp x"

definition wfDecimal :: "ExactDecimal \<Rightarrow> bool" where
  "wfDecimal x \<longleftrightarrow>
     list_all isDigit (edigits x) \<and>
     (if edigits x = [] then \<not> eneg x \<and> eexp x = 0 else hd (edigits x) \<noteq> 0x30 \<and> last (edigits x) \<noteq> 0x30)"

lemma decimal_unique_le:
  fixes m1 m2 :: nat
  assumes "rat_of_nat m1 * 10 powi e1 = rat_of_nat m2 * 10 powi e2" "e1 \<le> e2" "\<not> 10 dvd m1"
  shows "m1 = m2 \<and> e1 = e2"
proof -
  have "10 powi e2 = (10 :: rat) powi e1 * 10 ^ nat (e2 - e1)"
    using assms(2) power_int_add [of "10 :: rat" e1 "e2 - e1"] by (simp add: power_int_def)
  then have "rat_of_nat m1 * 10 powi e1 = rat_of_nat (m2 * 10 ^ nat (e2 - e1)) * 10 powi e1"
    using assms(1) by (simp add: mult_ac)
  then have m1: "m1 = m2 * 10 ^ nat (e2 - e1)"
    by (metis mult_cancel_right of_nat_eq_iff power_int_eq_0_iff zero_neq_numeral)
  have "nat (e2 - e1) = 0"
    using assms(3) m1 by (cases "nat (e2 - e1)") auto
  then show ?thesis using m1 assms(2) by simp
qed

lemma decimal_unique:
  fixes m1 m2 :: nat
  assumes "rat_of_nat m1 * 10 powi e1 = rat_of_nat m2 * 10 powi e2" "\<not> 10 dvd m1" "\<not> 10 dvd m2"
  shows "m1 = m2 \<and> e1 = e2"
  using decimal_unique_le [OF assms(1) _ assms(2)] decimal_unique_le [OF assms(1) [symmetric] _ assms(3)]
  by (cases "e1 \<le> e2") auto

lemma digit_nonzero: "isDigit c \<Longrightarrow> c \<noteq> 0x30 \<Longrightarrow> 0 < digitVal c"
  by (auto simp: digitVal_def isDigit_iff word_unat_eq_iff)

lemma decVal_normal:
  assumes "list_all isDigit s" "s \<noteq> []" "last s \<noteq> 0x30"
  shows "\<not> 10 dvd decVal s"
proof -
  obtain u c where s: "s = u @ [c]" using assms(2) by (cases s rule: rev_exhaust) auto
  then have "0 < digitVal c" "digitVal c < 10"
    using assms digit_nonzero [of c] digitVal_less [of c] by auto
  then have "\<not> 10 dvd digitVal c" by (auto dest: dvd_imp_le)
  then show ?thesis by (simp add: s dvd_add_right_iff)
qed

lemma decText_of_normal: "list_all isDigit s \<Longrightarrow> s \<noteq> [] \<Longrightarrow> hd s \<noteq> 0x30 \<Longrightarrow> decText (decVal s) = s"
  by (rule decText_decVal) auto

text \<open>A normal form is determined by its value.\<close>

lemma exactVal_inj:
  assumes "wfDecimal x" "wfDecimal y" "exactVal x = exactVal y"
  shows "x = y"
proof -
  have pos: "0 < decVal (edigits z)" "\<not> 10 dvd decVal (edigits z)" if "wfDecimal z" "edigits z \<noteq> []" for z
  proof -
    show "\<not> 10 dvd decVal (edigits z)" using that decVal_normal by (simp add: wfDecimal_def)
    then show "0 < decVal (edigits z)" by (cases "decVal (edigits z)") auto
  qed
  have zero: "exactVal z = 0 \<longleftrightarrow> edigits z = []" if "wfDecimal z" for z
  proof (cases "edigits z = []")
    case False
    then have "decVal (edigits z) \<noteq> 0" using pos(1) [OF that False] by simp
    then have "exactVal z \<noteq> 0" by (simp add: exactVal_def)
    with False show ?thesis by simp
  qed (simp add: exactVal_def)
  show ?thesis
  proof (cases "edigits x = []")
    case True
    then have "edigits y = []" using zero [OF assms(1)] zero [OF assms(2)] assms(3) by simp
    then have "edigits x = edigits y" "eneg x = eneg y" "eexp x = eexp y"
      using True assms(1,2) by (simp_all add: wfDecimal_def)
    then show ?thesis by (intro ExactDecimal.equality) simp_all
  next
    case False
    then have y: "edigits y \<noteq> []" using zero [OF assms(1)] zero [OF assms(2)] assms(3) by simp
    have sgn: "exactVal z < 0 \<longleftrightarrow> eneg z" if "wfDecimal z" "edigits z \<noteq> []" for z
    proof -
      have "0 < rat_of_nat (decVal (edigits z)) * 10 powi eexp z"
        using pos(1) [OF that] by (simp add: zero_less_power_int)
      then show ?thesis by (auto simp: exactVal_def)
    qed
    have neg: "eneg x = eneg y" using sgn [OF assms(1) False] sgn [OF assms(2) y] assms(3) by simp
    have "rat_of_nat (decVal (edigits x)) * 10 powi eexp x = rat_of_nat (decVal (edigits y)) * 10 powi eexp y"
      using assms(3) neg by (cases "eneg y") (simp_all add: exactVal_def)
    from decimal_unique [OF this pos(2) [OF assms(1) False] pos(2) [OF assms(2) y]]
    have d: "decVal (edigits x) = decVal (edigits y)" "eexp x = eexp y" by auto
    have eqx: "decText (decVal (edigits x)) = edigits x"
      by (rule decText_of_normal) (use assms(1) False in \<open>simp_all add: wfDecimal_def\<close>)
    have eqy: "decText (decVal (edigits y)) = edigits y"
      by (rule decText_of_normal) (use assms(2) y in \<open>simp_all add: wfDecimal_def\<close>)
    have "edigits x = edigits y" by (rule box_equals [OF arg_cong [OF d(1), of decText] eqx eqy])
    then show ?thesis using neg d(2) by (intro ExactDecimal.equality) simp_all
  qed
qed

subsection \<open>Zeros at the ends\<close>

lemma skipZeros_decVal: "decVal (skipZeros s) = decVal s"
  by (induction s) (auto simp: skipZeros_def decVal_Cons digitVal_def)

lemma skipZeros_digits: "list_all isDigit s \<Longrightarrow> list_all isDigit (skipZeros s)"
  by (auto simp: skipZeros_def list_all_iff dest: set_dropWhileD)

lemma skipZeros_hd: "skipZeros s \<noteq> [] \<Longrightarrow> hd (skipZeros s) \<noteq> 0x30"
  using hd_dropWhile [of "\<lambda>c. c = 0x30" s] by (auto simp: skipZeros_def)

lemma dropZeros_append: "\<exists>n. s = dropZeros s @ replicate n 0x30"
proof -
  have "rev s = takeWhile (\<lambda>c. c = 0x30) (rev s) @ dropWhile (\<lambda>c. c = 0x30) (rev s)" by simp
  moreover have "takeWhile (\<lambda>c. c = 0x30) (rev s) = replicate (length (takeWhile (\<lambda>c. c = 0x30) (rev s))) 0x30"
    using set_takeWhileD [of _ "\<lambda>c. c = 0x30" "rev s"] by (metis replicate_eqI)
  ultimately have "s = dropZeros s @ replicate (length (takeWhile (\<lambda>c. c = 0x30) (rev s))) 0x30"
    by (metis dropZeros_def rev_append rev_replicate rev_rev_ident)
  then show ?thesis by blast
qed

lemma dropZeros_last: "dropZeros s \<noteq> [] \<Longrightarrow> last (dropZeros s) \<noteq> 0x30"
  using hd_dropWhile [of "\<lambda>c. c = 0x30" "rev s"] by (auto simp: dropZeros_def last_rev)

lemma decVal_zeros: "decVal (s @ replicate n 0x30) = decVal s * 10 ^ n"
proof -
  have "decVal (replicate n 0x30) = 0" by (induction n) (auto simp: decVal_Cons digitVal_def)
  then show ?thesis by (simp add: decVal_append)
qed

lemma dropZeros_facts:
  assumes "list_all isDigit s"
  shows "list_all isDigit (dropZeros s)" "length (dropZeros s) \<le> length s"
    "decVal s = decVal (dropZeros s) * 10 ^ (length s - length (dropZeros s))"
    "hd s \<noteq> 0x30 \<Longrightarrow> s \<noteq> [] \<Longrightarrow> dropZeros s \<noteq> [] \<and> hd (dropZeros s) = hd s"
proof -
  obtain n where n: "s = dropZeros s @ replicate n 0x30" using dropZeros_append by blast
  let ?d = "dropZeros s"
  have "list_all isDigit (?d @ replicate n 0x30)" using assms n by simp
  then show "list_all isDigit ?d" by simp
  have len: "length s = length ?d + n" using arg_cong [OF n, of length] by simp
  then show "length ?d \<le> length s" by simp
  have "decVal s = decVal (?d @ replicate n 0x30)" using n by simp
  then show "decVal s = decVal ?d * 10 ^ (length s - length ?d)" using len by (simp add: decVal_zeros)
  show "?d \<noteq> [] \<and> hd ?d = hd s" if "hd s \<noteq> 0x30" "s \<noteq> []"
  proof -
    have "?d \<noteq> []"
    proof
      assume "?d = []"
      then have "s = replicate n 0x30" using n by simp
      with that show False by (cases n) auto
    qed
    then show ?thesis using n by (metis hd_append2)
  qed
qed

text \<open>The normal form of \<open>ds * 10^e\<close>, as both readers compute it.\<close>

lemma normalize:
  fixes ds :: jsstr
  assumes "list_all isDigit ds" "lead = skipZeros ds" "kept = dropZeros lead" "lead \<noteq> []"
  shows "wfDecimal \<lparr>eneg = neg, edigits = kept, eexp = e + int (length lead - length kept)\<rparr>"
    and "rat_of_nat (decVal ds) * 10 powi e = rat_of_nat (decVal kept) * 10 powi (e + int (length lead - length kept))"
proof -
  have lead: "list_all isDigit lead" "hd lead \<noteq> 0x30" using assms skipZeros_digits skipZeros_hd by auto
  note z = dropZeros_facts [OF lead(1)]
  show "wfDecimal \<lparr>eneg = neg, edigits = kept, eexp = e + int (length lead - length kept)\<rparr>"
    using z(1,4) lead assms(3,4) dropZeros_last [of lead] by (auto simp: wfDecimal_def)
  have "decVal ds = decVal kept * 10 ^ (length lead - length kept)"
    using z(3) assms(2,3) skipZeros_decVal by simp
  then show "rat_of_nat (decVal ds) * 10 powi e = rat_of_nat (decVal kept) * 10 powi (e + int (length lead - length kept))"
    by (simp add: power_int_add mult_ac)
qed

subsection \<open>The value of a token\<close>

text \<open>The rational a split number denotes.\<close>

definition partsVal :: "numberParts \<Rightarrow> rat" where
  "partsVal p =
     (if minus p then - 1 else 1) * rat_of_nat (decVal (whole p @ fraction p)) *
     10 powi ((if expMinus p then - int (decVal (expDigits p)) else int (decVal (expDigits p)))
              - int (length (fraction p)))"

definition tokenVal :: "jsstr \<Rightarrow> rat" where
  "tokenVal s = (case splitNumber s of None \<Rightarrow> 0 | Some p \<Rightarrow> partsVal p)"

definition wfParts :: "numberParts \<Rightarrow> bool" where
  "wfParts p \<longleftrightarrow> whole p \<noteq> [] \<and> list_all isDigit (whole p @ fraction p) \<and> list_all isDigit (expDigits p) \<and> expDigits p \<noteq> []"

lemma if_None_Some: "((if c then None else Some y) = Some p) \<longleftrightarrow> \<not> c \<and> p = y"
  by auto

lemma takeWhile_digits: "list_all isDigit (takeWhile isDigit s)"
  by (induction s) auto

lemma wfParts_if:
  assumes "\<not> (w = [] \<or> (dotted \<and> f = []) \<or> (if marked then x = [] \<or> \<not> list_all isDigit x else rest \<noteq> []))"
    and "list_all isDigit w" "list_all isDigit f"
  shows "wfParts \<lparr>minus = a, whole = w, fraction = f, expMinus = b, expDigits = (if marked then x else [0x30])\<rparr>"
  using assms by (auto simp: wfParts_def)

lemma splitNumber_wf:
  assumes "splitNumber s = Some p"
  shows "wfParts p"
proof -
  have d: "list_all isDigit (if c then takeWhile isDigit t else [])" for c t by (simp add: takeWhile_digits)
  from assms show ?thesis
    unfolding splitNumber_def Let_def if_None_Some
    by - (elim conjE, erule ssubst, rule wfParts_if, assumption, rule takeWhile_digits, rule d)
qed

lemma exactDecimal_val:
  assumes "exactDecimal s = Some x"
  shows "wfDecimal x \<and> exactVal x = tokenVal s"
proof -
  have "splitNumber s \<noteq> None"
  proof
    assume "splitNumber s = None"
    then show False using assms by (simp add: exactDecimal_def)
  qed
  then obtain p where p: "splitNumber s = Some p" by blast
  have digits: "list_all isDigit (whole p @ fraction p)" using splitNumber_wf [OF p] by (simp add: wfParts_def)
  let ?ds = "whole p @ fraction p"
  let ?lead = "skipZeros ?ds"
  let ?kept = "dropZeros ?lead"
  let ?e = "(if expMinus p then - int (decVal (expDigits p)) else int (decVal (expDigits p))) - int (length (fraction p))"
  have empty: "?kept = [] \<longleftrightarrow> ?lead = []"
    using dropZeros_facts(4) [OF skipZeros_digits [OF digits]] skipZeros_hd [of ?ds] by (auto simp: dropZeros_def)
  show ?thesis
  proof (cases "?lead = []")
    case True
    then have "decVal ?ds = 0" using skipZeros_decVal [of ?ds] by simp
    then have "tokenVal s = 0" by (simp add: tokenVal_def partsVal_def p)
    moreover have "x = \<lparr>eneg = False, edigits = [], eexp = 0\<rparr>"
      using assms p True empty by (simp add: exactDecimal_def Let_def)
    ultimately show ?thesis by (simp add: wfDecimal_def exactVal_def)
  next
    case False
    have x: "x = \<lparr>eneg = minus p, edigits = ?kept, eexp = ?e + int (length ?lead - length ?kept)\<rparr>"
      using assms p False empty by (simp add: exactDecimal_def Let_def)
    have "tokenVal s = (if minus p then - 1 else 1) * (rat_of_nat (decVal ?ds) * 10 powi ?e)"
      by (simp only: tokenVal_def partsVal_def p option.case mult.assoc)
    also have "\<dots> = exactVal x"
      by (simp only: normalize(2) [OF digits refl refl False] x exactVal_def ExactDecimal.select_convs mult.assoc)
    finally show ?thesis using normalize(1) [OF digits refl refl False, of "minus p" ?e] x by simp
  qed
qed

lemma takeWhile_stop: "list_all P s \<Longrightarrow> t = [] \<or> \<not> P (hd t) \<Longrightarrow> takeWhile P (s @ t) = s"
  by (cases t) (auto simp: list_all_iff takeWhile_append2)

lemma dropWhile_stop: "list_all P s \<Longrightarrow> t = [] \<or> \<not> P (hd t) \<Longrightarrow> dropWhile P (s @ t) = t"
  by (cases t) (auto simp: list_all_iff dropWhile_append2)

text \<open>A token by its parts.\<close>

lemma token_parts:
  assumes "numberToken tok"
  obtains sg w f x where "tok = sg @ w @ f @ x" "signOk sg" "wholeOk w" "fractionOk f" "exponentOk x"
    "unsigned tok = w @ f @ x" "peek tok = Some 0x2d \<longleftrightarrow> sg = [0x2d]"
proof -
  obtain sg w f x where tok: "tok = sg @ w @ f @ x" and ok: "signOk sg" "wholeOk w" "fractionOk f" "exponentOk x"
    using assms by (auto simp: numberToken_def)
  obtain c w' where w: "w = c # w'" "isDigit c" using ok(2) by (cases w) (auto simp: wholeOk_def)
  then have "c \<noteq> 0x2d" by auto
  then have "unsigned tok = w @ f @ x" "peek tok = Some 0x2d \<longleftrightarrow> sg = [0x2d]"
    using ok(1) tok w(1) by (auto simp: signOk_def unsigned_def)
  with tok ok show thesis by (rule that)
qed

text \<open>\<open>splitNumber\<close> takes every token apart.\<close>

lemma split_exponent:
  assumes "exponentOk x"
  shows "x = [] \<or> ((peek x = Some 0x65 \<or> peek x = Some 0x45) \<and>
    (let ds = (if peek (tl x) = Some 0x2b \<or> peek (tl x) = Some 0x2d then tl (tl x) else tl x) in
       ds \<noteq> [] \<and> list_all isDigit ds))"
proof (cases "x = []")
  case False
  then obtain c sg ds where x: "x = c # sg @ ds" "c = 0x65 \<or> c = 0x45" "sg = [] \<or> sg = [0x2b] \<or> sg = [0x2d]"
    "ds \<noteq> []" "list_all isDigit ds" using assms by (auto simp: exponentOk_def)
  then show ?thesis using sign_digits [OF x(5,4), of "[]"] by (auto simp: Let_def)
qed simp

lemma splitNumber_token:
  assumes "numberToken tok"
  obtains sg w f x p where "tok = sg @ w @ f @ x" "signOk sg" "wholeOk w" "fractionOk f" "exponentOk x"
    "unsigned tok = w @ f @ x" "splitNumber tok = Some p" "whole p = w" "fraction p = tl f"
    "minus p \<longleftrightarrow> peek tok = Some 0x2d"
    "expMinus p \<longleftrightarrow> peek (tl x) = Some 0x2d"
    "expDigits p = (if x = [] then [0x30] else if peek (tl x) = Some 0x2b \<or> peek (tl x) = Some 0x2d then tl (tl x) else tl x)"
proof -
  obtain sg w f x where tok: "tok = sg @ w @ f @ x" and ok: "signOk sg" "wholeOk w" "fractionOk f" "exponentOk x"
    and u: "unsigned tok = w @ f @ x" "peek tok = Some 0x2d \<longleftrightarrow> sg = [0x2d]"
    using token_parts [OF assms] .
  have xd: "x = [] \<or> \<not> isDigit (hd x)" "peek x \<noteq> Some 0x2e" using ok(4) by (auto simp: exponentOk_def)
  have fxd: "f @ x = [] \<or> \<not> isDigit (hd (f @ x))" using ok(3) xd by (auto simp: fractionOk_def)
  have wd: "list_all isDigit w" "w \<noteq> []" using ok(2) by (auto simp: wholeOk_def)
  have w: "takeWhile isDigit (w @ f @ x) = w" "dropWhile isDigit (w @ f @ x) = f @ x"
    using takeWhile_stop [OF wd(1) fxd] dropWhile_stop [OF wd(1) fxd] by simp_all
  have e: "(if peek x = Some 0x65 \<or> peek x = Some 0x45
      then (if peek (tl x) = Some 0x2b \<or> peek (tl x) = Some 0x2d then tl (tl x) else tl x) = [] \<or>
        \<not> list_all isDigit (if peek (tl x) = Some 0x2b \<or> peek (tl x) = Some 0x2d then tl (tl x) else tl x)
      else x \<noteq> []) = False"
    using split_exponent [OF ok(4)] by (auto simp: Let_def)
  have m: "(peek x = Some 0x65 \<or> peek x = Some 0x45) \<longleftrightarrow> x \<noteq> []"
    using split_exponent [OF ok(4)] by auto
  let ?p = "\<lparr>minus = (peek tok = Some 0x2d), whole = w, fraction = tl f, expMinus = (x \<noteq> [] \<and> peek (tl x) = Some 0x2d),
      expDigits = (if x = [] then [0x30] else if peek (tl x) = Some 0x2b \<or> peek (tl x) = Some 0x2d then tl (tl x) else tl x)\<rparr>"
  have "splitNumber tok = Some ?p"
  proof (cases "f = []")
    case True
    then show ?thesis
      unfolding splitNumber_def u(1) Let_def w using wd(2) xd(2) e m by auto
  next
    case False
    then obtain ds where f: "f = 0x2e # ds" "ds \<noteq> []" "list_all isDigit ds" using ok(3) by (auto simp: fractionOk_def)
    then have "takeWhile isDigit (ds @ x) = ds" "dropWhile isDigit (ds @ x) = x"
      using takeWhile_stop [OF f(3) xd(1)] dropWhile_stop [OF f(3) xd(1)] by simp_all
    then show ?thesis
      unfolding splitNumber_def u(1) Let_def w using wd(2) f(1,2) e m by auto
  qed
  then show thesis by (rule that [OF tok ok u(1)]) auto
qed

lemma exponentI128_val:
  assumes "exponentI128 lit = Some e"
  shows "e = (let ds = (if peek lit = Some 0x2b \<or> peek lit = Some 0x2d then tl lit else lit) in
      if peek lit = Some 0x2d then - int (decVal ds) else int (decVal ds))"
  using assms skipZeros_decVal by (auto simp: exponentI128_def Let_def split: if_splits)

lemma nodeExactDecimal_val:
  assumes "numberToken tok" "nodeExactDecimal tok = Some r"
  shows "wfDecimal r \<and> exactVal r = tokenVal tok"
proof -
  obtain sg w f x p where tok: "tok = sg @ w @ f @ x" and ok: "signOk sg" "wholeOk w" "fractionOk f" "exponentOk x"
    and u: "unsigned tok = w @ f @ x" and p: "splitNumber tok = Some p" "whole p = w" "fraction p = tl f"
      "minus p \<longleftrightarrow> peek tok = Some 0x2d" "expMinus p \<longleftrightarrow> peek (tl x) = Some 0x2d"
      "expDigits p = (if x = [] then [0x30] else if peek (tl x) = Some 0x2b \<or> peek (tl x) = Some 0x2d then tl (tl x) else tl x)"
    using splitNumber_token [OF assms(1)] .
  have wf: "list_all notExpMark (w @ f)"
    using ok(2,3) by (auto simp: wholeOk_def fractionOk_def notExpMark_digits) (auto simp: notExpMark_def)
  have xm: "x = [] \<or> \<not> notExpMark (hd x)" using ok(4) by (auto simp: exponentOk_def notExpMark_def)
  have m: "takeWhile notExpMark (w @ f @ x) = w @ f" "dropWhile notExpMark (w @ f @ x) = x"
    using takeWhile_stop [OF wf xm] dropWhile_stop [OF wf xm] by simp_all
  have "list_all (\<lambda>c. c \<noteq> 0x2e) w" using ok(2) by (auto simp: wholeOk_def list_all_iff)
  moreover have "f = [] \<or> \<not> hd f \<noteq> 0x2e" using ok(3) by (auto simp: fractionOk_def)
  ultimately have d: "takeWhile (\<lambda>c. c \<noteq> 0x2e) (w @ f) = w" "dropWhile (\<lambda>c. c \<noteq> 0x2e) (w @ f) = f"
    using takeWhile_stop [of "\<lambda>c. c \<noteq> 0x2e" w f] dropWhile_stop [of "\<lambda>c. c \<noteq> 0x2e" w f] by auto
  obtain e where e: "(if x = [] then Some 0 else exponentI128 (tl x)) = Some e"
    using assms(2) by (cases "if x = [] then Some 0 else exponentI128 (tl x)") (simp_all only: nodeExactDecimal_def Let_def u m, simp)
  have eval: "e = (if expMinus p then - int (decVal (expDigits p)) else int (decVal (expDigits p)))"
    using e exponentI128_val [of "tl x" e] p(5,6)
    by (cases "x = []") (auto simp: Let_def digitVal_def)
  have digits: "list_all isDigit (w @ tl f)" using splitNumber_wf [OF p(1)] p(2,3) by (simp add: wfParts_def)
  have val: "tokenVal tok = (if peek tok = Some 0x2d then - 1 else 1) *
      (rat_of_nat (decVal (w @ tl f)) * 10 powi (e - int (length (tl f))))"
    unfolding tokenVal_def p(1) option.case partsVal_def p(2,3,4) eval mult.assoc ..
  note node = assms(2) [unfolded nodeExactDecimal_def Let_def u m d e option.case]
  show ?thesis
  proof (cases "skipZeros (w @ tl f) = []")
    case True
    then have "decVal (w @ tl f) = 0" using skipZeros_decVal [of "w @ tl f"] by simp
    moreover have "r = \<lparr>eneg = False, edigits = [], eexp = 0\<rparr>"
      using node True by (simp split: if_split_asm)
    ultimately show ?thesis by (simp add: val wfDecimal_def exactVal_def)
  next
    case False
    let ?lead = "skipZeros (w @ tl f)"
    have r: "r = \<lparr>eneg = (peek tok = Some 0x2d), edigits = dropZeros ?lead,
        eexp = e - int (length (tl f)) + int (length ?lead - length (dropZeros ?lead))\<rparr>"
      using node False by (simp split: if_split_asm)
    have "exactVal r = tokenVal tok"
      by (simp only: val normalize(2) [OF digits refl refl False] r exactVal_def ExactDecimal.select_convs mult.assoc)
    then show ?thesis using normalize(1) [OF digits refl refl False, of "peek tok = Some 0x2d"] r by simp
  qed
qed

text \<open>C22: The node's number equality is equality of values: two number tokens whose exact decimals are
  within the node's i128 arithmetic are equal exactly when they denote the same rational (so \<open>1\<close>,
  \<open>1.0\<close> and \<open>1e0\<close> are, at any length), and a token beyond it equals only itself.\<close>

theorem node_numbers_equal:
  assumes "numberToken a" "numberToken b"
  shows "nodeNumbersEqual a b \<longleftrightarrow>
     (if nodeExactDecimal a \<noteq> None \<and> nodeExactDecimal b \<noteq> None then tokenVal a = tokenVal b else a = b)"
proof (cases "nodeExactDecimal a = None \<or> nodeExactDecimal b = None")
  case True
  then show ?thesis by (auto simp: nodeNumbersEqual_def split: option.splits)
next
  case False
  then obtain x y where xy: "nodeExactDecimal a = Some x" "nodeExactDecimal b = Some y" by auto
  note vx = nodeExactDecimal_val [OF assms(1) xy(1)] and vy = nodeExactDecimal_val [OF assms(2) xy(2)]
  have "x = y \<longleftrightarrow> tokenVal a = tokenVal b"
    using exactVal_inj [of x y] vx vy by metis
  moreover have "(eneg x = eneg y \<and> edigits x = edigits y \<and> eexp x = eexp y) \<longleftrightarrow> x = y"
    by (auto intro: ExactDecimal.equality)
  moreover have "a = b \<Longrightarrow> x = y" using xy by simp
  ultimately show ?thesis using xy by (auto simp: nodeNumbersEqual_def)
qed

lemma tokens_of_ten:
  "numberToken (js ''1.50'')" "numberToken (js ''15e-1'')" "nodeExactDecimal (js ''1.50'') \<noteq> None"
  "nodeExactDecimal (js ''15e-1'') \<noteq> None"
proof -
  have "number (js ''1.50'') = Inr (js ''1.50'', [])" "number (js ''15e-1'') = Inr (js ''15e-1'', [])"
    by (simp_all add: number_def unsigned_def wholePart_def fractionPart_def exponentPart_def digits1_def digits_def
        bind_def canonicalNumber_def Let_def isInteger_def isDigit_def)
  then show "numberToken (js ''1.50'')" "numberToken (js ''15e-1'')" by (auto dest: number_wf simp: wfNumber_def)
  show "nodeExactDecimal (js ''1.50'') \<noteq> None" "nodeExactDecimal (js ''15e-1'') \<noteq> None"
    by (simp_all add: nodeExactDecimal_def unsigned_def notExpMark_def exponentI128_def skipZeros_def dropZeros_def
        isDigit_def decVal_def digitVal_def I128_MAX_def I128_MIN_def)
qed

lemma node_numbers_equal_witness: "nodeNumbersEqual (js ''1.50'') (js ''15e-1'')"
proof -
  have "splitNumber (js ''1.50'') = Some \<lparr>minus = False, whole = js ''1'', fraction = js ''50'', expMinus = False, expDigits = js ''0''\<rparr>"
    "splitNumber (js ''15e-1'') = Some \<lparr>minus = False, whole = js ''15'', fraction = [], expMinus = True, expDigits = js ''1''\<rparr>"
    by (simp_all add: splitNumber_def unsigned_def isDigit_def Let_def)
  then have "tokenVal (js ''1.50'') = 3 / 2" "tokenVal (js ''15e-1'') = 3 / 2"
    by (simp_all add: tokenVal_def partsVal_def decVal_def digitVal_def power_int_def power2_eq_square)
  then show ?thesis
    using node_numbers_equal [OF tokens_of_ten(1,2)] tokens_of_ten(3,4) by simp
qed

subsection \<open>What binds to a JavaScript value\<close>

lemma exact_shortest:
  "isExactJsonNumber toNumber numberText u \<Longrightarrow>
     \<exists>x. exactDecimal u = Some x \<and> exactDecimal (numberText (toNumber u)) = Some x"
  by (auto simp: isExactJsonNumber_def Let_def split: if_splits option.splits intro!: ExactDecimal.equality)

text \<open>C23: Exact numbers are told apart. Whatever the engine's \<open>Number\<close> and \<open>String\<close> do, two number texts
  that pass \<open>isExactJsonNumber\<close> and parse to one JavaScript number write the same rational.\<close>

theorem exact_numbers_bind:
  assumes "isExactJsonNumber toNumber numberText s" "isExactJsonNumber toNumber numberText t"
    and "toNumber s = toNumber t"
  shows "tokenVal s = tokenVal t"
proof -
  obtain x where x: "exactDecimal s = Some x" "exactDecimal (numberText (toNumber s)) = Some x"
    using exact_shortest [OF assms(1)] by blast
  obtain y where y: "exactDecimal t = Some y" "exactDecimal (numberText (toNumber t)) = Some y"
    using exact_shortest [OF assms(2)] by blast
  have "x = y" using x(2) y(2) assms(3) by simp
  then show ?thesis using exactDecimal_val [OF x(1)] exactDecimal_val [OF y(1)] by simp
qed

definition oneNumber :: number where
  "oneNumber = f64 False 1023 0"

lemma finite_oneNumber: "isFiniteNumber oneNumber"
  by (simp add: isFiniteNumber_def oneNumber_def biasedOf_def f64_def mask_eq_exp_minus_1)

lemma exact_one: "isExactJsonNumber (\<lambda>_. oneNumber) (\<lambda>_. js ''1'') (js ''1'')"
  "isExactJsonNumber (\<lambda>_. oneNumber) (\<lambda>_. js ''1'') (js ''1.0'')"
proof -
  have "splitNumber (js ''1'') = Some \<lparr>minus = False, whole = js ''1'', fraction = [], expMinus = False, expDigits = js ''0''\<rparr>"
    "splitNumber (js ''1.0'') = Some \<lparr>minus = False, whole = js ''1'', fraction = js ''0'', expMinus = False, expDigits = js ''0''\<rparr>"
    by (simp_all add: splitNumber_def unsigned_def isDigit_def Let_def)
  then have "exactDecimal (js ''1'') = Some \<lparr>eneg = False, edigits = js ''1'', eexp = 0\<rparr>"
    "exactDecimal (js ''1.0'') = Some \<lparr>eneg = False, edigits = js ''1'', eexp = 0\<rparr>"
    by (simp_all add: exactDecimal_def skipZeros_def dropZeros_def decVal_def digitVal_def)
  moreover note finite_oneNumber
  ultimately show "isExactJsonNumber (\<lambda>_. oneNumber) (\<lambda>_. js ''1'') (js ''1'')"
    "isExactJsonNumber (\<lambda>_. oneNumber) (\<lambda>_. js ''1'') (js ''1.0'')"
    by (simp_all add: isExactJsonNumber_def Let_def)
qed

lemma exact_numbers_bind_witness: "tokenVal (js ''1'') = tokenVal (js ''1.0'')"
  by (rule exact_numbers_bind [OF exact_one refl])

text \<open>The same JSON value: numbers by value, objects as maps.\<close>

fun sameJson :: "NodeJson \<Rightarrow> NodeJson \<Rightarrow> bool" where
  "sameJson JNull JNull = True"
| "sameJson (JBool a) (JBool b) = (a = b)"
| "sameJson (JNum a) (JNum b) = (tokenVal a = tokenVal b)"
| "sameJson (JStr a) (JStr b) = (a = b)"
| "sameJson (JArr a) (JArr b) \<longleftrightarrow> length a = length b \<and> list_all (\<lambda>(x, y). sameJson x y) (zip a b)"
| "sameJson (JObj a) (JObj b) \<longleftrightarrow> length a = length b \<and>
     list_all (\<lambda>(k, x). case map_of b k of None \<Rightarrow> False | Some y \<Rightarrow> sameJson x y) a"
| "sameJson _ _ = False"

lemma foldr_or_else: "foldr or_else xs None = None \<longleftrightarrow> list_all (\<lambda>x. x = None) xs"
  by (induction xs) (auto simp: or_else_def split: option.splits)

text \<open>Two objects with the properties of one value have the same keys.\<close>

lemma same_keys:
  assumes "distinct (map fst a)" "length a = length own" "\<And>k. k \<in> fst ` set a \<Longrightarrow> k \<in> fst ` set own"
  shows "fst ` set a = fst ` set own"
proof -
  have "card (fst ` set a) = length a" using distinct_card [OF assms(1)] by simp
  moreover have "card (fst ` set own) \<le> length own" using card_length [of "map fst own"] by simp
  ultimately have "card (fst ` set own) \<le> card (fst ` set a)" using assms(2) by simp
  then show ?thesis using card_seteq [of "fst ` set own" "fst ` set a"] assms(3) by auto
qed

lemma deepEqual_obj:
  assumes "jsonDeepEqual (nodeJsonToJs toNumber (JObj a)) doc"
  shows "length a = length (ownEntries doc)"
    and "\<And>k x. (k, x) \<in> set a \<Longrightarrow> \<exists>y. map_of (ownEntries doc) k = Some y \<and> jsonDeepEqual (nodeJsonToJs toNumber x) y"
proof -
  show "length a = length (ownEntries doc)" using assms by simp
  show "\<exists>y. map_of (ownEntries doc) k = Some y \<and> jsonDeepEqual (nodeJsonToJs toNumber x) y" if "(k, x) \<in> set a" for k x
  proof -
    have "case map_of (ownEntries doc) k of None \<Rightarrow> False | Some y \<Rightarrow> jsonDeepEqual (nodeJsonToJs toNumber x) y"
      using assms that by (auto simp: list_all_iff)
    then show ?thesis by (auto split: option.splits)
  qed
qed

lemma sameJson_Arr:
  assumes "length a = length b" "\<And>i. i < length a \<Longrightarrow> sameJson (a ! i) (b ! i)"
  shows "sameJson (JArr a) (JArr b)"
  using assms by (auto simp: list_all_length)

lemma nodeJsonToJs_kinds:
  "jsonDeepEqual (nodeJsonToJs toNumber (JArr a)) doc \<Longrightarrow> \<exists>ds. doc = VArr ds"
  "jsonDeepEqual (nodeJsonToJs toNumber (JObj kvs)) doc \<Longrightarrow> isObjectVal doc"
  by (auto split: jsval.splits)

lemma inexact_obj: "inexactNumber exact (JObj kvs) = None \<Longrightarrow> (k, x) \<in> set kvs \<Longrightarrow> inexactNumber exact x = None"
  by (force simp: foldr_or_else list_all_iff)

lemma inexact_arr: "inexactNumber exact (JArr vs) = None \<Longrightarrow> x \<in> set vs \<Longrightarrow> inexactNumber exact x = None"
  by (simp add: foldr_or_else list_all_iff)

lemma deepEqual_kind:
  assumes "jsonDeepEqual (nodeJsonToJs toNumber a) doc" "jsonDeepEqual (nodeJsonToJs toNumber b) doc"
  shows "case a of
      JNull \<Rightarrow> b = JNull
    | JBool v \<Rightarrow> b = JBool v
    | JNum m \<Rightarrow> \<exists>n. b = JNum n \<and> toNumber m = toNumber n
    | JStr s \<Rightarrow> b = JStr s
    | JArr vs \<Rightarrow> \<exists>ws. b = JArr ws
    | JObj kvs \<Rightarrow> \<exists>ls. b = JObj ls"
  using assms by (cases a; cases b) (auto simp: isObjectVal_def sameNumber_def split: jsval.splits)

text \<open>C8: A returned document binds to one JSON value. Two well-formed values with no inexact number
  that are both deeply equal, as JavaScript values, to one returned document are the same value:
  equal numbers, equal strings, the same elements in order, the same keys.\<close>

theorem document_binds_once:
  assumes "wfJson n a" "wfJson n b"
    and "inexactNumber (isExactJsonNumber toNumber numberText) a = None"
    and "inexactNumber (isExactJsonNumber toNumber numberText) b = None"
    and "jsonDeepEqual (nodeJsonToJs toNumber a) doc" "jsonDeepEqual (nodeJsonToJs toNumber b) doc"
  shows "sameJson a b"
  using assms
proof (induction a arbitrary: n b doc)
  case (JNum m)
  then obtain k where [simp]: "b = JNum k" and eq: "toNumber m = toNumber k"
    using deepEqual_kind [OF JNum.prems(5,6)] by auto
  have e: "isExactJsonNumber toNumber numberText m" "isExactJsonNumber toNumber numberText k"
    using JNum.prems(3,4) by (auto split: if_splits)
  obtain x y where "exactDecimal m = Some x" "exactDecimal (numberText (toNumber m)) = Some x"
    "exactDecimal k = Some y" "exactDecimal (numberText (toNumber k)) = Some y"
    using exact_shortest [OF e(1)] exact_shortest [OF e(2)] by blast
  then show ?case using eq exactDecimal_val [of m x] exactDecimal_val [of k y] by simp
next
  case (JArr vs)
  obtain us where b [simp]: "b = JArr us" using deepEqual_kind [OF JArr.prems(5,6)] by auto
  obtain ds where doc [simp]: "doc = VArr ds" using nodeJsonToJs_kinds(1) [OF JArr.prems(5)] by blast
  have len: "length vs = length ds" "length us = length ds" using JArr.prems(5,6) by auto
  have el: "jsonDeepEqual (nodeJsonToJs toNumber (vs ! i)) (ds ! i)" "jsonDeepEqual (nodeJsonToJs toNumber (us ! i)) (ds ! i)"
    if "i < length ds" for i
    using JArr.prems(5,6) that len by (auto simp: list_all_length)
  have "sameJson (vs ! i) (us ! i)" if "i < length vs" for i
    by (rule JArr.IH [of "vs ! i" "Suc n" "us ! i" "ds ! i"])
      (use that len el [of i] JArr.prems(1,2) inexact_arr [OF JArr.prems(3)] inexact_arr [OF JArr.prems(4) [unfolded b]]
        in \<open>auto simp: list_all_length\<close>)
  then show ?case using len by (auto simp: list_all_length)
next
  case (JObj kvs)
  obtain ls where b [simp]: "b = JObj ls" using deepEqual_kind [OF JObj.prems(5,6)] by auto
  note da = deepEqual_obj [OF JObj.prems(5)] and db = deepEqual_obj [OF JObj.prems(6) [unfolded b]]
  have dist: "distinct (map fst kvs)" "distinct (map fst ls)" using JObj.prems(1,2) by auto
  have "fst ` set kvs = fst ` set (ownEntries doc)"
    by (rule same_keys [OF dist(1) da(1)]) (use da(2) in \<open>force dest: map_of_SomeD\<close>)
  moreover have "fst ` set ls = fst ` set (ownEntries doc)"
    by (rule same_keys [OF dist(2) db(1)]) (use db(2) in \<open>force dest: map_of_SomeD\<close>)
  ultimately have keys: "fst ` set kvs = fst ` set ls" by simp
  have "case map_of ls k of None \<Rightarrow> False | Some y \<Rightarrow> sameJson x y" if kx: "(k, x) \<in> set kvs" for k x
  proof -
    have "k \<in> fst ` set ls" using kx keys by force
    then obtain y where y: "map_of ls k = Some y" by (metis map_of_eq_None_iff option.exhaust)
    have my: "(k, y) \<in> set ls" using y by (rule map_of_SomeD)
    obtain d where d: "map_of (ownEntries doc) k = Some d" "jsonDeepEqual (nodeJsonToJs toNumber x) d"
      "jsonDeepEqual (nodeJsonToJs toNumber y) d"
      using da(2) [OF kx] db(2) [OF my] by auto
    have "sameJson x y"
      by (rule JObj.IH [OF kx, of x "Suc n" y d])
        (use JObj.prems(1,2) kx my d(2,3) inexact_obj [OF JObj.prems(3) kx] inexact_obj [OF JObj.prems(4) [unfolded b] my]
          in \<open>auto simp: list_all_iff\<close>)
    then show ?thesis using y by simp
  qed
  then show ?case using da(1) db(1) by (auto simp: list_all_iff)
next
  case JNull
  then show ?case using deepEqual_kind [OF JNull.prems(5,6)] by simp
next
  case (JBool v)
  then show ?case using deepEqual_kind [OF JBool.prems(5,6)] by simp
next
  case (JStr s)
  then show ?case using deepEqual_kind [OF JStr.prems(5,6)] by simp
qed

lemma document_binds_once_witness:
  "sameJson (JArr [JNum (js ''1''), JNull]) (JArr [JNum (js ''1.0''), JNull])"
proof (rule document_binds_once)
  have "number (js ''1'') = Inr (js ''1'', [])" "number (js ''1.0'') = Inr (js ''1.0'', [])"
    by (simp_all add: number_def unsigned_def wholePart_def fractionPart_def exponentPart_def digits1_def digits_def
        bind_def canonicalNumber_def Let_def isInteger_def isDigit_def integerVal_def decVal_def digitVal_def
        intText_def decText.simps [of "Suc 0"] digitChar_def U64_MAX_def)
  then have "wfNumber (js ''1'')" "wfNumber (js ''1.0'')" using number_wf by blast+
  then show "wfJson 0 (JArr [JNum (js ''1''), JNull])" "wfJson 0 (JArr [JNum (js ''1.0''), JNull])"
    by (simp_all add: MAX_NESTING_def)
  show "inexactNumber (isExactJsonNumber (\<lambda>_. oneNumber) (\<lambda>_. js ''1'')) (JArr [JNum (js ''1''), JNull]) = None"
    "inexactNumber (isExactJsonNumber (\<lambda>_. oneNumber) (\<lambda>_. js ''1'')) (JArr [JNum (js ''1.0''), JNull]) = None"
    using exact_one by (simp_all add: or_else_def)
  have "sameNumber oneNumber oneNumber"
    using finite_oneNumber by (simp add: sameNumber_def isFidelitySafeNumber_def oneNumber_def f64_def)
  then show "jsonDeepEqual (nodeJsonToJs (\<lambda>_. oneNumber) (JArr [JNum (js ''1''), JNull])) (VArr [VNum oneNumber, VNull])"
    "jsonDeepEqual (nodeJsonToJs (\<lambda>_. oneNumber) (JArr [JNum (js ''1.0''), JNull])) (VArr [VNum oneNumber, VNull])"
    by simp_all
qed

end
