(* ===== verification/Proof_Shared.thy ===== *)
theory Proof_Shared
  imports Verifier Json_Decimal
begin

text \<open>
  Proof bytes, root checks and paths (\<open>src/src/proof/shared.ts\<close>), binding returned values to proven
  ones (\<open>src/src/proof/binding.ts\<close>) and the membership checks built on it (\<open>src/src/proof/index.ts\<close>).
  The engine and the platform are one record of parameters, \<open>runtime\<close>: \<open>TextEncoder\<close>, \<open>TextDecoder\<close>
  in its fatal mode, \<open>JSON.parse\<close>, \<open>JSON.stringify\<close>, \<open>Number\<close> and \<open>String\<close>. Hex text and error text
  are lists of characters, JavaScript strings that carry data are code units.
\<close>

record runtime =
  encodeText :: "jsstr \<Rightarrow> bytes"
  decodeText :: "bytes \<Rightarrow> jsstr option"
  jsonParse :: "jsstr \<Rightarrow> jsval option"
  jsonStringify :: "jsval \<Rightarrow> jsstr"
  toNumber :: "jsstr \<Rightarrow> number"
  numberText :: "number \<Rightarrow> jsstr"

datatype perror =
    EmptyProof
  | NoProof
  | ExpectedRootMismatch string string
  | Verification gerror
  | NotAStoredItem jsstr
  | InexactValue jsstr jsstr
  | ValueMismatch jsstr
  | NoValueReturned jsstr
  | KeyNotInProof jsstr
  | DocumentNotCommitted nat

definition wrap :: "gerror + 'a \<Rightarrow> perror + 'a" where
  "wrap m = (case m of Inl e \<Rightarrow> Inl (Verification e) | Inr x \<Rightarrow> Inr x)"

lemma wrap_Inr [simp]: "wrap m = Inr x \<longleftrightarrow> m = Inr x"
  by (cases m) (auto simp: wrap_def)

subsection \<open>Shared helpers\<close>

datatype PathSegment = PText jsstr | PBytes bytes

definition subgroveDataPath :: "jsstr \<Rightarrow> PathSegment list" where
  "subgroveDataPath subgroveId = [PText (js ''subgroves''), PText subgroveId, PText (js ''data'')]"

definition encodePath :: "runtime \<Rightarrow> PathSegment list \<Rightarrow> bytes list" where
  "encodePath R path = map (\<lambda>segment. case segment of PText s \<Rightarrow> encodeText R s | PBytes b \<Rightarrow> b) path"

definition decodeProofBytes :: "string \<Rightarrow> perror + bytes" where
  "decodeProofBytes proofHex =
     (if proofHex = [] then Inl EmptyProof
      else bnd (wrap (hexToBytes proofHex)) (\<lambda>bs. if length bs = 0 then Inl EmptyProof else Inr bs))"

text \<open>\<open>toLowerCase\<close>, which differs from this on letters that are no hex digits only.\<close>

definition lowerChar :: "char \<Rightarrow> char" where
  "lowerChar c = (let n = of_char c :: nat in if 65 \<le> n \<and> n \<le> 90 then char_of (n + 32) else c)"

definition normalizeRoot :: "string \<Rightarrow> string" where
  "normalizeRoot hex = strip0x (map lowerChar hex)"

definition enforceExpectedRoot :: "string \<Rightarrow> string option \<Rightarrow> perror + unit" where
  "enforceExpectedRoot computed expected =
     (case expected of
        None \<Rightarrow> Inr ()
      | Some e \<Rightarrow>
          if e = [] then Inr ()
          else ensure (normalizeRoot computed = normalizeRoot e) (ExpectedRootMismatch computed e))"

text \<open>\<open>text.matchAll\<close> of string literals and numbers: a match of a string skips it, a number is a token.\<close>

definition lineEnd :: "16 word \<Rightarrow> bool" where
  "lineEnd c \<longleftrightarrow> c = 0x0a \<or> c = 0x0d \<or> c = 0x2028 \<or> c = 0x2029"

fun stringEnd :: "jsstr \<Rightarrow> jsstr option" where
  "stringEnd [] = None"
| "stringEnd (c # s) =
     (if c = 0x22 then Some s
      else if c = 0x5c then (case s of [] \<Rightarrow> None | d # t \<Rightarrow> if lineEnd d then None else stringEnd t)
      else stringEnd s)"

definition numberMatch :: "jsstr \<Rightarrow> (jsstr \<times> jsstr) option" where
  "numberMatch s =
     (let r = unsigned s; w = takeWhile isDigit r; r1 = dropWhile isDigit r;
          f = (if peek r1 = Some 0x2e then takeWhile isDigit (tl r1) else []);
          r2 = (if f = [] then r1 else dropWhile isDigit (tl r1));
          x0 = (if peek r2 = Some 0x65 \<or> peek r2 = Some 0x45
                then (let t = tl r2 in if peek t = Some 0x2b \<or> peek t = Some 0x2d then tl t else t) else []);
          x = takeWhile isDigit x0;
          r3 = (if x = [] then r2 else dropWhile isDigit x0) in
      if w = [] then None else Some (take (length s - length r3) s, r3))"

lemma stringEnd_shorter: "stringEnd s = Some t \<Longrightarrow> length t < length s"
  by (induction s arbitrary: t rule: stringEnd.induct) (fastforce split: if_splits list.splits)+

lemma numberMatch_shorter: "numberMatch s = Some (tok, t) \<Longrightarrow> length t < length s"
proof -
  define r1 where "r1 = dropWhile isDigit (unsigned s)"
  define f where "f = (if peek r1 = Some 0x2e then takeWhile isDigit (tl r1) else [])"
  define r2 where "r2 = (if f = [] then r1 else dropWhile isDigit (tl r1))"
  define x0 where "x0 = (if peek r2 = Some 0x65 \<or> peek r2 = Some 0x45
      then (let t = tl r2 in if peek t = Some 0x2b \<or> peek t = Some 0x2d then tl t else t) else [])"
  define r3 where "r3 = (if takeWhile isDigit x0 = [] then r2 else dropWhile isDigit x0)"
  assume m: "numberMatch s = Some (tok, t)"
  note m = m [unfolded numberMatch_def Let_def if_None_Some prod.inject]
  then have "takeWhile isDigit (unsigned s) \<noteq> []" by (elim conjE)
  moreover have t: "t = r3" unfolding r3_def x0_def r2_def f_def r1_def Let_def using m by (elim conjE)
  ultimately have "length r1 < length (unsigned s)"
    unfolding r1_def using length_dropWhile_le [of isDigit "tl (unsigned s)"] by (cases "unsigned s") (auto split: if_splits)
  moreover have "length (unsigned s) \<le> length s" by (simp add: unsigned_def)
  moreover have "length r2 \<le> length r1"
    unfolding r2_def using length_dropWhile_le [of isDigit "tl r1"] by auto
  moreover have "length x0 \<le> length r2" by (simp add: x0_def Let_def)
  moreover have "length r3 \<le> max (length r2) (length x0)"
    unfolding r3_def using length_dropWhile_le [of isDigit x0] by auto
  ultimately show "length t < length s" using t by simp
qed

function numberTokens :: "jsstr \<Rightarrow> jsstr list" where
  "numberTokens [] = []"
| "numberTokens (c # s) =
     (case (if c = 0x22 then stringEnd s else None) of
        Some t \<Rightarrow> numberTokens t
      | None \<Rightarrow>
          (case numberMatch (c # s) of
             Some (tok, t) \<Rightarrow> tok # numberTokens t
           | None \<Rightarrow> numberTokens s))"
  by pat_completeness auto

termination
  by (relation "measure length") (auto split: if_splits dest: stringEnd_shorter numberMatch_shorter)

definition firstInexactNumber :: "(jsstr \<Rightarrow> bool) \<Rightarrow> jsstr \<Rightarrow> jsstr option" where
  "firstInexactNumber exact text = List.find (\<lambda>tok. \<not> exact tok) (numberTokens text)"

subsection \<open>Binding values\<close>

definition bytesEqual :: "bytes \<Rightarrow> bytes \<Rightarrow> bool" where
  "bytesEqual a b \<longleftrightarrow> length a = length b \<and> list_all (\<lambda>(x, y). x = y) (zip a b)"

definition pathEqual :: "bytes list \<Rightarrow> bytes list \<Rightarrow> bool" where
  "pathEqual a b \<longleftrightarrow> length a = length b \<and> list_all (\<lambda>(x, y). bytesEqual x y) (zip a b)"

datatype ProvenValue = ProvenJson jsval "jsstr option" | ProvenRaw bytes

definition exactIn :: "runtime \<Rightarrow> jsstr \<Rightarrow> bool" where
  "exactIn R = isExactJsonNumber (toNumber R) (numberText R)"

definition decodeProvenValue :: "runtime \<Rightarrow> bytes \<Rightarrow> ProvenValue" where
  "decodeProvenValue R raw =
     (case decodeText R raw of
        None \<Rightarrow> ProvenRaw raw
      | Some text \<Rightarrow>
          (case jsonParse R text of
             None \<Rightarrow> ProvenRaw raw
           | Some v \<Rightarrow> ProvenJson v (firstInexactNumber (exactIn R) text)))"

definition documentBindsTo :: "ProvenValue \<Rightarrow> jsval \<Rightarrow> bool" where
  "documentBindsTo proven document =
     (case proven of
        ProvenJson v inexact \<Rightarrow> inexact = None \<and> jsonDeepEqual v document
      | ProvenRaw bs \<Rightarrow> (case document of VBytes b \<Rightarrow> bytesEqual bs b | _ \<Rightarrow> False))"

definition provenEntry :: "GroveDBVerificationResult \<Rightarrow> bytes list \<Rightarrow> bytes \<Rightarrow> ProvenEntry option" where
  "provenEntry verification path key =
     List.find (\<lambda>r. pathEqual (epath r) path \<and> bytesEqual (ekey r) key) (results verification)"

text \<open>The payload of a proven \<open>KV\<close> node that holds an item.\<close>

definition itemOf :: "ProvenEntry \<Rightarrow> bytes option" where
  "itemOf r =
     (if enodeType r \<noteq> TKV then None
      else (case eelement r of Some (Item v _) \<Rightarrow> Some v | _ \<Rightarrow> None))"

definition provenItemPayload :: "jsstr \<Rightarrow> ProvenEntry \<Rightarrow> perror + bytes" where
  "provenItemPayload key entry = (case itemOf entry of None \<Rightarrow> Inl (NotAStoredItem key) | Some v \<Rightarrow> Inr v)"

definition requireValueBinds :: "runtime \<Rightarrow> jsstr \<Rightarrow> bytes option \<Rightarrow> jsval \<Rightarrow> perror + unit" where
  "requireValueBinds R key raw v =
     (case raw of
        None \<Rightarrow> Inl (ValueMismatch key)
      | Some bs \<Rightarrow>
          (case decodeProvenValue R bs of
             ProvenJson _ (Some n) \<Rightarrow> Inl (InexactValue key n)
           | proven \<Rightarrow> ensure (documentBindsTo proven v) (ValueMismatch key)))"

text \<open>\<open>verifySubgroveItem\<close>: the proof must descend to the subgrove's data and prove an item at the key.\<close>

definition descendTo :: "bytes list \<Rightarrow> VerifyOptions" where
  "descendTo path = \<lparr>limitOpt = None, deserializeElementsOpt = None, expectedPath = Some path\<rparr>"

definition noOptions :: VerifyOptions where
  "noOptions = \<lparr>limitOpt = None, deserializeElementsOpt = None, expectedPath = None\<rparr>"

definition verifySubgroveItem ::
  "(bytes \<Rightarrow> bytes) \<Rightarrow> runtime \<Rightarrow> string \<Rightarrow> jsstr \<Rightarrow> jsstr \<Rightarrow> jsval \<Rightarrow> string option \<Rightarrow> perror + string" where
  "verifySubgroveItem H R proofHex subgroveId key v expected =
     (if v = VUndefined then Inl (NoValueReturned key)
      else
        (let path = encodePath R (subgroveDataPath subgroveId) in
         bnd (decodeProofBytes proofHex) (\<lambda>bs.
         bnd (wrap (verifyGroveDBProof H bs (descendTo path))) (\<lambda>verification.
           (case provenEntry verification path (encodeText R key) of
              None \<Rightarrow> Inl (KeyNotInProof key)
            | Some entry \<Rightarrow>
                bnd (provenItemPayload key entry) (\<lambda>payload.
                bnd (requireValueBinds R key (Some payload) v) (\<lambda>_.
                  (let computed = hashToHex (rootHash verification) in
                   bnd (enforceExpectedRoot computed expected) (\<lambda>_. Inr computed)))))))))"

subsection \<open>Membership checks\<close>

record ProofVerificationOptions =
  expectedRootHash :: "string option"
  pathOpt :: "PathSegment list option"

definition provenValues :: "runtime \<Rightarrow> GroveDBVerificationResult \<Rightarrow> bytes list option \<Rightarrow> ProvenValue list" where
  "provenValues R verification path =
     map (decodeProvenValue R)
       (List.map_filter
         (\<lambda>r. if (case path of None \<Rightarrow> False | Some p \<Rightarrow> \<not> pathEqual (epath r) p) then None else itemOf r)
         (results verification))"

definition bindDocumentsToProof ::
  "runtime \<Rightarrow> GroveDBVerificationResult \<Rightarrow> jsval list \<Rightarrow> bytes list option \<Rightarrow> perror + unit" where
  "bindDocumentsToProof R verification documents path =
     (if documents = [] then Inr ()
      else
        (let proven = provenValues R verification path in
         (case List.find (\<lambda>(i, d). \<not> list_ex (\<lambda>v. documentBindsTo v d) proven) (List.enumerate 0 documents) of
            None \<Rightarrow> Inr ()
          | Some (i, _) \<Rightarrow> Inl (DocumentNotCommitted i))))"

definition verifyQueryProof ::
  "(bytes \<Rightarrow> bytes) \<Rightarrow> runtime \<Rightarrow> string \<Rightarrow> jsval list \<Rightarrow> ProofVerificationOptions \<Rightarrow> perror + string" where
  "verifyQueryProof H R proofHex documents options =
     bnd (decodeProofBytes proofHex) (\<lambda>bs.
       (let path = map_option (encodePath R) (pathOpt options) in
        bnd (wrap (verifyGroveDBProof H bs (case path of None \<Rightarrow> noOptions | Some p \<Rightarrow> descendTo p))) (\<lambda>result.
        bnd (bindDocumentsToProof R result documents path) (\<lambda>_.
          (let computed = hashToHex (rootHash result) in
           bnd (enforceExpectedRoot computed (expectedRootHash options)) (\<lambda>_. Inr computed))))))"

definition verifyItemProof ::
  "(bytes \<Rightarrow> bytes) \<Rightarrow> runtime \<Rightarrow> string \<Rightarrow> jsstr \<Rightarrow> jsval \<Rightarrow> PathSegment list \<Rightarrow> ProofVerificationOptions \<Rightarrow>
     perror + string" where
  "verifyItemProof H R proofHex key v path options =
     bnd (decodeProofBytes proofHex) (\<lambda>bs.
       (let p = encodePath R path in
        bnd (wrap (verifyGroveDBProof H bs (if length p > 0 then descendTo p else noOptions))) (\<lambda>verification.
          (case provenEntry verification p (encodeText R key) of
             None \<Rightarrow> Inl (KeyNotInProof key)
           | Some entry \<Rightarrow>
               bnd (if v \<noteq> VUndefined
                    then bnd (provenItemPayload key entry) (\<lambda>payload. requireValueBinds R key (Some payload) v)
                    else Inr ()) (\<lambda>_.
                 (let computed = hashToHex (rootHash verification) in
                  bnd (enforceExpectedRoot computed (expectedRootHash options)) (\<lambda>_. Inr computed)))))))"

definition computeProofRootHash :: "(bytes \<Rightarrow> bytes) \<Rightarrow> string \<Rightarrow> perror + string" where
  "computeProofRootHash H proofHex =
     bnd (decodeProofBytes proofHex) (\<lambda>bs. bnd (wrap (quickVerify H bs)) (\<lambda>r. Inr (hashToHex r)))"

text \<open>\<open>GroveDBProofVerifier\<close> binds the options and returns a result instead of throwing.\<close>

datatype ProofVerificationResult = Valid string | Invalid perror

definition asResult :: "perror + string \<Rightarrow> ProofVerificationResult" where
  "asResult m = (case m of Inl e \<Rightarrow> Invalid e | Inr r \<Rightarrow> Valid r)"

definition verifier_verifyQueryProof where
  "verifier_verifyQueryProof H R options proofHex documents =
     asResult (verifyQueryProof H R proofHex documents options)"

definition verifier_verifyItemProof where
  "verifier_verifyItemProof H R options proofHex key v path =
     asResult (verifyItemProof H R proofHex key v path options)"

subsection \<open>Facts\<close>

lemma bytesEqual_iff [simp]: "bytesEqual a b \<longleftrightarrow> a = b"
  by (auto simp: bytesEqual_def list_all_length intro: nth_equalityI)

lemma pathEqual_iff [simp]: "pathEqual a b \<longleftrightarrow> a = b"
  by (auto simp: pathEqual_def list_all_length intro: nth_equalityI)

lemma lowerChar_hexDigit: "n < 16 \<Longrightarrow> lowerChar (Bincode.hexDigit n) = Bincode.hexDigit n \<and> Bincode.hexDigit n \<noteq> CHR ''x''"
proof -
  assume "n < 16"
  then have "n \<in> set [0..<16]" by simp
  then show ?thesis by (auto simp: upt_rec Bincode.hexDigit_def lowerChar_def)
qed

lemma lower_bytesToHex: "map lowerChar (bytesToHex bs) = bytesToHex bs"
  by (induction bs) (auto simp: lowerChar_hexDigit unat_nibbles)

lemma normalizeRoot_hex [simp]: "normalizeRoot (bytesToHex bs) = bytesToHex bs"
  by (simp add: normalizeRoot_def lower_bytesToHex strip0x_bytesToHex)

end
