(* ===== verification/Query_Selection.thy ===== *)
theory Query_Selection
  imports Proof_Shared
begin

text \<open>
  A query's whole result (\<open>src/src/proof/query-selection.ts\<close>): what the API refuses, the selection it
  makes for a request, the selection run over the proven entries, and the comparison with the
  response. \<open>Map\<close>s are association lists in insertion order; \<open>Array.sort\<close> with the code's comparison
  is insertion before the first element not less, the one result a stable sort can give.
\<close>

subsection \<open>Requests\<close>

definition DEFAULT_QUERY_LIMIT :: nat where
  "DEFAULT_QUERY_LIMIT = 100"

definition U32_MAX :: nat where
  "U32_MAX = 0xffffffff"

definition QUERY_KEYS :: "jsstr list" where
  "QUERY_KEYS = map js [''filters'', ''search'', ''sort'', ''limit'', ''offset'', ''include_proof'', ''includes'']"

definition MAX_FILTER_FIELDS :: nat where
  "MAX_FILTER_FIELDS = 32"

definition MAX_FILTER_VALUE_BYTES :: nat where
  "MAX_FILTER_VALUE_BYTES = 4096"

definition MAX_FIELD_BYTES :: nat where
  "MAX_FIELD_BYTES = 256"

definition LOGICAL_OPERATORS :: "jsstr list" where
  "LOGICAL_OPERATORS = map js [''$and'', ''$or'', ''$not'', ''$nor'']"

text \<open>Why the API refuses a request, one constructor per message.\<close>

datatype refusal =
    UnreadableRequest
  | UnknownKey jsstr
  | FiltersNotObject
  | TooManyFilters nat
  | LogicalOperator jsstr
  | FilterFieldTooLong
  | FilterValueTooLong jsstr
  | FilterOperator jsstr
  | SearchGiven
  | IncludesGiven
  | MalformedSort
  | SortFieldTooLong
  | BadSortOrder
  | NotAU32 jsstr
  | IncludeProofNotBool

datatype notReproducible = PrivateTokenKey jsstr | ElementDoesNotDecode bytes

datatype qerror =
    QueryRefusedError refusal
  | QueryNotVerifiableError jsstr
  | QueryResultNotVerifiableError notReproducible string
  | ReaderOutOfFuel
  | ProofFailed perror
  | WrongTotal nat
  | WrongWindow nat nat
  | WrongDocumentCount nat
  | InexactDocument nat jsstr
  | DocumentMismatch nat

type_synonym members = "(jsstr \<times> NodeJson) list"

record sortSpec =
  sfield :: jsstr
  descending :: bool

record QuerySelection =
  filters :: "(jsstr \<times> NodeJson) list"
  sortBy :: "sortSpec option"
  offset :: nat
  limit :: nat

text \<open>\<open>Number(value.n) <= U32_MAX\<close>: \<open>value.n\<close> is digits, and no integer past \<open>U32_MAX\<close> rounds below it.\<close>

definition isU32 :: "NodeJson option \<Rightarrow> bool" where
  "isU32 v =
     (case v of
        None \<Rightarrow> True
      | Some JNull \<Rightarrow> True
      | Some (JNum n) \<Rightarrow> n \<noteq> [] \<and> list_all isDigit n \<and> decVal n \<le> U32_MAX
      | _ \<Rightarrow> False)"

definition u32 :: "NodeJson option \<Rightarrow> nat \<Rightarrow> nat" where
  "u32 v fallback = (case v of Some (JNum n) \<Rightarrow> decVal n | _ \<Rightarrow> fallback)"

text \<open>\<open>Inr (Inl k)\<close>: an object of the request starts with the private token \<open>k\<close>.\<close>

definition readBody :: "jsstr \<Rightarrow> qerror + jsstr + members" where
  "readBody body =
     (case parseNodeJsonText body of
        Inl (NotReproducible k) \<Rightarrow> Inr (Inl k)
      | Inl _ \<Rightarrow> Inl ReaderOutOfFuel
      | Inr (Some (JObj f)) \<Rightarrow> Inr (Inr f)
      | Inr _ \<Rightarrow> Inl (QueryRefusedError UnreadableRequest))"

definition filterRefusal :: "jsstr \<times> NodeJson \<Rightarrow> refusal option" where
  "filterRefusal f =
     (let (field, v) = f in
      if field \<in> set LOGICAL_OPERATORS then Some (LogicalOperator field)
      else if utf8Length field > MAX_FIELD_BYTES then Some FilterFieldTooLong
      else if nodeJsonTextLength v > MAX_FILTER_VALUE_BYTES then Some (FilterValueTooLong field)
      else (case v of JObj _ \<Rightarrow> Some (FilterOperator field) | _ \<Rightarrow> None))"

definition filtersRefusal :: "NodeJson option \<Rightarrow> refusal option" where
  "filtersRefusal v =
     (case v of
        None \<Rightarrow> None
      | Some JNull \<Rightarrow> None
      | Some (JObj fs) \<Rightarrow>
          if length fs > MAX_FILTER_FIELDS then Some (TooManyFilters (length fs))
          else foldr or_else (map filterRefusal fs) None
      | Some _ \<Rightarrow> Some FiltersNotObject)"

definition sortRefusal :: "NodeJson option \<Rightarrow> refusal option" where
  "sortRefusal v =
     (case v of
        None \<Rightarrow> None
      | Some JNull \<Rightarrow> None
      | Some (JObj ob) \<Rightarrow>
          (case (length ob = 2, map_of ob (js ''field''), map_of ob (js ''order'')) of
             (True, Some (JStr field), Some (JStr order)) \<Rightarrow>
               if utf8Length field > MAX_FIELD_BYTES then Some SortFieldTooLong
               else if order \<noteq> js ''asc'' \<and> order \<noteq> js ''desc'' then Some BadSortOrder
               else None
           | _ \<Rightarrow> Some MalformedSort)
      | Some _ \<Rightarrow> Some MalformedSort)"

definition queryRefusal :: "members \<Rightarrow> refusal option" where
  "queryRefusal members =
     foldr or_else
       [map_option (\<lambda>e. UnknownKey (fst e)) (List.find (\<lambda>(k, _). k \<notin> set QUERY_KEYS) members),
        filtersRefusal (map_of members (js ''filters'')),
        (case map_of members (js ''search'') of None \<Rightarrow> None | Some JNull \<Rightarrow> None | Some _ \<Rightarrow> Some SearchGiven),
        (case map_of members (js ''includes'') of
           None \<Rightarrow> None | Some (JArr []) \<Rightarrow> None | Some _ \<Rightarrow> Some IncludesGiven),
        sortRefusal (map_of members (js ''sort'')),
        (if isU32 (map_of members (js ''limit'')) then None else Some (NotAU32 (js ''limit''))),
        (if isU32 (map_of members (js ''offset'')) then None else Some (NotAU32 (js ''offset''))),
        (case map_of members (js ''include_proof'') of
           None \<Rightarrow> None | Some JNull \<Rightarrow> None | Some (JBool _) \<Rightarrow> None | Some _ \<Rightarrow> Some IncludeProofNotBool)]
       None"

definition checkQueryAccepted :: "jsstr \<Rightarrow> qerror + unit" where
  "checkQueryAccepted body =
     bnd (readBody body) (\<lambda>r.
       (case r of
          Inl _ \<Rightarrow> Inr ()
        | Inr members \<Rightarrow> (case queryRefusal members of None \<Rightarrow> Inr () | Some e \<Rightarrow> Inl (QueryRefusedError e))))"

definition sortOf :: "NodeJson option \<Rightarrow> sortSpec option" where
  "sortOf v =
     (case v of
        Some (JObj ob) \<Rightarrow>
          (case (map_of ob (js ''field''), map_of ob (js ''order'')) of
             (Some (JStr field), Some (JStr order)) \<Rightarrow>
               Some \<lparr>sfield = field, descending = (order = js ''desc'')\<rparr>
           | _ \<Rightarrow> None)
      | _ \<Rightarrow> None)"

definition querySelection :: "jsstr \<Rightarrow> qerror + QuerySelection" where
  "querySelection body =
     bnd (readBody body) (\<lambda>r.
       (case r of
          Inl k \<Rightarrow> Inl (QueryNotVerifiableError k)
        | Inr members \<Rightarrow>
            (case queryRefusal members of
               Some e \<Rightarrow> Inl (QueryRefusedError e)
             | None \<Rightarrow>
                 Inr \<lparr>filters = (case map_of members (js ''filters'') of Some (JObj fs) \<Rightarrow> fs | _ \<Rightarrow> []),
                      sortBy = sortOf (map_of members (js ''sort'')),
                      offset = u32 (map_of members (js ''offset'')) 0,
                      limit = u32 (map_of members (js ''limit'')) DEFAULT_QUERY_LIMIT\<rparr>)))"

subsection \<open>Sort keys\<close>

fun splitOn :: "'a \<Rightarrow> 'a list \<Rightarrow> 'a list list" where
  "splitOn c [] = [[]]"
| "splitOn c (d # s) =
     (if d = c then [] # splitOn c s
      else (case splitOn c s of [] \<Rightarrow> [[d]] | p # ps \<Rightarrow> (d # p) # ps))"

fun valueAt :: "NodeJson \<Rightarrow> jsstr list \<Rightarrow> NodeJson option" where
  "valueAt current [] = Some current"
| "valueAt current (part # parts) =
     (case current of
        JObj ob \<Rightarrow> (case map_of ob part of None \<Rightarrow> None | Some next \<Rightarrow> valueAt next parts)
      | _ \<Rightarrow> None)"

definition fieldValue :: "NodeJson \<Rightarrow> jsstr \<Rightarrow> NodeJson option" where
  "fieldValue doc field = valueAt doc (splitOn 0x2e field)"

datatype SortKey =
    Missing
  | NullKey
  | BoolKey bool
  | NumKey "number option"
  | StrKey jsstr
  | ArrKey
  | ObjKey

fun rank :: "SortKey \<Rightarrow> nat" where
  "rank Missing = 0"
| "rank NullKey = 1"
| "rank (BoolKey _) = 2"
| "rank (NumKey _) = 3"
| "rank (StrKey _) = 4"
| "rank ArrKey = 5"
| "rank ObjKey = 6"

text \<open>The loop of \<open>significantDigits\<close>, with its two counters.\<close>

fun countDigits :: "nat \<Rightarrow> nat \<Rightarrow> jsstr \<Rightarrow> nat" where
  "countDigits cnt zeros [] = cnt"
| "countDigits cnt zeros (c # s) =
     (if c = 0x65 \<or> c = 0x45 then cnt
      else if c = 0x30 then countDigits cnt (if cnt > 0 then zeros + 1 else zeros) s
      else if c > 0x30 \<and> c \<le> 0x39 then countDigits (cnt + zeros + 1) 0 s
      else countDigits cnt zeros s)"

definition significantDigits :: "jsstr \<Rightarrow> nat" where
  "significantDigits s = countDigits 0 0 s"

definition sortNumber :: "runtime \<Rightarrow> jsstr \<Rightarrow> number option" where
  "sortNumber R s =
     (let f = (if significantDigits s > 20 then parseF64 s else toNumber R s) in
      if isFiniteNumber f then Some f else None)"

definition sortKey :: "runtime \<Rightarrow> NodeJson \<Rightarrow> jsstr \<Rightarrow> SortKey" where
  "sortKey R doc field =
     (case fieldValue doc field of
        None \<Rightarrow> Missing
      | Some JNull \<Rightarrow> NullKey
      | Some (JBool b) \<Rightarrow> BoolKey b
      | Some (JNum n) \<Rightarrow> NumKey (sortNumber R n)
      | Some (JStr s) \<Rightarrow> StrKey s
      | Some (JArr _) \<Rightarrow> ArrKey
      | Some (JObj _) \<Rightarrow> ObjKey)"

definition codePointAt :: "jsstr \<Rightarrow> nat" where
  "codePointAt s =
     (case s of
        c # d # _ \<Rightarrow>
          if c \<ge> 0xd800 \<and> c \<le> 0xdbff \<and> d \<ge> 0xdc00 \<and> d \<le> 0xdfff
          then (unat c - 0xd800) * 0x400 + (unat d - 0xdc00) + 0x10000
          else unat c
      | [c] \<Rightarrow> unat c
      | [] \<Rightarrow> 0)"

function compareCodePoints :: "jsstr \<Rightarrow> jsstr \<Rightarrow> int" where
  "compareCodePoints a b =
     (if a \<noteq> [] \<and> b \<noteq> [] then
        (let ca = codePointAt a; cb = codePointAt b in
         if ca \<noteq> cb then (if ca < cb then - 1 else 1)
         else compareCodePoints (drop (if ca > 0xffff then 2 else 1) a) (drop (if cb > 0xffff then 2 else 1) b))
      else if a \<noteq> [] then 1
      else if b \<noteq> [] then - 1
      else 0)"
  by pat_completeness auto

termination
  by (relation "measure (length \<circ> fst)") auto

declare compareCodePoints.simps [simp del]

fun compareKeys :: "SortKey \<Rightarrow> SortKey \<Rightarrow> int" where
  "compareKeys (BoolKey a) (BoolKey b) = of_bool a - of_bool b"
| "compareKeys (NumKey x) (NumKey y) =
     (case (x, y) of
        (Some m, Some n) \<Rightarrow>
          if numberVal m < numberVal n then - 1 else if numberVal m > numberVal n then 1 else 0
      | _ \<Rightarrow> if x = y then 0 else if x = None then - 1 else 1)"
| "compareKeys (StrKey a) (StrKey b) = compareCodePoints a b"
| "compareKeys a b = (if rank a \<noteq> rank b then (if rank a < rank b then - 1 else 1) else 0)"

text \<open>\<open>Array.prototype.sort\<close>.\<close>

fun insertBy :: "('a \<Rightarrow> 'a \<Rightarrow> int) \<Rightarrow> 'a \<Rightarrow> 'a list \<Rightarrow> 'a list" where
  "insertBy cmp x [] = [x]"
| "insertBy cmp x (y # ys) = (if cmp x y \<le> 0 then x # y # ys else y # insertBy cmp x ys)"

definition arraySort :: "('a \<Rightarrow> 'a \<Rightarrow> int) \<Rightarrow> 'a list \<Rightarrow> 'a list" where
  "arraySort cmp xs = foldr (insertBy cmp) xs []"

record keyedDoc =
  kdoc :: NodeJson
  kindex :: nat
  kkey :: SortKey

definition keyedOrder :: "bool \<Rightarrow> keyedDoc \<Rightarrow> keyedDoc \<Rightarrow> int" where
  "keyedOrder desc a b =
     (let c = (if desc then - 1 else 1) * compareKeys (kkey a) (kkey b) in
      if c \<noteq> 0 then c else int (kindex a) - int (kindex b))"

definition sortDocuments :: "runtime \<Rightarrow> NodeJson list \<Rightarrow> sortSpec \<Rightarrow> NodeJson list" where
  "sortDocuments R docs s =
     (let keyed = map (\<lambda>(i, d). \<lparr>kdoc = d, kindex = i, kkey = sortKey R d (sfield s)\<rparr>) (List.enumerate 0 docs) in
      map kdoc (arraySort (keyedOrder (descending s)) keyed))"

subsection \<open>The selection\<close>

definition matchesFilters :: "(jsstr \<times> NodeJson) list \<Rightarrow> NodeJson \<Rightarrow> bool" where
  "matchesFilters fs doc =
     list_all (\<lambda>(field, v). case fieldValue doc field of None \<Rightarrow> False | Some held \<Rightarrow> nodeJsonEqual held v) fs"

datatype serror = NotRepro notReproducible | SelectorOutOfFuel

text \<open>The loop over the entries.\<close>

fun selectLoop :: "runtime \<Rightarrow> (jsstr \<times> NodeJson) list \<Rightarrow> CompleteEntry list \<Rightarrow> NodeJson list \<Rightarrow> serror + NodeJson list" where
  "selectLoop R fs [] selected = Inr selected"
| "selectLoop R fs (e # es) selected =
     (case celement e of
        None \<Rightarrow> Inl (NotRepro (ElementDoesNotDecode (ckey e)))
      | Some element \<Rightarrow>
          (case (creference e, element) of
             (False, Item v _) \<Rightarrow>
               (case parseNodeJson (decodeText R) v of
                  Inl (NotReproducible k) \<Rightarrow> Inl (NotRepro (PrivateTokenKey k))
                | Inl _ \<Rightarrow> Inl SelectorOutOfFuel
                | Inr None \<Rightarrow> selectLoop R fs es selected
                | Inr (Some doc) \<Rightarrow>
                    selectLoop R fs es (if matchesFilters fs doc then selected @ [doc] else selected))
           | _ \<Rightarrow> selectLoop R fs es selected))"

definition selectDocuments :: "runtime \<Rightarrow> CompleteEntry list \<Rightarrow> QuerySelection \<Rightarrow> serror + NodeJson list \<times> nat" where
  "selectDocuments R es selection =
     bnd (selectLoop R (filters selection) es []) (\<lambda>selected.
       (let ordered = (case sortBy selection of None \<Rightarrow> selected | Some s \<Rightarrow> sortDocuments R selected s) in
        Inr (take (limit selection) (drop (offset selection) ordered), length ordered)))"

subsection \<open>The response\<close>

text \<open>The response is what the API sent: its \<open>total\<close>, \<open>offset\<close>, \<open>limit\<close> and \<open>documents\<close> are any values.\<close>

record QueryResponse =
  rproof :: "string option"
  rtotal :: jsval
  roffset :: jsval
  rlimit :: jsval
  rdocuments :: jsval

record ProvenQueryData =
  dentries :: "CompleteEntry list"
  droot :: string

definition provenQueryData ::
  "(bytes \<Rightarrow> bytes) \<Rightarrow> runtime \<Rightarrow> jsstr \<Rightarrow> QueryResponse \<Rightarrow> perror + ProvenQueryData" where
  "provenQueryData H R subgroveId response =
     (case rproof response of
        None \<Rightarrow> Inl NoProof
      | Some hex \<Rightarrow>
          if hex = [] then Inl NoProof
          else
            bnd (decodeProofBytes hex) (\<lambda>bs.
            bnd (wrap (verifyCompleteLayer H bs (encodePath R (subgroveDataPath subgroveId)))) (\<lambda>(r, es).
              Inr \<lparr>dentries = es, droot = hashToHex r\<rparr>)))"

text \<open>\<open>v === n\<close> for a number \<open>n\<close> that is a non-negative integer: \<open>0\<close> and \<open>-0\<close> are equal.\<close>

definition strictEqNat :: "jsval \<Rightarrow> nat \<Rightarrow> bool" where
  "strictEqNat v n = (case v of VNum x \<Rightarrow> isFiniteNumber x \<and> numberVal x = rat_of_nat n | _ \<Rightarrow> False)"

fun compareDocuments :: "runtime \<Rightarrow> nat \<Rightarrow> NodeJson list \<Rightarrow> jsval list \<Rightarrow> qerror + unit" where
  "compareDocuments R i (d # ds) (v # vs) =
     (case inexactNumber (exactIn R) d of
        Some n \<Rightarrow> Inl (InexactDocument i n)
      | None \<Rightarrow>
          if \<not> jsonDeepEqual (nodeJsonToJs (toNumber R) d) v then Inl (DocumentMismatch i)
          else compareDocuments R (i + 1) ds vs)"
| "compareDocuments R i _ _ = Inr ()"

definition checkQueryResult :: "runtime \<Rightarrow> ProvenQueryData \<Rightarrow> QuerySelection \<Rightarrow> QueryResponse \<Rightarrow> qerror + unit" where
  "checkQueryResult R data selection response =
     (case selectDocuments R (dentries data) selection of
        Inl (NotRepro e) \<Rightarrow> Inl (QueryResultNotVerifiableError e (droot data))
      | Inl SelectorOutOfFuel \<Rightarrow> Inl ReaderOutOfFuel
      | Inr (expected, n) \<Rightarrow>
          if \<not> strictEqNat (rtotal response) n then Inl (WrongTotal n)
          else if \<not> strictEqNat (roffset response) (offset selection) \<or> \<not> strictEqNat (rlimit response) (limit selection)
          then Inl (WrongWindow (offset selection) (limit selection))
          else
            (case rdocuments response of
               VArr documents \<Rightarrow>
                 if length documents \<noteq> length expected then Inl (WrongDocumentCount (length expected))
                 else compareDocuments R 0 expected documents
             | _ \<Rightarrow> Inl (WrongDocumentCount (length expected))))"

text \<open>\<open>{ ...query, include_proof: true }\<close>.\<close>

definition withProof :: "(jsstr \<times> jsval) list \<Rightarrow> jsval" where
  "withProof query = VObj (AList.update (js ''include_proof'') (VBool True) query)"

definition wrapq :: "perror + 'a \<Rightarrow> qerror + 'a" where
  "wrapq m = (case m of Inl e \<Rightarrow> Inl (ProofFailed e) | Inr x \<Rightarrow> Inr x)"

definition verifyQuerySelection ::
  "(bytes \<Rightarrow> bytes) \<Rightarrow> runtime \<Rightarrow> jsstr \<Rightarrow> (jsstr \<times> jsval) list \<Rightarrow> QueryResponse \<Rightarrow> string option \<Rightarrow> qerror + string" where
  "verifyQuerySelection H R subgroveId query response expected =
     bnd (querySelection (jsonStringify R (withProof query))) (\<lambda>selection.
     bnd (wrapq (provenQueryData H R subgroveId response)) (\<lambda>data.
     bnd (wrapq (enforceExpectedRoot (droot data) expected)) (\<lambda>_.
     bnd (checkQueryResult R data selection response) (\<lambda>_.
       Inr (droot data)))))"

end
