(* ===== verification/Sort_Order.thy ===== *)
theory Sort_Order
  imports Query_Selection
begin

text \<open>
  The order of a query's documents. \<open>compareCodePoints\<close> is the lexicographic order of code points,
  \<open>compareKeys\<close> a total preorder, and \<open>sortDocuments\<close> the stable sort by it in either direction.
  The contract of a comparison function used for sorting is the locale \<open>preorder_cmp\<close>; the
  stricter contract \<open>comparator\<close> gives it.
\<close>

subsection \<open>Comparison functions for sorting\<close>

locale preorder_cmp =
  fixes cmp :: "'a \<Rightarrow> 'a \<Rightarrow> int"
  assumes swap: "cmp a b \<le> 0 \<longleftrightarrow> cmp b a \<ge> 0"
    and trans: "cmp a b \<le> 0 \<Longrightarrow> cmp b c \<le> 0 \<Longrightarrow> cmp a c \<le> 0"
begin

lemma total: "\<not> cmp a b \<le> 0 \<Longrightarrow> cmp b a \<le> 0"
  using swap [of b a] by linarith

lemma refl: "cmp a a = 0"
  using swap [of a a] by linarith

lemma set_insertBy [simp]: "set (insertBy cmp x ys) = insert x (set ys)"
  by (induction ys) auto

lemma mset_insertBy: "mset (insertBy cmp x ys) = add_mset x (mset ys)"
  by (induction ys) auto

lemma sorted_insertBy:
  "sorted_wrt (\<lambda>a b. cmp a b \<le> 0) ys \<Longrightarrow> sorted_wrt (\<lambda>a b. cmp a b \<le> 0) (insertBy cmp x ys)"
proof (induction ys)
  case (Cons y ys)
  show ?case
  proof (cases "cmp x y \<le> 0")
    case True
    then have "\<forall>z\<in>set ys. cmp x z \<le> 0" using Cons.prems trans [OF True] by simp
    with True Cons.prems show ?thesis by simp
  next
    case False
    then have "cmp y x \<le> 0" by (rule total)
    with False Cons show ?thesis by simp
  qed
qed simp

lemma mset_sort: "mset (arraySort cmp xs) = mset xs"
  by (induction xs) (auto simp: arraySort_def mset_insertBy)

lemma sorted_sort: "sorted_wrt (\<lambda>a b. cmp a b \<le> 0) (arraySort cmp xs)"
  by (induction xs) (auto simp: arraySort_def sorted_insertBy)

end

sublocale comparator \<subseteq> preorder: preorder_cmp cmp
proof
  show swap: "cmp a b \<le> 0 \<longleftrightarrow> 0 \<le> cmp b a" for a b using cmp_0 cmp_swap by (metis less_le not_less)
  show "cmp a b \<le> 0 \<Longrightarrow> cmp b c \<le> 0 \<Longrightarrow> cmp a c \<le> 0" for a b c
    using cmp_0 cmp_trans by (metis le_less)
qed

subsection \<open>Code points\<close>

function codePoints :: "jsstr \<Rightarrow> nat list" where
  "codePoints s =
     (if s = [] then [] else codePointAt s # codePoints (drop (if codePointAt s > 0xffff then 2 else 1) s))"
  by pat_completeness auto

termination
  by (relation "measure length") auto

declare codePoints.simps [simp del]

fun lexCmp :: "nat list \<Rightarrow> nat list \<Rightarrow> int" where
  "lexCmp [] [] = 0"
| "lexCmp [] (y # ys) = - 1"
| "lexCmp (x # xs) [] = 1"
| "lexCmp (x # xs) (y # ys) = (if x \<noteq> y then (if x < y then - 1 else 1) else lexCmp xs ys)"

lemma codePoints_Nil [simp]: "codePoints [] = []"
  by (simp add: codePoints.simps)

lemma compareCodePoints_lex: "compareCodePoints a b = lexCmp (codePoints a) (codePoints b)"
proof (induction a b rule: compareCodePoints.induct)
  case (1 a b)
  then show ?case
    by (subst compareCodePoints.simps, cases "a = []"; cases "b = []")
      (auto simp: Let_def codePoints.simps [of a] codePoints.simps [of b])
qed

definition unitsOf :: "nat \<Rightarrow> jsstr" where
  "unitsOf n =
     (if n > 0xffff then [of_nat (0xd800 + (n - 0x10000) div 0x400), of_nat (0xdc00 + (n - 0x10000) mod 0x400)]
      else [of_nat n])"

lemma surrogates:
  fixes c d :: "16 word"
  assumes "0xd800 \<le> c" "0xdc00 \<le> d" "d \<le> 0xdfff"
  shows "unitsOf ((unat c - 0xd800) * 0x400 + (unat d - 0xdc00) + 0x10000) = [c, d]"
proof -
  have c: "0xd800 \<le> unat c" and d: "0xdc00 \<le> unat d" "unat d \<le> 0xdfff"
    using assms by (simp_all add: word_le_nat_alt)
  let ?m = "(unat c - 0xd800) * 0x400 + (unat d - 0xdc00)"
  have "unat d - 0xdc00 < 0x400" using d by simp
  then have "?m div 0x400 = unat c - 0xd800" "?m mod 0x400 = unat d - 0xdc00"
    by (simp_all only: div_mult_self3 mod_mult_self3) simp_all
  then have "0xd800 + (?m + 0x10000 - 0x10000) div 0x400 = unat c" "0xdc00 + (?m + 0x10000 - 0x10000) mod 0x400 = unat d"
    using c d by simp_all
  moreover have "?m + 0x10000 > 0xffff" by simp
  ultimately have "unitsOf (?m + 0x10000) = [of_nat (unat c), of_nat (unat d)]" by (simp only: unitsOf_def if_True)
  then show ?thesis by simp
qed

lemma units_at:
  assumes "s \<noteq> []"
  shows "unitsOf (codePointAt s) @ drop (if codePointAt s > 0xffff then 2 else 1) s = s"
proof -
  have one: "unitsOf (unat c) = [c] \<and> \<not> unat c > 0xffff" for c :: "16 word"
  proof -
    have "unat c < 65536" using unsigned_less [of c] by simp
    then show ?thesis by (simp add: unitsOf_def)
  qed
  show ?thesis
  proof (cases "\<exists>c d r. s = c # d # r \<and> c \<ge> 0xd800 \<and> c \<le> 0xdbff \<and> d \<ge> 0xdc00 \<and> d \<le> 0xdfff")
    case True
    then obtain c d r where s: "s = c # d # r" "c \<ge> 0xd800" "c \<le> 0xdbff" "d \<ge> 0xdc00" "d \<le> 0xdfff" by blast
    then show ?thesis using surrogates [OF s(2,4,5)] by (simp add: codePointAt_def)
  next
    case False
    then have "codePointAt s = unat (hd s)"
      using assms by (auto simp: codePointAt_def split: list.splits)
    then show ?thesis using assms one [of "hd s"] by (cases s) auto
  qed
qed

lemma codePoints_units: "concat (map unitsOf (codePoints s)) = s"
proof (induction s rule: codePoints.induct)
  case (1 s)
  then show ?case using units_at [of s] by (subst codePoints.simps) auto
qed

lemma codePoints_inj: "codePoints a = codePoints b \<Longrightarrow> a = b"
  by (metis codePoints_units)

lemma lexCmp_0: "lexCmp a b = 0 \<longleftrightarrow> a = b"
  by (induction a b rule: lexCmp.induct) auto

lemma lexCmp_swap: "lexCmp a b < 0 \<longleftrightarrow> 0 < lexCmp b a"
  by (induction a b rule: lexCmp.induct) auto

lemma lexCmp_lexordp: "lexCmp a b < 0 \<longleftrightarrow> ord_class.lexordp a b"
  by (induction a b rule: lexCmp.induct) auto

interpretation codePointOrder: comparator compareCodePoints
proof
  show "compareCodePoints a b = 0 \<longleftrightarrow> a = b" for a b
    using codePoints_inj by (auto simp: compareCodePoints_lex lexCmp_0)
  show "compareCodePoints a b < 0 \<longleftrightarrow> 0 < compareCodePoints b a" for a b
    by (simp add: compareCodePoints_lex lexCmp_swap)
  show "compareCodePoints a c < 0" if "compareCodePoints a b < 0" "compareCodePoints b c < 0" for a b c
    using that lexordp_trans by (auto simp: compareCodePoints_lex lexCmp_lexordp)
qed

text \<open>Strings are compared as Rust compares them: \<open>compareCodePoints\<close> is zero exactly on equal strings,
  its sign swaps with its arguments, and it is negative exactly when the first string's list of code
  points is lexicographically before the second's, lone surrogates standing for themselves.\<close>

theorem code_point_order:
  "(compareCodePoints a b = 0 \<longleftrightarrow> a = b) \<and>
   (compareCodePoints a b < 0 \<longleftrightarrow> 0 < compareCodePoints b a) \<and>
   (compareCodePoints a b < 0 \<longleftrightarrow> ord_class.lexordp (codePoints a) (codePoints b))"
  using codePointOrder.cmp_0 codePointOrder.cmp_swap by (simp add: compareCodePoints_lex lexCmp_lexordp)

subsection \<open>Sort keys\<close>

lemma compareKeys_rank: "rank a \<noteq> rank b \<Longrightarrow> compareKeys a b = (if rank a < rank b then - 1 else 1)"
  by (cases a; cases b) auto

lemma compareKeys_bool: "compareKeys (BoolKey a) (BoolKey b) \<le> 0 \<longleftrightarrow> (a \<longrightarrow> b)"
  by simp

lemma compareKeys_num:
  "compareKeys (NumKey x) (NumKey y) \<le> 0 \<longleftrightarrow>
     (case x of None \<Rightarrow> True | Some m \<Rightarrow> (case y of None \<Rightarrow> False | Some n \<Rightarrow> numberVal m \<le> numberVal n))"
  "compareKeys (NumKey x) (NumKey y) \<ge> 0 \<longleftrightarrow>
     (case y of None \<Rightarrow> True | Some n \<Rightarrow> (case x of None \<Rightarrow> False | Some m \<Rightarrow> numberVal n \<le> numberVal m))"
  by (auto split: option.splits)

lemma rank_iff:
  "rank c = 2 \<longleftrightarrow> (\<exists>z. c = BoolKey z)" "rank c = 3 \<longleftrightarrow> (\<exists>z. c = NumKey z)" "rank c = 4 \<longleftrightarrow> (\<exists>z. c = StrKey z)"
  by (cases c; simp)+

lemma compareKeys_tie: "rank a = rank b \<Longrightarrow> rank a \<notin> {2, 3, 4} \<Longrightarrow> compareKeys a b = 0"
  by (cases a; cases b) auto

lemma same_rank:
  assumes "rank a = rank b"
  obtains (tie) "rank a \<notin> {2, 3, 4}"
  | (bool) x y where "a = BoolKey x" "b = BoolKey y"
  | (num) x y where "a = NumKey x" "b = NumKey y"
  | (str) x y where "a = StrKey x" "b = StrKey y"
proof (cases "rank a \<in> {2, 3, 4}")
  case True
  then show ?thesis using assms bool num str rank_iff [of a] rank_iff [of b] by auto
next
  case False
  then show ?thesis by (rule tie)
qed

lemma compareKeys_swap: "compareKeys a b \<le> 0 \<longleftrightarrow> 0 \<le> compareKeys b a"
proof (cases "rank a = rank b")
  case True
  then show ?thesis
  proof (cases rule: same_rank)
    case (num x y)
    then show ?thesis by (simp only: compareKeys_num)
  qed (use True in \<open>auto simp: compareKeys_tie codePointOrder.preorder.swap\<close>)
qed (simp add: compareKeys_rank)

lemma compareKeys_trans:
  assumes ab: "compareKeys a b \<le> 0" and bc: "compareKeys b c \<le> 0"
  shows "compareKeys a c \<le> 0"
proof (cases "rank a = rank b \<and> rank b = rank c")
  case True
  then have "rank a = rank b" by blast
  then show ?thesis
  proof (cases rule: same_rank)
    case tie
    then show ?thesis using True compareKeys_tie [of a c] by simp
  next
    case (bool x y)
    then obtain z where "c = BoolKey z" using True rank_iff(1) [of c] by auto
    with bool ab bc show ?thesis by simp
  next
    case (num x y)
    then obtain z where "c = NumKey z" using True rank_iff(2) [of c] by auto
    with num ab bc show ?thesis by (simp only: compareKeys_num) (auto split: option.splits)
  next
    case (str x y)
    then obtain z where "c = StrKey z" using True rank_iff(3) [of c] by auto
    with str ab bc show ?thesis using codePointOrder.preorder.trans by simp
  qed
next
  case False
  then have "rank a < rank c"
    using ab bc by (cases "rank a = rank b"; cases "rank b = rank c") (auto simp: compareKeys_rank split: if_splits)
  then show ?thesis by (simp add: compareKeys_rank)
qed

interpretation keys: preorder_cmp compareKeys
  by unfold_locales (rule compareKeys_swap, rule compareKeys_trans)

subsection \<open>The stable sort\<close>

definition directed :: "bool \<Rightarrow> SortKey \<Rightarrow> SortKey \<Rightarrow> int" where
  "directed desc a b = (if desc then - 1 else 1) * compareKeys a b"

lemma compareKeys_0: "compareKeys a b = 0 \<longleftrightarrow> compareKeys a b \<le> 0 \<and> compareKeys b a \<le> 0"
  using keys.swap [of a b] keys.swap [of b a] by linarith

lemma directed_le: "directed desc a b \<le> 0 \<longleftrightarrow> (if desc then compareKeys b a \<le> 0 else compareKeys a b \<le> 0)"
  using keys.swap [of b a] by (simp add: directed_def)

interpretation directed: preorder_cmp "directed desc" for desc
proof
  show "directed desc a b \<le> 0 \<longleftrightarrow> 0 \<le> directed desc b a" for a b
    using keys.swap [of a b] keys.swap [of b a] by (simp add: directed_def)
  show "directed desc a b \<le> 0 \<Longrightarrow> directed desc b c \<le> 0 \<Longrightarrow> directed desc a c \<le> 0" for a b c
    using keys.trans by (auto simp: directed_le split: if_splits)
qed

lemma directed_0: "directed desc a b = 0 \<longleftrightarrow> compareKeys a b = 0"
  by (simp add: directed_def)

lemma keyedOrder_le:
  "keyedOrder desc a b \<le> 0 \<longleftrightarrow> directed desc (kkey a) (kkey b) \<le> 0 \<and>
     (compareKeys (kkey a) (kkey b) = 0 \<longrightarrow> kindex a \<le> kindex b)"
  by (auto simp: keyedOrder_def directed_def Let_def)

interpretation keyed: preorder_cmp "keyedOrder desc" for desc
proof
  show "keyedOrder desc a b \<le> 0 \<longleftrightarrow> 0 \<le> keyedOrder desc b a" for a b
    using directed.swap [of desc "kkey a" "kkey b"] directed_0 [of desc "kkey a" "kkey b"] directed_0 [of desc "kkey b" "kkey a"]
      compareKeys_0 [of "kkey a" "kkey b"] compareKeys_0 [of "kkey b" "kkey a"]
    by (auto simp: keyedOrder_def directed_def Let_def)
  show "keyedOrder desc a c \<le> 0" if "keyedOrder desc a b \<le> 0" "keyedOrder desc b c \<le> 0" for a b c
  proof -
    have le: "directed desc (kkey a) (kkey b) \<le> 0" "directed desc (kkey b) (kkey c) \<le> 0"
      using that by (simp_all add: keyedOrder_le)
    have "kindex a \<le> kindex c" if z: "compareKeys (kkey a) (kkey c) = 0"
    proof -
      have "directed desc (kkey c) (kkey a) \<le> 0" using z compareKeys_0 [of "kkey a" "kkey c"] by (simp add: directed_le)
      then have "directed desc (kkey b) (kkey a) \<le> 0" "directed desc (kkey c) (kkey b) \<le> 0"
        using le directed.trans by blast+
      then have "compareKeys (kkey a) (kkey b) = 0" "compareKeys (kkey b) (kkey c) = 0"
        using le compareKeys_0 by (auto simp: directed_le split: if_splits)
      then show ?thesis
        using \<open>keyedOrder desc a b \<le> 0\<close> \<open>keyedOrder desc b c \<le> 0\<close> by (simp add: keyedOrder_le)
    qed
    with directed.trans [OF le] show ?thesis by (simp add: keyedOrder_le)
  qed
qed

lemma ties_trans: "compareKeys a k = 0 \<Longrightarrow> compareKeys b k = 0 \<Longrightarrow> compareKeys a b = 0"
  using keys.trans compareKeys_0 by meson

text \<open>Two lists with the same elements, ascending in a key that tells them apart, are equal.\<close>

lemma ascending_unique:
  assumes "mset xs = mset ys" "sorted (map f xs)" "sorted (map f ys)" "inj_on f (set ys)"
  shows "xs = ys"
proof -
  have "mset (map f xs) = mset (map f ys)" using assms(1) by simp
  then have "map f xs = map f ys" using assms(2,3) properties_for_sort by metis
  moreover have "set xs = set ys" using assms(1) by (rule mset_eq_setD)
  ultimately show ?thesis using assms(4) by (simp add: inj_on_map_eq_map)
qed

definition keyedDocs :: "runtime \<Rightarrow> jsstr \<Rightarrow> NodeJson list \<Rightarrow> keyedDoc list" where
  "keyedDocs R field docs =
     map (\<lambda>(i, d). \<lparr>kdoc = d, kindex = i, kkey = sortKey R d field\<rparr>) (List.enumerate 0 docs)"

lemma keyedDocs_facts:
  "map kdoc (keyedDocs R field docs) = docs"
  "map kindex (keyedDocs R field docs) = [0..<length docs]"
  "\<forall>x\<in>set (keyedDocs R field docs). kkey x = sortKey R (kdoc x) field"
proof -
  have "kdoc \<circ> (\<lambda>(i, d). \<lparr>kdoc = d, kindex = i, kkey = sortKey R d field\<rparr>) = snd"
    "kindex \<circ> (\<lambda>(i, d). \<lparr>kdoc = d, kindex = i, kkey = sortKey R d field\<rparr>) = fst" by (auto simp: fun_eq_iff)
  then show "map kdoc (keyedDocs R field docs) = docs" "map kindex (keyedDocs R field docs) = [0..<length docs]"
    by (simp_all add: keyedDocs_def)
qed (auto simp: keyedDocs_def)

lemma sort_facts:
  "mset (sortDocuments R docs s) = mset docs \<and>
   sorted_wrt (\<lambda>a b. directed (descending s) (sortKey R a (sfield s)) (sortKey R b (sfield s)) \<le> 0) (sortDocuments R docs s) \<and>
   (\<forall>k. filter (\<lambda>d. compareKeys (sortKey R d (sfield s)) k = 0) (sortDocuments R docs s) =
      filter (\<lambda>d. compareKeys (sortKey R d (sfield s)) k = 0) docs)"
proof -
  let ?K = "keyedDocs R (sfield s) docs"
  let ?S = "arraySort (keyedOrder (descending s)) ?K"
  note K = keyedDocs_facts [of R "sfield s" docs]
  have sd: "sortDocuments R docs s = map kdoc ?S" by (simp add: sortDocuments_def keyedDocs_def Let_def)
  have ms: "mset ?S = mset ?K" by (rule keyed.mset_sort)
  then have key: "\<forall>x\<in>set ?S. kkey x = sortKey R (kdoc x) (sfield s)" using K(3) mset_eq_setD by blast
  have so: "sorted_wrt (\<lambda>a b. keyedOrder (descending s) a b \<le> 0) ?S" by (rule keyed.sorted_sort)
  have inj: "inj_on kindex (set ?K)" using K(2) by (metis distinct_map distinct_upt)
  have "mset (map kdoc ?S) = mset docs" using ms K(1) by (metis mset_map)
  moreover have "sorted_wrt (\<lambda>a b. directed (descending s) (sortKey R a (sfield s)) (sortKey R b (sfield s)) \<le> 0) (map kdoc ?S)"
    using sorted_wrt_mono_rel [OF _ so] key by (simp add: sorted_wrt_map keyedOrder_le)
  moreover have "filter (\<lambda>d. compareKeys (sortKey R d (sfield s)) k = 0) (map kdoc ?S) =
      filter (\<lambda>d. compareKeys (sortKey R d (sfield s)) k = 0) docs" for k
  proof -
    let ?t = "\<lambda>x. compareKeys (kkey x) k = 0"
    have "filter ?t ?S = filter ?t ?K"
    proof (rule ascending_unique [where f = kindex])
      have "sorted_wrt (\<lambda>a b. keyedOrder (descending s) a b \<le> 0) (filter ?t ?S)" using so by (rule sorted_wrt_filter)
      then have "sorted_wrt (\<lambda>a b. kindex a \<le> kindex b) (filter ?t ?S)"
        by (rule sorted_wrt_mono_rel [rotated]) (auto simp: keyedOrder_le dest: ties_trans)
      then show "sorted (map kindex (filter ?t ?S))" by (simp add: sorted_map)
      have "sorted_wrt (\<lambda>a b. kindex a \<le> kindex b) ?K" using K(2) by (metis sorted_map sorted_upt)
      then show "sorted (map kindex (filter ?t ?K))" by (simp add: sorted_map sorted_wrt_filter)
    qed (use ms inj in \<open>auto simp: inj_on_def\<close>)
    moreover have "filter (\<lambda>d. compareKeys (sortKey R d (sfield s)) k = 0) (map kdoc L) = map kdoc (filter ?t L)"
      if "\<forall>x\<in>set L. kkey x = sortKey R (kdoc x) (sfield s)" for L
      using that by (induction L) auto
    ultimately show ?thesis using key K(1,3) by metis
  qed
  ultimately show ?thesis by (simp add: sd)
qed

text \<open>C13: The sort of a query's documents is the stable one: a permutation of them, ordered by the sort
  field in the direction asked for, with the documents that tie on it (two objects, two missing
  fields, \<open>0\<close> and \<open>-0\<close>) in their key order, whichever the direction.\<close>

theorem sort_documents_stable:
  "mset (sortDocuments R docs s) = mset docs \<and>
   sorted_wrt (\<lambda>a b. directed (descending s) (sortKey R a (sfield s)) (sortKey R b (sfield s)) \<le> 0) (sortDocuments R docs s) \<and>
   (\<forall>k. filter (\<lambda>d. compareKeys (sortKey R d (sfield s)) k = 0) (sortDocuments R docs s) =
      filter (\<lambda>d. compareKeys (sortKey R d (sfield s)) k = 0) docs)"
  by (rule sort_facts)

end
