(* ===== verification/Committed_State.thy ===== *)
theory Committed_State
  imports Verifier
begin

text \<open>
  The abstract specification the verifier is checked against: the state a root hash commits to.
  A \<open>state\<close> is a merk tree of entries, whose contents are a stored element, a reference with
  the element it refers to, or a subtree; \<open>mhash\<close> is GroveDB's commitment to it. The main lemma
  \<open>covers_tree\<close> says what a rebuilt proof tree with the same root says of it: its nodes, read in
  order, are the entries in order, but for the pruned nodes, which stand for a segment each.

  Collision freedom is assumed of the inputs hashed in the state and in the proof only. The hash
  of a value and the two combining hashes have no domain tag, so values whose preimage is as long
  as a combined one are told apart nowhere: \<open>wfState\<close> excludes stored elements of 63 bytes, and
  conclusions about values exclude 63 and 95 bytes (see \<open>valueInput_64\<close>, \<open>valueInput_96\<close>).
\<close>

subsection \<open>The state and its commitment\<close>

datatype state = Tip | Nd state bytes content state
  and content = Stored bytes | Refers bytes bytes | Subtree bytes state

primrec mhash :: "(bytes \<Rightarrow> bytes) \<Rightarrow> state \<Rightarrow> CryptoHash"
  and chash :: "(bytes \<Rightarrow> bytes) \<Rightarrow> content \<Rightarrow> CryptoHash" where
  "mhash H Tip = NULL_HASH"
| "mhash H (Nd l k c r) = nodeHash H (kvDigestToKvHash H k (chash H c)) (mhash H l) (mhash H r)"
| "chash H (Stored v) = valueHash H v"
| "chash H (Refers s v) = combineHash H (valueHash H s) (valueHash H v)"
| "chash H (Subtree e m) = combineHash H (valueHash H e) (mhash H m)"

primrec entries :: "state \<Rightarrow> (bytes \<times> content) list" where
  "entries Tip = []"
| "entries (Nd l k c r) = entries l @ (k, c) # entries r"

text \<open>The element \<open>c\<close> under key \<open>k\<close> at a path, and the subtree at a path.\<close>

fun subAt :: "state \<Rightarrow> bytes list \<Rightarrow> state \<Rightarrow> bool" where
  "subAt m [] m' \<longleftrightarrow> m = m'"
| "subAt m (p # ps) m' \<longleftrightarrow>
     list_ex (\<lambda>(k, c). k = p \<and> (case c of Subtree _ n \<Rightarrow> subAt n ps m' | _ \<Rightarrow> False)) (entries m)"

fun holds :: "state \<Rightarrow> bytes list \<Rightarrow> bytes \<Rightarrow> content \<Rightarrow> bool" where
  "holds m [] k c \<longleftrightarrow> (k, c) \<in> set (entries m)"
| "holds m (p # ps) k c \<longleftrightarrow>
     list_ex (\<lambda>(q, d). q = p \<and> (case d of Subtree _ n \<Rightarrow> holds n ps k c | _ \<Rightarrow> False)) (entries m)"

definition isTreeBytes :: "bytes \<Rightarrow> bool" where
  "isTreeBytes v = (case tryDeserializeElement v of None \<Rightarrow> False | Some el \<Rightarrow> isTreeElement el)"

text \<open>What GroveDB keeps of a state: keys ascending, tree elements at subtrees and only there, with
  a root key exactly when the subtree is not empty; and no stored element of 63 bytes.\<close>

primrec wfState :: "state \<Rightarrow> bool" and wfContent :: "content \<Rightarrow> bool" where
  "wfState Tip \<longleftrightarrow> True"
| "wfState (Nd l k c r) \<longleftrightarrow> wfState l \<and> wfContent c \<and> wfState r \<and>
     (\<forall>q\<in>fst ` set (entries l). compareBytes q k < 0) \<and>
     (\<forall>q\<in>fst ` set (entries r). compareBytes k q < 0)"
| "wfContent (Stored v) \<longleftrightarrow> \<not> isTreeBytes v \<and> length v \<noteq> 63"
| "wfContent (Refers s v) \<longleftrightarrow> \<not> isTreeBytes s \<and> \<not> isTreeBytes v \<and> length s \<noteq> 63"
| "wfContent (Subtree e m) \<longleftrightarrow> wfState m \<and> length e \<noteq> 63 \<and> isTreeBytes e \<and>
     (isTreeWithRoot (tryDeserializeElement e) \<longleftrightarrow> m \<noteq> Tip)"

text \<open>Every input hashed in a state.\<close>

primrec sinputs :: "(bytes \<Rightarrow> bytes) \<Rightarrow> state \<Rightarrow> bytes set"
  and cinputs :: "(bytes \<Rightarrow> bytes) \<Rightarrow> content \<Rightarrow> bytes set" where
  "sinputs H Tip = {}"
| "sinputs H (Nd l k c r) =
     {nodeInput (kvDigestToKvHash H k (chash H c)) (mhash H l) (mhash H r), kvInput k (chash H c)} \<union>
     sinputs H l \<union> cinputs H c \<union> sinputs H r"
| "cinputs H (Stored v) = {valueInput v}"
| "cinputs H (Refers s v) = {valueInput s, valueInput v, combineInput (valueHash H s) (valueHash H v)}"
| "cinputs H (Subtree e m) = {valueInput e, combineInput (valueHash H e) (mhash H m)} \<union> sinputs H m"

lemma length_mhash [simp]: "hash32 H \<Longrightarrow> length (mhash H m) = 32"
  by (cases m) auto

lemma length_chash [simp]: "hash32 H \<Longrightarrow> length (chash H c) = 32"
  by (cases c) auto

lemma wfState_ascending: "wfState m \<Longrightarrow> ascending (map fst (entries m))"
proof (induction m rule: state.induct [where ?P2.0 = "\<lambda>_. True"])
  case (Nd l k c r)
  then show ?case using key.cmp_trans by (fastforce simp: sorted_wrt_append)
qed auto

lemma wfState_content: "wfState m \<Longrightarrow> (k, c) \<in> set (entries m) \<Longrightarrow> wfContent c"
  by (induction m rule: state.induct [where ?P2.0 = "\<lambda>_. True"]) auto

lemma entries_inputs: "(k, c) \<in> set (entries m) \<Longrightarrow> cinputs H c \<subseteq> sinputs H m \<and> kvInput k (chash H c) \<in> sinputs H m"
  by (induction m rule: state.induct [where ?P2.0 = "\<lambda>_. True"]) auto

lemma entries_functional:
  assumes "wfState m" "(k, c) \<in> set (entries m)" "(k, d) \<in> set (entries m)"
  shows "c = d"
proof -
  have "distinct (map fst (entries m))"
    using key.ascending_distinct [OF wfState_ascending [OF assms(1)]] .
  with assms(2,3) show ?thesis by (metis eq_key_imp_eq_value)
qed

lemma list_ex_subtree:
  "list_ex (\<lambda>(k, c). k = p \<and> (case c of Subtree _ n \<Rightarrow> P n | _ \<Rightarrow> False)) es \<longleftrightarrow>
     (\<exists>e n. (p, Subtree e n) \<in> set es \<and> P n)"
proof (induction es)
  case (Cons x es)
  obtain k c where "x = (k, c)" by (cases x)
  with Cons show ?case by (cases c) auto
qed simp

lemma subAt_Cons: "subAt m (p # ps) m' \<longleftrightarrow> (\<exists>e n. (p, Subtree e n) \<in> set (entries m) \<and> subAt n ps m')"
  by (simp only: subAt.simps list_ex_subtree)

lemma holds_Cons: "holds m (p # ps) k c \<longleftrightarrow> (\<exists>e n. (p, Subtree e n) \<in> set (entries m) \<and> holds n ps k c)"
  by (simp only: holds.simps list_ex_subtree)

declare subAt.simps(2) [simp del] holds.simps(2) [simp del]

lemma subAt_wf: "subAt m ps m' \<Longrightarrow> wfState m \<Longrightarrow> wfState m' \<and> sinputs H m' \<subseteq> sinputs H m"
proof (induction ps arbitrary: m)
  case (Cons p ps)
  then obtain e n where e: "(p, Subtree e n) \<in> set (entries m)" "subAt n ps m'"
    by (auto simp: subAt_Cons)
  with wfState_content [OF Cons.prems(2) e(1)] Cons.IH [of n] entries_inputs [OF e(1), of H]
  show ?case by auto
qed auto

lemma subAt_unique: "subAt m ps m1 \<Longrightarrow> subAt m ps m2 \<Longrightarrow> wfState m \<Longrightarrow> m1 = m2"
proof (induction ps arbitrary: m)
  case (Cons p ps)
  then obtain e n f n' where "(p, Subtree e n) \<in> set (entries m)" "subAt n ps m1"
    "(p, Subtree f n') \<in> set (entries m)" "subAt n' ps m2"
    by (auto simp: subAt_Cons)
  moreover from this have "n = n'" using entries_functional [OF Cons.prems(3)] by blast
  ultimately show ?case
    using Cons.IH [of n] wfState_content [OF Cons.prems(3)] by fastforce
qed auto

lemma holds_append: "holds m (ps @ qs) k c \<longleftrightarrow> (\<exists>m'. subAt m ps m' \<and> holds m' qs k c)"
  by (induction ps arbitrary: m) (auto simp: holds_Cons subAt_Cons)

lemma subAt_append: "subAt m (ps @ qs) m' \<longleftrightarrow> (\<exists>n. subAt m ps n \<and> subAt n qs m')"
  by (induction ps arbitrary: m) (auto simp: subAt_Cons)

lemma holds_subAt: "holds m ps k c \<longleftrightarrow> (\<exists>m'. subAt m ps m' \<and> (k, c) \<in> set (entries m'))"
  using holds_append [of m ps "[]"] by simp

subsection \<open>What a rebuilt tree says of the state\<close>

primrec ninputs :: "(bytes \<Rightarrow> bytes) \<Rightarrow> MerkNode \<Rightarrow> bytes set" where
  "ninputs H (Hash h) = {}"
| "ninputs H (KVHash h) = {}"
| "ninputs H (KV k v) = {valueInput v, kvInput k (valueHash H v)}"
| "ninputs H (KVValueHash k v vh) = {valueInput v, kvInput k vh}"
| "ninputs H (KVDigest k vh) = {kvInput k vh}"
| "ninputs H (KVRefValueHash k v h) =
     {valueInput v, combineInput h (valueHash H v), kvInput k (combineHash H h (valueHash H v))}"
| "ninputs H (KVValueHashFeatureType k v vh ft) = {valueInput v, kvInput k vh}"

primrec tinputs :: "(bytes \<Rightarrow> bytes) \<Rightarrow> mtree \<Rightarrow> bytes set"
  and tinputsC :: "(bytes \<Rightarrow> bytes) \<Rightarrow> child \<Rightarrow> bytes set" where
  "tinputs H (MTree n l r) =
     (if nodeTag n = THash then {}
      else insert (nodeInput (kvOf H n) (cachedHash l) (cachedHash r)) (ninputs H n)) \<union>
     tinputsC H l \<union> tinputsC H r"
| "tinputsC H NoChild = {}"
| "tinputsC H (ChildOf t h) = tinputs H t"

lemma ninputs_tinputs: "n \<in> set (nodes t) \<Longrightarrow> ninputs H n \<subseteq> tinputs H t"
  "n \<in> set (nodesC c) \<Longrightarrow> ninputs H n \<subseteq> tinputsC H c"
  by (induction t and c rule: mtree.induct child.induct) (auto simp: nodeTag_THash)

text \<open>How a node binds the content under its key.\<close>

fun nodeBinds :: "(bytes \<Rightarrow> bytes) \<Rightarrow> MerkNode \<Rightarrow> content \<Rightarrow> bool" where
  "nodeBinds H (Hash h) c = False"
| "nodeBinds H (KVHash h) c = True"
| "nodeBinds H (KV k v) c = (valueHash H v = chash H c)"
| "nodeBinds H (KVValueHash k v vh) c = (vh = chash H c)"
| "nodeBinds H (KVDigest k vh) c = (vh = chash H c)"
| "nodeBinds H (KVRefValueHash k v h) c = (combineHash H h (valueHash H v) = chash H c)"
| "nodeBinds H (KVValueHashFeatureType k v vh ft) c = (vh = chash H c)"

inductive covers :: "(bytes \<Rightarrow> bytes) \<Rightarrow> MerkNode list \<Rightarrow> (bytes \<times> content) list \<Rightarrow> bool"
  for H :: "bytes \<Rightarrow> bytes" where
  covers_Nil: "covers H [] []"
| covers_Hash: "covers H ns es \<Longrightarrow> covers H (Hash h # ns) (seg @ es)"
| covers_Node: "covers H ns es \<Longrightarrow> nodeBinds H n c \<Longrightarrow> (\<forall>q. nodeKey n = Some q \<longrightarrow> q = k) \<Longrightarrow>
    covers H (n # ns) ((k, c) # es)"

inductive_simps covers_Nil_iff [simp]: "covers H [] es"
inductive_simps covers_Cons_iff: "covers H (n # ns) es"

lemma covers_append:
  assumes "covers H ns es" and "covers H ms fs"
  shows "covers H (ns @ ms) (es @ fs)"
  using assms(1)
proof (induction rule: covers.induct)
  case (covers_Hash ns es h seg)
  from covers.covers_Hash [OF covers_Hash.IH, of h seg] show ?case by simp
qed (auto intro: assms(2) covers.intros)

lemma covers_split:
  "covers H (ns @ ms) es \<Longrightarrow> \<exists>es1 es2. es = es1 @ es2 \<and> covers H ns es1 \<and> covers H ms es2"
proof (induction ns arbitrary: es)
  case (Cons n ns)
  from Cons.prems consider
      (hash) h seg es' where "n = Hash h" "es = seg @ es'" "covers H (ns @ ms) es'"
    | (node) k c es' where "es = (k, c) # es'" "nodeBinds H n c" "\<forall>q. nodeKey n = Some q \<longrightarrow> q = k"
        "covers H (ns @ ms) es'"
    by (auto simp: covers_Cons_iff)
  then show ?case
  proof cases
    case hash
    with Cons.IH [of es'] show ?thesis
      using covers_Hash [of H ns _ h seg] by (metis append_assoc)
  next
    case node
    with Cons.IH [of es'] show ?thesis
      using covers_Node [of H ns _ n c k] by (metis append_Cons)
  qed
qed auto

lemma covers_mem:
  assumes "covers H ns es" "n \<in> set ns" "nodeKey n = Some k"
  shows "\<exists>c. (k, c) \<in> set es \<and> nodeBinds H n c"
  using assms by (induction rule: covers.induct) auto

lemma length_kvOf: "hash32 H \<Longrightarrow> wfNode n \<Longrightarrow> length (kvOf H n) = 32"
  by (cases n) auto

lemma length_thash: "hash32 H \<Longrightarrow> wfNode (mnode t) \<Longrightarrow> length (thash H t) = 32"
  by (auto simp: thash_def length_kvOf)

lemma length_cachedHash:
  "hash32 H \<Longrightarrow> cachedC H c \<Longrightarrow> list_all wfNode (nodesC c) \<Longrightarrow> length (cachedHash c) = 32"
proof (cases c)
  case (ChildOf t h)
  assume a: "hash32 H" "cachedC H c" "list_all wfNode (nodesC c)"
  have "wfNode (mnode t)" using a(3) ChildOf by (cases t) auto
  with a ChildOf show ?thesis by (simp add: length_thash)
qed simp

lemma kvOf_binds:
  assumes "hash32 H" "collision_free H S" "ninputs H n \<subseteq> S" "kvInput k (chash H c) \<in> S"
    and "wfNode n" "nodeTag n \<noteq> THash"
    and "kvOf H n = kvDigestToKvHash H k (chash H c)"
  shows "nodeBinds H n c \<and> (\<forall>q. nodeKey n = Some q \<longrightarrow> q = k)"
proof -
  have kv: "q = k \<and> x = chash H c"
    if "kvDigestToKvHash H q x = kvDigestToKvHash H k (chash H c)" "kvInput q x \<in> S" "length x = 32" for q x
    using collision_freeD [OF assms(2), of "kvInput q x" "kvInput k (chash H c)"] that assms(1,4)
    by (auto simp: kvDigestToKvHash_def blake3Hash_def dest: kvInput_inj)
  show ?thesis
    using assms(1,3,5,6,7) by (cases n) (auto dest!: kv)
qed

lemma covers_tree:
  assumes "hash32 H"
  shows "cached H t \<Longrightarrow> thash H t = mhash H m \<Longrightarrow> list_all wfNode (nodes t) \<Longrightarrow>
      collision_free H (tinputs H t \<union> sinputs H m) \<Longrightarrow> covers H (nodes t) (entries m)"
    and "cachedC H c \<Longrightarrow> cachedHash c = mhash H m \<Longrightarrow> list_all wfNode (nodesC c) \<Longrightarrow>
      collision_free H (tinputsC H c \<union> sinputs H m) \<Longrightarrow> covers H (nodesC c) (entries m)"
proof (induction t and c arbitrary: m and m rule: mtree.induct child.induct)
  case (MTree n l r)
  show ?case
  proof (cases "nodeTag n = THash")
    case True
    then obtain h where "n = Hash h" by (auto simp: nodeTag_THash)
    with MTree.prems(1) True show ?thesis
      using covers_Hash [OF covers_Nil, of H h "entries m"] by simp
  next
    case False
    let ?in = "nodeInput (kvOf H n) (cachedHash l) (cachedHash r)"
    let ?S = "tinputs H (MTree n l r) \<union> sinputs H m"
    have root: "H ?in = mhash H m"
      using MTree.prems(2) False by (simp add: thash_def nodeHash_def blake3Hash_def)
    have inS: "?in \<in> ?S" using False by simp
    obtain ml k c mr where m: "m = Nd ml k c mr"
      using root collision_free_null [OF MTree.prems(4) inS] by (cases m) simp_all
    have len: "length (kvOf H n) = 32" "length (cachedHash l) = 32" "length (cachedHash r) = 32"
      using assms MTree.prems(1,3) by (simp_all add: length_kvOf length_cachedHash)
    let ?in' = "nodeInput (kvDigestToKvHash H k (chash H c)) (mhash H ml) (mhash H mr)"
    have "H ?in = H ?in'" using root m by (simp add: nodeHash_def blake3Hash_def)
    from collision_freeD [OF MTree.prems(4) this inS] m have "?in = ?in'" by simp
    from nodeInput_inj [OF this] len assms
    have eq: "kvOf H n = kvDigestToKvHash H k (chash H c)" "cachedHash l = mhash H ml"
      "cachedHash r = mhash H mr" by simp_all
    have "ninputs H n \<subseteq> ?S" "kvInput k (chash H c) \<in> ?S" "wfNode n"
      using False m MTree.prems(3) by auto
    from kvOf_binds [OF assms MTree.prems(4) this False eq(1)]
    have b: "nodeBinds H n c \<and> (\<forall>q. nodeKey n = Some q \<longrightarrow> q = k)" .
    have subl: "tinputsC H l \<union> sinputs H ml \<subseteq> ?S" and subr: "tinputsC H r \<union> sinputs H mr \<subseteq> ?S"
      using m by auto
    have "covers H (nodesC l) (entries ml)"
      by (rule MTree.IH(1) [OF _ eq(2) _ collision_free_subset [OF MTree.prems(4) subl]])
        (use MTree.prems in simp_all)
    moreover have "covers H (nodesC r) (entries mr)"
      by (rule MTree.IH(2) [OF _ eq(3) _ collision_free_subset [OF MTree.prems(4) subr]])
        (use MTree.prems in simp_all)
    ultimately show ?thesis
      using b m covers_append [OF _ covers_Node] by simp
  qed
next
  case NoChild
  have "m = Tip"
  proof (cases m)
    case (Nd l k d r)
    let ?in = "nodeInput (kvDigestToKvHash H k (chash H d)) (mhash H l) (mhash H r)"
    have "H ?in = NULL_HASH" using NoChild.prems(2) Nd by (simp add: nodeHash_def blake3Hash_def)
    moreover have "H ?in \<noteq> NULL_HASH"
      by (rule collision_free_null [OF NoChild.prems(4)]) (simp add: Nd)
    ultimately show ?thesis by simp
  qed simp
  then show ?case by simp
next
  case (ChildOf t h)
  then show ?case by auto
qed

end
