(* ===== verification/Verify_Soundness.thy ===== *)
theory Verify_Soundness
  imports Committed_State
begin

text \<open>
  Soundness of the verifier against the committed state: under a root hash that is the hash of a
  state, every entry it returns is in the state, a key it proves absent is absent, and a layer it
  proves complete is the whole subtree. The hypotheses are that BLAKE3 (\<open>H\<close>) returns 32 bytes and
  has no collision among the inputs hashed in the proof (\<open>linputs\<close>) and in the state (\<open>sinputs\<close>).
\<close>

subsection \<open>The inputs a proof hashes\<close>

definition layerTree :: "(bytes \<Rightarrow> bytes) \<Rightarrow> LayerProof \<Rightarrow> mtree option" where
  "layerTree H layer =
     (case executeMerkProof H (merkProofOf layer) False of Inl _ \<Rightarrow> None | Inr t \<Rightarrow> Some t)"

definition layerRoot :: "(bytes \<Rightarrow> bytes) \<Rightarrow> LayerProof \<Rightarrow> CryptoHash" where
  "layerRoot H layer = (case layerTree H layer of None \<Rightarrow> [] | Some t \<Rightarrow> thash H t)"

definition valuesOf :: "mtree \<Rightarrow> bytes list" where
  "valuesOf t = List.map_filter nodeValue (nodes t)"

definition ownInputs :: "(bytes \<Rightarrow> bytes) \<Rightarrow> LayerProof \<Rightarrow> bytes set" where
  "ownInputs H layer =
     (case layerTree H layer of
        None \<Rightarrow> {}
      | Some t \<Rightarrow> tinputs H t \<union>
          (\<Union>v\<in>set (valuesOf t). insert (combineInput (valueHash H v) NULL_HASH)
             ((\<lambda>(k, l). combineInput (valueHash H v) (layerRoot H l)) ` set (lowerLayersOf layer))))"

fun linputs :: "(bytes \<Rightarrow> bytes) \<Rightarrow> LayerProof \<Rightarrow> bytes set" where
  "linputs H (LayerProof mp lls) =
     ownInputs H (LayerProof mp lls) \<union> \<Union> (set (map (\<lambda>(k, l). linputs H l) lls))"

lemma linputs_own: "ownInputs H layer \<subseteq> linputs H layer"
  by (cases layer) auto

lemma linputs_lower: "map_of (lowerLayersOf layer) k = Some l \<Longrightarrow> linputs H l \<subseteq> linputs H layer"
  by (cases layer) (fastforce dest: map_of_SomeD)

subsection \<open>What hash equations say\<close>

lemma hash_value_combine:
  assumes "collision_free H S" "valueInput v \<in> S" "combineInput a b \<in> S" "valueHash H v = combineHash H a b"
  shows "length v = 63"
proof -
  have "H (valueInput v) = H (combineInput a b)"
    using assms(4) by (simp add: valueHash_def combineHash_def blake3Hash_def)
  from collision_freeD [OF assms(1) this assms(2,3)] show ?thesis using valueInput_64 [of v] by simp
qed

lemma hash_combine:
  assumes "collision_free H S" "combineInput a b \<in> S" "combineInput c d \<in> S"
    and "combineHash H a b = combineHash H c d"
    and "length a = 32" "length b = 32" "length c = 32" "length d = 32"
  shows "a = c \<and> b = d"
proof -
  have "H (combineInput a b) = H (combineInput c d)"
    using assms(4) by (simp add: combineHash_def blake3Hash_def)
  from combineInput_inj [OF collision_freeD [OF assms(1) this assms(2,3)]] assms show ?thesis by simp
qed

lemma hash_value_state:
  assumes "collision_free H S" "valueInput v \<in> S" "sinputs H m \<subseteq> S" "valueHash H v = mhash H m"
  shows "length v = 95"
proof (cases m)
  case Tip
  then show ?thesis
    using assms collision_free_null [OF assms(1,2)] by (simp add: valueHash_def blake3Hash_def)
next
  case (Nd l k c r)
  let ?in = "nodeInput (kvDigestToKvHash H k (chash H c)) (mhash H l) (mhash H r)"
  have "H (valueInput v) = H ?in"
    using assms(4) Nd by (simp add: valueHash_def nodeHash_def blake3Hash_def)
  from collision_freeD [OF assms(1) this assms(2)] assms(3) Nd have "valueInput v = ?in" by simp
  then have "length (valueInput v) = 96" by simp
  then show ?thesis by (simp only: valueInput_96)
qed

lemma null_state: "collision_free H (sinputs H m) \<Longrightarrow> mhash H m = NULL_HASH \<Longrightarrow> m = Tip"
  using collision_free_null [of H "sinputs H m"]
  by (cases m) (auto simp: nodeHash_def blake3Hash_def)

lemma chash_value:
  assumes "collision_free H S" "valueInput v \<in> S" "cinputs H c \<subseteq> S" "valueHash H v = chash H c"
    and "length v \<noteq> 63"
  shows "c = Stored v"
proof (cases c)
  case (Stored w)
  have "valueInput w \<in> S" using assms(3) unfolding Stored by simp
  from valueHash_eqD [OF assms(1,2) this assms(4) [unfolded Stored chash.simps]]
  show ?thesis using Stored by simp
next
  case (Refers s w)
  have "combineInput (valueHash H s) (valueHash H w) \<in> S" using assms(3) unfolding Refers by simp
  from hash_value_combine [OF assms(1,2) this assms(4) [unfolded Refers chash.simps]] assms(5)
  show ?thesis by blast
next
  case (Subtree e m)
  have "combineInput (valueHash H e) (mhash H m) \<in> S" using assms(3) unfolding Subtree by simp
  from hash_value_combine [OF assms(1,2) this assms(4) [unfolded Subtree chash.simps]] assms(5)
  show ?thesis by blast
qed

lemma chash_combine:
  assumes "hash32 H" "collision_free H S" "combineInput a b \<in> S" "cinputs H c \<subseteq> S"
    and "combineHash H a b = chash H c" "wfContent c" "length a = 32" "length b = 32"
  shows "(\<exists>s w. c = Refers s w \<and> a = valueHash H s \<and> b = valueHash H w) \<or>
    (\<exists>e m. c = Subtree e m \<and> a = valueHash H e \<and> b = mhash H m)"
proof (cases c)
  case (Stored w)
  have "valueInput w \<in> S" using assms(4) unfolding Stored by simp
  moreover have "valueHash H w = combineHash H a b" using assms(5) unfolding Stored chash.simps by (rule sym)
  ultimately have "length w = 63" using hash_value_combine [OF assms(2) _ assms(3)] by blast
  with assms(6) show ?thesis unfolding Stored by simp
next
  case (Refers s w)
  have "combineInput (valueHash H s) (valueHash H w) \<in> S" using assms(4) unfolding Refers by simp
  from hash_combine [OF assms(2,3) this assms(5) [unfolded Refers chash.simps] assms(7,8)] assms(1)
  have "a = valueHash H s \<and> b = valueHash H w" by (simp only: length_hashes)
  then show ?thesis using Refers by blast
next
  case (Subtree e m)
  have "combineInput (valueHash H e) (mhash H m) \<in> S" using assms(4) unfolding Subtree by simp
  from hash_combine [OF assms(2,3) this assms(5) [unfolded Subtree chash.simps] assms(7,8)] assms(1)
  have "a = valueHash H e \<and> b = mhash H m" by (simp only: length_hashes length_mhash)
  then show ?thesis using Subtree by blast
qed

subsection \<open>A proved entry and the content under its key\<close>

definition proofBinds :: "(bytes \<Rightarrow> bytes) \<Rightarrow> ProvedKeyValue \<Rightarrow> bytes \<Rightarrow> content \<Rightarrow> bool" where
  "proofBinds H p v c \<longleftrightarrow>
     (if pnodeType p = TKVRefValueHash then combineHash H (pproof p) (valueHash H v) = chash H c
      else pproof p = chash H c) \<and>
     (pnodeType p = TKV \<longrightarrow> pproof p = valueHash H v) \<and> length (pproof p) = 32"

definition storedAs :: "NodeType \<Rightarrow> content \<Rightarrow> bytes \<Rightarrow> bool" where
  "storedAs ty c v \<longleftrightarrow>
     (if ty = TKVRefValueHash then \<exists>s. c = Refers s v else c = Stored v \<or> c = Subtree v Tip)"

lemma reported_provedOf: "p \<in> set (reported H lim ns) \<Longrightarrow> \<exists>n\<in>set ns. provedOf H n = Some p"
  by (induction ns arbitrary: lim) (auto split: if_splits option.splits)

lemma provedOf_node:
  assumes "provedOf H n = Some p" "pvalue p = Some v" "wfNode n" "hash32 H"
  shows "nodeKey n = Some (pkey p) \<and> nodeValue n = Some v \<and> valueInput v \<in> ninputs H n \<and>
    (nodeBinds H n c \<longrightarrow> proofBinds H p v c) \<and>
    (pnodeType p = TKVRefValueHash \<longrightarrow> combineInput (pproof p) (valueHash H v) \<in> ninputs H n) \<and>
    pnodeType p \<in> {TKV, TKVValueHash, TKVValueHashFeatureType, TKVRefValueHash}"
  using assms by (cases n) (auto simp: proofBinds_def)

text \<open>What one layer's proof establishes of each value it proves.\<close>

definition layerFacts ::
  "(bytes \<Rightarrow> bytes) \<Rightarrow> bytes set \<Rightarrow> state \<Rightarrow> ProvedKeyValue \<Rightarrow> bytes \<Rightarrow> content \<Rightarrow> bool" where
  "layerFacts H S m p v c \<longleftrightarrow>
     (pkey p, c) \<in> set (entries m) \<and> wfContent c \<and> cinputs H c \<subseteq> S \<and> proofBinds H p v c \<and>
     valueInput v \<in> S \<and> combineInput (valueHash H v) NULL_HASH \<in> S \<and>
     (pnodeType p = TKVRefValueHash \<longrightarrow> combineInput (pproof p) (valueHash H v) \<in> S) \<and>
     pnodeType p \<in> {TKV, TKVValueHash, TKVValueHashFeatureType, TKVRefValueHash}"

lemma leaf_sound:
  assumes "hash32 H" "collision_free H S" "layerFacts H S m p v c" "pvalue p = Some v"
    and "bindLeafValue H p (tryDeserializeElement v) = Inr b"
  shows "(b = EmptyTree \<longrightarrow> c = Subtree v Tip) \<and>
    (b = Bound \<longrightarrow> length v \<notin> {63, 95} \<longrightarrow> storedAs (pnodeType p) c v) \<and>
    (b = EmptyTree \<longrightarrow> pnodeType p \<noteq> TKVRefValueHash)"
proof -
  note f = assms(3) [unfolded layerFacts_def]
  show ?thesis
  proof (cases "pnodeType p = TKVRefValueHash")
    case True
    have "storedAs TKVRefValueHash c v" if "length v \<notin> {63, 95}"
    proof -
      from f True have *: "combineHash H (pproof p) (valueHash H v) = chash H c" "length (pproof p) = 32"
        by (auto simp: proofBinds_def)
      have "(\<exists>s w. c = Refers s w \<and> valueHash H v = valueHash H w) \<or>
          (\<exists>e m. c = Subtree e m \<and> valueHash H v = mhash H m)"
        using chash_combine [OF assms(1,2) _ _ *(1)] * f True assms(1) by auto
      then show ?thesis
      proof
        assume "\<exists>s w. c = Refers s w \<and> valueHash H v = valueHash H w"
        then show ?thesis
          using f valueHash_eqD [OF assms(2)] by (fastforce simp: storedAs_def)
      next
        assume "\<exists>e m. c = Subtree e m \<and> valueHash H v = mhash H m"
        then show ?thesis
          using f hash_value_state [OF assms(2), of v] that by fastforce
      qed
    qed
    with True assms(4,5) show ?thesis by (auto simp: bindLeafValue_def)
  next
    case False
    then have pr: "pproof p = chash H c" and kv: "pnodeType p = TKV \<Longrightarrow> pproof p = valueHash H v"
      using f by (auto simp: proofBinds_def)
    have bound: "c = Stored v" if "pproof p = valueHash H v" "length v \<noteq> 63"
      using chash_value [OF assms(2)] that pr f by auto
    have empty: "c = Subtree v Tip"
      if "combineHash H (valueHash H v) NULL_HASH = pproof p" "isTreeBytes v"
    proof -
      have "(\<exists>s w. c = Refers s w \<and> valueHash H v = valueHash H s) \<or>
          (\<exists>e m. c = Subtree e m \<and> valueHash H v = valueHash H e \<and> NULL_HASH = mhash H m)"
        using chash_combine [OF assms(1,2), of "valueHash H v" NULL_HASH c] that pr f assms(1) by auto
      then show ?thesis
      proof
        assume "\<exists>s w. c = Refers s w \<and> valueHash H v = valueHash H s"
        then obtain s w where c: "c = Refers s w" "v = s"
          using f valueHash_eqD [OF assms(2)] by fastforce
        with f that(2) show ?thesis by auto
      next
        assume "\<exists>e m. c = Subtree e m \<and> valueHash H v = valueHash H e \<and> NULL_HASH = mhash H m"
        then obtain e m where c: "c = Subtree e m" "v = e" "mhash H m = NULL_HASH"
          using f valueHash_eqD [OF assms(2)] by fastforce
        moreover have "m = Tip"
          using null_state [of H m] c(1,3) f collision_free_subset [OF assms(2), of "sinputs H m"] by auto
        ultimately show ?thesis by simp
      qed
    qed
    show ?thesis
      using False f assms(4,5) kv bound empty
      by (auto simp: bindLeafValue_def isTreeBytes_def storedAs_def Let_def split: if_splits option.splits)
  qed
qed

lemma lower_sound:
  assumes "hash32 H" "collision_free H S" "layerFacts H S m p v c"
    and "isTreeWithRoot (tryDeserializeElement v)"
    and "combineHash H (valueHash H v) lower = pproof p" "length lower = 32"
    and "combineInput (valueHash H v) lower \<in> S"
  shows "\<exists>n. c = Subtree v n \<and> mhash H n = lower"
proof -
  note f = assms(3) [unfolded layerFacts_def]
  have tree: "isTreeBytes v"
    using assms(4) by (auto simp: isTreeWithRoot_def isTreeBytes_def split: option.splits)
  show ?thesis
  proof (cases "pnodeType p = TKVRefValueHash")
    case True
    with f have *: "combineHash H (pproof p) (valueHash H v) = chash H c" "length (pproof p) = 32"
      by (auto simp: proofBinds_def)
    have "(\<exists>s w. c = Refers s w \<and> valueHash H v = valueHash H w) \<or>
        (\<exists>e m. c = Subtree e m \<and> pproof p = valueHash H e)"
      using chash_combine [OF assms(1,2) _ _ *(1)] * f True assms(1) by auto
    then show ?thesis
    proof
      assume "\<exists>s w. c = Refers s w \<and> valueHash H v = valueHash H w"
      then obtain s w where c: "c = Refers s w" "v = w"
        using f valueHash_eqD [OF assms(2)] by fastforce
      with f tree show ?thesis by auto
    next
      assume "\<exists>e m. c = Subtree e m \<and> pproof p = valueHash H e"
      then obtain e m where c: "c = Subtree e m" "pproof p = valueHash H e" by blast
      have "length e = 63"
        using hash_value_combine [OF assms(2) _ assms(7), of e] c assms(5) f by auto
      with f c(1) show ?thesis by simp
    qed
  next
    case False
    then have "combineHash H (valueHash H v) lower = chash H c"
      using f assms(5) by (auto simp: proofBinds_def)
    then have "(\<exists>s w. c = Refers s w \<and> valueHash H v = valueHash H s) \<or>
        (\<exists>e m. c = Subtree e m \<and> valueHash H v = valueHash H e \<and> lower = mhash H m)"
      using chash_combine [OF assms(1,2), of "valueHash H v" lower c] assms f by auto
    then show ?thesis
    proof
      assume "\<exists>s w. c = Refers s w \<and> valueHash H v = valueHash H s"
      then obtain s w where c: "c = Refers s w" "v = s"
        using f valueHash_eqD [OF assms(2)] by fastforce
      with f tree show ?thesis by auto
    next
      assume "\<exists>e m. c = Subtree e m \<and> valueHash H v = valueHash H e \<and> lower = mhash H m"
      then show ?thesis using f valueHash_eqD [OF assms(2)] by fastforce
    qed
  qed
qed

subsection \<open>One layer's tree\<close>

definition layerTurn :: "(bytes \<Rightarrow> bytes) \<Rightarrow> LayerProof \<Rightarrow> bytes list \<Rightarrow> int option \<Rightarrow> bool \<Rightarrow>
    ProvedKeyValue \<Rightarrow> unit vmeth" where
  "layerTurn H layer currentPath limit deserializeElements proved s =
     (case pvalue proved of
        None \<Rightarrow> Inr ((), s)
      | Some value \<Rightarrow>
          (case map_of (lowerLayersOf layer) (bytesToHex (pkey proved)) of
             None \<Rightarrow> leafEntry H currentPath deserializeElements proved value s
           | Some lowerLayer \<Rightarrow>
               if isTreeWithRoot (tryDeserializeElement value) then
                 bind (verifyLayerProof H lowerLayer (currentPath @ [pkey proved])
                     (map_option (\<lambda>l. l - int (length (vresults s))) limit)
                     deserializeElements)
                   (\<lambda>lowerHash.
                      let combined = combineHash H (valueHash H value) lowerHash in
                      if \<not> hashEquals combined (pproof proved)
                      then throw (LowerLayerHashMismatch (currentPath @ [pkey proved]))
                      else ret ()) s
               else Inl (LayerForNonTree (currentPath @ [pkey proved]))))"

lemma verifyLayerProof_eq:
  "verifyLayerProof H layer path lim deser s0 =
     bind (lift (executeMerkProofWithQuery H (merkProofOf layer) lim)) (\<lambda>r s1.
       case List.find (\<lambda>keyHex. keyHex \<notin> valueKeys r) (map fst (lowerLayersOf layer)) of
         Some keyHex \<Rightarrow> Inl (LayerUnderUnprovedKey path keyHex)
       | None \<Rightarrow> bind (forEach (resultSet r) (layerTurn H layer path lim deser))
           (\<lambda>_. ret (merkRoot r)) s1) s0"
  by (subst verifyLayerProof.simps) (simp only: layerTurn_def [abs_def])

lemma find_outside: "List.find (\<lambda>k. k \<notin> K) xs = None \<longleftrightarrow> (\<forall>k\<in>set xs. k \<in> K)"
  by (simp add: find_None_iff) blast

lemma verifyLayerProof_Inr:
  "verifyLayerProof H layer path lim deser s0 = Inr (root, s) \<longleftrightarrow>
     (\<exists>r. executeMerkProofWithQuery H (merkProofOf layer) lim = Inr r \<and>
        (\<forall>k\<in>fst ` set (lowerLayersOf layer). k \<in> valueKeys r) \<and>
        forEach (resultSet r) (layerTurn H layer path lim deser) s0 = Inr ((), s) \<and>
        root = merkRoot r)"
proof -
  have c: "(case List.find (\<lambda>k. k \<notin> valueKeys r) (map fst (lowerLayersOf layer)) of
       None \<Rightarrow> x | Some k \<Rightarrow> Inl (LayerUnderUnprovedKey path k)) = Inr y \<longleftrightarrow>
     (\<forall>k\<in>fst ` set (lowerLayersOf layer). k \<in> valueKeys r) \<and> x = Inr y"
    for r and x :: "gerror + CryptoHash \<times> vstate" and y
    using find_outside [of "valueKeys r" "map fst (lowerLayersOf layer)"]
    by (cases "List.find (\<lambda>k. k \<notin> valueKeys r) (map fst (lowerLayersOf layer))") auto
  show ?thesis
    by (subst verifyLayerProof_eq) (simp only: bind_eq_Inr lift_eq_Inr ex_simps c, auto)
qed

lemma layerTurn_Inr:
  assumes "layerTurn H layer path lim deser p s = Inr ((), t)"
  obtains (digest) "pvalue p = None" "t = s"
  | (leaf) v where "pvalue p = Some v" "leafEntry H path deser p v s = Inr ((), t)"
      "map_of (lowerLayersOf layer) (bytesToHex (pkey p)) = None"
  | (lower) v l lh where "pvalue p = Some v" "isTreeWithRoot (tryDeserializeElement v)"
      "map_of (lowerLayersOf layer) (bytesToHex (pkey p)) = Some l"
      "verifyLayerProof H l (path @ [pkey p]) (map_option (\<lambda>l. l - int (length (vresults s))) lim)
         deser s = Inr (lh, t)"
      "combineHash H (valueHash H v) lh = pproof p"
  using assms unfolding layerTurn_def
  by (auto simp: Let_def split: option.splits if_splits)

lemma wfNode_pushed: "list_all wfOp ops \<Longrightarrow> list_all wfNode (pushed ops)"
  by (induction ops rule: pushed.induct) auto

lemma layer_tree:
  assumes "executeMerkProofWithQuery H (merkProofOf layer) lim = Inr r"
  shows "\<exists>t. layerTree H layer = Some t \<and> merkRoot r = thash H t \<and> cached H t \<and>
    list_all wfNode (nodes t) \<and>
    (\<forall>p\<in>set (resultSet r). \<exists>n\<in>set (nodes t). provedOf H n = Some p) \<and>
    (lim = None \<longrightarrow> (\<forall>n\<in>set (nodes t). \<forall>p. provedOf H n = Some p \<longrightarrow> p \<in> set (resultSet r))) \<and>
    valueKeys r = valueKeysOf (nodes t)"
proof -
  from executeMerkProofWithQuery_tree [OF assms] obtain t ops
    where t: "executeMerkProof H (merkProofOf layer) False = Inr t" "merkRoot r = thash H t"
      "list_all wfOp ops" "rebuilt H ops t" "resultSet r = reported H lim (pushed ops)"
      "valueKeys r = valueKeysOf (pushed ops)" by blast
  then have set: "set (nodes t) = set (pushed ops)" by (metis rebuilt_def set_mset_mset)
  moreover have "list_all wfNode (nodes t)"
    using wfNode_pushed [OF t(3)] set by (simp add: list_all_iff)
  moreover have "p \<in> set (reported H None ns)" if "n \<in> set ns" "provedOf H n = Some p" for n p ns
    using that by (auto simp: reported_no_limit List.map_filter_def intro!: image_eqI [of _ _ n])
  ultimately show ?thesis
    using t reported_provedOf [of _ H lim "pushed ops"]
    by (auto simp: layerTree_def rebuilt_def valueKeysOf_def)
qed

lemma layerRoot_eq: "layerTree H layer = Some t \<Longrightarrow> layerRoot H layer = thash H t"
  by (simp add: layerRoot_def)

lemma verify_root:
  assumes "verifyLayerProof H layer path lim deser s0 = Inr (root, s)"
  shows "root = layerRoot H layer \<and> (hash32 H \<longrightarrow> length root = 32)"
proof -
  from assms obtain r where "executeMerkProofWithQuery H (merkProofOf layer) lim = Inr r" "root = merkRoot r"
    by (auto simp: verifyLayerProof_Inr)
  moreover from layer_tree [OF this(1)] obtain t where "layerTree H layer = Some t"
    "merkRoot r = thash H t" "list_all wfNode (nodes t)" by blast
  moreover have "mnode t \<in> set (nodes t)" by (cases t) simp
  ultimately show ?thesis by (auto simp: layerRoot_eq list_all_iff intro: length_thash)
qed

lemma layer_covers:
  assumes "hash32 H" "layerTree H layer = Some t" "cached H t" "list_all wfNode (nodes t)"
    and "thash H t = mhash H m" "collision_free H (linputs H layer \<union> sinputs H m)"
  shows "covers H (nodes t) (entries m)"
proof -
  have "tinputs H t \<subseteq> linputs H layer"
    using linputs_own [of H layer] assms(2) by (auto simp: ownInputs_def)
  then have "collision_free H (tinputs H t \<union> sinputs H m)"
    using collision_free_subset [OF assms(6)] by blast
  from covers_tree(1) [OF assms(1,3,5,4) this] show ?thesis .
qed

lemma node_facts:
  assumes hs: "hash32 H" and t: "layerTree H layer = Some t" "list_all wfNode (nodes t)"
    and wf: "wfState m" and S: "linputs H layer \<union> sinputs H m \<subseteq> S"
    and n: "n \<in> set (nodes t)" "provedOf H n = Some p" "pvalue p = Some v"
    and c: "(pkey p, c) \<in> set (entries m)" "nodeBinds H n c"
  shows "layerFacts H S m p v c \<and>
    (\<forall>k l. map_of (lowerLayersOf layer) k = Some l \<longrightarrow> combineInput (valueHash H v) (layerRoot H l) \<in> S)"
proof -
  have wfn: "wfNode n" using t(2) n(1) by (simp add: list_all_iff)
  note pn = provedOf_node [OF n(2,3) wfn hs, of c]
  have v: "v \<in> set (valuesOf t)"
    using pn n(1) by (force simp: valuesOf_def List.map_filter_def)
  have own: "ownInputs H layer \<subseteq> S" using linputs_own S by blast
  then have "tinputs H t \<subseteq> S" "combineInput (valueHash H v) NULL_HASH \<in> S"
    and low: "\<forall>(k, l)\<in>set (lowerLayersOf layer). combineInput (valueHash H v) (layerRoot H l) \<in> S"
    using t(1) v by (auto simp: ownInputs_def)
  moreover have "ninputs H n \<subseteq> S" using ninputs_tinputs(1) [OF n(1)] calculation(1) by blast
  moreover have "wfContent c" "cinputs H c \<subseteq> S"
    using wfState_content [OF wf c(1)] entries_inputs [OF c(1), of H] S by auto
  ultimately have "layerFacts H S m p v c" using c pn unfolding layerFacts_def by blast
  moreover have "combineInput (valueHash H v) (layerRoot H l) \<in> S"
    if "map_of (lowerLayersOf layer) k = Some l" for k l
    using low map_of_SomeD [OF that] by blast
  ultimately show ?thesis by blast
qed

lemma layer_facts:
  assumes hs: "hash32 H" and ex: "executeMerkProofWithQuery H (merkProofOf layer) lim = Inr r"
    and root: "merkRoot r = mhash H m" and wf: "wfState m"
    and cf: "collision_free H S" "linputs H layer \<union> sinputs H m \<subseteq> S"
    and p: "p \<in> set (resultSet r)" "pvalue p = Some v"
  shows "\<exists>c. layerFacts H S m p v c \<and>
    (\<forall>k l. map_of (lowerLayersOf layer) k = Some l \<longrightarrow> combineInput (valueHash H v) (layerRoot H l) \<in> S)"
proof -
  from layer_tree [OF ex] p(1) obtain t n where t: "layerTree H layer = Some t" "merkRoot r = thash H t"
    "cached H t" "list_all wfNode (nodes t)" and n: "n \<in> set (nodes t)" "provedOf H n = Some p" by blast
  have "covers H (nodes t) (entries m)"
    using layer_covers [OF hs t(1,3,4)] t(2) root collision_free_subset [OF cf] by simp
  moreover have "nodeKey n = Some (pkey p)"
    using provedOf_node [OF n(2) p(2) _ hs] t(4) n(1) by (simp add: list_all_iff)
  ultimately obtain c where "(pkey p, c) \<in> set (entries m)" "nodeBinds H n c"
    using covers_mem [OF _ n(1)] by blast
  from node_facts [OF hs t(1,4) wf cf(2) n p(2) this] show ?thesis by blast
qed

subsection \<open>Layers under their state\<close>

definition soundEntry :: "state \<Rightarrow> bytes list \<Rightarrow> ProvenEntry \<Rightarrow> bool" where
  "soundEntry m path e \<longleftrightarrow>
     (\<exists>c. holds m path (ekey e) c \<and>
        (\<forall>v. evalue e = Some v \<and> length v \<notin> {63, 95} \<longrightarrow> storedAs (enodeType e) c v)) \<and>
     (\<forall>el. eelement e = Some el \<longrightarrow> (\<exists>v. evalue e = Some v \<and> tryDeserializeElement v = Some el))"

definition grows :: "state \<Rightarrow> bytes list \<Rightarrow> vstate \<Rightarrow> vstate \<Rightarrow> bool" where
  "grows m path s t \<longleftrightarrow>
     (\<exists>new. vresults t = vresults s @ new \<and>
        (\<forall>e\<in>set new. \<exists>rel. epath e = path @ rel \<and> soundEntry m rel e)) \<and>
     (\<forall>x\<in>emptyTrees t. x \<in> emptyTrees s \<or>
        (\<exists>rel k v. x = entryId (path @ rel) k \<and> holds m rel k (Subtree v Tip)))"

lemma grows_refl: "grows m path s s"
  by (simp add: grows_def)

lemma grows_trans:
  assumes "grows m path s t" "grows m path t u"
  shows "grows m path s u"
proof -
  from assms obtain n1 n2 where "vresults t = vresults s @ n1" "vresults u = vresults t @ n2"
    and "\<forall>e\<in>set n1. \<exists>rel. epath e = path @ rel \<and> soundEntry m rel e"
    and "\<forall>e\<in>set n2. \<exists>rel. epath e = path @ rel \<and> soundEntry m rel e"
    unfolding grows_def by blast
  then have "vresults u = vresults s @ n1 @ n2"
    "\<forall>e\<in>set (n1 @ n2). \<exists>rel. epath e = path @ rel \<and> soundEntry m rel e" by auto
  moreover have "\<forall>x\<in>emptyTrees u. x \<in> emptyTrees s \<or>
      (\<exists>rel k v. x = entryId (path @ rel) k \<and> holds m rel k (Subtree v Tip))"
    using assms unfolding grows_def by blast
  ultimately show ?thesis unfolding grows_def by blast
qed

lemma soundEntry_sub:
  "(k, Subtree v n) \<in> set (entries m) \<Longrightarrow> soundEntry n rel e \<Longrightarrow> soundEntry m (k # rel) e"
  unfolding soundEntry_def holds_Cons by blast

lemma grows_sub:
  assumes k: "(k, Subtree v n) \<in> set (entries m)" and g: "grows n (path @ [k]) s t"
  shows "grows m path s t"
proof -
  from g obtain new where new: "vresults t = vresults s @ new"
    and e: "\<forall>e\<in>set new. \<exists>rel. epath e = (path @ [k]) @ rel \<and> soundEntry n rel e"
    and x: "\<forall>x\<in>emptyTrees t. x \<in> emptyTrees s \<or>
        (\<exists>rel q v. x = entryId ((path @ [k]) @ rel) q \<and> holds n rel q (Subtree v Tip))"
    unfolding grows_def by blast
  have "\<exists>rel. epath a = path @ rel \<and> soundEntry m rel a" if "a \<in> set new" for a
  proof -
    from e that obtain rel where "epath a = (path @ [k]) @ rel" "soundEntry n rel a" by blast
    with soundEntry_sub [OF k] show ?thesis by (intro exI [of _ "k # rel"]) simp
  qed
  moreover have "y \<in> emptyTrees s \<or> (\<exists>rel q v. y = entryId (path @ rel) q \<and> holds m rel q (Subtree v Tip))"
    if "y \<in> emptyTrees t" for y
  proof (cases "y \<in> emptyTrees s")
    case False
    with x that obtain rel q w where "y = entryId ((path @ [k]) @ rel) q" "holds n rel q (Subtree w Tip)"
      by blast
    then have "y = entryId (path @ k # rel) q" "holds m (k # rel) q (Subtree w Tip)"
      using k by (auto simp: holds_Cons)
    then show ?thesis by blast
  qed simp
  ultimately show ?thesis unfolding grows_def using new by blast
qed

lemma leaf_grows:
  assumes "hash32 H" "collision_free H S" "layerFacts H S m p v c" "pvalue p = Some v"
    and "leafEntry H path deser p v s = Inr ((), t)"
  shows "grows m path s t"
proof -
  from assms(5) obtain b where b: "bindLeafValue H p (tryDeserializeElement v) = Inr b"
    by (auto simp: leafEntry_def Let_def)
  let ?e = "tryDeserializeElement v"
  let ?s = "if b = EmptyTree then s\<lparr>emptyTrees := insert (entryId path (pkey p)) (emptyTrees s)\<rparr> else s"
  let ?entry = "\<lparr>epath = path, ekey = pkey p, evalue = (if b \<noteq> UnboundTree then Some v else None),
      eelement = (if b \<noteq> UnboundTree \<and> deser then ?e else None),
      etree = (case ?e of None \<Rightarrow> False | Some el \<Rightarrow> isTreeElement el), enodeType = pnodeType p\<rparr>"
  have t: "t = ?s\<lparr>vresults := vresults ?s @ [?entry]\<rparr>"
    using assms(5) b by (simp add: leafEntry_def Let_def)
  have k: "holds m [] (pkey p) c" using assms(3) by (simp add: layerFacts_def)
  note l = leaf_sound [OF assms(1-4) b]
  have "storedAs (pnodeType p) c v" if "b \<noteq> UnboundTree" "length v \<notin> {63, 95}"
    using that l by (cases b) (auto simp: storedAs_def)
  then have "soundEntry m [] ?entry" using k unfolding soundEntry_def by auto
  moreover have "vresults t = vresults s @ [?entry]" using t by simp
  moreover have "emptyTrees t = (if b = EmptyTree then insert (entryId path (pkey p)) (emptyTrees s) else emptyTrees s)"
    using t by simp
  moreover have "\<exists>rel q w. entryId path (pkey p) = entryId (path @ rel) q \<and> holds m rel q (Subtree w Tip)"
    if "b = EmptyTree"
  proof -
    have "entryId path (pkey p) = entryId (path @ []) (pkey p) \<and> holds m [] (pkey p) (Subtree v Tip)"
      using that l k by simp
    then show ?thesis by blast
  qed
  ultimately show ?thesis
    unfolding grows_def by (intro conjI exI [of _ "[?entry]"]) auto
qed

text \<open>The entries and empty subtrees a layer's verification adds are its state's, and it visits
  every lower layer of a key it proves.\<close>

lemma size_lower: "map_of (lowerLayersOf layer) k = Some l \<Longrightarrow> size l < size layer"
  using size_map_of_less [of "lowerLayersOf layer" k l size] by (cases layer) simp

lemma turn_lower:
  assumes "hash32 H" "collision_free H S" "layerFacts H S m p v c"
    and low: "\<forall>k l. map_of (lowerLayersOf layer) k = Some l \<longrightarrow>
        combineInput (valueHash H v) (layerRoot H l) \<in> S"
    and "isTreeWithRoot (tryDeserializeElement v)"
    and l: "map_of (lowerLayersOf layer) (bytesToHex (pkey p)) = Some l"
    and ver: "verifyLayerProof H l path lim deser s = Inr (lh, t)"
    and "combineHash H (valueHash H v) lh = pproof p"
  shows "\<exists>n. c = Subtree v n \<and> lh = mhash H n \<and> (pkey p, Subtree v n) \<in> set (entries m) \<and> wfState n \<and>
    sinputs H n \<subseteq> S"
proof -
  have lh: "lh = layerRoot H l" "length lh = 32" using verify_root [OF ver] assms(1) by auto
  have "combineInput (valueHash H v) lh \<in> S" using low l lh(1) by blast
  from lower_sound [OF assms(1-3,5,8) lh(2) this] obtain n where n: "c = Subtree v n" "mhash H n = lh"
    by blast
  with assms(3) show ?thesis by (auto simp: layerFacts_def)
qed

lemma verifyLayer_grows:
  assumes hs: "hash32 H"
  shows "verifyLayerProof H layer path lim deser s0 = Inr (root, s) \<Longrightarrow> root = mhash H m \<Longrightarrow>
    wfState m \<Longrightarrow> collision_free H S \<Longrightarrow> linputs H layer \<union> sinputs H m \<subseteq> S \<Longrightarrow> grows m path s0 s"
proof (induction layer arbitrary: path lim s0 root s m rule: measure_induct_rule [where f = size])
  case (less layer)
  from less.prems(1) obtain r where
    ex: "executeMerkProofWithQuery H (merkProofOf layer) lim = Inr r" and rr: "merkRoot r = root"
    and each: "forEach (resultSet r) (layerTurn H layer path lim deser) s0 = Inr ((), s)"
    by (auto simp: verifyLayerProof_Inr)
  have step: "grows m path u t"
    if p: "p \<in> set (resultSet r)" and turn: "layerTurn H layer path lim deser p u = Inr ((), t)" for p u t
    using turn
  proof (cases rule: layerTurn_Inr)
    case digest
    then show ?thesis by (simp add: grows_refl)
  next
    case (leaf v)
    from layer_facts [OF hs ex _ less.prems(3-5) p leaf(1)] rr less.prems(2) obtain c
      where "layerFacts H S m p v c" by blast
    from leaf_grows [OF hs less.prems(4) this leaf(1,2)] show ?thesis .
  next
    case (lower v l lh)
    from layer_facts [OF hs ex _ less.prems(3-5) p lower(1)] rr less.prems(2) obtain c
      where c: "layerFacts H S m p v c" "\<forall>k l. map_of (lowerLayersOf layer) k = Some l \<longrightarrow>
        combineInput (valueHash H v) (layerRoot H l) \<in> S" by blast
    from turn_lower [OF hs less.prems(4) c lower(2-5)] obtain n
      where n: "lh = mhash H n" "(pkey p, Subtree v n) \<in> set (entries m)" "wfState n" "sinputs H n \<subseteq> S"
      by blast
    have "linputs H l \<union> sinputs H n \<subseteq> S"
      using linputs_lower [OF lower(3), of H] less.prems(5) n(4) by blast
    from less.IH [OF size_lower [OF lower(3)] lower(4) n(1,3) less.prems(4) this]
    show ?thesis by (rule grows_sub [OF n(2)])
  qed
  show ?case
    by (rule forEach_invariant [OF each grows_refl]) (rule grows_trans, assumption, rule step)
qed

lemma forEach_turn:
  "forEach xs f s = Inr (u, t) \<Longrightarrow> x \<in> set xs \<Longrightarrow> \<exists>a b. f x a = Inr ((), b)"
  by (induction xs arbitrary: s) auto

lemma valueKeysOf_node:
  assumes "bytesToHex k \<in> valueKeysOf ns"
  shows "\<exists>n\<in>set ns. nodeKey n = Some k \<and> carriesValue n"
  using assms by (auto simp: valueKeysOf_def)

lemma carries_proved: "carriesValue n \<Longrightarrow> nodeKey n = Some k \<Longrightarrow>
    \<exists>p v. provedOf H n = Some p \<and> pkey p = k \<and> pvalue p = Some v"
  by (cases n) (auto simp: carriesValue_def)

lemma verifyLayer_path:
  assumes hs: "hash32 H" and cf: "collision_free H S"
  shows "verifyLayerProof H layer path None deser s0 = Inr (root, s) \<Longrightarrow> root = mhash H m \<Longrightarrow>
    wfState m \<Longrightarrow> linputs H layer \<union> sinputs H m \<subseteq> S \<Longrightarrow> layerAt layer ps = Some l \<Longrightarrow>
    \<exists>m' t. subAt m ps m' \<and> layerRoot H l = mhash H m' \<and> wfState m' \<and>
      linputs H l \<union> sinputs H m' \<subseteq> S \<and> layerTree H l = Some t \<and> cached H t \<and> list_all wfNode (nodes t)"
proof (induction ps arbitrary: layer path s0 root s m)
  case Nil
  from Nil.prems(1) obtain r where ex: "executeMerkProofWithQuery H (merkProofOf layer) None = Inr r"
    by (auto simp: verifyLayerProof_Inr)
  from layer_tree [OF ex] Nil.prems verify_root [OF Nil.prems(1)] show ?case by auto
next
  case (Cons k ps)
  from Cons.prems(5) obtain l1 where l1: "map_of (lowerLayersOf layer) (bytesToHex k) = Some l1"
    "layerAt l1 ps = Some l" by (auto split: option.splits)
  from Cons.prems(1) obtain r where
    ex: "executeMerkProofWithQuery H (merkProofOf layer) None = Inr r" and rr: "merkRoot r = root"
    and keys: "\<forall>q\<in>fst ` set (lowerLayersOf layer). q \<in> valueKeys r"
    and each: "forEach (resultSet r) (layerTurn H layer path None deser) s0 = Inr ((), s)"
    by (auto simp: verifyLayerProof_Inr)
  from layer_tree [OF ex] obtain t where
    all: "\<forall>n\<in>set (nodes t). \<forall>p. provedOf H n = Some p \<longrightarrow> p \<in> set (resultSet r)"
    and vk: "valueKeys r = valueKeysOf (nodes t)" by blast
  have "bytesToHex k \<in> valueKeysOf (nodes t)"
    using map_of_SomeD [OF l1(1)] keys vk by force
  from valueKeysOf_node [OF this] obtain n where n: "n \<in> set (nodes t)" "nodeKey n = Some k" "carriesValue n"
    by blast
  from carries_proved [OF n(3,2), of H] obtain p v
    where p: "provedOf H n = Some p" "pkey p = k" "pvalue p = Some v" by blast
  have pin: "p \<in> set (resultSet r)" using all n(1) p(1) by blast
  from forEach_turn [OF each pin] obtain a b where turn: "layerTurn H layer path None deser p a = Inr ((), b)"
    by blast
  from turn show ?case
  proof (cases rule: layerTurn_Inr)
    case digest
    with p show ?thesis by simp
  next
    case (leaf w)
    with l1 p show ?thesis by simp
  next
    case (lower w l' lh)
    with l1 p have l': "l' = l1" "w = v" by auto
    from layer_facts [OF hs ex _ Cons.prems(3) cf Cons.prems(4) pin p(3)] rr Cons.prems(2) obtain c
      where c: "layerFacts H S m p v c" "\<forall>k l. map_of (lowerLayersOf layer) k = Some l \<longrightarrow>
        combineInput (valueHash H v) (layerRoot H l) \<in> S" by blast
    from turn_lower [OF hs cf c lower(2-5) [unfolded l']] obtain m1
      where m1: "lh = mhash H m1" "(pkey p, Subtree v m1) \<in> set (entries m)" "wfState m1"
        "sinputs H m1 \<subseteq> S" by blast
    have sub: "linputs H l1 \<union> sinputs H m1 \<subseteq> S"
      using linputs_lower [OF l1(1), of H] Cons.prems(4) m1(4) by blast
    have ver: "verifyLayerProof H l1 (path @ [pkey p]) None deser a = Inr (lh, b)"
      using lower(4) l' by simp
    from Cons.IH [OF ver m1(1,3) sub l1(2)] m1(2) p(2) show ?thesis
      by (auto simp: subAt_Cons)
  qed
qed

subsection \<open>Whole proofs\<close>

definition proofInputs :: "(bytes \<Rightarrow> bytes) \<Rightarrow> bytes \<Rightarrow> bytes set" where
  "proofInputs H proofBytes =
     (case decodeGroveDBProof proofBytes of
        Inl _ \<Rightarrow> {} | Inr p \<Rightarrow> linputs H (rootLayer (proofV0 p)))"

text \<open>The hypotheses of soundness: \<open>root\<close> commits to \<open>st\<close>, a state as GroveDB keeps it, and the hash
  function has no collision among what is hashed on either side.\<close>

definition committed :: "(bytes \<Rightarrow> bytes) \<Rightarrow> bytes \<Rightarrow> CryptoHash \<Rightarrow> state \<Rightarrow> bool" where
  "committed H proofBytes root st \<longleftrightarrow>
     hash32 H \<and> root = mhash H st \<and> wfState st \<and>
     collision_free H (proofInputs H proofBytes \<union> sinputs H st)"

lemma verifyProof_Inr:
  assumes "verifyProof H p options = Inr (root, rs, depth)"
  obtains deser s where
    "verifyLayerProof H (rootLayer (proofV0 p)) [] (limitOpt options) deser
       \<lparr>vresults = [], emptyTrees = {}\<rparr> = Inr (root, s)" "rs = vresults s"
    "case expectedPath options of None \<Rightarrow> depth = None
     | Some path \<Rightarrow> (\<exists>d. depth = Some d \<and> envelopeDepth p path = Inr d \<and>
         (d < length path \<longrightarrow> entryId (take d path) (path ! d) \<in> emptyTrees s))"
  using assms unfolding verifyProof_def
  by (cases "expectedPath options") (auto split: if_splits)

lemma committed_layer:
  assumes "committed H bs root st" "decodeGroveDBProof bs = Inr p"
  shows "hash32 H" "root = mhash H st" "wfState st"
    "collision_free H (linputs H (rootLayer (proofV0 p)) \<union> sinputs H st)"
  using assms by (auto simp: committed_def proofInputs_def)

lemma verifyProof_grows:
  assumes "committed H bs root st" "decodeGroveDBProof bs = Inr p"
    and "verifyLayerProof H (rootLayer (proofV0 p)) [] lim deser \<lparr>vresults = [], emptyTrees = {}\<rparr> = Inr (root, s)"
  shows "grows st [] \<lparr>vresults = [], emptyTrees = {}\<rparr> s"
  using committed_layer [OF assms(1,2)] by (intro verifyLayer_grows [OF _ assms(3)]) auto

lemma verified_sound:
  assumes "committed H bs root st" and "verifyGroveDBProof H bs options = Inr res" "rootHash res = root"
  shows "\<forall>e\<in>set (results res). soundEntry st (epath e) e"
proof -
  from assms(2) obtain p depth where p: "decodeGroveDBProof bs = Inr p"
    and v: "verifyProof H p options = Inr (rootHash res, results res, depth)"
    by (auto simp: verifyGroveDBProof_def)
  from v obtain deser s where s: "verifyLayerProof H (rootLayer (proofV0 p)) [] (limitOpt options) deser
       \<lparr>vresults = [], emptyTrees = {}\<rparr> = Inr (root, s)" "results res = vresults s"
    unfolding assms(3) by (rule verifyProof_Inr)
  from verifyProof_grows [OF assms(1) p s(1)] s(2) show ?thesis by (auto simp: grows_def)
qed

subsection \<open>The path of an envelope\<close>

lemma split_slash:
  "a @ CHR ''/'' # r = b @ CHR ''/'' # s \<Longrightarrow> CHR ''/'' \<notin> set a \<Longrightarrow> CHR ''/'' \<notin> set b \<Longrightarrow> a = b \<and> r = s"
  by (induction a arbitrary: b) (auto simp: Cons_eq_append_conv append_eq_Cons_conv)

lemma joinSlash_Cons: "ss \<noteq> [] \<Longrightarrow> joinSlash (s # ss) = s @ CHR ''/'' # joinSlash ss"
  by (cases ss) auto

lemma joinSlash_inj:
  "joinSlash xs = joinSlash ys \<Longrightarrow> xs \<noteq> [] \<Longrightarrow> ys \<noteq> [] \<Longrightarrow>
     \<forall>s\<in>set xs \<union> set ys. CHR ''/'' \<notin> set s \<Longrightarrow> xs = ys"
proof (induction xs arbitrary: ys)
  case (Cons x xs)
  then obtain y ys' where ys: "ys = y # ys'" by (cases ys) auto
  show ?case
  proof (cases "xs = []"; cases "ys' = []")
    assume "xs \<noteq> []" "ys' \<noteq> []"
    with Cons.prems ys have "x @ CHR ''/'' # joinSlash xs = y @ CHR ''/'' # joinSlash ys'"
      by (simp add: joinSlash_Cons)
    from split_slash [OF this] Cons.prems ys have "x = y" "joinSlash xs = joinSlash ys'" by auto
    with Cons.IH [of ys'] Cons.prems ys \<open>xs \<noteq> []\<close> \<open>ys' \<noteq> []\<close> show ?thesis by simp
  qed (use Cons.prems ys in \<open>auto simp: joinSlash_Cons\<close>)
qed simp

lemma hexDigit_not_slash: "n < 16 \<Longrightarrow> CHR ''/'' \<noteq> hexDigit n"
proof
  assume "n < 16" and eq: "CHR ''/'' = hexDigit n"
  have "hexVal (CHR ''/'') = None" by (simp add: hexVal_def)
  with hexVal_hexDigit [OF \<open>n < 16\<close>] show False unfolding eq by simp
qed

lemma hex_no_slash: "CHR ''/'' \<notin> set (bytesToHex bs)"
  by (induction bs) (simp_all add: hexDigit_not_slash unat_nibbles)

lemma entryId_inj: "entryId p k = entryId q l \<Longrightarrow> p = q \<and> k = l"
  unfolding entryId_def
  by (drule joinSlash_inj) (auto simp: hex_no_slash inj_map_eq_map inj_bytesToHex)

lemma envelopeLoop_Inr:
  "envelopeLoop dn path i layer = Inr d \<Longrightarrow>
     i \<le> d \<and> d \<le> i + length path \<and>
     (d = i + length path \<longrightarrow> (\<exists>l. layerAt layer path = Some l \<and> lowerLayersOf l = []))"
proof (induction path arbitrary: dn i layer)
  case (Cons s path)
  then show ?case
    by (fastforce simp: Let_def split: option.splits)
qed (auto split: if_splits)

lemma envelopeDepth_Inr:
  "envelopeDepth p path = Inr d \<Longrightarrow> d \<le> length path \<and>
     (d = length path \<longrightarrow> (\<exists>l. layerAt (rootLayer (proofV0 p)) path = Some l))"
  unfolding envelopeDepth_def by (drule envelopeLoop_Inr) auto

text \<open>A proof that ends above the path, at an empty subtree: nothing is at the path.\<close>

lemma early_end:
  assumes "committed H bs root st" "decodeGroveDBProof bs = Inr p"
    and ver: "verifyLayerProof H (rootLayer (proofV0 p)) [] lim deser \<lparr>vresults = [], emptyTrees = {}\<rparr> = Inr (root, s)"
    and d: "d < length path" "entryId (take d path) (path ! d) \<in> emptyTrees s"
  shows "subAt st path m' \<longrightarrow> m' = Tip"
proof
  assume sub: "subAt st path m'"
  from verifyProof_grows [OF assms(1,2) ver] d(2) obtain rel k v
    where "entryId (take d path) (path ! d) = entryId rel k" "holds st rel k (Subtree v Tip)"
    by (auto simp: grows_def)
  then have h: "holds st (take d path) (path ! d) (Subtree v Tip)" using entryId_inj by blast
  have wf: "wfState st" using assms(1) by (simp add: committed_def)
  have "subAt st (take d path @ path ! d # drop (Suc d) path) m'"
    using sub d(1) by (simp add: id_take_nth_drop [symmetric])
  then obtain n where n: "subAt st (take d path) n" "subAt n (path ! d # drop (Suc d) path) m'"
    using subAt_append [of st "take d path" "path ! d # drop (Suc d) path" m'] by blast
  from n(2) obtain e n' where e: "(path ! d, Subtree e n') \<in> set (entries n)" "subAt n' (drop (Suc d) path) m'"
    by (auto simp: subAt_Cons)
  from h obtain n2 where n2: "subAt st (take d path) n2" "(path ! d, Subtree v Tip) \<in> set (entries n2)"
    by (auto simp: holds_subAt)
  have "n2 = n" using subAt_unique [OF n2(1) n(1) wf] .
  then have "n' = Tip"
    using entries_functional [OF _ e(1)] n2(2) subAt_wf [OF n(1) wf, of H] by blast
  with e(2) show "m' = Tip" by (cases "drop (Suc d) path") (auto simp: subAt_Cons)
qed

text \<open>What the two path-directed verifiers share: either the proof ends early, or the layer at the
  path rebuilds a tree that covers the subtree at the path.\<close>

lemma path_verified:
  assumes c: "committed H bs root st" and p: "decodeGroveDBProof bs = Inr p"
    and v: "verifyProof H p (pathOptions path) = Inr (root, rs, depth)"
  obtains (early) d where "depth = Some d" "d < length path" "\<forall>m'. subAt st path m' \<longrightarrow> m' = Tip"
  | (full) layer t m' where "depth = Some (length path)"
      "layerAt (rootLayer (proofV0 p)) path = Some layer"
      "executeMerkProof H (merkProofOf layer) False = Inr t" "subAt st path m'" "wfState m'"
      "layerTree H layer = Some t" "list_all wfNode (nodes t)"
      "linputs H layer \<union> sinputs H m' \<subseteq> proofInputs H bs \<union> sinputs H st"
      "covers H (nodes t) (entries m')"
proof -
  from v obtain deser s d where ver: "verifyLayerProof H (rootLayer (proofV0 p)) [] None deser
       \<lparr>vresults = [], emptyTrees = {}\<rparr> = Inr (root, s)"
    and d: "depth = Some d" "envelopeDepth p path = Inr d"
      "d < length path \<longrightarrow> entryId (take d path) (path ! d) \<in> emptyTrees s"
    by (rule verifyProof_Inr) (auto simp: pathOptions_def)
  show thesis
  proof (cases "d < length path")
    case True
    with d early_end [OF c p ver True] show thesis by (intro early) auto
  next
    case False
    with envelopeDepth_Inr [OF d(2)] obtain layer
      where len: "d = length path" and layer: "layerAt (rootLayer (proofV0 p)) path = Some layer" by auto
    note cl = committed_layer [OF c p]
    from verifyLayer_path [OF cl(1,4) ver cl(2,3) subset_refl layer] obtain m' t
      where m': "subAt st path m'" "layerRoot H layer = mhash H m'" "wfState m'"
        "linputs H layer \<union> sinputs H m' \<subseteq> linputs H (rootLayer (proofV0 p)) \<union> sinputs H st"
        "layerTree H layer = Some t" "cached H t" "list_all wfNode (nodes t)" by blast
    have "covers H (nodes t) (entries m')"
      using layer_covers [OF cl(1) m'(5,6,7)] m'(2,5) collision_free_subset [OF cl(4) m'(4)]
      by (simp add: layerRoot_eq)
    moreover have "executeMerkProof H (merkProofOf layer) False = Inr t"
      using m'(5) by (auto simp: layerTree_def split: sum.splits)
    moreover have "proofInputs H bs = linputs H (rootLayer (proofV0 p))" using p by (simp add: proofInputs_def)
    ultimately show thesis using full [OF _ layer] m' d(1) len by simp
  qed
qed

subsection \<open>Absence\<close>

lemma collectNodes_eq:
  "collectNodes c stk ns = ns @ inOrderC c @ concat (map (\<lambda>t. t # inOrderC (mright t)) stk)"
proof (induction c stk ns rule: collectNodes.induct)
  case (1 current stk ns)
  have lefts: "concat (map (\<lambda>t. t # inOrderC (mright t)) (pushLefts t u)) =
      inOrder t @ concat (map (\<lambda>t. t # inOrderC (mright t)) u)"
    "concat (map (\<lambda>t. t # inOrderC (mright t)) (pushLeftsC c u)) =
      inOrderC c @ concat (map (\<lambda>t. t # inOrderC (mright t)) u)" for t c u
    by (induction t and c arbitrary: u and u rule: mtree.induct child.induct) auto
  show ?case
  proof (cases "pushLeftsC current stk")
    case Nil
    with lefts(2) [of current stk] show ?thesis by (simp add: collectNodes.simps [of current])
  next
    case (Cons n stk')
    with "1" [OF Cons] lefts(2) [of current stk] show ?thesis
      by (simp add: collectNodes.simps [of current])
  qed
qed

text \<open>What the scan has found after the nodes \<open>ps\<close>: the last one with a smaller key and the first
  one with a greater key.\<close>

definition scanned :: "bytes \<Rightarrow> nat \<Rightarrow> mtree list \<Rightarrow> int \<Rightarrow> nat \<Rightarrow> bool" where
  "scanned k cnt ps before after \<longleftrightarrow>
     (before = -1 \<or> (\<exists>i q. before = int i \<and> i < length ps \<and> getKey (ps ! i) = Some q \<and> compareBytes q k < 0)) \<and>
     (after = cnt \<or> (\<exists>q. after < length ps \<and> getKey (ps ! after) = Some q \<and> compareBytes k q < 0))"

lemma scanned_more: "scanned k cnt ps b a \<Longrightarrow> scanned k cnt (ps @ [t]) b a"
  unfolding scanned_def by (auto simp: nth_append)

lemma scanNodes_scanned:
  "scanNodes k cnt ts (length ps) (b, a, prev) = Some (b', a') \<Longrightarrow> scanned k cnt ps b a \<Longrightarrow>
     scanned k cnt (ps @ ts) b' a'"
proof (induction ts arbitrary: ps b a prev)
  case (Cons t ts)
  show ?case
  proof (cases "getKey t")
    case None
    with Cons.prems Cons.IH [of "ps @ [t]" b a prev] scanned_more show ?thesis by simp
  next
    case (Some q)
    with Cons.prems(1) have c: "compareBytes q k \<noteq> 0"
      "scanNodes k cnt ts (length (ps @ [t]))
         (if compareBytes q k < 0 then int (length ps) else b,
          if compareBytes q k < 0 then a else if a = cnt then length ps else a, Some q) = Some (b', a')"
      by (auto simp: Let_def split: if_splits option.splits)
    have "compareBytes k q < 0" if "\<not> compareBytes q k < 0"
      using that c(1) key.cmp_swap [of k q] by simp
    then have "scanned k cnt (ps @ [t]) (if compareBytes q k < 0 then int (length ps) else b)
        (if compareBytes q k < 0 then a else if a = cnt then length ps else a)"
      using scanned_more [OF Cons.prems(2), of t] Some by (auto simp: scanned_def nth_append)
    from Cons.IH [OF c(2) this] show ?thesis by simp
  qed
qed simp

lemma covers_key:
  assumes "covers H [n] es" "nodeKey n = Some q"
  shows "\<exists>c. es = [(q, c)]"
  using assms by (auto simp: covers_Cons_iff)

lemma absent_from_state:
  assumes proves: "merkProvesAbsent t k" and cov: "covers H (nodes t) es"
    and asc: "ascending (map fst es)"
  shows "k \<notin> fst ` set es"
proof -
  let ?ns = "inOrder t"
  have all: "collectNodes (ChildOf t []) [] [] = ?ns" by (simp add: collectNodes_eq)
  from proves obtain b a where "scanNodes k (length ?ns) ?ns 0 (-1, length ?ns, None) = Some (b, a)"
    and ab: "int a = b + 1"
    by (auto simp: merkProvesAbsent_def all Let_def split: option.splits)
  with scanNodes_scanned [of k "length ?ns" ?ns "[]" "-1" "length ?ns" None b a]
  have sc: "scanned k (length ?ns) ?ns b a" by (simp add: scanned_def)
  have split: "map mnode (take a ?ns) @ map mnode (drop a ?ns) = nodes t"
    by (simp add: nodes_def flip: map_append)
  from covers_split [of H "map mnode (take a ?ns)" "map mnode (drop a ?ns)" es] cov split
  obtain es1 es2 where es: "es = es1 @ es2" and c1: "covers H (map mnode (take a ?ns)) es1"
    and c2: "covers H (map mnode (drop a ?ns)) es2" by auto
  have "\<forall>q\<in>set (map fst es1). compareBytes q k < 0"
  proof (cases "b = -1")
    case True
    then show ?thesis using ab c1 by simp
  next
    case False
    with sc ab obtain i q where i: "b = int i" "i < length ?ns" "getKey (?ns ! i) = Some q" "compareBytes q k < 0"
      by (auto simp: scanned_def)
    then have "a = Suc i" using ab by simp
    with i(2) have "map mnode (take a ?ns) = map mnode (take i ?ns) @ [mnode (?ns ! i)]"
      by (simp add: take_Suc_conv_app_nth)
    with c1 covers_split obtain f1 f2
      where f: "es1 = f1 @ f2" "covers H [mnode (?ns ! i)] f2" by metis
    from covers_key [OF f(2)] i(3) obtain c where "f2 = [(q, c)]" unfolding getKey_def by blast
    with f(1) have "map fst es1 = map fst f1 @ [q]" by simp
    with key.below_prefix [of "map fst f1" q k] asc es i(4) show ?thesis
      by (simp add: sorted_wrt_append)
  qed
  moreover have "\<forall>q\<in>set (map fst es2). compareBytes k q < 0"
  proof (cases "a = length ?ns")
    case True
    then show ?thesis using c2 by simp
  next
    case False
    with sc obtain q where q: "a < length ?ns" "getKey (?ns ! a) = Some q" "compareBytes k q < 0"
      by (auto simp: scanned_def)
    then have "map mnode (drop a ?ns) = [mnode (?ns ! a)] @ map mnode (drop (Suc a) ?ns)"
      by (simp flip: Cons_nth_drop_Suc)
    with c2 covers_split obtain f1 f2
      where f: "es2 = f1 @ f2" "covers H [mnode (?ns ! a)] f1" by metis
    from covers_key [OF f(2)] q(2) obtain c where "f1 = [(q, c)]" unfolding getKey_def by blast
    with f(1) have "map fst es2 = q # map fst f2" by simp
    with key.above_suffix [of q "map fst f2" k] asc es q(3) show ?thesis
      by (simp add: sorted_wrt_append)
  qed
  ultimately show ?thesis using key.gap_absent [of "map fst es1" "map fst es2" k] asc es by auto
qed

lemma key_absent:
  assumes c: "committed H bs root st" and v: "verifyKeyAbsence H bs path k = Inr root"
  shows "\<not> holds st path k x"
proof -
  from v obtain p rs depth where p: "decodeGroveDBProof bs = Inr p"
    and vp: "verifyProof H p (pathOptions path) = Inr (root, rs, depth)"
    and rest: "(case depth of None \<Rightarrow> False | Some d \<Rightarrow> d < length path) \<or>
      (\<exists>layer t. layerAt (rootLayer (proofV0 p)) path = Some layer \<and>
         executeMerkProof H (merkProofOf layer) False = Inr t \<and> merkProvesAbsent t k)"
    by (auto simp: verifyKeyAbsence_def split: if_splits option.splits)
  from c p vp show ?thesis
  proof (cases rule: path_verified)
    case (early d)
    then show ?thesis by (auto simp: holds_subAt)
  next
    case (full layer t m')
    with rest have "merkProvesAbsent t k" by auto
    from absent_from_state [OF this full(9) wfState_ascending [OF full(5)]]
    have "(k, x) \<notin> set (entries m')" by force
    moreover have "wfState st" using c by (simp add: committed_def)
    ultimately show ?thesis
      using subAt_unique [OF full(4)] by (auto simp: holds_subAt)
  qed
qed

subsection \<open>Complete layers\<close>

definition matches :: "bytes \<times> content \<Rightarrow> CompleteEntry \<Rightarrow> bool" where
  "matches kc e \<longleftrightarrow> ckey e = fst kc \<and>
     (length (cvalue e) \<notin> {63, 95} \<longrightarrow>
        (if creference e then \<exists>s. snd kc = Refers s (cvalue e)
         else snd kc = Stored (cvalue e) \<or> snd kc = Subtree (cvalue e) Tip))"

lemma provedOf_valued:
  "nodeKey n = Some k \<Longrightarrow> nodeValue n = Some v \<Longrightarrow>
     \<exists>p. provedOf H n = Some p \<and>
       p = \<lparr>pkey = k, pvalue = Some v, pproof = the (nodeValueHash H n), pnodeType = nodeTag n\<rparr>"
  by (cases n) auto

lemma completeLoop_matches:
  assumes hs: "hash32 H" and cf: "collision_free H S" and t: "layerTree H layer = Some t"
    "list_all wfNode (nodes t)" "wfState m" "linputs H layer \<union> sinputs H m \<subseteq> S"
  shows "completeLoop H path prev ts = Inr es \<Longrightarrow> set (map mnode ts) \<subseteq> set (nodes t) \<Longrightarrow>
    covers H (map mnode ts) xs \<Longrightarrow> set xs \<subseteq> set (entries m) \<Longrightarrow> list_all2 matches xs es"
proof (induction ts arbitrary: prev es xs)
  case (Cons u ts)
  let ?n = "mnode u"
  from Cons.prems(1) obtain k v b es' where kv: "nodeKey ?n = Some k" "nodeValue ?n = Some v"
    and bind: "nodeTag ?n = TKVValueHash \<or> nodeTag ?n = TKVValueHashFeatureType \<Longrightarrow>
      bindLeafValue H \<lparr>pkey = k, pvalue = Some v, pproof = the (nodeValueHash H ?n),
         pnodeType = nodeTag ?n\<rparr> (tryDeserializeElement v) = Inr b \<and> b \<noteq> UnboundTree"
    and es: "es = \<lparr>ckey = k, cvalue = v, celement = tryDeserializeElement v,
        creference = (nodeTag ?n = TKVRefValueHash)\<rparr> # es'"
    and loop: "completeLoop H path (Some k) ts = Inr es'"
    by (auto simp: Let_def split: option.splits if_splits)
  from Cons.prems(3) kv obtain c xs' where xs: "xs = (k, c) # xs'" "nodeBinds H ?n c"
    "covers H (map mnode ts) xs'"
    by (auto simp: covers_Cons_iff)
  from provedOf_valued [OF kv, of H] obtain p where p: "provedOf H ?n = Some p"
    "p = \<lparr>pkey = k, pvalue = Some v, pproof = the (nodeValueHash H ?n), pnodeType = nodeTag ?n\<rparr>" by blast
  then have pv: "pvalue p = Some v" "pkey p = k" "pnodeType p = nodeTag ?n" by simp_all
  have n: "?n \<in> set (nodes t)" using Cons.prems(2) by simp
  have "(pkey p, c) \<in> set (entries m)" using Cons.prems(4) xs(1) pv(2) by simp
  from node_facts [OF hs t n p(1) pv(1) this xs(2)] have f: "layerFacts H S m p v c" by blast
  obtain b' where b': "bindLeafValue H p (tryDeserializeElement v) = Inr b'" "b' \<noteq> UnboundTree"
  proof (cases "nodeTag ?n = TKVValueHash \<or> nodeTag ?n = TKVValueHashFeatureType")
    case True
    from bind [OF True] that p(2) show thesis by blast
  next
    case False
    then have "bindLeafValue H p (tryDeserializeElement v) = Inr Bound"
      using pv by (simp add: bindLeafValue_def)
    with that show thesis by blast
  qed
  from leaf_sound [OF hs cf f pv(1) b'(1)] b'(2) pv(3)
  have "matches (k, c) (hd es)"
    unfolding matches_def es by (cases b') (auto simp: storedAs_def)
  moreover have "list_all2 matches xs' es'"
    using Cons.IH [OF loop _ xs(3)] Cons.prems(2,4) xs(1) by simp
  ultimately show ?case by (simp add: es xs(1))
qed auto

lemma complete_layer:
  assumes c: "committed H bs root st" and v: "verifyCompleteLayer H bs path = Inr (root, es)"
  shows "(\<forall>m. subAt st path m \<longrightarrow> list_all2 matches (entries m) es) \<and>
    (es \<noteq> [] \<longrightarrow> (\<exists>m. subAt st path m))"
proof -
  from v obtain p rs depth where p: "decodeGroveDBProof bs = Inr p"
    and vp: "verifyProof H p (pathOptions path) = Inr (root, rs, depth)"
    and rest: "(case depth of None \<Rightarrow> False | Some d \<Rightarrow> d < length path) \<and> es = [] \<or>
      \<not> (case depth of None \<Rightarrow> False | Some d \<Rightarrow> d < length path) \<and>
      (\<exists>layer t. layerAt (rootLayer (proofV0 p)) path = Some layer \<and>
         executeMerkProof H (merkProofOf layer) False = Inr t \<and>
         completeLoop H path None (inOrder t) = Inr es)"
    by (auto simp: verifyCompleteLayer_def split: if_splits option.splits)
  from c p vp show ?thesis
  proof (cases rule: path_verified)
    case (early d)
    with rest show ?thesis by auto
  next
    case (full layer t m')
    with rest have loop: "completeLoop H path None (inOrder t) = Inr es" by auto
    have "list_all2 matches (entries m') es"
      by (rule completeLoop_matches [OF _ _ full(6,7,5,8) loop])
        (use c full(9) in \<open>auto simp: committed_def nodes_def\<close>)
    moreover have "wfState st" using c by (simp add: committed_def)
    ultimately show ?thesis using subAt_unique [OF full(4)] full(4) by blast
  qed
qed

end
