(* ===== verification/Grove_Properties.thy ===== *)
theory Grove_Properties
  imports Verify_Soundness
begin

text \<open>
  The properties of the GroveDB verifier as a whole, over the lemmas of \<open>Verify_Soundness\<close>, with
  their witnesses: a state of one entry, its proof, and a hash function that starts with the length
  of its input (so that inputs of different lengths do not collide).
\<close>

subsection \<open>A state and its proof\<close>

definition lenHash :: "bytes \<Rightarrow> bytes" where
  "lenHash x = of_nat (length x) # take 31 (x @ replicate 31 0)"

lemma hash32_lenHash [simp]: "hash32 lenHash"
  by (simp add: hash32_def lenHash_def min_def)

text \<open>The bytes of an item that holds one byte.\<close>

abbreviation oneValue :: bytes where
  "oneValue \<equiv> [0, 1, 9, 0]"

definition oneState :: state where
  "oneState = Nd Tip [7] (Stored oneValue) Tip"

definition oneTree :: mtree where
  "oneTree = newTree (KV [7] oneValue)"

definition oneProof :: bytes where
  "oneProof = encProof (WireLayer (encOps (treeOps oneTree)) []) True"

definition oneRoot :: CryptoHash where
  "oneRoot = mhash lenHash oneState"

lemma treeOps_oneTree: "treeOps oneTree = [Push (KV [7] oneValue)]"
  by (simp add: oneTree_def newTree_def)

lemma oneTree_ok:
  "cached lenHash oneTree" "ascending (keysOf (nodes oneTree))" "list_all wfOp (treeOps oneTree)"
  by (simp_all add: oneTree_def newTree_def MAX_VALUE_LEN_def)

lemma thash_oneTree: "thash lenHash oneTree = oneRoot"
  by (simp add: oneTree_def oneRoot_def oneState_def thash_def kvHash_eq)

lemma length_oneOps: "length (encOps (treeOps oneTree)) = 9"
  by (simp add: treeOps_oneTree encOps_def encKey_def encValue_def LARGE_VALUE_THRESHOLD_def beBytes_2)

lemma decode_oneProof:
  "decodeGroveDBProof oneProof = Inr \<lparr>version = 0, proofV0 =
     \<lparr>rootLayer = LayerProof (encOps (treeOps oneTree)) [],
      proveOptions = \<lparr>decreaseLimitOnEmptySubQueryResult = True\<rparr>\<rparr>\<rparr>"
  unfolding oneProof_def
  by (subst decodeGroveDBProof_encProof) (simp_all add: length_oneOps vecDom_def MAX_SAFE_INTEGER_def)

lemma execute_oneProof: "executeMerkProof lenHash (encOps (treeOps oneTree)) False = Inr oneTree"
  by (rule executeMerkProof_treeOps [OF oneTree_ok])

lemma deserialize_9: "tryDeserializeElement [9] = None"
proof -
  have "bincodeUint 9 = [9]" by (simp add: bincodeUint_def)
  then have "feeds (newReader [9]) (bincodeUint 9 @ [])" by simp
  with readsD [OF reads_variant [of 9] this] obtain t where "readVariant (newReader [9]) = Inr (9, t)"
    by auto
  then have "readElement (newReader [9]) = Inl (UnknownElementVariant 9)"
    by (simp add: readElement_def bind_def)
  then show ?thesis by (simp add: tryDeserializeElement_def deserializeElement_def)
qed

lemma deserialize_item: "tryDeserializeElement oneValue = Some (Item [9] None)"
proof -
  let ?w = "\<lparr>refVariant = 0, refHeight = 0, refHops = None\<rparr>"
  have "encElement ?w (Item [9] None) = oneValue"
    by (simp add: bincodeUint_def bincodeBytes_def bincodeOption_def)
  then show ?thesis using deserialize_encElement [of ?w "Item [9] None"] 
    by (simp add: tryDeserializeElement_def vecDom_def optDom_def MAX_SAFE_INTEGER_def)
qed

lemma wf_oneState: "wfState oneState"
  by (simp add: oneState_def isTreeBytes_def deserialize_item)

lemma one_inputs:
  "proofInputs lenHash oneProof \<union> sinputs lenHash oneState =
     {nodeInput (kvDigestToKvHash lenHash [7] (valueHash lenHash oneValue)) NULL_HASH NULL_HASH,
      kvInput [7] (valueHash lenHash oneValue), valueInput oneValue, combineInput (valueHash lenHash oneValue) NULL_HASH}"
proof -
  have "layerTree lenHash (LayerProof (encOps (treeOps oneTree)) []) = Some oneTree"
    by (simp add: layerTree_def execute_oneProof)
  then have "proofInputs lenHash oneProof = tinputs lenHash oneTree \<union>
      (\<Union>v\<in>set (valuesOf oneTree). {combineInput (valueHash lenHash v) NULL_HASH})"
    by (simp add: proofInputs_def decode_oneProof ownInputs_def)
  moreover have "valuesOf oneTree = [oneValue]"
    by (simp add: valuesOf_def oneTree_def List.map_filter_def)
  moreover have "tinputs lenHash oneTree = insert
     (nodeInput (kvDigestToKvHash lenHash [7] (valueHash lenHash oneValue)) NULL_HASH NULL_HASH)
      {valueInput oneValue, kvInput [7] (valueHash lenHash oneValue)}"
    by (simp only: oneTree_def newTree_def tinputs.simps tinputsC.simps kvOf.simps cachedHash.simps
        nodeTag.simps NodeType.distinct if_False ninputs.simps Un_empty_right)
  moreover have "sinputs lenHash oneState =
     {nodeInput (kvDigestToKvHash lenHash [7] (valueHash lenHash oneValue)) NULL_HASH NULL_HASH,
      kvInput [7] (valueHash lenHash oneValue)} \<union> {} \<union> {valueInput oneValue} \<union> {}"
    by (simp only: oneState_def sinputs.simps cinputs.simps mhash.simps chash.simps)
  ultimately show ?thesis by auto
qed

lemma lenHash_neq:
  "length x < 256 \<Longrightarrow> length y < 256 \<Longrightarrow> length x \<noteq> length y \<Longrightarrow> lenHash x \<noteq> lenHash y"
proof
  assume x: "length x < 256" "length y < 256" "length x \<noteq> length y" and "lenHash x = lenHash y"
  then have "(of_nat (length x) :: byte) = of_nat (length y)" by (simp add: lenHash_def)
  then have "length x mod 256 = length y mod 256" by (metis unat_of_nat_byte)
  with x show False by simp
qed

lemma lenHash_not_null: "0 < length x \<Longrightarrow> length x < 256 \<Longrightarrow> lenHash x \<noteq> NULL_HASH"
proof
  assume x: "0 < length x" "length x < 256" and "lenHash x = NULL_HASH"
  then have "hd (lenHash x) = hd NULL_HASH" by simp
  then have "(of_nat (length x) :: byte) = 0" by (simp add: lenHash_def NULL_HASH_def)
  then have "unat (of_nat (length x) :: byte) = 0" by simp
  with x show False by (simp only: unat_of_nat_byte) simp
qed

lemma collision_free_lengths:
  assumes "inj_on length S" "\<forall>x\<in>S. 0 < length x \<and> length x < 256"
  shows "collision_free lenHash S"
proof -
  have "inj_on lenHash S"
  proof (rule inj_onI)
    fix x y
    assume xy: "x \<in> S" "y \<in> S" "lenHash x = lenHash y"
    then have "length x = length y" using assms(2) lenHash_neq [of x y] by blast
    with xy show "x = y" using inj_onD [OF assms(1)] by blast
  qed
  moreover have "NULL_HASH \<notin> lenHash ` S"
  proof
    assume "NULL_HASH \<in> lenHash ` S"
    then obtain x where "x \<in> S" "NULL_HASH = lenHash x" by (rule imageE)
    with assms(2) lenHash_not_null [of x] show False by simp
  qed
  ultimately show ?thesis unfolding collision_free_def by blast
qed

lemma one_committed: "committed lenHash oneProof oneRoot oneState"
proof -
  have len: "length (kvInput [7] (valueHash lenHash oneValue)) = 34" "length (valueInput oneValue) = 5"
    by (simp_all add: kvInput_def valueInput_def varintBytes.simps)
  have "collision_free lenHash (proofInputs lenHash oneProof \<union> sinputs lenHash oneState)"
    unfolding one_inputs
    by (rule collision_free_lengths)
      (auto simp: inj_on_def len simp del: length_greater_0_conv dest!: arg_cong [of _ "[]" length])
  then show ?thesis by (simp add: committed_def oneRoot_def wf_oneState)
qed

lemma query_oneProof:
  "executeMerkProofWithQuery lenHash (encOps (treeOps oneTree)) lim =
     Inr \<lparr>merkRoot = oneRoot, resultSet = reported lenHash lim [KV [7] oneValue],
          limitLeft = map_option (\<lambda>l. l - int (valueCount (reported lenHash lim [KV [7] oneValue]))) lim,
          valueKeys = valueKeysOf [KV [7] oneValue]\<rparr>"
  using executeMerkProofWithQuery_treeOps [OF oneTree_ok, of lim]
  by (simp add: thash_oneTree) (simp add: oneTree_def)

definition oneEntry :: ProvenEntry where
  "oneEntry = \<lparr>epath = [], ekey = [7], evalue = Some oneValue, eelement = Some (Item [9] None), etree = False, enodeType = TKV\<rparr>"

lemma layer_oneProof:
  "verifyLayerProof lenHash (LayerProof (encOps (treeOps oneTree)) []) [] None True
     \<lparr>vresults = [], emptyTrees = {}\<rparr> = Inr (oneRoot, \<lparr>vresults = [oneEntry], emptyTrees = {}\<rparr>)"
  by (simp add: verifyLayerProof_Inr query_oneProof layerTurn_def leafEntry_def bindLeafValue_def
      deserialize_item oneEntry_def)

lemma verify_oneProof:
  "verifyGroveDBProof lenHash oneProof
     \<lparr>limitOpt = None, deserializeElementsOpt = None, expectedPath = Some []\<rparr> =
     Inr \<lparr>rootHash = oneRoot, results = [oneEntry]\<rparr>"
  "verifyProof lenHash \<lparr>version = 0, proofV0 =
     \<lparr>rootLayer = LayerProof (encOps (treeOps oneTree)) [],
      proveOptions = \<lparr>decreaseLimitOnEmptySubQueryResult = True\<rparr>\<rparr>\<rparr> (pathOptions []) =
     Inr (oneRoot, [oneEntry], Some 0)"
  by (simp_all add: verifyGroveDBProof_def verifyProof_def decode_oneProof checkHeader_def
      checkProveOptions_def envelopeDepth_def layer_oneProof pathOptions_def)

lemma absent_oneProof: "verifyKeyAbsence lenHash oneProof [] [8] = Inr oneRoot"
  by (simp add: verifyKeyAbsence_def decode_oneProof verify_oneProof execute_oneProof
      merkProvesAbsent_def collectNodes_eq)
    (simp add: oneTree_def getKey_def Let_def)

lemma complete_oneProof:
  "verifyCompleteLayer lenHash oneProof [] =
     Inr (oneRoot, [\<lparr>ckey = [7], cvalue = oneValue, celement = Some (Item [9] None), creference = False\<rparr>])"
  by (simp add: verifyCompleteLayer_def decode_oneProof verify_oneProof execute_oneProof)
    (simp add: oneTree_def Let_def deserialize_item)

subsection \<open>Properties\<close>

text \<open>C1: Soundness of proofs. When \<open>verifyProofAgainstRoot\<close> accepts a proof against the root hash
  of a committed state, its result has that root, and every entry it returns is in the state at the
  entry's path and key; the bytes it gives (other than of 63 or 95 bytes, see the header) are the
  stored element's, an empty subtree's, or, for a reference node, the referenced element's.\<close>

theorem proof_sound:
  assumes "committed H proofBytes root st"
    and "verifyProofAgainstRoot H proofBytes root options = Inr res"
  shows "rootHash res = root \<and>
    (\<forall>e\<in>set (results res). \<exists>c. holds st (epath e) (ekey e) c \<and>
       (\<forall>v. evalue e = Some v \<and> length v \<notin> {63, 95} \<longrightarrow>
          (if enodeType e = TKVRefValueHash then \<exists>s. c = Refers s v
           else c = Stored v \<or> c = Subtree v Tip)))"
proof -
  from assms(2) have v: "verifyGroveDBProof H proofBytes options = Inr res" "rootHash res = root"
    by (auto simp: verifyProofAgainstRoot_def split: if_splits)
  from verified_sound [OF assms(1) v] v(2) show ?thesis
    unfolding soundEntry_def storedAs_def by blast
qed

theorem proof_sound_witness:
  "verifyProofAgainstRoot lenHash oneProof oneRoot
     \<lparr>limitOpt = None, deserializeElementsOpt = None, expectedPath = Some []\<rparr> =
     Inr \<lparr>rootHash = oneRoot, results = [oneEntry]\<rparr> \<and> (\<exists>c. holds oneState [] [7] c)"
proof -
  have v: "verifyProofAgainstRoot lenHash oneProof oneRoot
     \<lparr>limitOpt = None, deserializeElementsOpt = None, expectedPath = Some []\<rparr> =
     Inr \<lparr>rootHash = oneRoot, results = [oneEntry]\<rparr>"
    by (simp add: verifyProofAgainstRoot_def verify_oneProof)
  from proof_sound [OF one_committed v] v show ?thesis by (auto simp: oneEntry_def)
qed

text \<open>C2: Soundness of absence. When \<open>verifyKeyAbsence\<close> accepts a proof for a path and key and its
  root is the root hash of a committed state, the state holds nothing under that key at that path.\<close>

theorem absence_sound:
  assumes "committed H proofBytes root st" and "verifyKeyAbsence H proofBytes path key = Inr root"
  shows "\<not> holds st path key c"
  using assms by (rule key_absent)

theorem absence_sound_witness: "\<not> holds oneState [] [8] (Stored oneValue)"
  by (rule absence_sound [OF one_committed absent_oneProof])

text \<open>C3: Completeness of revealed layers. When \<open>verifyCompleteLayer\<close> accepts a proof of a
  committed state's root, the entries it returns are exactly the entries of the state's subtree at
  the path, in order, key by key, with their bytes (other than of 63 or 95 bytes, see the header); and
  if it returns any, there is such a subtree.\<close>

theorem complete_layer_sound:
  assumes "committed H proofBytes root st" and "verifyCompleteLayer H proofBytes path = Inr (root, es)"
  shows "(\<forall>m. subAt st path m \<longrightarrow> map ckey es = map fst (entries m) \<and> list_all2 matches (entries m) es) \<and>
    (es \<noteq> [] \<longrightarrow> (\<exists>m. subAt st path m))"
proof -
  have "map ckey es = map fst xs" if "list_all2 matches xs es" for xs
    using that by (induction rule: list_all2_induct) (auto simp: matches_def)
  with complete_layer [OF assms] show ?thesis by blast
qed

theorem complete_layer_sound_witness:
  "list_all2 matches (entries oneState)
     [\<lparr>ckey = [7], cvalue = oneValue, celement = Some (Item [9] None), creference = False\<rparr>]"
  using complete_layer_sound [OF one_committed complete_oneProof] by simp

lemma quick_root: "quickVerifyLayer H layer = Inr root \<Longrightarrow> root = layerRoot H layer"
  by (subst (asm) quickVerifyLayer.simps) (auto dest!: layer_tree simp: layerRoot_eq)

lemma verifyProof_root:
  "verifyProof H p options = Inr (root, rs, depth) \<Longrightarrow> root = layerRoot H (rootLayer (proofV0 p))"
  by (erule verifyProof_Inr) (auto dest: verify_root)

text \<open>C10: One root. The root hash a proof is given does not depend on how it is verified:
  \<open>verifyGroveDBProof\<close> under any options, \<open>quickVerify\<close>, \<open>verifyKeyAbsence\<close> and
  \<open>verifyCompleteLayer\<close>, whichever of them accept the bytes, return the same root.\<close>

theorem one_root:
  "\<exists>root. (\<forall>options res. verifyGroveDBProof H proofBytes options = Inr res \<longrightarrow> rootHash res = root) \<and>
     (\<forall>r. quickVerify H proofBytes = Inr r \<longrightarrow> r = root) \<and>
     (\<forall>path key r. verifyKeyAbsence H proofBytes path key = Inr r \<longrightarrow> r = root) \<and>
     (\<forall>path r es. verifyCompleteLayer H proofBytes path = Inr (r, es) \<longrightarrow> r = root)"
proof (cases "decodeGroveDBProof proofBytes")
  case (Inl e)
  then show ?thesis
    by (simp add: verifyGroveDBProof_def quickVerify_def verifyKeyAbsence_def verifyCompleteLayer_def)
next
  case (Inr p)
  then show ?thesis
    by (intro exI [of _ "layerRoot H (rootLayer (proofV0 p))"])
      (auto simp: verifyGroveDBProof_def quickVerify_def verifyKeyAbsence_def verifyCompleteLayer_def
        dest!: verifyProof_root quick_root split: if_splits option.splits)
qed

theorem one_root_witness:
  "rootHash \<lparr>rootHash = oneRoot, results = [oneEntry]\<rparr> = oneRoot \<and> quickVerify lenHash oneProof = Inr oneRoot"
proof -
  have q: "quickVerify lenHash oneProof = Inr oneRoot"
    by (simp add: quickVerify_def decode_oneProof quickVerifyLayer.simps query_oneProof)
  with one_root [of lenHash oneProof] verify_oneProof(1) show ?thesis by metis
qed

text \<open>The lower layers an envelope must have for a query path: exactly the next segment's at each
  layer above the path, none at its end.\<close>

fun descends :: "LayerProof \<Rightarrow> bytes list \<Rightarrow> bool" where
  "descends layer [] \<longleftrightarrow> lowerLayersOf layer = []"
| "descends layer (s # path) \<longleftrightarrow>
     (case lowerLayersOf layer of
        [(k, l)] \<Rightarrow> k = bytesToHex s \<and> descends l path
      | _ \<Rightarrow> False)"

lemma envelopeLoop_bound: "envelopeLoop dn path i layer = Inr d \<Longrightarrow> i \<le> d \<and> d \<le> i + length path"
  using envelopeLoop_Inr by blast

lemma one_key:
  assumes "distinct (map fst kvs)" "\<forall>k\<in>fst ` set kvs. k = q" "map_of kvs q = Some v"
  shows "kvs = [(q, v)]"
proof (cases kvs)
  case (Cons kv rest)
  then have "rest = []" using assms(1,2) by (cases rest) auto
  with Cons assms show ?thesis by (cases kv) auto
qed (use assms in simp)

lemma envelopeLoop_descends:
  "wfLayer layer \<Longrightarrow> envelopeLoop dn path i layer = Inr (i + length path) \<longleftrightarrow> descends layer path"
proof (induction path arbitrary: dn i layer)
  case Nil
  then show ?case by simp
next
  case (Cons s path)
  obtain mp lls where layer: "layer = LayerProof mp lls" by (cases layer)
  show ?case
  proof
    assume e: "envelopeLoop dn (s # path) i layer = Inr (i + length (s # path))"
    then obtain l where f: "List.find (\<lambda>k. k \<noteq> bytesToHex s) (map fst lls) = None"
      and l: "map_of lls (bytesToHex s) = Some l" "envelopeLoop (dn @ [s]) path (Suc i) l = Inr (Suc i + length path)"
      by (auto simp: layer Let_def split: option.splits)
    from f have "\<forall>k\<in>fst ` set lls. k = bytesToHex s" by (auto simp: find_None_iff)
    with Cons.prems l(1) one_key [of lls] have lls: "lls = [(bytesToHex s, l)]" by (simp add: layer)
    with Cons.prems Cons.IH [of l "dn @ [s]" "Suc i"] l(2) show "descends layer (s # path)"
      by (simp add: layer)
  next
    assume "descends layer (s # path)"
    then obtain l where "lls = [(bytesToHex s, l)]" "descends l path"
      by (cases lls; cases "tl lls") (auto simp: layer split: prod.splits)
    with Cons.prems Cons.IH [of l "dn @ [s]" "Suc i"]
    show "envelopeLoop dn (s # path) i layer = Inr (i + length (s # path))"
      by (simp add: layer)
  qed
qed

text \<open>C14: The envelope check. For any decoded proof, \<open>checkEnvelope\<close> accepts exactly the envelopes
  that carry, under the default options, one lower layer per path segment, the segment's own, and
  none below the path.\<close>

theorem checkEnvelope_spec:
  assumes "decodeGroveDBProof proofBytes = Inr p"
  shows "checkEnvelope p path = Inr () \<longleftrightarrow>
    decreaseLimitOnEmptySubQueryResult (proveOptions (proofV0 p)) \<and>
    descends (rootLayer (proofV0 p)) path"
proof -
  note wf = decodeGroveDBProof_wf [OF assms]
  have "checkEnvelope p path = Inr () \<longleftrightarrow>
      decreaseLimitOnEmptySubQueryResult (proveOptions (proofV0 p)) \<and>
      envelopeDepth p path = Inr (0 + length path)"
    using wf envelopeLoop_bound [of "[]" path 0 "rootLayer (proofV0 p)"]
    by (auto simp: checkEnvelope_def checkHeader_def checkProveOptions_def envelopeDepth_def split: if_splits)
  also have "\<dots> \<longleftrightarrow> decreaseLimitOnEmptySubQueryResult (proveOptions (proofV0 p)) \<and>
      descends (rootLayer (proofV0 p)) path"
    unfolding envelopeDepth_def using wf envelopeLoop_descends by blast
  finally show ?thesis .
qed

theorem checkEnvelope_spec_witness:
  "checkEnvelope \<lparr>version = 0, proofV0 = \<lparr>rootLayer = LayerProof (encOps (treeOps oneTree)) [],
      proveOptions = \<lparr>decreaseLimitOnEmptySubQueryResult = True\<rparr>\<rparr>\<rparr> [] = Inr ()"
  by (simp add: checkEnvelope_spec [OF decode_oneProof])

subsection \<open>The limit is not a bound on results\<close>

text \<open>A layer that proves a subtree with its lower layer and one more entry, and a lower layer of
  two entries: under the limit 2, three entries are returned, because the lower layer may fill the
  whole limit before the second entry of its parent is added.\<close>

definition treeElement :: bytes where
  "treeElement = encElement \<lparr>refVariant = 0, refHeight = 0, refHops = None\<rparr> (Tree (Some [2]) None)"

definition lowerTree :: "(bytes \<Rightarrow> bytes) \<Rightarrow> mtree" where
  "lowerTree H = MTree (KV [2] [9])
     (ChildOf (newTree (KV [1] [9])) (thash H (newTree (KV [1] [9])))) NoChild"

definition upperTree :: "(bytes \<Rightarrow> bytes) \<Rightarrow> mtree" where
  "upperTree H = MTree
     (KVValueHash [3] treeElement (combineHash H (valueHash H treeElement) (thash H (lowerTree H))))
     NoChild (ChildOf (newTree (KV [4] [9])) (thash H (newTree (KV [4] [9]))))"

definition limitProof :: "(bytes \<Rightarrow> bytes) \<Rightarrow> bytes" where
  "limitProof H = encProof (WireLayer (encOps (treeOps (upperTree H)))
     [([3], WireLayer (encOps (treeOps (lowerTree H))) [])]) True"

lemma treeElement_eq: "treeElement = [2, 1, 1, 2, 0]"
  by (simp add: treeElement_def bincodeUint_def bincodeOption_def bincodeBytes_def)

lemma deserialize_treeElement: "tryDeserializeElement treeElement = Some (Tree (Some [2]) None)"
  unfolding tryDeserializeElement_def treeElement_def
  by (subst deserialize_encElement) (simp_all add: optDom_def vecDom_def MAX_SAFE_INTEGER_def)

lemma limitTrees_ok:
  assumes "hash32 H"
  shows "cached H (lowerTree H)" "ascending (keysOf (nodes (lowerTree H)))"
    "list_all wfOp (treeOps (lowerTree H))"
    "cached H (upperTree H)" "ascending (keysOf (nodes (upperTree H)))"
    "list_all wfOp (treeOps (upperTree H))"
  using assms
  by (simp_all add: lowerTree_def upperTree_def newTree_def MAX_VALUE_LEN_def treeElement_eq)

lemma length_limitOps:
  assumes "hash32 H"
  shows "length (encOps (treeOps (lowerTree H))) = 13" "length (encOps (treeOps (upperTree H))) = 49"
  using assms
  by (simp_all add: lowerTree_def upperTree_def newTree_def treeElement_eq encOps_def encKey_def
      encValue_def LARGE_VALUE_THRESHOLD_def beBytes_2)

lemma decode_limitProof:
  assumes "hash32 H"
  shows "decodeGroveDBProof (limitProof H) = Inr \<lparr>version = 0, proofV0 =
     \<lparr>rootLayer = LayerProof (encOps (treeOps (upperTree H)))
        [(bytesToHex [3], LayerProof (encOps (treeOps (lowerTree H))) [])],
      proveOptions = \<lparr>decreaseLimitOnEmptySubQueryResult = True\<rparr>\<rparr>\<rparr>"
  unfolding limitProof_def
  by (subst decodeGroveDBProof_encProof)
    (simp_all add: length_limitOps [OF assms] vecDom_def MAX_SAFE_INTEGER_def MAX_LAYER_DEPTH_def)

definition kvEntry :: "bytes list \<Rightarrow> bytes \<Rightarrow> ProvenEntry" where
  "kvEntry path k =
     \<lparr>epath = path, ekey = k, evalue = Some [9], eelement = None, etree = False, enodeType = TKV\<rparr>"

lemma turn_kv:
  "map_of (lowerLayersOf layer) (bytesToHex k) = None \<Longrightarrow>
     layerTurn H layer path lim deser \<lparr>pkey = k, pvalue = Some [9], pproof = h, pnodeType = TKV\<rparr> s =
       Inr ((), s\<lparr>vresults := vresults s @ [kvEntry path k]\<rparr>)"
  by (simp add: layerTurn_def leafEntry_def bindLeafValue_def deserialize_9 kvEntry_def Let_def bind_def)

lemma lower_limit:
  assumes "hash32 H"
  shows "verifyLayerProof H (LayerProof (encOps (treeOps (lowerTree H))) []) path (Some 2) deser s =
    Inr (thash H (lowerTree H), s\<lparr>vresults := vresults s @ [kvEntry path [1], kvEntry path [2]]\<rparr>)"
proof -
  have "reported H (Some 2) (nodes (lowerTree H)) =
      [\<lparr>pkey = [1], pvalue = Some [9], pproof = valueHash H [9], pnodeType = TKV\<rparr>,
       \<lparr>pkey = [2], pvalue = Some [9], pproof = valueHash H [9], pnodeType = TKV\<rparr>]"
    by (simp add: lowerTree_def decLimit_def carriesValue_def)
  with executeMerkProofWithQuery_treeOps [OF limitTrees_ok(1-3) [OF assms], of "Some 2"] show ?thesis
    by (simp add: verifyLayerProof_Inr turn_kv)
qed

lemma upper_limit:
  assumes "hash32 H"
  shows "verifyLayerProof H (LayerProof (encOps (treeOps (upperTree H)))
      [(bytesToHex [3], LayerProof (encOps (treeOps (lowerTree H))) [])]) [] (Some 2) deser
      \<lparr>vresults = [], emptyTrees = E\<rparr> =
    Inr (thash H (upperTree H),
      \<lparr>vresults = [kvEntry [[3]] [1], kvEntry [[3]] [2], kvEntry [] [4]], emptyTrees = E\<rparr>)"
proof -
  let ?vh = "combineHash H (valueHash H treeElement) (thash H (lowerTree H))"
  let ?layer = "LayerProof (encOps (treeOps (upperTree H)))
      [(bytesToHex [3], LayerProof (encOps (treeOps (lowerTree H))) [])]"
  have "reported H (Some 2) (nodes (upperTree H)) =
      [\<lparr>pkey = [3], pvalue = Some treeElement, pproof = ?vh, pnodeType = TKVValueHash\<rparr>,
       \<lparr>pkey = [4], pvalue = Some [9], pproof = valueHash H [9], pnodeType = TKV\<rparr>]"
    by (simp add: upperTree_def decLimit_def carriesValue_def)
  moreover have "bytesToHex [3] \<in> valueKeysOf (nodes (upperTree H))"
    unfolding valueKeysOf_def upperTree_def by (force simp: carriesValue_def)
  moreover have "layerTurn H ?layer [] (Some 2) deser
      \<lparr>pkey = [3], pvalue = Some treeElement, pproof = ?vh, pnodeType = TKVValueHash\<rparr>
      \<lparr>vresults = [], emptyTrees = E\<rparr> =
      Inr ((), \<lparr>vresults = [kvEntry [[3]] [1], kvEntry [[3]] [2]], emptyTrees = E\<rparr>)"
    by (simp add: layerTurn_def deserialize_treeElement isTreeWithRoot_def lower_limit [OF assms] bind_def
        Let_def del: bytesToHex.simps)
  moreover have "map_of (lowerLayersOf ?layer) (bytesToHex [4]) = None"
    by (simp del: bytesToHex.simps)
  ultimately show ?thesis
    using executeMerkProofWithQuery_treeOps [OF limitTrees_ok(4-6) [OF assms], of "Some 2"]
    by (simp add: verifyLayerProof_Inr turn_kv del: bytesToHex.simps)
qed

text \<open>The limit does not bound the result. For every 32-byte hash function there is a
  proof that \<open>verifyGroveDBProof\<close> accepts with the limit 2 and for which it returns three entries,
  though \<open>VerifyOptions.limit\<close> is documented as the maximum number of results.\<close>

lemma limit_exceeded:
  assumes "hash32 H"
  shows "\<exists>res. verifyGroveDBProof H (limitProof H)
      \<lparr>limitOpt = Some 2, deserializeElementsOpt = None, expectedPath = None\<rparr> = Inr res \<and>
    map (\<lambda>e. (epath e, ekey e)) (results res) = [([[3]], [1]), ([[3]], [2]), ([], [4])]"
  by (simp add: verifyGroveDBProof_def decode_limitProof [OF assms] verifyProof_def checkHeader_def
      checkProveOptions_def upper_limit [OF assms, simplified] kvEntry_def)

lemma limit_exceeded_witness:
  "\<exists>res. verifyGroveDBProof lenHash (limitProof lenHash)
      \<lparr>limitOpt = Some 2, deserializeElementsOpt = None, expectedPath = None\<rparr> = Inr res \<and>
    length (results res) = 3"
proof -
  obtain res
    where r: "verifyGroveDBProof lenHash (limitProof lenHash)
        \<lparr>limitOpt = Some 2, deserializeElementsOpt = None, expectedPath = None\<rparr> = Inr res \<and>
      map (\<lambda>e. (epath e, ekey e)) (results res) = [([[3]], [1]), ([[3]], [2]), ([], [4])]"
    using limit_exceeded [OF hash32_lenHash] ..
  have "length (results res) = length [([[3]], [1]), ([[3]], [2]), ([] :: bytes list, [4 :: byte])]"
    unfolding conjunct2 [OF r, symmetric] by (rule length_map [symmetric])
  then have "length (results res) = 3" by simp
  with conjunct1 [OF r] show ?thesis by (intro exI [of _ res] conjI)
qed

end
