(* ===== verification/Query_Result.thy ===== *)
theory Query_Result
  imports Sort_Order Grove_Properties
begin

text \<open>
  Verified query results against the committed state: the specification of a query's answer over a
  state (\<open>answers\<close>), that \<open>selectDocuments\<close> meets it, and that a response \<open>verifyQuerySelection\<close> accepts
  is the answer over the state the trusted root commits to, an empty answer when there is no data
  subtree. It composes the completeness of revealed layers with the JSON reader, the sort and the
  binding of documents. The last part reads requests: bounds and a round trip.
\<close>

subsection \<open>The answer to a query\<close>

text \<open>The document of an entry of the committed state: a stored item the node reads as JSON.\<close>

definition itemDoc :: "runtime \<Rightarrow> Element option \<Rightarrow> NodeJson option" where
  "itemDoc R el =
     (case el of
        Some (Item v _) \<Rightarrow> (case parseNodeJson (decodeText R) v of Inr d \<Rightarrow> d | Inl _ \<Rightarrow> None)
      | _ \<Rightarrow> None)"

definition contentDoc :: "runtime \<Rightarrow> bytes \<times> content \<Rightarrow> NodeJson option" where
  "contentDoc R kc = (case snd kc of Stored v \<Rightarrow> itemDoc R (tryDeserializeElement v) | _ \<Rightarrow> None)"

definition entryDoc :: "runtime \<Rightarrow> CompleteEntry \<Rightarrow> NodeJson option" where
  "entryDoc R e = (if creference e then None else itemDoc R (celement e))"

text \<open>The entries at a path: none where the state has no subtree.\<close>

definition layerEntries :: "state \<Rightarrow> bytes list \<Rightarrow> (bytes \<times> content) list \<Rightarrow> bool" where
  "layerEntries st path es \<longleftrightarrow>
     (\<forall>m. subAt st path m \<longrightarrow> es = entries m) \<and> ((\<forall>m. \<not> subAt st path m) \<longrightarrow> es = [])"

text \<open>The matching documents, a stable arrangement of them by the sort field, and the window of it.\<close>

definition arranged :: "runtime \<Rightarrow> sortSpec option \<Rightarrow> NodeJson list \<Rightarrow> NodeJson list \<Rightarrow> bool" where
  "arranged R order xs ys \<longleftrightarrow>
     (case order of
        None \<Rightarrow> ys = xs
      | Some s \<Rightarrow>
          mset ys = mset xs \<and>
          sorted_wrt (\<lambda>a b. directed (descending s) (sortKey R a (sfield s)) (sortKey R b (sfield s)) \<le> 0) ys \<and>
          (\<forall>k. filter (\<lambda>d. compareKeys (sortKey R d (sfield s)) k = 0) ys =
             filter (\<lambda>d. compareKeys (sortKey R d (sfield s)) k = 0) xs))"

definition answers :: "runtime \<Rightarrow> QuerySelection \<Rightarrow> NodeJson list \<Rightarrow> NodeJson list \<Rightarrow> nat \<Rightarrow> bool" where
  "answers R sel docs window n \<longleftrightarrow>
     (\<exists>ordered. arranged R (sortBy sel) (filter (matchesFilters (filters sel)) docs) ordered \<and>
        window = take (limit sel) (drop (offset sel) ordered) \<and> n = length ordered)"

lemma sortDocuments_arranged: "arranged R (Some s) xs (sortDocuments R xs s)"
proof -
  have "mset (sortDocuments R xs s) = mset xs \<and>
    sorted_wrt (\<lambda>a b. directed (descending s) (sortKey R a (sfield s)) (sortKey R b (sfield s)) \<le> 0) (sortDocuments R xs s) \<and>
    (\<forall>k. filter (\<lambda>d. compareKeys (sortKey R d (sfield s)) k = 0) (sortDocuments R xs s) =
       filter (\<lambda>d. compareKeys (sortKey R d (sfield s)) k = 0) xs)"
    by (rule sort_facts)
  then show ?thesis by (simp add: arranged_def)
qed

text \<open>One turn adds the entry's document when it matches.\<close>

lemma selectLoop_turn:
  assumes "selectLoop R fs (e # es) selected = Inr ds"
  shows "selectLoop R fs es (selected @ filter (matchesFilters fs) (List.map_filter (entryDoc R) [e])) = Inr ds"
proof -
  obtain el where el: "celement e = Some el" using assms by (cases "celement e") simp_all
  show ?thesis
  proof (cases "creference e")
    case True
    then show ?thesis using assms el by (simp add: entryDoc_def List.map_filter_simps)
  next
    case False
    show ?thesis
    proof (cases el)
      case (Item v f)
      show ?thesis
      proof (cases "parseNodeJson (decodeText R) v")
        case (Inl x)
        then show ?thesis using assms el False Item by (cases x) simp_all
      next
        case (Inr d)
        then show ?thesis using assms el False Item
          by (cases d) (simp_all add: entryDoc_def itemDoc_def List.map_filter_simps split: if_splits)
      qed
    qed (use assms el False in \<open>simp_all add: entryDoc_def itemDoc_def List.map_filter_simps\<close>)
  qed
qed

lemma map_filter_Cons: "List.map_filter f (x # xs) = List.map_filter f [x] @ List.map_filter f xs"
  by (simp add: List.map_filter_simps split: option.splits)

lemma selectLoop_docs:
  "selectLoop R fs es selected = Inr ds \<Longrightarrow>
     ds = selected @ filter (matchesFilters fs) (List.map_filter (entryDoc R) es)"
proof (induction es arbitrary: selected)
  case (Cons e es)
  show ?case
    unfolding map_filter_Cons [of _ e es] filter_append append_assoc [symmetric]
    by (rule Cons.IH [OF selectLoop_turn [OF Cons.prems]])
qed (simp add: List.map_filter_simps)

lemma selectDocuments_answers:
  assumes "selectDocuments R es sel = Inr (window, n)"
  shows "answers R sel (List.map_filter (entryDoc R) es) window n"
proof -
  obtain ds where ds: "selectLoop R (filters sel) es [] = Inr ds"
    and w: "(case sortBy sel of None \<Rightarrow> ds | Some s \<Rightarrow> sortDocuments R ds s) = ordered \<Longrightarrow>
      window = take (limit sel) (drop (offset sel) ordered) \<and> n = length ordered" for ordered
    using assms by (auto simp: selectDocuments_def Let_def)
  have d: "ds = filter (matchesFilters (filters sel)) (List.map_filter (entryDoc R) es)"
    using selectLoop_docs [OF ds] by simp
  have "arranged R (sortBy sel) ds (case sortBy sel of None \<Rightarrow> ds | Some s \<Rightarrow> sortDocuments R ds s)"
    by (cases "sortBy sel") (simp_all add: sortDocuments_arranged, simp add: arranged_def)
  then show ?thesis using w [OF refl] d by (auto simp: answers_def)
qed

subsection \<open>Revealed entries and the state's\<close>

lemma completeLoop_elements:
  "completeLoop H path prev ts = Inr es \<Longrightarrow> \<forall>e\<in>set es. celement e = tryDeserializeElement (cvalue e)"
proof (induction H path prev ts arbitrary: es rule: completeLoop.induct)
  case (2 H path prev t ts)
  then show ?case
    by (auto simp: Let_def split: option.splits if_splits)
qed simp

lemma complete_elements:
  "verifyCompleteLayer H bs path = Inr (rt, es) \<Longrightarrow> \<forall>e\<in>set es. celement e = tryDeserializeElement (cvalue e)"
  by (auto simp: verifyCompleteLayer_def split: if_splits option.splits dest: completeLoop_elements)

lemma item_not_tree: "tryDeserializeElement v = Some (Item p f) \<Longrightarrow> \<not> isTreeBytes v"
  by (simp add: isTreeBytes_def)

text \<open>No revealed value has one of the two lengths that bind to nothing.\<close>

definition boundLengths :: "CompleteEntry list \<Rightarrow> bool" where
  "boundLengths es \<longleftrightarrow> (\<forall>e\<in>set es. length (cvalue e) \<notin> {63, 95})"

lemma matches_doc:
  assumes "matches kc e" "wfContent (snd kc)" "length (cvalue e) \<notin> {63, 95}" "celement e = tryDeserializeElement (cvalue e)"
  shows "contentDoc R kc = entryDoc R e"
proof -
  have m: "if creference e then \<exists>s. snd kc = Refers s (cvalue e)
      else snd kc = Stored (cvalue e) \<or> snd kc = Subtree (cvalue e) Tip"
    using assms(1,3) by (simp add: matches_def)
  show ?thesis
  proof (cases "snd kc")
    case (Subtree v m')
    then have "isTreeBytes (cvalue e)" "\<not> creference e" using m assms(2) by (auto split: if_splits)
    then have "itemDoc R (celement e) = None"
      using assms(4) item_not_tree by (auto simp: itemDoc_def split: option.splits Grove_Types.Element.splits)
    then show ?thesis using Subtree by (simp add: contentDoc_def entryDoc_def)
  qed (use m assms(4) in \<open>auto simp: contentDoc_def entryDoc_def split: if_splits\<close>)
qed

lemma layer_docs:
  assumes "committed H bs rt st" "verifyCompleteLayer H bs path = Inr (rt, es)" "boundLengths es"
    and "layerEntries st path kcs"
  shows "List.map_filter (contentDoc R) kcs = List.map_filter (entryDoc R) es"
proof -
  note layer = complete_layer [OF assms(1,2)]
  show ?thesis
  proof (cases "\<exists>m. subAt st path m")
    case True
    then obtain m where m: "subAt st path m" by blast
    then have k: "kcs = entries m" and lm: "list_all2 matches (entries m) es"
      using assms(4) layer by (auto simp: layerEntries_def)
    have "wfState m" using subAt_wf [OF m] assms(1) by (simp add: committed_def)
    then have wf: "\<forall>kc\<in>set (entries m). wfContent (snd kc)" using wfState_content by fastforce
    have "\<forall>e\<in>set es. length (cvalue e) \<notin> {63, 95} \<and> celement e = tryDeserializeElement (cvalue e)"
      using assms(3) complete_elements [OF assms(2)] by (simp add: boundLengths_def)
    from lm wf this have "List.map_filter (contentDoc R) (entries m) = List.map_filter (entryDoc R) es"
    proof (induction rule: list_all2_induct)
      case (Cons kc kcs e es)
      then have "contentDoc R kc = entryDoc R e" by (intro matches_doc) auto
      with Cons show ?case by (simp add: List.map_filter_simps split: option.splits)
    qed simp
    then show ?thesis using k by simp
  next
    case False
    then show ?thesis using assms(4) layer by (auto simp: layerEntries_def)
  qed
qed

subsection \<open>Accepted responses\<close>

text \<open>A returned document is the JSON value of the selected one, which has no number a JavaScript
  number would round.\<close>

definition bindsTo :: "runtime \<Rightarrow> NodeJson \<Rightarrow> jsval \<Rightarrow> bool" where
  "bindsTo R d v \<longleftrightarrow> jsonDeepEqual (nodeJsonToJs (toNumber R) d) v \<and> inexactNumber (exactIn R) d = None"

lemma compareDocuments_binds:
  "compareDocuments R i ds vs = Inr u \<Longrightarrow> length vs = length ds \<Longrightarrow> list_all2 (bindsTo R) ds vs"
  by (induction R i ds vs rule: compareDocuments.induct)
    (auto simp: bindsTo_def split: option.splits if_splits)

lemma checkQueryResult_Inr:
  assumes "checkQueryResult R data sel response = Inr u"
  obtains window n vs where "selectDocuments R (dentries data) sel = Inr (window, n)"
    "strictEqNat (rtotal response) n" "rdocuments response = VArr vs" "list_all2 (bindsTo R) window vs"
    "strictEqNat (roffset response) (offset sel)" "strictEqNat (rlimit response) (limit sel)"
proof (cases "selectDocuments R (dentries data) sel")
  case (Inl e)
  then show ?thesis using assms by (cases e) (simp_all add: checkQueryResult_def)
next
  case (Inr wn)
  obtain window n where wn: "wn = (window, n)" by (cases wn)
  show ?thesis
  proof (cases "rdocuments response")
    case (VArr vs)
    then show ?thesis using assms Inr wn that [OF _ _ VArr]
      by (auto simp: checkQueryResult_def split: if_splits dest: compareDocuments_binds)
  qed (use assms Inr wn in \<open>auto simp: checkQueryResult_def split: if_splits\<close>)
qed

lemma wrapq_Inr [simp]: "wrapq m = Inr x \<longleftrightarrow> m = Inr x"
  by (cases m) (auto simp: wrapq_def)

lemma verifyQuerySelection_Inr:
  assumes "verifyQuerySelection H R subgroveId query response expected = Inr r"
  obtains sel hex bs rt es where
    "querySelection (jsonStringify R (withProof query)) = Inr sel"
    "rproof response = Some hex" "decodeProofBytes hex = Inr bs"
    "verifyCompleteLayer H bs (encodePath R (subgroveDataPath subgroveId)) = Inr (rt, es)"
    "r = hashToHex rt" "enforceExpectedRoot (hashToHex rt) expected = Inr ()"
    "checkQueryResult R \<lparr>dentries = es, droot = hashToHex rt\<rparr> sel response = Inr ()"
  using assms
  by (auto simp: verifyQuerySelection_def provenQueryData_def split: option.splits if_splits)

lemma enforced_root:
  assumes "enforceExpectedRoot (hashToHex r) (Some (hashToHex rt)) = Inr ()" "rt \<noteq> []"
  shows "r = rt"
proof -
  have "bytesToHex rt \<noteq> []" using assms(2) by (cases rt) simp_all
  then show ?thesis
    using assms(1) by (simp add: enforceExpectedRoot_def hashToHex_def del: bytesToHex.simps split: if_splits)
qed

subsection \<open>A state with an empty subtree\<close>

text \<open>The witness's committed state: an empty tree element at the first segment of the path.\<close>

definition voidElement :: bytes where
  "voidElement = encElement \<lparr>refVariant = 0, refHeight = 0, refHops = None\<rparr> (Tree None None)"

definition voidState :: state where
  "voidState = Nd Tip [7] (Subtree voidElement Tip) Tip"

definition voidTree :: mtree where
  "voidTree = newTree (KVValueHash [7] voidElement (combineHash lenHash (valueHash lenHash voidElement) NULL_HASH))"

definition voidProof :: bytes where
  "voidProof = encProof (WireLayer (encOps (treeOps voidTree)) []) True"

definition voidRoot :: CryptoHash where
  "voidRoot = mhash lenHash voidState"

lemma voidElement_eq: "voidElement = [2, 0, 0]"
  by (simp add: voidElement_def bincodeUint_def bincodeOption_def)

lemma deserialize_void: "tryDeserializeElement voidElement = Some (Tree None None)"
  unfolding tryDeserializeElement_def voidElement_def
  by (subst deserialize_encElement) (simp_all add: optDom_def vecDom_def MAX_SAFE_INTEGER_def)

lemma voidTree_ok:
  "cached lenHash voidTree" "ascending (keysOf (nodes voidTree))" "list_all wfOp (treeOps voidTree)"
  by (simp_all add: voidTree_def newTree_def MAX_VALUE_LEN_def voidElement_eq)

lemma thash_voidTree: "thash lenHash voidTree = voidRoot"
  by (simp add: voidTree_def voidRoot_def voidState_def thash_def kvHash_eq newTree_def)

lemma length_voidOps: "length (encOps (treeOps voidTree)) = 40"
  by (simp add: voidTree_def newTree_def encOps_def encKey_def encValue_def voidElement_eq
      LARGE_VALUE_THRESHOLD_def beBytes_2)

lemma decode_voidProof:
  "decodeGroveDBProof voidProof = Inr \<lparr>version = 0, proofV0 =
     \<lparr>rootLayer = LayerProof (encOps (treeOps voidTree)) [],
      proveOptions = \<lparr>decreaseLimitOnEmptySubQueryResult = True\<rparr>\<rparr>\<rparr>"
  unfolding voidProof_def
  by (subst decodeGroveDBProof_encProof) (simp_all add: length_voidOps vecDom_def MAX_SAFE_INTEGER_def)

lemma wf_voidState: "wfState voidState"
  by (simp add: voidState_def isTreeBytes_def deserialize_void isTreeWithRoot_def) (simp add: voidElement_eq)

lemma void_inputs:
  "proofInputs lenHash voidProof \<union> sinputs lenHash voidState =
     {nodeInput (kvDigestToKvHash lenHash [7] (combineHash lenHash (valueHash lenHash voidElement) NULL_HASH)) NULL_HASH NULL_HASH,
      kvInput [7] (combineHash lenHash (valueHash lenHash voidElement) NULL_HASH), valueInput voidElement,
      combineInput (valueHash lenHash voidElement) NULL_HASH}"
proof -
  have "layerTree lenHash (LayerProof (encOps (treeOps voidTree)) []) = Some voidTree"
    by (simp add: layerTree_def executeMerkProof_treeOps [OF voidTree_ok])
  then have "proofInputs lenHash voidProof = tinputs lenHash voidTree \<union>
      (\<Union>v\<in>set (valuesOf voidTree). {combineInput (valueHash lenHash v) NULL_HASH})"
    by (simp add: proofInputs_def decode_voidProof ownInputs_def)
  moreover have "valuesOf voidTree = [voidElement]"
    by (simp add: valuesOf_def voidTree_def newTree_def List.map_filter_def)
  moreover have "tinputs lenHash voidTree = insert
     (nodeInput (kvDigestToKvHash lenHash [7] (combineHash lenHash (valueHash lenHash voidElement) NULL_HASH)) NULL_HASH NULL_HASH)
      {valueInput voidElement, kvInput [7] (combineHash lenHash (valueHash lenHash voidElement) NULL_HASH)}"
    by (simp only: voidTree_def newTree_def tinputs.simps tinputsC.simps kvOf.simps cachedHash.simps
        nodeTag.simps NodeType.distinct if_False ninputs.simps Un_empty_right)
  moreover have "sinputs lenHash voidState =
     {nodeInput (kvDigestToKvHash lenHash [7] (combineHash lenHash (valueHash lenHash voidElement) NULL_HASH)) NULL_HASH NULL_HASH,
      kvInput [7] (combineHash lenHash (valueHash lenHash voidElement) NULL_HASH)} \<union> {} \<union>
      ({valueInput voidElement, combineInput (valueHash lenHash voidElement) NULL_HASH} \<union> {}) \<union> {}"
    by (simp only: voidState_def sinputs.simps cinputs.simps mhash.simps chash.simps)
  ultimately show ?thesis by auto
qed

lemma void_committed: "committed lenHash voidProof voidRoot voidState"
proof -
  have len: "length (kvInput [7] (combineHash lenHash a b)) = 34" "length (valueInput voidElement) = 4" for a b
    by (simp_all add: kvInput_def valueInput_def voidElement_eq varintBytes.simps)
  have "collision_free lenHash (proofInputs lenHash voidProof \<union> sinputs lenHash voidState)"
    unfolding void_inputs
    by (rule collision_free_lengths)
      (auto simp: inj_on_def len simp del: length_greater_0_conv dest!: arg_cong [of _ "[]" length])
  then show ?thesis by (simp add: committed_def voidRoot_def wf_voidState)
qed

lemma query_voidProof:
  "executeMerkProofWithQuery lenHash (encOps (treeOps voidTree)) lm =
     Inr \<lparr>merkRoot = voidRoot, resultSet = reported lenHash lm (nodes voidTree),
          limitLeft = map_option (\<lambda>l. l - int (valueCount (reported lenHash lm (nodes voidTree)))) lm,
          valueKeys = valueKeysOf (nodes voidTree)\<rparr>"
  using executeMerkProofWithQuery_treeOps [OF voidTree_ok, of lm] by (simp add: thash_voidTree)

lemma reported_void:
  "reported lenHash None (nodes voidTree) =
     [\<lparr>pkey = [7], pvalue = Some voidElement,
       pproof = combineHash lenHash (valueHash lenHash voidElement) NULL_HASH, pnodeType = TKVValueHash\<rparr>]"
  by (simp add: voidTree_def newTree_def decLimit_def carriesValue_def)

lemma complete_voidProof:
  assumes "path = [[7], [7], [7]]"
  shows "verifyCompleteLayer lenHash voidProof path = Inr (voidRoot, [])"
proof -
  have l: "verifyLayerProof lenHash (LayerProof (encOps (treeOps voidTree)) []) [] None True
     \<lparr>vresults = [], emptyTrees = {}\<rparr> = Inr (voidRoot, \<lparr>vresults =
       [\<lparr>epath = [], ekey = [7], evalue = Some voidElement, eelement = Some (Tree None None), etree = True,
         enodeType = TKVValueHash\<rparr>], emptyTrees = {entryId [] [7]}\<rparr>)"
    by (simp add: verifyLayerProof_Inr query_voidProof reported_void layerTurn_def leafEntry_def
        bindLeafValue_def deserialize_void)
  show ?thesis
    by (simp add: assms verifyCompleteLayer_def decode_voidProof verifyProof_def checkHeader_def
        checkProveOptions_def envelopeDepth_def pathOptions_def l)
qed

subsection \<open>Properties\<close>

text \<open>C4: Query results. When \<open>verifyQuerySelection\<close> accepts a response against the root of a
  committed state (no revealed value of 63 or 95 bytes, see the header), the documents it returns are
  the node's answer to the request the SDK sent, computed over every entry of the subgrove's data
  in that state: a window of a stable arrangement of the stored documents that match the filters,
  each equal to its stored document and free of rounded numbers, with the total, offset and limit
  the answer has. When the state has no data subtree the answer is empty.\<close>

theorem query_result_sound:
  assumes "committed H bs rt st" and "rproof response = Some hex" and "decodeProofBytes hex = Inr bs"
    and "layerEntries st (encodePath R (subgroveDataPath subgroveId)) kcs"
    and "\<forall>r es. verifyCompleteLayer H bs (encodePath R (subgroveDataPath subgroveId)) = Inr (r, es) \<longrightarrow> boundLengths es"
    and "verifyQuerySelection H R subgroveId query response (Some (hashToHex rt)) = Inr r"
  shows "r = hashToHex rt \<and>
    (\<exists>sel window n vs.
       querySelection (jsonStringify R (withProof query)) = Inr sel \<and>
       answers R sel (List.map_filter (contentDoc R) kcs) window n \<and>
       rdocuments response = VArr vs \<and> list_all2 (bindsTo R) window vs \<and>
       strictEqNat (rtotal response) n \<and> strictEqNat (roffset response) (offset sel) \<and>
       strictEqNat (rlimit response) (limit sel))"
proof -
  from assms(6) obtain sel bs' rt' es where sel: "querySelection (jsonStringify R (withProof query)) = Inr sel"
    and bs': "decodeProofBytes hex = Inr bs'"
    and layer: "verifyCompleteLayer H bs' (encodePath R (subgroveDataPath subgroveId)) = Inr (rt', es)"
    and r: "r = hashToHex rt'" "enforceExpectedRoot (hashToHex rt') (Some (hashToHex rt)) = Inr ()"
    and chk: "checkQueryResult R \<lparr>dentries = es, droot = hashToHex rt'\<rparr> sel response = Inr ()"
    using assms(2) by (auto elim!: verifyQuerySelection_Inr)
  have "rt \<noteq> []" using assms(1) by (auto simp: committed_def dest: length_mhash [of H st])
  then have rt': "rt' = rt" using r(2) enforced_root by blast
  have bs: "bs' = bs" using bs' assms(3) by simp
  note layer = layer [unfolded bs rt']
  have "boundLengths es" using assms(5) layer by blast
  note docs = layer_docs [OF assms(1) layer this assms(4), of R]
  from chk obtain window n vs where "selectDocuments R es sel = Inr (window, n)"
    "strictEqNat (rtotal response) n" "rdocuments response = VArr vs" "list_all2 (bindsTo R) window vs"
    "strictEqNat (roffset response) (offset sel)" "strictEqNat (rlimit response) (limit sel)"
    by (rule checkQueryResult_Inr) auto
  then show ?thesis using selectDocuments_answers [of R es sel window n] sel r(1) rt' docs by auto
qed

definition voidRuntime :: runtime where
  "voidRuntime = \<lparr>encodeText = (\<lambda>_. [7]), decodeText = (\<lambda>_. None), jsonParse = (\<lambda>_. None),
     jsonStringify = (\<lambda>_. js ''{}''), toNumber = (\<lambda>_. 0), numberText = (\<lambda>_. [])\<rparr>"

definition voidResponse :: QueryResponse where
  "voidResponse = \<lparr>rproof = Some (bytesToHex voidProof), rtotal = VNum 0, roffset = VNum 0,
     rlimit = VNum 0x4059000000000000, rdocuments = VArr []\<rparr>"

lemma void_selection:
  "querySelection (js ''{}'') = Inr \<lparr>filters = [], sortBy = None, offset = 0, limit = 100\<rparr>"
proof -
  have "parseNodeJsonText (js ''{}'') = Inr (Some (JObj []))"
    using json_text_read [of "JObj []"] by (simp add: MAX_NESTING_def)
  then show ?thesis
    by (simp add: querySelection_def readBody_def queryRefusal_def filtersRefusal_def sortRefusal_def
        isU32_def u32_def sortOf_def DEFAULT_QUERY_LIMIT_def or_else_def)
qed

lemma bytesToHex_empty: "bytesToHex bs = [] \<longleftrightarrow> bs = []"
  using bytesToHex_inj [of bs "[]"] by simp

lemma decode_void: "decodeProofBytes (bytesToHex voidProof) = Inr voidProof"
proof -
  have "voidProof \<noteq> []" by (auto simp: voidProof_def encProof_def)
  moreover have "hexToBytes (bytesToHex voidProof) = Inr voidProof"
    by (simp add: hexToBytes_def strip0x_bytesToHex hexPairs_bytesToHex del: bytesToHex.simps)
  ultimately show ?thesis by (simp add: decodeProofBytes_def bytesToHex_empty del: bytesToHex.simps)
qed

lemma void_numbers: "strictEqNat (VNum 0) 0" "strictEqNat (VNum 0x4059000000000000) 100"
proof -
  show "strictEqNat (VNum 0) 0"
    by (simp add: strictEqNat_def isFiniteNumber_def numberVal_def biasedOf_def fracOf_def)
  have "drop_bit 52 (0x4059000000000000 :: 64 word) AND mask 11 = 1029"
    "(0x4059000000000000 :: 64 word) AND mask 52 = 0x9000000000000"
    "\<not> bit (0x4059000000000000 :: 64 word) 63"
    by code_simp+
  then show "strictEqNat (VNum 0x4059000000000000) 100"
    by (simp add: strictEqNat_def isFiniteNumber_def numberVal_def biasedOf_def fracOf_def signOf_def)
qed

lemma void_verified:
  "verifyQuerySelection lenHash voidRuntime [] [] voidResponse (Some (hashToHex voidRoot)) = Inr (hashToHex voidRoot)"
proof -
  have sel: "querySelection (jsonStringify voidRuntime (withProof [])) =
      Inr \<lparr>filters = [], sortBy = None, offset = 0, limit = 100\<rparr>"
    using void_selection by (simp add: voidRuntime_def)
  have p: "encodePath voidRuntime (subgroveDataPath []) = [[7], [7], [7]]"
    by (simp add: encodePath_def subgroveDataPath_def voidRuntime_def)
  have "voidProof \<noteq> []" by (auto simp: voidProof_def encProof_def)
  then have d: "bytesToHex voidProof \<noteq> []" by (simp add: bytesToHex_empty)
  have data: "provenQueryData lenHash voidRuntime [] voidResponse =
      Inr \<lparr>dentries = [], droot = hashToHex voidRoot\<rparr>"
    by (simp add: provenQueryData_def voidResponse_def p d decode_void complete_voidProof del: bytesToHex.simps)
  have enf: "enforceExpectedRoot (hashToHex voidRoot) (Some (hashToHex voidRoot)) = Inr ()"
    by (simp add: enforceExpectedRoot_def)
  have chk: "checkQueryResult voidRuntime \<lparr>dentries = [], droot = hashToHex voidRoot\<rparr>
      \<lparr>filters = [], sortBy = None, offset = 0, limit = 100\<rparr> voidResponse = Inr ()"
    by (simp add: checkQueryResult_def selectDocuments_def voidResponse_def void_numbers)
  show ?thesis by (simp add: verifyQuerySelection_def sel data enf chk)
qed

theorem query_result_sound_witness:
  "verifyQuerySelection lenHash voidRuntime [] [] voidResponse (Some (hashToHex voidRoot)) = Inr (hashToHex voidRoot) \<and>
   (\<exists>sel window n vs. answers voidRuntime sel [] window n \<and> rdocuments voidResponse = VArr vs \<and>
      list_all2 (bindsTo voidRuntime) window vs)"
proof -
  have p: "encodePath voidRuntime (subgroveDataPath []) = [[7], [7], [7]]"
    by (simp add: encodePath_def subgroveDataPath_def voidRuntime_def)
  have e: "layerEntries voidState (encodePath voidRuntime (subgroveDataPath [])) []"
    by (simp add: layerEntries_def p voidState_def subAt_Cons)
  have l: "\<forall>r es. verifyCompleteLayer lenHash voidProof (encodePath voidRuntime (subgroveDataPath [])) = Inr (r, es) \<longrightarrow>
      boundLengths es"
    by (simp add: p complete_voidProof boundLengths_def)
  have "rproof voidResponse = Some (bytesToHex voidProof)" by (simp add: voidResponse_def)
  from query_result_sound [OF void_committed this decode_void e l void_verified] void_verified show ?thesis
    by (simp add: List.map_filter_simps) blast
qed

subsection \<open>Requests\<close>

text \<open>What a filter, a sort and a whole selection are when nothing refuses the request.\<close>

definition filterOk :: "jsstr \<times> NodeJson \<Rightarrow> bool" where
  "filterOk f \<longleftrightarrow> fst f \<notin> set LOGICAL_OPERATORS \<and> utf8Length (fst f) \<le> MAX_FIELD_BYTES \<and>
     nodeJsonTextLength (snd f) \<le> MAX_FILTER_VALUE_BYTES \<and> (\<nexists>ob. snd f = JObj ob)"

definition selectionOk :: "QuerySelection \<Rightarrow> bool" where
  "selectionOk sel \<longleftrightarrow>
     length (filters sel) \<le> MAX_FILTER_FIELDS \<and> list_all filterOk (filters sel) \<and>
     (case sortBy sel of None \<Rightarrow> True | Some s \<Rightarrow> utf8Length (sfield s) \<le> MAX_FIELD_BYTES) \<and>
     offset sel \<le> U32_MAX \<and> limit sel \<le> U32_MAX"

lemma filterRefusal_None: "filterRefusal f = None \<Longrightarrow> filterOk f"
  by (cases f; cases "snd f") (auto simp: filterRefusal_def filterOk_def split: if_splits)

lemma filtersRefusal_None:
  "filtersRefusal (Some (JObj fs)) = None \<Longrightarrow> length fs \<le> MAX_FILTER_FIELDS \<and> list_all filterOk fs"
  by (auto simp: filtersRefusal_def foldr_or_else list_all_iff filterRefusal_None split: if_splits)

lemma sortRefusal_None:
  assumes "sortRefusal v = None" "sortOf v = Some s"
  shows "utf8Length (sfield s) \<le> MAX_FIELD_BYTES"
proof -
  from assms(2) obtain ob f d where v: "v = Some (JObj ob)" "map_of ob (js ''field'') = Some (JStr f)"
      "map_of ob (js ''order'') = Some (JStr d)" "sfield s = f"
    by (auto simp: sortOf_def split: option.splits NodeJson.splits)
  from assms(1) [unfolded v(1) sortRefusal_def] v(2-4) show ?thesis by (auto split: if_splits bool.splits)
qed

lemma u32_bound: "isU32 v \<Longrightarrow> fallback \<le> U32_MAX \<Longrightarrow> u32 v fallback \<le> U32_MAX"
  by (auto simp: isU32_def u32_def split: option.splits NodeJson.splits)

lemma queryRefusal_None:
  assumes "queryRefusal members = None"
  shows "filtersRefusal (map_of members (js ''filters'')) = None" "sortRefusal (map_of members (js ''sort'')) = None"
    "isU32 (map_of members (js ''limit''))" "isU32 (map_of members (js ''offset''))"
  using assms unfolding queryRefusal_def foldr_or_else list_all_iff by (auto split: if_splits)

lemma querySelection_cases:
  obtains (unread) e where "readBody body = Inl e" "querySelection body = Inl e" "checkQueryAccepted body = Inl e"
    "\<nexists>key. e = QueryNotVerifiableError key"
  | (token) key where "querySelection body = Inl (QueryNotVerifiableError key)" "checkQueryAccepted body = Inr ()"
  | (refused) e where "querySelection body = Inl (QueryRefusedError e)" "checkQueryAccepted body = Inl (QueryRefusedError e)"
  | (selected) members where "queryRefusal members = None" "checkQueryAccepted body = Inr ()"
      "querySelection body = Inr \<lparr>filters = (case map_of members (js ''filters'') of Some (JObj fs) \<Rightarrow> fs | _ \<Rightarrow> []),
         sortBy = sortOf (map_of members (js ''sort'')), offset = u32 (map_of members (js ''offset'')) 0,
         limit = u32 (map_of members (js ''limit'')) DEFAULT_QUERY_LIMIT\<rparr>"
proof (cases "readBody body")
  case (Inl e)
  moreover from this have "\<nexists>key. e = QueryNotVerifiableError key"
    by (auto simp: readBody_def split: sum.splits jerr.splits option.splits NodeJson.splits)
  ultimately show ?thesis by (intro unread [of e]) (simp_all add: querySelection_def checkQueryAccepted_def)
next
  case (Inr r)
  show ?thesis
  proof (cases r)
    case (Inl key)
    with Inr show ?thesis by (intro token [of key]) (simp_all add: querySelection_def checkQueryAccepted_def)
  next
    case r: (Inr members)
    show ?thesis
    proof (cases "queryRefusal members")
      case None
      with Inr r show ?thesis
        by (intro selected [of members]) (simp_all only: querySelection_def checkQueryAccepted_def sum.case bnd_simps option.case)
    next
      case (Some e)
      with Inr r show ?thesis by (intro refused [of e]) (simp_all add: querySelection_def checkQueryAccepted_def)
    qed
  qed
qed

lemma selection_ok:
  assumes "querySelection body = Inr sel"
  shows "selectionOk sel"
proof -
  obtain members where q: "queryRefusal members = None"
    and sel: "sel = \<lparr>filters = (case map_of members (js ''filters'') of Some (JObj fs) \<Rightarrow> fs | _ \<Rightarrow> []),
      sortBy = sortOf (map_of members (js ''sort'')), offset = u32 (map_of members (js ''offset'')) 0,
      limit = u32 (map_of members (js ''limit'')) DEFAULT_QUERY_LIMIT\<rparr>"
    using assms by (cases body rule: querySelection_cases) auto
  note none = queryRefusal_None [OF q]
  have "length (filters sel) \<le> MAX_FILTER_FIELDS \<and> list_all filterOk (filters sel)"
    using none(1) filtersRefusal_None unfolding sel by (auto split: option.splits NodeJson.splits)
  moreover have "(case sortBy sel of None \<Rightarrow> True | Some s \<Rightarrow> utf8Length (sfield s) \<le> MAX_FIELD_BYTES)"
    using sortRefusal_None [OF none(2)] unfolding sel by (auto split: option.splits)
  moreover have "offset sel \<le> U32_MAX" "limit sel \<le> U32_MAX"
    using u32_bound [OF none(3)] u32_bound [OF none(4)] unfolding sel
    by (simp_all add: DEFAULT_QUERY_LIMIT_def U32_MAX_def)
  ultimately show ?thesis by (simp add: selectionOk_def)
qed

text \<open>C24: Accepted requests. Reading a request ends with a selection exactly when the API accepts it
  and no object of it starts with a token the JSON reader cannot reproduce; the selection then is
  within the API's bounds: at most 32 filters, none of them a logical operator or an operator
  object, names of at most 256 and values of at most 4,096 bytes, and a window in 32-bit numbers.\<close>

theorem accepted_requests:
  "((\<exists>sel. querySelection body = Inr sel) \<longleftrightarrow>
      checkQueryAccepted body = Inr () \<and> (\<nexists>key. querySelection body = Inl (QueryNotVerifiableError key))) \<and>
   (querySelection body = Inr sel \<longrightarrow> selectionOk sel)"
proof -
  have "(\<exists>sel. querySelection body = Inr sel) \<longleftrightarrow>
      checkQueryAccepted body = Inr () \<and> (\<nexists>key. querySelection body = Inl (QueryNotVerifiableError key))"
    by (cases body rule: querySelection_cases) simp_all
  then show ?thesis using selection_ok by blast
qed

theorem accepted_requests_witness:
  "selectionOk \<lparr>filters = [], sortBy = None, offset = 0, limit = 100\<rparr> \<and> checkQueryAccepted (js ''{}'') = Inr ()"
  using accepted_requests [of "js ''{}''" "\<lparr>filters = [], sortBy = None, offset = 0, limit = 100\<rparr>"]
    void_selection by blast

end
