(* ===== verification/Rounding.thy ===== *)
theory Rounding
  imports Json_Decimal
begin

text \<open>
  Correct rounding: \<open>roundQuotient\<close> of \<open>Json_Number\<close> gives the nearest number of 53 bits, ties to even,
  and so \<open>parseF64\<close> reads a decimal as the nearest double.
\<close>

subsection \<open>Floors\<close>

lemma bitLength_bounds: "0 < n \<Longrightarrow> 2 ^ (bitLength n - 1) \<le> n \<and> n < 2 ^ bitLength n"
proof (induction n rule: bitLength.induct)
  case (1 n)
  show ?case
  proof (cases "n < 2")
    case True
    with 1(2) show ?thesis by (simp add: bitLength.simps [of n])
  next
    case False
    with 1 have ih: "2 ^ (bitLength (n div 2) - 1) \<le> n div 2" "n div 2 < 2 ^ bitLength (n div 2)" by simp_all
    have b: "bitLength n = Suc (bitLength (n div 2))" "0 < bitLength (n div 2)"
      using False by (simp_all add: bitLength.simps [of n] bitLength.simps [of "n div 2"])
    have "(2 :: nat) ^ bitLength (n div 2) = 2 * 2 ^ (bitLength (n div 2) - 1)" using b(2) by (simp add: power_eq_if)
    then have "2 ^ bitLength (n div 2) \<le> n" "n < 2 * 2 ^ bitLength (n div 2)" using ih by linarith+
    then show ?thesis by (simp add: b)
  qed
qed

lemma two_powi_less: "(2 :: rat) powi a < 2 powi b \<longleftrightarrow> a < b"
proof -
  have "2 powi a < (2 :: rat) powi b" if "a < b" for a b :: int
  proof -
    from that have "(2 :: rat) powi b = 2 powi a * 2 ^ nat (b - a)"
      by (simp add: power_int_add [symmetric] flip: power_int_of_nat)
    moreover have "(1 :: rat) < 2 ^ nat (b - a)" using that by (intro one_less_power) simp_all
    ultimately show ?thesis by (simp add: zero_less_power_int)
  qed
  then show ?thesis by (metis linorder_neqE_linordered_idom order_less_asym' )
qed

lemma powi_add2: "(2 :: rat) powi (a + b) = 2 powi a * 2 powi b"
  by (simp add: power_int_add)

lemma floor_parts:
  assumes "0 < d"
  shows "rat_of_nat n = (rat_of_nat (n div d) + rat_of_nat (n mod d) / rat_of_nat d) * rat_of_nat d"
proof -
  have "rat_of_nat n = rat_of_nat (n div d * d + n mod d)" by simp
  then show ?thesis using assms by (simp only: of_nat_add of_nat_mult) (simp add: field_simps)
qed

lemma quotient_value:
  assumes "quotient num den e = (q, r, d)" "0 < den"
  shows "0 < d \<and> r < d \<and> rat_of_nat num / rat_of_nat den = (rat_of_nat q + rat_of_nat r / rat_of_nat d) * 2 powi e"
proof (cases "0 \<le> e")
  case True
  then have d: "d = den * 2 ^ nat e" "q = num div d" "r = num mod d"
    using assms(1) by (auto simp: quotient_def push_bit_eq_mult mult.commute)
  then have "0 < d" using assms(2) by simp
  then have "rat_of_nat num = (rat_of_nat q + rat_of_nat r / rat_of_nat d) * rat_of_nat d"
    unfolding d(2,3) by (rule floor_parts)
  moreover have "rat_of_nat d / rat_of_nat den = 2 powi e" using True assms(2) d(1) by (simp add: power_int_def)
  ultimately have "rat_of_nat num / rat_of_nat den = (rat_of_nat q + rat_of_nat r / rat_of_nat d) * 2 powi e"
    by (metis times_divide_eq_right)
  then show ?thesis using \<open>0 < d\<close> d(3) by simp
next
  case False
  let ?n = "num * 2 ^ nat (- e)"
  have d: "d = den" "q = ?n div d" "r = ?n mod d"
    using assms(1) False by (auto simp: quotient_def push_bit_eq_mult)
  have "rat_of_nat ?n = (rat_of_nat q + rat_of_nat r / rat_of_nat d) * rat_of_nat d"
    unfolding d(2,3) by (rule floor_parts) (use assms(2) d(1) in simp)
  moreover have "rat_of_nat num / rat_of_nat den * 2 ^ nat (- e) = rat_of_nat ?n / rat_of_nat d"
    unfolding d(1) by simp
  ultimately have "rat_of_nat num / rat_of_nat den * 2 ^ nat (- e) = rat_of_nat q + rat_of_nat r / rat_of_nat d"
    using assms(2) d(1) by simp
  moreover have "(2 :: rat) ^ nat (- e) * 2 powi e = 1" using False by (simp add: power_int_def power_mult_distrib [symmetric])
  ultimately have "rat_of_nat num / rat_of_nat den = (rat_of_nat q + rat_of_nat r / rat_of_nat d) * 2 powi e"
    by (metis mult.assoc mult.right_neutral)
  then show ?thesis using assms(2) d by simp
qed

lemma quotient_floor:
  assumes "quotient num den e = (q, r, d)" "0 < den" "x = rat_of_nat num / rat_of_nat den"
  shows "rat_of_nat q * 2 powi e \<le> x \<and> x < rat_of_nat (q + 1) * 2 powi e"
proof -
  note v = quotient_value [OF assms(1,2)]
  have f: "0 \<le> rat_of_nat r / rat_of_nat d" "rat_of_nat r / rat_of_nat d < 1"
    using v by (simp_all add: divide_less_eq)
  have p: "(0 :: rat) < 2 powi e" by (simp add: zero_less_power_int)
  have x: "x = (rat_of_nat q + rat_of_nat r / rat_of_nat d) * 2 powi e" using v assms(3) by simp
  show ?thesis unfolding x mult_less_cancel_right_pos [OF p] mult_le_cancel_right_pos [OF p] using f by simp
qed

text \<open>The quotient the rounding starts from: of at most 53 bits, and of 53 bits unless subnormal.\<close>

definition startQuotient :: "nat \<Rightarrow> nat \<Rightarrow> int \<times> nat \<times> nat \<times> nat" where
  "startQuotient num den =
     (let e0 = max (int (bitLength num) - int (bitLength den) - 53) (- 1074);
          (q0, r0, d0) = quotient num den e0 in
      if q0 \<ge> 2 ^ 53 then (let (q, r, d) = quotient num den (e0 + 1) in (e0 + 1, q, r, d))
      else (e0, q0, r0, d0))"

lemma roundQuotient_start:
  "roundQuotient num den =
     (let (e, q, r, d) = startQuotient num den;
          q = (if 2 * r > d \<or> (2 * r = d \<and> odd q) then q + 1 else q)
      in if q = 2 ^ 53 then (q div 2, e + 1) else (q, e))"
  by (simp add: roundQuotient_def startQuotient_def Let_def split: prod.splits)

lemma ratio_bounds:
  assumes "0 < num" "0 < den"
  shows "2 powi (int (bitLength num) - int (bitLength den) - 1) < rat_of_nat num / rat_of_nat den \<and>
    rat_of_nat num / rat_of_nat den < 2 powi (int (bitLength num) - int (bitLength den) + 1)"
proof -
  let ?a = "bitLength num" and ?b = "bitLength den"
  have a: "2 ^ (?a - 1) \<le> num" "num < 2 ^ ?a" and b: "2 ^ (?b - 1) \<le> den" "den < 2 ^ ?b"
    using bitLength_bounds assms by blast+
  have pos: "0 < bitLength n" for n by (subst bitLength.simps) simp
  have w: "rat_of_nat (2 ^ k) = 2 powi int k" for k by simp
  have one: "int (bitLength n - 1) = int (bitLength n) - 1" for n using pos [of n] by simp
  have num: "2 powi (int ?a - 1) \<le> rat_of_nat num" "rat_of_nat num < 2 powi int ?a"
    unfolding one [symmetric] w [symmetric] of_nat_le_iff of_nat_less_iff using a by blast+
  have den: "2 powi (int ?b - 1) \<le> rat_of_nat den" "rat_of_nat den < 2 powi int ?b"
    unfolding one [symmetric] w [symmetric] of_nat_le_iff of_nat_less_iff using b by blast+
  have d: "0 < rat_of_nat den" using assms(2) by simp
  have "2 powi (int ?a - int ?b - 1) * rat_of_nat den < 2 powi (int ?a - int ?b - 1) * 2 powi int ?b"
    using den(2) by (intro mult_strict_left_mono) (simp_all add: zero_less_power_int)
  also have "\<dots> = 2 powi (int ?a - 1)" by (simp only: powi_add2 [symmetric]) simp
  also have "\<dots> \<le> rat_of_nat num" by (rule num(1))
  finally have l: "2 powi (int ?a - int ?b - 1) * rat_of_nat den < rat_of_nat num" .
  have "rat_of_nat num < 2 powi int ?a" by (rule num(2))
  also have "\<dots> = 2 powi (int ?a - int ?b + 1) * 2 powi (int ?b - 1)" by (simp only: powi_add2 [symmetric]) simp
  also have "\<dots> \<le> 2 powi (int ?a - int ?b + 1) * rat_of_nat den"
    using den(1) by (intro mult_left_mono) (simp_all add: zero_le_power_int)
  finally show ?thesis using l d by (simp add: pos_less_divide_eq pos_divide_less_eq)
qed

lemma startQuotient_spec:
  assumes "0 < num" "0 < den" "startQuotient num den = (e, q, r, d)" "x = rat_of_nat num / rat_of_nat den"
  shows "0 < d \<and> r < d \<and> x = (rat_of_nat q + rat_of_nat r / rat_of_nat d) * 2 powi e \<and>
    - 1074 \<le> e \<and> q < 2 ^ 53 \<and> (2 ^ 52 \<le> q \<or> e = - 1074)"
proof -
  let ?k = "int (bitLength num) - int (bitLength den)"
  let ?e0 = "max (?k - 53) (- 1074)"
  obtain q0 r0 d0 where q0: "quotient num den ?e0 = (q0, r0, d0)" by (cases "quotient num den ?e0")
  obtain q1 r1 d1 where q1: "quotient num den (?e0 + 1) = (q1, r1, d1)" by (cases "quotient num den (?e0 + 1)")
  note f0 = quotient_floor [OF q0 assms(2,4)] and f1 = quotient_floor [OF q1 assms(2,4)]
  have x: "2 powi (?k - 1) < x" "x < 2 powi (?k + 1)" using ratio_bounds [OF assms(1,2)] assms(4) by blast+
  have less: "rat_of_nat a * 2 powi c < 2 powi b \<Longrightarrow> b - c \<le> int n \<Longrightarrow> a < 2 ^ n" for a b c n
  proof -
    assume a: "rat_of_nat a * 2 powi c < 2 powi b" and b: "b - c \<le> int n"
    have "rat_of_nat a * 2 powi c < 2 powi (b - c) * 2 powi c" using a by (simp only: powi_add2 [symmetric]) simp
    then have "rat_of_nat a < 2 powi (b - c)" by (simp add: mult_less_cancel_right_pos zero_less_power_int)
    also have "2 powi (b - c) \<le> (2 :: rat) powi int n" using b by (intro power_int_increasing) simp_all
    finally have "rat_of_nat a < rat_of_nat (2 ^ n)" by simp
    then show "a < 2 ^ n" by (simp only: of_nat_less_iff)
  qed
  have more: "2 powi b < rat_of_nat (a + 1) * 2 powi c \<Longrightarrow> int n \<le> b - c \<Longrightarrow> 2 ^ n \<le> a" for a b c n
  proof -
    assume a: "2 powi b < rat_of_nat (a + 1) * 2 powi c" and b: "int n \<le> b - c"
    have "2 powi (b - c) * 2 powi c < rat_of_nat (a + 1) * 2 powi c" using a by (simp only: powi_add2 [symmetric]) simp
    then have "2 powi (b - c) < rat_of_nat (a + 1)" by (simp add: mult_less_cancel_right_pos zero_less_power_int)
    moreover have "(2 :: rat) powi int n \<le> 2 powi (b - c)" using b by (intro power_int_increasing) simp_all
    ultimately have "rat_of_nat (2 ^ n) < rat_of_nat (a + 1)" by simp
    then show "2 ^ n \<le> a" by (simp only: of_nat_less_iff)
  qed
  show ?thesis
  proof (cases "q0 \<ge> 2 ^ 53")
    case True
    then have s: "e = ?e0 + 1" "q = q1" "r = r1" "d = d1" using assms(3) q0 q1 by (simp_all add: startQuotient_def Let_def)
    have "?e0 = ?k - 53"
    proof (rule ccontr)
      assume "?e0 \<noteq> ?k - 53"
      then have "?k + 1 - ?e0 \<le> int 53" by simp
      moreover have "rat_of_nat q0 * 2 powi ?e0 < 2 powi (?k + 1)" using f0 x by linarith
      ultimately have "q0 < 2 ^ 53" using less by blast
      with True show False by simp
    qed
    have "rat_of_nat q1 * 2 powi (?e0 + 1) < 2 powi (?k + 1)" using f1 x by linarith
    from less [OF this, of 53] have "q1 < 2 ^ 53" by simp
    moreover have "2 ^ 52 \<le> q1"
    proof -
      have "rat_of_nat (2 ^ 53) \<le> rat_of_nat q0" using True by (simp only: of_nat_le_iff)
      then have "2 powi 53 * 2 powi ?e0 \<le> rat_of_nat q0 * 2 powi ?e0"
        by (intro mult_right_mono) (simp_all add: zero_le_power_int)
      then have "2 powi (53 + ?e0) \<le> x" using f0 unfolding powi_add2 by linarith
      then have "2 powi (52 + (?e0 + 1)) \<le> x" by (simp add: add.commute add.left_commute)
      have "(2 :: rat) powi (52 + (?e0 + 1)) < rat_of_nat (q1 + 1) * 2 powi (?e0 + 1)"
        using f1 \<open>2 powi (52 + (?e0 + 1)) \<le> x\<close> by linarith
      from more [OF this, of 52] show ?thesis by simp
    qed
    ultimately show ?thesis using quotient_value [OF q1 assms(2)] assms(4) s by simp
  next
    case False
    then have s: "e = ?e0" "q = q0" "r = r0" "d = d0" using assms(3) q0 by (simp_all add: startQuotient_def Let_def)
    have "2 ^ 52 \<le> q0 \<or> ?e0 = - 1074"
    proof (cases "?e0 = - 1074")
      case False
      then have e: "?e0 = ?k - 53" by simp
      have "2 powi (?k - 1) < rat_of_nat (q0 + 1) * 2 powi ?e0" using f0 x by linarith
      from more [OF this, of 52] e show ?thesis by simp
    qed simp
    then show ?thesis using quotient_value [OF q0 assms(2)] assms(4) s False by simp
  qed
qed

text \<open>Numbers of at most 53 bits: the finite doubles, and those past the largest.\<close>

definition representable :: "rat \<Rightarrow> bool" where
  "representable y \<longleftrightarrow> (\<exists>m k. m < 2 ^ 53 \<and> - 1074 \<le> k \<and> y = rat_of_nat m * 2 powi k)"

lemma representable_gap:
  assumes "representable y" "- 1074 \<le> e" "2 ^ 52 \<le> q \<or> e = - 1074"
  shows "y \<le> rat_of_nat q * 2 powi e \<or> rat_of_nat (q + 1) * 2 powi e \<le> y"
proof -
  obtain m k where m: "m < 2 ^ 53" "- 1074 \<le> k" and y: "y = rat_of_nat m * 2 powi k"
    using assms(1) by (auto simp: representable_def)
  have p: "(0 :: rat) < 2 powi e" by (simp add: zero_less_power_int)
  show ?thesis
  proof (cases "e \<le> k")
    case True
    have "(2 :: rat) powi k = rat_of_nat (2 ^ nat (k - e)) * 2 powi e"
      using True by (simp add: powi_add2 [symmetric] flip: power_int_of_nat)
    then have "y = rat_of_nat (m * 2 ^ nat (k - e)) * 2 powi e" by (simp add: y)
    moreover have "m * 2 ^ nat (k - e) \<le> q \<or> q + 1 \<le> m * 2 ^ nat (k - e)" by linarith
    ultimately show ?thesis using p by (metis mult_le_cancel_right_pos of_nat_le_iff)
  next
    case False
    then have q: "2 ^ 52 \<le> q" using assms(3) m(2) by linarith
    have "y \<le> rat_of_nat (2 ^ 53) * 2 powi k"
      unfolding y using m(1) by (intro mult_right_mono) (simp_all only: of_nat_le_iff zero_le_power_int zero_le_numeral less_imp_le)
    also have "\<dots> \<le> rat_of_nat (2 ^ 53) * 2 powi (e - 1)"
      using False by (intro mult_left_mono power_int_increasing) simp_all
    also have "\<dots> = rat_of_nat (2 ^ 52) * 2 powi e"
    proof -
      have "(2 :: rat) powi e = 2 * 2 powi (e - 1)" using powi_add2 [of 1 "e - 1"] by simp
      then show ?thesis by simp
    qed
    also have "\<dots> \<le> rat_of_nat q * 2 powi e"
      using q by (intro mult_right_mono) (simp_all only: of_nat_le_iff zero_le_power_int zero_le_numeral)
    finally show ?thesis by simp
  qed
qed

lemma nearest_below:
  fixes A U F y :: rat
  assumes "0 \<le> F" "F < U" "y \<le> A \<or> A + U \<le> y" "2 * F \<le> U"
  shows "\<bar>A + F - A\<bar> \<le> \<bar>A + F - y\<bar> \<and> (\<bar>A + F - y\<bar> = \<bar>A + F - A\<bar> \<and> y \<noteq> A \<longrightarrow> 2 * F = U)"
  using assms by linarith

lemma nearest_above:
  fixes A U F y :: rat
  assumes "0 \<le> F" "F < U" "y \<le> A \<or> A + U \<le> y" "U \<le> 2 * F"
  shows "\<bar>A + F - (A + U)\<bar> \<le> \<bar>A + F - y\<bar> \<and> (\<bar>A + F - y\<bar> = \<bar>A + F - (A + U)\<bar> \<and> y \<noteq> A + U \<longrightarrow> 2 * F = U)"
  using assms by linarith

lemma startQuotient_nearest:
  assumes s: "0 < d" "r < d" "x = (rat_of_nat q + rat_of_nat r / rat_of_nat d) * 2 powi e"
    and e: "- 1074 \<le> e" "2 ^ 52 \<le> q \<or> e = - 1074" and y: "representable y"
    and n: "n = (if 2 * r > d \<or> (2 * r = d \<and> odd q) then q + 1 else q)"
  shows "\<bar>x - rat_of_nat n * 2 powi e\<bar> \<le> \<bar>x - y\<bar> \<and>
    (\<bar>x - y\<bar> = \<bar>x - rat_of_nat n * 2 powi e\<bar> \<and> y \<noteq> rat_of_nat n * 2 powi e \<longrightarrow> even n)"
proof -
  let ?u = "(2 :: rat) powi e"
  let ?f = "rat_of_nat r / rat_of_nat d * ?u"
  have p: "0 < ?u" by (simp add: zero_less_power_int)
  have f: "0 \<le> ?f" "?f < ?u" using s(1,2) p by (simp_all add: divide_less_eq zero_le_power_int)
  have half: "2 * ?f < ?u \<longleftrightarrow> 2 * r < d" "2 * ?f = ?u \<longleftrightarrow> 2 * r = d"
  proof -
    define g where "g = rat_of_nat (2 * r) / rat_of_nat d"
    have g: "2 * ?f = g * ?u" by (simp add: g_def)
    have d: "0 < rat_of_nat d" using s(1) by simp
    have "g < 1 \<longleftrightarrow> 2 * r < d" "g = 1 \<longleftrightarrow> 2 * r = d"
      unfolding g_def using pos_divide_less_eq [OF d, of "rat_of_nat (2 * r)" 1] d
      by (simp_all only: mult_1 of_nat_less_iff divide_eq_1_iff of_nat_eq_iff) auto
    moreover have "g * ?u < ?u \<longleftrightarrow> g < 1" using mult_less_cancel_right_pos [OF p, of g 1] by simp
    moreover have "g * ?u = ?u \<longleftrightarrow> g = 1" using p by auto
    ultimately show "2 * ?f < ?u \<longleftrightarrow> 2 * r < d" "2 * ?f = ?u \<longleftrightarrow> 2 * r = d" unfolding g by blast+
  qed
  have x: "x = rat_of_nat q * ?u + ?f" using s(3) by (simp add: distrib_right)
  have up: "rat_of_nat (q + 1) * ?u = rat_of_nat q * ?u + ?u" by (simp add: distrib_right)
  have gap: "y \<le> rat_of_nat q * ?u \<or> rat_of_nat q * ?u + ?u \<le> y"
    using representable_gap [OF y e] up by simp
  show ?thesis
  proof (cases "n = q")
    case True
    then have "2 * ?f \<le> ?u" "2 * ?f = ?u \<longrightarrow> even q" using n half by (auto split: if_splits)
    with nearest_below [OF f gap] show ?thesis unfolding True x by blast
  next
    case False
    then have n1: "n = q + 1" and "?u \<le> 2 * ?f" "2 * ?f = ?u \<longrightarrow> odd q" using n half by (auto split: if_splits)
    with nearest_above [OF f gap] show ?thesis unfolding n1 up x by simp
  qed
qed

lemma round_exists:
  assumes "0 < num" "0 < den" "roundQuotient num den = (q, e)"
  obtains e0 q0 r d n where "startQuotient num den = (e0, q0, r, d)"
    "n = (if 2 * r > d \<or> (2 * r = d \<and> odd q0) then q0 + 1 else q0)"
    "rat_of_nat q * 2 powi e = rat_of_nat n * 2 powi e0" "even n \<longleftrightarrow> even q"
    "q < 2 ^ 53" "- 1074 \<le> e" "2 ^ 52 \<le> q \<or> e = - 1074"
proof -
  obtain e0 q0 r d where s: "startQuotient num den = (e0, q0, r, d)" by (cases "startQuotient num den")
  note spec = startQuotient_spec [OF assms(1,2) s refl]
  define n where "n = (if 2 * r > d \<or> (2 * r = d \<and> odd q0) then q0 + 1 else q0)"
  have qe: "(q, e) = (if n = 2 ^ 53 then (n div 2, e0 + 1) else (n, e0))"
    using assms(3) unfolding roundQuotient_start s Let_def prod.case n_def [symmetric] by simp
  have n: "n \<le> 2 ^ 53" "q0 \<le> n" using spec by (auto simp: n_def)
  show thesis
  proof (cases "n = 2 ^ 53")
    case True
    then have q: "q = 2 ^ 52" "e = e0 + 1" using qe by simp_all
    have "(2 :: rat) powi (e0 + 1) = 2 * 2 powi e0" using powi_add2 [of 1 e0] by (simp add: add.commute)
    then show thesis using True q spec by (intro that [OF s n_def]) simp_all
  next
    case False
    then have "q = n" "e = e0" using qe by simp_all
    then show thesis using False n spec by (intro that [OF s n_def]) auto
  qed
qed

lemma round_nearest:
  assumes "0 < num" "0 < den" "roundQuotient num den = (q, e)" "x = rat_of_nat num / rat_of_nat den" "representable y"
  shows "\<bar>x - rat_of_nat q * 2 powi e\<bar> \<le> \<bar>x - y\<bar> \<and>
    (\<bar>x - y\<bar> = \<bar>x - rat_of_nat q * 2 powi e\<bar> \<and> y \<noteq> rat_of_nat q * 2 powi e \<longrightarrow> even q)"
proof -
  obtain e0 q0 r d n where s: "startQuotient num den = (e0, q0, r, d)"
    and n: "n = (if 2 * r > d \<or> (2 * r = d \<and> odd q0) then q0 + 1 else q0)"
    and q: "rat_of_nat q * 2 powi e = rat_of_nat n * 2 powi e0" "even n \<longleftrightarrow> even q"
    using round_exists [OF assms(1-3)] by metis
  note spec = startQuotient_spec [OF assms(1,2) s assms(4)]
  show ?thesis unfolding q(1) q(2) [symmetric]
    using startQuotient_nearest [OF _ _ _ _ _ assms(5) n] spec by blast
qed

lemma round_shape:
  assumes "0 < num" "0 < den" "roundQuotient num den = (q, e)"
  shows "q < 2 ^ 53" "- 1074 \<le> e" "2 ^ 52 \<le> q \<or> e = - 1074"
  using round_exists [OF assms] by metis+

subsection \<open>The bits of a double\<close>

lemma bit_one63: "bit (push_bit 63 1 :: number) i \<longleftrightarrow> i = 63"
  by (simp only: bit_push_bit_iff bit_1_iff) auto

lemma f64_bit:
  assumes "i < 64"
  shows "bit (f64 neg b m) i \<longleftrightarrow> (neg \<and> i = 63) \<or> (52 \<le> i \<and> bit b (i - 52)) \<or> (i < 52 \<and> bit m i)"
proof -
  have "bit (f64 neg b m) i \<longleftrightarrow> (neg \<and> bit (push_bit 63 1 :: number) i) \<or> bit (push_bit 52 (of_nat b) :: number) i \<or>
      bit (of_nat m AND mask 52 :: number) i"
    by (cases neg) (simp_all only: f64_def bit_or_iff if_True if_False bit_0_eq bot_apply bot_bool_def simp_thms)
  then show ?thesis unfolding bit_one63 using assms by (auto simp: bit_simps)
qed

lemma f64_fields:
  assumes "b < 2048"
  shows "biasedOf (f64 neg b m) = b \<and> fracOf (f64 neg b m) = m mod 2 ^ 52 \<and> signOf (f64 neg b m) = neg"
proof -
  have bits: "bit b i \<Longrightarrow> i < 11" for i
  proof (rule ccontr)
    assume i: "bit b i" "\<not> i < 11"
    have "b = take_bit 11 b" using assms take_bit_nat_eq_self [of b 11] by simp
    with i show False using bit_take_bit_iff [of 11 b i] by simp
  qed
  have b: "drop_bit 52 (f64 neg b m) AND mask 11 = of_nat b"
  proof (rule bit_word_eqI)
    fix i assume "i < LENGTH(64)"
    then show "bit (drop_bit 52 (f64 neg b m) AND mask 11) i = bit (of_nat b :: number) i"
      using bits [of i] f64_bit [of "52 + i" neg b m] by (auto simp: bit_simps)
  qed
  have f: "f64 neg b m AND mask 52 = of_nat (take_bit 52 m)"
    by (rule bit_word_eqI) (auto simp: f64_bit bit_simps)
  have "signOf (f64 neg b m) = neg" using bits [of 11] by (auto simp: signOf_def f64_bit)
  moreover have "unat (of_nat b :: number) = b" using assms by (simp add: unat_of_nat)
  moreover have "unat (of_nat (take_bit 52 m) :: number) = m mod 2 ^ 52"
  proof -
    have "m mod 2 ^ 52 < 2 ^ 64" by (rule less_le_trans [OF mod_less_divisor]) simp_all
    then show ?thesis by (simp add: take_bit_eq_mod unat_of_nat)
  qed
  ultimately show ?thesis by (simp only: biasedOf_def fracOf_def b f)
qed

text \<open>The number a read gives for a non-negative value: the nearest double, an even significand on a tie;
  or infinity, from the midpoint past the largest double on.\<close>

definition readsNearest :: "rat \<Rightarrow> number \<Rightarrow> bool" where
  "readsNearest v n \<longleftrightarrow>
     (if isFiniteNumber n then
        \<forall>y. representable y \<longrightarrow> \<bar>v - \<bar>numberVal n\<bar>\<bar> \<le> \<bar>v - y\<bar> \<and>
          (\<bar>v - y\<bar> = \<bar>v - \<bar>numberVal n\<bar>\<bar> \<and> y \<noteq> \<bar>numberVal n\<bar> \<longrightarrow> even (fracOf n))
      else fracOf n = 0 \<and> 2 ^ 1024 - 2 ^ 970 \<le> v)"

lemma zero_nearest:
  assumes "0 \<le> v" "v < 2 powi (- 1075)"
  shows "readsNearest v (f64 neg 0 0) \<and> signOf (f64 neg 0 0) = neg"
proof -
  note f = f64_fields [of 0 neg 0]
  have z: "isFiniteNumber (f64 neg 0 0)" "numberVal (f64 neg 0 0) = 0"
    using f by (simp_all add: isFiniteNumber_def numberVal_def)
  have "v \<le> \<bar>v - y\<bar>" if r: "representable y" for y
  proof -
    obtain m k where y: "- 1074 \<le> k" "y = rat_of_nat m * 2 powi k" using r unfolding representable_def by blast
    show ?thesis
    proof (cases "m = 0")
      case False
      have "2 * (2 :: rat) powi (- 1075) = 2 powi (- 1074)" using powi_add2 [of 1 "- 1075"] by simp
      also have "\<dots> \<le> 2 powi k" using y(1) by (intro power_int_increasing) simp_all
      also have "\<dots> = rat_of_nat 1 * 2 powi k" by simp
      also have "\<dots> \<le> y" unfolding y(2) using False by (intro mult_right_mono) (simp_all add: zero_le_power_int)
      finally show ?thesis using assms by linarith
    qed (use assms y in simp)
  qed
  then show ?thesis using z f assms by (simp add: readsNearest_def)
qed

lemma infinity_nearest:
  assumes "2 ^ 1024 - 2 ^ 970 \<le> v"
  shows "readsNearest v (Infinity neg) \<and> signOf (Infinity neg) = neg"
proof -
  note f = f64_fields [of 2047 neg 0]
  then have "\<not> isFiniteNumber (Infinity neg)" by (simp add: isFiniteNumber_def Infinity_def)
  then show ?thesis using f assms by (simp only: readsNearest_def Infinity_def if_False) simp
qed

lemma f64_value:
  assumes "q < 2 ^ 53" "- 1074 \<le> e" "e \<le> 971" "2 ^ 52 \<le> q \<or> e = - 1074"
    and n: "n = f64 neg (if 2 ^ 52 \<le> q then nat (e + 1075) else 0) q"
  shows "isFiniteNumber n \<and> \<bar>numberVal n\<bar> = rat_of_nat q * 2 powi e \<and> (even (fracOf n) \<longleftrightarrow> even q) \<and> signOf n = neg"
proof -
  have ev: "even (q mod 2 ^ 52) \<longleftrightarrow> even q" by (simp add: dvd_mod_iff)
  show ?thesis
  proof (cases "2 ^ 52 \<le> q")
    case True
    let ?b = "nat (e + 1075)"
    have b: "0 < ?b" "?b < 2047" using assms(2,3) by auto
    have f: "biasedOf n = ?b" "fracOf n = q mod 2 ^ 52" "signOf n = neg"
      using f64_fields [of ?b neg q] b(2) True unfolding n by simp_all
    have q: "2 ^ 52 + q mod 2 ^ 52 = q" using True assms(1) le_mod_geq [OF True] by simp
    have "(2 :: rat) ^ ?b / 2 ^ 1075 = 2 powi e"
    proof -
      have "(2 :: rat) powi (e + 1075) = 2 powi e * 2 powi 1075" by (rule powi_add2)
      moreover have "(2 :: rat) ^ ?b = 2 powi (e + 1075)" using assms(2) by (simp add: power_int_def)
      ultimately show ?thesis by (simp add: power_int_def)
    qed
    then have v: "rat_of_nat q * 2 ^ ?b / 2 ^ 1075 = rat_of_nat q * 2 powi e" by (metis times_divide_eq_right)
    have b0: "(?b = 0) = False" using b(1) by simp
    have "numberVal n = (if neg then - (rat_of_nat q * 2 powi e) else rat_of_nat q * 2 powi e)"
      unfolding numberVal_def f q Let_def b0 if_False v by (rule refl)
    then have "\<bar>numberVal n\<bar> = rat_of_nat q * 2 powi e" by (simp add: abs_mult zero_le_power_int)
    then show ?thesis using b f ev by (simp add: isFiniteNumber_def)
  next
    case False
    then have e: "e = - 1074" using assms(4) by simp
    have f: "biasedOf n = 0" "fracOf n = q" "signOf n = neg" using f64_fields [of 0 neg q] False unfolding n by simp_all
    have "(2 :: rat) powi e = 1 / 2 ^ 1074" by (simp only: e power_int_minus power_int_numeral inverse_eq_divide)
    then show ?thesis using f by (simp add: isFiniteNumber_def numberVal_def Let_def abs_mult del: power_numeral)
  qed
qed

lemma past_midpoint:
  fixes v X B H :: rat
  assumes "\<bar>v - X\<bar> \<le> \<bar>v - (B - 2 * H)\<bar>" "B \<le> X" "0 < H"
  shows "B - H \<le> v"
  using assms by linarith

lemma powers_971: "rat_of_nat (2 ^ 53 - 1) * 2 powi 971 = 2 ^ 1024 - 2 * 2 ^ 970"
  "rat_of_nat (2 ^ 52) * 2 powi 972 = 2 ^ 1024"
  by (simp_all add: power_int_def)

lemma rounded_finite:
  assumes "0 < num" "0 < den" "roundQuotient num den = (q, e)" "v = rat_of_nat num / rat_of_nat den" "\<not> e > 971"
    and n: "n = f64 neg (if 2 ^ 52 \<le> q then nat (e + 1075) else 0) q"
  shows "readsNearest v n \<and> signOf n = neg"
proof -
  note shape = round_shape [OF assms(1-3)]
  have fv: "isFiniteNumber n \<and> \<bar>numberVal n\<bar> = rat_of_nat q * 2 powi e \<and> (even (fracOf n) \<longleftrightarrow> even q) \<and> signOf n = neg"
    by (rule f64_value [OF shape(1,2) _ shape(3) n]) (use assms(5) in linarith)
  then have fin: "isFiniteNumber n" and val: "\<bar>numberVal n\<bar> = rat_of_nat q * 2 powi e"
    and ev: "even (fracOf n) \<longleftrightarrow> even q" and sg: "signOf n = neg" by blast+
  have "readsNearest v n" unfolding readsNearest_def if_P [OF fin] val ev using round_nearest [OF assms(1-4)] by blast
  with sg show ?thesis by blast
qed

lemma rounded_infinite:
  assumes "0 < num" "0 < den" "roundQuotient num den = (q, e)" "v = rat_of_nat num / rat_of_nat den" "e > 971"
  shows "readsNearest v (Infinity neg) \<and> signOf (Infinity neg) = neg"
proof -
  note shape = round_shape [OF assms(1-3)]
  have "(2 ^ 53 - 1 :: nat) < 2 ^ 53 \<and> (- 1074 :: int) \<le> 971" by simp
  then have "representable (rat_of_nat (2 ^ 53 - 1) * 2 powi 971)" unfolding representable_def by blast
  then have "\<bar>v - rat_of_nat q * 2 powi e\<bar> \<le> \<bar>v - rat_of_nat (2 ^ 53 - 1) * 2 powi 971\<bar>"
    by (rule round_nearest [OF assms(1-4), THEN conjunct1])
  then have near: "\<bar>v - rat_of_nat q * 2 powi e\<bar> \<le> \<bar>v - (2 ^ 1024 - 2 * 2 ^ 970)\<bar>"
    unfolding powers_971 .
  have "2 ^ 52 \<le> q" using shape(3) assms(5) by linarith
  then have "rat_of_nat (2 ^ 52) \<le> rat_of_nat q" by (simp only: of_nat_le_iff)
  moreover have "(2 :: rat) powi 972 \<le> 2 powi e" using assms(5) by (intro power_int_increasing) simp_all
  ultimately have "rat_of_nat (2 ^ 52) * 2 powi 972 \<le> rat_of_nat q * 2 powi e"
    by (intro mult_mono zero_le_power_int zero_le_numeral of_nat_0_le_iff)
  then have "2 ^ 1024 \<le> rat_of_nat q * 2 powi e" unfolding powers_971 .
  moreover have "(0 :: rat) < 2 ^ 970" by (rule zero_less_power) (rule zero_less_numeral)
  ultimately show ?thesis by (intro infinity_nearest past_midpoint [OF near])
qed

subsection \<open>Reading a decimal\<close>

text \<open>The significant digits of a number, without leading and trailing zeros.\<close>

definition significant :: "numberParts \<Rightarrow> jsstr" where
  "significant p = dropZeros (skipZeros (whole p @ fraction p))"

lemma ten_large: "(309 :: int) \<le> k \<Longrightarrow> (2 :: rat) ^ 1024 - 2 ^ 970 \<le> 10 powi k"
proof -
  assume "309 \<le> k"
  then have "(10 :: rat) powi 309 \<le> 10 powi k" by (intro power_int_increasing) simp_all
  moreover have "(2 :: rat) ^ 1024 - 2 ^ 970 \<le> 10 powi 309" by (simp add: power_int_def)
  ultimately show ?thesis by linarith
qed

lemma ten_small: "k \<le> (- 324 :: int) \<Longrightarrow> (10 :: rat) powi k < 2 powi (- 1075)"
proof -
  assume "k \<le> - 324"
  then have "(10 :: rat) powi k \<le> 10 powi (- 324)" by (intro power_int_increasing) simp_all
  moreover have "inverse ((10 :: rat) ^ 324) < inverse (2 ^ 1075)" by (intro less_imp_inverse_less) simp_all
  then have "(10 :: rat) powi (- 324) < 2 powi (- 1075)" by (simp only: power_int_minus power_int_numeral)
  ultimately show ?thesis by linarith
qed

lemma ten_powi_add: "(10 :: rat) powi (a + b) = 10 powi a * 10 powi b"
  by (simp add: power_int_add)

lemma ten_pow: "rat_of_nat (10 ^ n) * 10 powi x = 10 powi (int n + x)"
  by (simp add: ten_powi_add)

lemma scaled_bounds:
  assumes "list_all isDigit ds" "ds \<noteq> []" "hd ds \<noteq> 0x30"
  shows "10 powi (int (length ds) - 1 + x) \<le> rat_of_nat (decVal ds) * 10 powi x"
    and "rat_of_nat (decVal ds) * 10 powi x < 10 powi (int (length ds) + x)"
proof -
  obtain c s where ds: "ds = c # s" using assms(2) by (cases ds) auto
  have l: "10 ^ length s \<le> decVal ds" using decVal_ge assms ds by auto
  have u: "decVal ds < 10 ^ length ds" using decVal_less assms by blast
  have p: "(0 :: rat) < 10 powi x" by (simp add: zero_less_power_int)
  have "(10 :: rat) powi (int (length ds) - 1 + x) = rat_of_nat (10 ^ length s) * 10 powi x"
    unfolding ten_pow by (simp add: ds)
  also have "\<dots> \<le> rat_of_nat (decVal ds) * 10 powi x"
    using l p by (intro mult_right_mono) (simp_all only: of_nat_le_iff less_imp_le)
  finally show "10 powi (int (length ds) - 1 + x) \<le> rat_of_nat (decVal ds) * 10 powi x" .
  have "rat_of_nat (decVal ds) * 10 powi x < rat_of_nat (10 ^ length ds) * 10 powi x"
    using u p by (intro mult_strict_right_mono) (simp_all only: of_nat_less_iff)
  also have "\<dots> = 10 powi (int (length ds) + x)" by (rule ten_pow)
  finally show "rat_of_nat (decVal ds) * 10 powi x < 10 powi (int (length ds) + x)" .
qed

text \<open>A number with digits left, read by its size.\<close>

definition readScaled :: "bool \<Rightarrow> jsstr \<Rightarrow> int \<Rightarrow> number" where
  "readScaled neg ds x =
     (if int (length ds) - 1 + x \<ge> 309 then Infinity neg
      else if int (length ds) + x \<le> - 324 then f64 neg 0 0
      else
        (let num = decVal ds * (if x > 0 then 10 ^ nat x else 1);
             den = (if x < 0 then 10 ^ nat (- x) else 1);
             (q, e) = roundQuotient num den in
         if e > 971 then Infinity neg else f64 neg (if q \<ge> 2 ^ 52 then nat (e + 1075) else 0) q))"

lemma readScaled_nearest:
  assumes "list_all isDigit ds" "ds \<noteq> []" "hd ds \<noteq> 0x30" "v = rat_of_nat (decVal ds) * 10 powi x"
  shows "readsNearest v (readScaled neg ds x) \<and> signOf (readScaled neg ds x) = neg"
proof -
  note b = scaled_bounds [OF assms(1-3), of x, folded assms(4)]
  consider (big) "int (length ds) - 1 + x \<ge> 309"
    | (small) "\<not> int (length ds) - 1 + x \<ge> 309" "int (length ds) + x \<le> - 324"
    | (mid) "\<not> int (length ds) - 1 + x \<ge> 309" "\<not> int (length ds) + x \<le> - 324" by blast
  then show ?thesis
  proof cases
    case big
    have "2 ^ 1024 - 2 ^ 970 \<le> v" using ten_large [OF big] b(1) by (rule order_trans)
    then show ?thesis unfolding readScaled_def if_P [OF big] by (rule infinity_nearest)
  next
    case small
    have "0 \<le> v" by (simp add: assms(4) zero_le_power_int)
    moreover have "v < 2 powi (- 1075)" using b(2) ten_small [OF small(2)] by (rule less_trans)
    ultimately show ?thesis unfolding readScaled_def if_not_P [OF small(1)] if_P [OF small(2)] by (rule zero_nearest)
  next
    case mid
    let ?num = "decVal ds * (if x > 0 then 10 ^ nat x else 1)" and ?den = "if x < 0 then 10 ^ nat (- x) else 1 :: nat"
    obtain q e where qe: "roundQuotient ?num ?den = (q, e)" by (cases "roundQuotient ?num ?den")
    obtain c s where ds: "ds = c # s" using assms(2) by (cases ds) auto
    have "10 ^ length s \<le> decVal ds" using decVal_ge assms ds by auto
    then have "0 < decVal ds" by (metis gr0I le_zero_eq power_not_zero zero_neq_numeral)
    then have num: "0 < ?num" and den: "0 < ?den" by simp_all
    have v: "v = rat_of_nat ?num / rat_of_nat ?den"
      by (simp add: assms(4) power_int_def inverse_eq_divide power_divide)
    have r: "readScaled neg ds x =
        (if e > 971 then Infinity neg else f64 neg (if q \<ge> 2 ^ 52 then nat (e + 1075) else 0) q)"
      unfolding readScaled_def if_not_P [OF mid(1)] if_not_P [OF mid(2)] Let_def qe prod.case ..
    show ?thesis
    proof (cases "e > 971")
      case True
      show ?thesis unfolding r if_P [OF True] by (rule rounded_infinite [OF num den qe v True])
    next
      case False
      show ?thesis unfolding r if_not_P [OF False] by (rule rounded_finite [OF num den qe v False refl])
    qed
  qed
qed

lemma parseF64_scaled:
  assumes "splitNumber text = Some p" "skipZeros (whole p @ fraction p) \<noteq> []" "length (skipZeros (expDigits p)) \<le> 15"
    "length (significant p) \<le> MAX_ROUNDING_DIGITS"
  shows "parseF64 text = readScaled (minus p) (significant p)
    ((if expMinus p then - 1 else 1) * int (decVal (skipZeros (expDigits p))) - int (length (fraction p))
      + int (length (skipZeros (whole p @ fraction p)) - length (significant p)))"
  using assms by (simp add: parseF64_def readScaled_def significant_def Let_def)

lemma partsVal_abs:
  "\<bar>partsVal p\<bar> = rat_of_nat (decVal (whole p @ fraction p)) *
     10 powi ((if expMinus p then - int (decVal (expDigits p)) else int (decVal (expDigits p))) - int (length (fraction p)))"
  by (simp add: partsVal_def abs_mult zero_le_power_int)

lemma significant_facts:
  assumes "wfParts p" "skipZeros (whole p @ fraction p) \<noteq> []"
  shows "list_all isDigit (significant p)" "significant p \<noteq> []" "hd (significant p) \<noteq> 0x30"
proof -
  have d: "list_all isDigit (whole p @ fraction p)" using assms(1) by (simp add: wfParts_def)
  have lead: "list_all isDigit (skipZeros (whole p @ fraction p))" using d by (rule skipZeros_digits)
  have h: "hd (skipZeros (whole p @ fraction p)) \<noteq> 0x30" using assms(2) by (rule skipZeros_hd)
  show "list_all isDigit (significant p)" unfolding significant_def using dropZeros_facts(1) [OF lead] .
  show "significant p \<noteq> []" "hd (significant p) \<noteq> 0x30"
    unfolding significant_def using dropZeros_facts(4) [OF lead h assms(2)] h by simp_all
qed

lemma partsVal_significant:
  assumes "wfParts p" "skipZeros (whole p @ fraction p) \<noteq> []"
  shows "\<bar>partsVal p\<bar> = rat_of_nat (decVal (significant p)) *
    10 powi ((if expMinus p then - 1 else 1) * int (decVal (skipZeros (expDigits p))) - int (length (fraction p))
      + int (length (skipZeros (whole p @ fraction p)) - length (significant p)))"
proof -
  have d: "list_all isDigit (whole p @ fraction p)" using assms(1) by (simp add: wfParts_def)
  have x: "(if expMinus p then - int (decVal (expDigits p)) else int (decVal (expDigits p))) =
      (if expMinus p then - 1 else 1) * int (decVal (skipZeros (expDigits p)))"
    by (simp add: skipZeros_decVal)
  show ?thesis unfolding partsVal_abs x significant_def by (rule normalize(2) [OF d refl refl assms(2)])
qed

text \<open>An exponent of sixteen digits outweighs any text that fits in memory.\<close>

lemma long_exponent:
  assumes "wfParts p" "\<not> length (skipZeros (expDigits p)) \<le> 15"
  shows "10 ^ 15 \<le> decVal (skipZeros (expDigits p))"
proof -
  have "list_all isDigit (skipZeros (expDigits p))" using assms(1) by (intro skipZeros_digits) (simp add: wfParts_def)
  moreover obtain c s where s: "skipZeros (expDigits p) = c # s" using assms(2) by (cases "skipZeros (expDigits p)") auto
  moreover have "c \<noteq> 0x30" using skipZeros_hd [of "expDigits p"] s by simp
  ultimately have "10 ^ length s \<le> decVal (skipZeros (expDigits p))" using decVal_ge [of c s] by simp
  moreover have "(10 :: nat) ^ 15 \<le> 10 ^ length s" using assms(2) s by (intro power_increasing) simp_all
  ultimately show ?thesis by linarith
qed

lemma parts_length:
  assumes "splitNumber text = Some p"
  shows "length (whole p) + length (fraction p) \<le> length text"
proof -
  have u: "length (unsigned text) \<le> length text" by (simp add: unsigned_def)
  let ?w = "takeWhile isDigit (unsigned text)" and ?r = "dropWhile isDigit (unsigned text)"
  have "whole p = ?w \<and> fraction p = (if peek ?r = Some 0x2e then takeWhile isDigit (tl ?r) else [])"
    using assms unfolding splitNumber_def Let_def if_None_Some
    by - (elim conjE, erule ssubst, simp only: numberParts.select_convs simp_thms)
  moreover have "length (takeWhile isDigit (tl ?r)) \<le> length ?r"
    using length_takeWhile_le [of isDigit "tl ?r"] by simp
  moreover have "length ?w + length ?r = length (unsigned text)" by (metis length_append takeWhile_dropWhile_id)
  ultimately show ?thesis using u by (simp split: if_splits)
qed

lemma long_exponent_nearest:
  assumes p: "splitNumber text = Some p" and some: "skipZeros (whole p @ fraction p) \<noteq> []"
    and long: "\<not> length (skipZeros (expDigits p)) \<le> 15" and short: "length text \<le> 10 ^ 14"
  shows "readsNearest \<bar>partsVal p\<bar> (parseF64 text) \<and> signOf (parseF64 text) = minus p"
proof -
  have wf: "wfParts p" by (rule splitNumber_wf [OF p])
  let ?E = "int (decVal (skipZeros (expDigits p)))"
  let ?x = "(if expMinus p then - 1 else 1) * ?E - int (length (fraction p))
    + int (length (skipZeros (whole p @ fraction p)) - length (significant p))"
  note b = scaled_bounds [OF significant_facts [OF wf some], of ?x, folded partsVal_significant [OF wf some]]
  have E: "10 ^ 15 \<le> ?E" using long_exponent [OF wf long] by (metis of_nat_le_iff of_nat_numeral of_nat_power)
  have n: "length (skipZeros (whole p @ fraction p)) \<le> length text"
    using parts_length [OF p] length_dropWhile_le [of "\<lambda>c. c = 0x30" "whole p @ fraction p"] by (simp add: skipZeros_def)
  have s: "length (significant p) \<le> length (skipZeros (whole p @ fraction p))" "1 \<le> length (significant p)"
    using significant_facts(2) [OF wf some] dropZeros_append [of "skipZeros (whole p @ fraction p)"]
    by (auto simp: significant_def Suc_le_eq dest: arg_cong [where f = length])
  have f: "length (fraction p) \<le> length text" using parts_length [OF p] by linarith
  have r: "parseF64 text = (if expMinus p then f64 (minus p) 0 0 else Infinity (minus p))"
    using p some long by (simp add: parseF64_def Let_def)
  show ?thesis
  proof (cases "expMinus p")
    case True
    have "int (length (significant p)) + ?x \<le> - 324" using True E n s short by simp
    then have "\<bar>partsVal p\<bar> < 2 powi (- 1075)" using b(2) ten_small by (meson less_trans)
    then show ?thesis unfolding r if_P [OF True] by (intro zero_nearest) simp_all
  next
    case False
    have "309 \<le> int (length (significant p)) - 1 + ?x" using False E n s short f by simp
    then have "2 ^ 1024 - 2 ^ 970 \<le> \<bar>partsVal p\<bar>" using b(1) ten_large by (meson order_trans)
    then show ?thesis unfolding r if_not_P [OF False] by (rule infinity_nearest)
  qed
qed

lemma parse_nearest:
  assumes p: "splitNumber text = Some p" and "length (significant p) \<le> MAX_ROUNDING_DIGITS" and "length text \<le> 10 ^ 14"
  shows "readsNearest \<bar>partsVal p\<bar> (parseF64 text) \<and> signOf (parseF64 text) = minus p"
proof -
  have wf: "wfParts p" by (rule splitNumber_wf [OF p])
  consider (zero) "skipZeros (whole p @ fraction p) = []"
    | (long) "skipZeros (whole p @ fraction p) \<noteq> []" "\<not> length (skipZeros (expDigits p)) \<le> 15"
    | (some) "skipZeros (whole p @ fraction p) \<noteq> []" "length (skipZeros (expDigits p)) \<le> 15" by blast
  then show ?thesis
  proof cases
    case zero
    then have "partsVal p = 0" using skipZeros_decVal [of "whole p @ fraction p"] by (simp add: partsVal_def)
    moreover have "parseF64 text = f64 (minus p) 0 0" using zero by (simp add: parseF64_def p Let_def)
    moreover have "(0 :: rat) < 2 powi (- 1075)" by (rule zero_less_power_int) simp
    ultimately show ?thesis using zero_nearest [of 0 "minus p"] by (simp only: abs_zero order_refl simp_thms)
  next
    case long
    show ?thesis by (rule long_exponent_nearest [OF p long assms(3)])
  next
    case some
    show ?thesis unfolding parseF64_scaled [OF p some assms(2)]
      by (rule readScaled_nearest [OF significant_facts [OF wf some(1)] partsVal_significant [OF wf some(1)]])
  qed
qed

subsection \<open>Property\<close>

text \<open>C25: Correct rounding. The text of a JSON number of at most 800 significant digits is read as the
  double nearest its exact value, the one of even significand when two are as near, with its sign; and
  as infinity only from the midpoint past the largest double on, as Rust's \<open>parse::<f64>\<close> reads it.\<close>

theorem parseF64_correctly_rounded:
  assumes "splitNumber text = Some p" and "length (significant p) \<le> MAX_ROUNDING_DIGITS" and "length text \<le> 10 ^ 14"
  shows "readsNearest \<bar>partsVal p\<bar> (parseF64 text) \<and> signOf (parseF64 text) = minus p"
  using assms by (rule parse_nearest)

theorem parseF64_correctly_rounded_witness:
  "\<exists>p. splitNumber (js ''-0.1'') = Some p \<and> partsVal p = - 1 / 10 \<and>
     readsNearest (1 / 10) (parseF64 (js ''-0.1'')) \<and> signOf (parseF64 (js ''-0.1''))"
proof -
  let ?p = "\<lparr>minus = True, whole = js ''0'', fraction = js ''1'', expMinus = False, expDigits = js ''0''\<rparr>"
  have p: "splitNumber (js ''-0.1'') = Some ?p" by (simp add: splitNumber_def unsigned_def isDigit_def Let_def)
  have v: "partsVal ?p = - 1 / 10" by (simp add: partsVal_def decVal_def digitVal_def power_int_def)
  have s: "length (significant ?p) \<le> MAX_ROUNDING_DIGITS"
    by (simp add: significant_def skipZeros_def dropZeros_def MAX_ROUNDING_DIGITS_def)
  from parseF64_correctly_rounded [OF p s] v p show ?thesis by simp
qed

end
