(* ===== verification/Js_Arith.thy ===== *)
theory Js_Arith
  imports Rounding
begin

text \<open>
  JavaScript's \<open>number\<close> as the light client uses it: not a number, the infinities, and the finite ones by
  their values, rounded to a double after each operation; comparisons with \<open>NaN\<close> fail. A date is
  its time in milliseconds, \<open>None\<close> for an invalid one. The two zeros are one number here: no
  operation below tells them apart. Sums of whole numbers up to \<open>2^53\<close> are exact, and fractions of at
  most one with small denominators keep their order when they are rounded.
\<close>

subsection \<open>Numbers\<close>

text \<open>\<open>Infinite True\<close> is the negative one.\<close>

datatype jsNum = NotANumber | Infinite bool | Finite rat

type_synonym date = "int option"

abbreviation wholeNum :: "int \<Rightarrow> jsNum" where
  "wholeNum n \<equiv> Finite (rat_of_int n)"

text \<open>The nearest double, ties to even.\<close>

definition roundJs :: "rat \<Rightarrow> jsNum" where
  "roundJs x =
     (if x = 0 then Finite 0
      else
        (let (num, den) = quotient_of \<bar>x\<bar>; (q, e) = roundQuotient (nat num) (nat den) in
         if e > 971 then Infinite (x < 0)
         else Finite (sgn x * (rat_of_nat q * 2 powi e))))"

fun jsPlus :: "jsNum \<Rightarrow> jsNum \<Rightarrow> jsNum" where
  "jsPlus (Finite x) (Finite y) = roundJs (x + y)"
| "jsPlus (Infinite a) (Infinite b) = (if a = b then Infinite a else NotANumber)"
| "jsPlus (Infinite a) (Finite _) = Infinite a"
| "jsPlus (Finite _) (Infinite b) = Infinite b"
| "jsPlus _ _ = NotANumber"

fun jsNegate :: "jsNum \<Rightarrow> jsNum" where
  "jsNegate (Finite x) = Finite (- x)"
| "jsNegate (Infinite a) = Infinite (\<not> a)"
| "jsNegate NotANumber = NotANumber"

definition jsMinus :: "jsNum \<Rightarrow> jsNum \<Rightarrow> jsNum" where
  "jsMinus x y = jsPlus x (jsNegate y)"

fun jsAbs :: "jsNum \<Rightarrow> jsNum" where
  "jsAbs (Finite x) = Finite \<bar>x\<bar>"
| "jsAbs (Infinite _) = Infinite False"
| "jsAbs NotANumber = NotANumber"

fun jsDivide :: "jsNum \<Rightarrow> jsNum \<Rightarrow> jsNum" where
  "jsDivide (Finite x) (Finite y) =
     (if y \<noteq> 0 then roundJs (x / y) else if x = 0 then NotANumber else Infinite (x < 0))"
| "jsDivide (Infinite a) (Finite y) = Infinite (a \<noteq> (y < 0))"
| "jsDivide (Finite _) (Infinite _) = Finite 0"
| "jsDivide _ _ = NotANumber"

text \<open>\<open><\<close>, \<open><=\<close> and \<open>===\<close>; a \<open>Map\<close>'s keys are compared by equality, where \<open>NaN\<close> is itself.\<close>

fun jsLess :: "jsNum \<Rightarrow> jsNum \<Rightarrow> bool" where
  "jsLess (Finite x) (Finite y) = (x < y)"
| "jsLess (Infinite a) (Infinite b) = (a \<and> \<not> b)"
| "jsLess (Infinite a) (Finite _) = a"
| "jsLess (Finite _) (Infinite b) = (\<not> b)"
| "jsLess _ _ = False"

definition jsEq :: "jsNum \<Rightarrow> jsNum \<Rightarrow> bool" where
  "jsEq x y \<longleftrightarrow> x = y \<and> x \<noteq> NotANumber"

definition jsLe :: "jsNum \<Rightarrow> jsNum \<Rightarrow> bool" where
  "jsLe x y \<longleftrightarrow> jsLess x y \<or> jsEq x y"

definition jsMin :: "jsNum \<Rightarrow> jsNum \<Rightarrow> jsNum" where
  "jsMin x y = (if x = NotANumber \<or> y = NotANumber then NotANumber else if jsLess x y then x else y)"

definition jsMax :: "jsNum \<Rightarrow> jsNum \<Rightarrow> jsNum" where
  "jsMax x y = (if x = NotANumber \<or> y = NotANumber then NotANumber else if jsLess y x then x else y)"

text \<open>\<open>v || d\<close>: zero and \<open>NaN\<close> are falsy.\<close>

definition orNumber :: "jsNum \<Rightarrow> jsNum \<Rightarrow> jsNum" where
  "orNumber v d = (if v = NotANumber \<or> v = Finite 0 then d else v)"

definition getTime :: "date \<Rightarrow> jsNum" where
  "getTime d = (case d of None \<Rightarrow> NotANumber | Some t \<Rightarrow> wholeNum t)"

subsection \<open>Comparisons\<close>

lemma jsLess_NaN [simp]: "\<not> jsLess NotANumber x" "\<not> jsLess x NotANumber"
  by (cases x; simp)+

lemma jsLe_simps [simp]:
  "\<not> jsLe NotANumber x" "\<not> jsLe x NotANumber" "jsLe (Finite a) (Finite b) \<longleftrightarrow> a \<le> b" "jsLe (Finite a) (Infinite False)"
  by (auto simp: jsLe_def jsEq_def)

lemma jsLe_refl: "x \<noteq> NotANumber \<Longrightarrow> jsLe x x"
  by (simp add: jsLe_def jsEq_def)

lemma jsLess_linear: "x \<noteq> NotANumber \<Longrightarrow> y \<noteq> NotANumber \<Longrightarrow> jsLess x y \<or> x = y \<or> jsLess y x"
  by (cases x; cases y) auto

lemma jsLe_trans: "jsLe x y \<Longrightarrow> jsLe y z \<Longrightarrow> jsLe x z"
  by (cases x; cases y; cases z) (auto simp: jsLe_def jsEq_def)

lemma jsLess_irrefl [simp]: "\<not> jsLess x x"
  by (cases x) auto

lemma jsMin_cases: "jsMin x y = x \<or> jsMin x y = y"
  by (auto simp: jsMin_def)

lemma jsMax_cases: "jsMax x y = x \<or> jsMax x y = y"
  by (auto simp: jsMax_def)

lemma jsMin_NaN [simp]: "jsMin x y = NotANumber \<longleftrightarrow> x = NotANumber \<or> y = NotANumber"
  by (auto simp: jsMin_def)

lemma jsMax_NaN [simp]: "jsMax x y = NotANumber \<longleftrightarrow> x = NotANumber \<or> y = NotANumber"
  by (auto simp: jsMax_def)

lemma jsMin_le: "x \<noteq> NotANumber \<Longrightarrow> y \<noteq> NotANumber \<Longrightarrow> jsLe (jsMin x y) x \<and> jsLe (jsMin x y) y"
  using jsLess_linear [of x y] by (auto simp: jsMin_def jsLe_def jsEq_def)

lemma le_jsMax: "x \<noteq> NotANumber \<Longrightarrow> y \<noteq> NotANumber \<Longrightarrow> jsLe x (jsMax x y) \<and> jsLe y (jsMax x y)"
  using jsLess_linear [of x y] by (auto simp: jsMax_def jsLe_def jsEq_def)

subsection \<open>Rounding\<close>

lemma representable_grid: "m < 2 ^ 53 \<Longrightarrow> - 1074 \<le> k \<Longrightarrow> representable (rat_of_nat m * 2 powi k)"
  unfolding representable_def by blast

lemma representable_nat: "n \<le> 2 ^ 53 \<Longrightarrow> representable (rat_of_nat n)"
proof (cases "n = 2 ^ 53")
  case True
  have "rat_of_nat n = rat_of_nat (2 ^ 52) * 2 powi 1" unfolding True by simp
  then show ?thesis using representable_grid [of "2 ^ 52" 1] by simp
next
  case False
  assume "n \<le> 2 ^ 53"
  with False have "n < 2 ^ 53" by linarith
  then show ?thesis using representable_grid [of n 0] by simp
qed

lemma roundJs_pos:
  assumes "0 < x"
  obtains q e where "roundJs x = (if e > 971 then Infinite False else Finite (rat_of_nat q * 2 powi e))"
    "q < 2 ^ 53" "2 ^ 52 \<le> q \<or> e = - 1074" "\<And>y. representable y \<Longrightarrow> \<bar>x - rat_of_nat q * 2 powi e\<bar> \<le> \<bar>x - y\<bar>"
proof -
  obtain num den where qu: "quotient_of x = (num, den)" by (cases "quotient_of x")
  have den: "0 < den" using quotient_of_denom_pos [OF qu] .
  have x: "x = rat_of_int num / rat_of_int den" using quotient_of_div [OF qu] .
  then have num: "0 < num" using assms den by (simp add: zero_less_divide_iff)
  obtain q e where r: "roundQuotient (nat num) (nat den) = (q, e)" by (cases "roundQuotient (nat num) (nat den)")
  have x': "x = rat_of_nat (nat num) / rat_of_nat (nat den)" using x num den by simp
  have pos: "0 < nat num" "0 < nat den" using num den by simp_all
  have "roundJs x = (if e > 971 then Infinite False else Finite (rat_of_nat q * 2 powi e))"
    using assms qu r by (simp add: roundJs_def)
  moreover note round_shape(1,3) [OF pos r]
  moreover have "\<bar>x - rat_of_nat q * 2 powi e\<bar> \<le> \<bar>x - y\<bar>" if "representable y" for y
    using round_nearest [OF pos r x' that] by blast
  ultimately show thesis by (rule that)
qed

text \<open>Rounding keeps a number on its side of every double.\<close>

lemma roundJs_ge:
  assumes "representable y" "y \<le> x" "0 \<le> x"
  shows "jsLe (Finite y) (roundJs x)"
proof (cases "x = 0")
  case False
  with assms(3) have "0 < x" by simp
  then show ?thesis
  proof (rule roundJs_pos)
    fix q e
    assume r: "roundJs x = (if e > 971 then Infinite False else Finite (rat_of_nat q * 2 powi e))"
      and near: "\<And>y. representable y \<Longrightarrow> \<bar>x - rat_of_nat q * 2 powi e\<bar> \<le> \<bar>x - y\<bar>"
    have "y \<le> rat_of_nat q * 2 powi e" using near [OF assms(1)] assms(2) by (simp add: abs_le_iff)
    then show ?thesis unfolding r by simp
  qed
qed (use assms in \<open>simp add: roundJs_def\<close>)

lemma roundJs_le:
  assumes "representable y" "x \<le> y" "0 \<le> x" "y < 2 ^ 1024"
  shows "\<exists>r. roundJs x = Finite r \<and> 0 \<le> r \<and> r \<le> y \<and> (\<forall>z. representable z \<longrightarrow> \<bar>x - r\<bar> \<le> \<bar>x - z\<bar>)"
proof (cases "x = 0")
  case False
  with assms(3) have "0 < x" by simp
  then show ?thesis
  proof (rule roundJs_pos)
    fix q e
    assume r: "roundJs x = (if e > 971 then Infinite False else Finite (rat_of_nat q * 2 powi e))"
      and sh: "2 ^ 52 \<le> q \<or> e = - 1074"
      and near: "\<And>y. representable y \<Longrightarrow> \<bar>x - rat_of_nat q * 2 powi e\<bar> \<le> \<bar>x - y\<bar>"
    have le: "rat_of_nat q * 2 powi e \<le> y" using near [OF assms(1)] assms(2) by (simp add: abs_le_iff)
    have "\<not> e > 971"
    proof
      assume e: "e > 971"
      then have "rat_of_nat (2 ^ 52) \<le> rat_of_nat q" using sh unfolding of_nat_le_iff by linarith
      moreover have "(2 :: rat) powi 972 \<le> 2 powi e" using e by (intro power_int_increasing) simp_all
      ultimately have "rat_of_nat (2 ^ 52) * 2 powi 972 \<le> rat_of_nat q * 2 powi e"
        by (intro mult_mono zero_le_power_int of_nat_0_le_iff) simp_all
      moreover have "rat_of_nat (2 ^ 52) * 2 powi 972 = 2 ^ 1024" by (simp only: power_int_numeral of_nat_power of_nat_numeral power_add [symmetric]) simp
      ultimately show False using le assms(4) by linarith
    qed
    then show ?thesis using le near unfolding r by (intro exI [of _ "rat_of_nat q * 2 powi e"]) (simp add: zero_le_power_int)
  qed
next
  case True
  then show ?thesis using assms(2) by (intro exI [of _ 0]) (simp add: roundJs_def)
qed

lemma roundJs_exact: "representable x \<Longrightarrow> 0 \<le> x \<Longrightarrow> x < 2 ^ 1024 \<Longrightarrow> roundJs x = Finite x"
  using roundJs_le [of x x] by fastforce

lemma roundJs_negate: "roundJs (- x) = jsNegate (roundJs x)"
proof (cases "x = 0")
  case False
  obtain num den where qu: "quotient_of \<bar>x\<bar> = (num, den)" by (cases "quotient_of \<bar>x\<bar>")
  obtain q e where "roundQuotient (nat num) (nat den) = (q, e)" by (cases "roundQuotient (nat num) (nat den)")
  then show ?thesis using False qu by (simp add: roundJs_def sgn_minus) linarith
qed (simp add: roundJs_def)

lemma small_1024: "(n :: rat) \<le> 2 ^ 53 \<Longrightarrow> n < 2 ^ 1024"
proof -
  assume "n \<le> 2 ^ 53"
  moreover have "(2 :: rat) ^ 53 < 2 ^ 1024" by (intro power_strict_increasing) simp_all
  ultimately show ?thesis by linarith
qed

text \<open>Whole numbers up to \<open>2^53\<close>.\<close>

lemma roundJs_nat: "n \<le> 2 ^ 53 \<Longrightarrow> roundJs (rat_of_nat n) = Finite (rat_of_nat n)"
proof -
  assume n: "n \<le> 2 ^ 53"
  then have "rat_of_nat n \<le> rat_of_nat (2 ^ 53)" by (simp only: of_nat_le_iff)
  then have "rat_of_nat n < 2 ^ 1024" by (intro small_1024) simp
  then show ?thesis using representable_nat [OF n] by (intro roundJs_exact) simp_all
qed

lemma roundJs_int: "\<bar>n\<bar> \<le> 2 ^ 53 \<Longrightarrow> roundJs (rat_of_int n) = wholeNum n"
proof -
  assume n: "\<bar>n\<bar> \<le> 2 ^ 53"
  have r: "roundJs (rat_of_nat (nat \<bar>n\<bar>)) = Finite (rat_of_nat (nat \<bar>n\<bar>))" by (rule roundJs_nat) (use n in \<open>simp add: nat_le_iff\<close>)
  show ?thesis
  proof (cases "0 \<le> n")
    case False
    then have "rat_of_int n = - rat_of_nat (nat \<bar>n\<bar>)" by simp
    then show ?thesis using r roundJs_negate [of "rat_of_nat (nat \<bar>n\<bar>)"] by simp
  qed (use r in simp)
qed

lemma jsPlus_whole: "\<bar>m + n\<bar> \<le> 2 ^ 53 \<Longrightarrow> jsPlus (wholeNum m) (wholeNum n) = wholeNum (m + n)"
  using roundJs_int [of "m + n"] by simp

text \<open>The one after \<open>2^53\<close> is not a double.\<close>

lemma bits_after_top: "bitLength 9007199254740993 = 54" "bitLength (Suc 0) = 1"
  by (simp_all add: bitLength.simps)

lemma jsPlus_top: "jsPlus (wholeNum (2 ^ 53)) (wholeNum 1) = wholeNum (2 ^ 53)"
proof -
  have "roundQuotient 9007199254740993 1 = (4503599627370496, 1)"
    by (simp add: roundQuotient_def bits_after_top quotient_def push_bit_eq_mult)
  then show ?thesis by (simp add: roundJs_def)
qed

subsection \<open>Fractions\<close>

lemma grid_error:
  fixes x :: rat
  assumes "0 \<le> x" "x \<le> 1" and near: "\<And>y. representable y \<Longrightarrow> \<bar>x - r\<bar> \<le> \<bar>x - y\<bar>"
  shows "\<bar>x - r\<bar> \<le> 2 powi (- 54)"
proof -
  define m where "m = nat \<lfloor>x * 2 ^ 53 + 1 / 2\<rfloor>"
  have m: "rat_of_nat m = rat_of_int \<lfloor>x * 2 ^ 53 + 1 / 2\<rfloor>" using assms(1) by (simp add: m_def)
  have b: "\<bar>x * 2 ^ 53 - rat_of_nat m\<bar> \<le> 1 / 2"
    using floor_correct [of "x * 2 ^ 53 + 1 / 2"] unfolding m abs_le_iff by linarith
  have "rat_of_nat m \<le> x * 2 ^ 53 + 1 / 2" using b by linarith
  also have "\<dots> < 2 ^ 53 + 1" using assms(2) by simp
  finally have "rat_of_nat m < rat_of_nat (2 ^ 53 + 1)" by simp
  then have "m \<le> 2 ^ 53" unfolding of_nat_less_iff by simp
  then have r: "representable (rat_of_nat m * 2 powi (- 53))"
  proof (cases "m = 2 ^ 53")
    case True
    have "rat_of_nat m * 2 powi (- 53) = rat_of_nat (2 ^ 52) * 2 powi (- 52)" 
      unfolding True by (simp only: power_int_minus power_int_numeral) simp
    then show ?thesis using representable_grid [of "2 ^ 52" "- 52"] by simp
  next
    case False
    with \<open>m \<le> 2 ^ 53\<close> have "m < 2 ^ 53" by linarith
    then show ?thesis by (intro representable_grid) simp_all
  qed
  have "x - rat_of_nat m * 2 powi (- 53) = (x * 2 ^ 53 - rat_of_nat m) * 2 powi (- 53)"
    by (simp only: power_int_minus power_int_numeral left_diff_distrib) simp
  then have "\<bar>x - rat_of_nat m * 2 powi (- 53)\<bar> = \<bar>x * 2 ^ 53 - rat_of_nat m\<bar> * 2 powi (- 53)"
    by (simp only: abs_mult) (simp add: power_int_def)
  also have "\<dots> \<le> 1 / 2 * 2 powi (- 53)" using b by (intro mult_right_mono) (simp_all add: zero_le_power_int)
  also have "\<dots> = 2 powi (- 54)" by (simp only: power_int_minus power_int_numeral) simp
  finally show ?thesis using near [OF r] by linarith
qed

lemma fraction_value:
  assumes "0 < b" "a \<le> b"
  shows "\<exists>r. jsDivide (Finite (rat_of_nat a)) (Finite (rat_of_nat b)) = Finite r \<and>
    \<bar>rat_of_nat a / rat_of_nat b - r\<bar> \<le> 2 powi (- 54)"
proof -
  let ?x = "rat_of_nat a / rat_of_nat b"
  have x: "0 \<le> ?x" "?x \<le> 1" using assms by simp_all
  have "representable (rat_of_nat 1)" by (rule representable_nat) simp
  then have "\<exists>r. roundJs ?x = Finite r \<and> 0 \<le> r \<and> r \<le> rat_of_nat 1 \<and> (\<forall>z. representable z \<longrightarrow> \<bar>?x - r\<bar> \<le> \<bar>?x - z\<bar>)"
    using x by (intro roundJs_le small_1024) simp_all
  then obtain r where r: "roundJs ?x = Finite r" "\<forall>z. representable z \<longrightarrow> \<bar>?x - r\<bar> \<le> \<bar>?x - z\<bar>" by blast
  have "\<bar>?x - r\<bar> \<le> 2 powi (- 54)" by (rule grid_error [OF x]) (use r(2) in blast)
  then show ?thesis using r(1) assms(1) by simp
qed

lemma fraction_gap:
  assumes "0 < b" "0 < d" "a * d < c * b" "b * d < 2 ^ 53"
  shows "2 * 2 powi (- 54) < rat_of_nat c / rat_of_nat d - rat_of_nat a / rat_of_nat b"
proof -
  have "rat_of_nat c / rat_of_nat d - rat_of_nat a / rat_of_nat b = (rat_of_nat (c * b) - rat_of_nat (a * d)) / rat_of_nat (b * d)"
    using assms(1,2) by (simp add: diff_divide_eq_iff divide_diff_eq_iff mult_ac)
  moreover have "rat_of_nat (a * d) + 1 \<le> rat_of_nat (c * b)"
    using assms(3) by (metis Suc_eq_plus1 Suc_leI of_nat_1 of_nat_add of_nat_le_iff)
  moreover have p: "0 < rat_of_nat (b * d)" using assms by simp
  ultimately have "1 / rat_of_nat (b * d) \<le> rat_of_nat c / rat_of_nat d - rat_of_nat a / rat_of_nat b"
    by (simp add: divide_right_mono)
  moreover have "rat_of_nat (b * d) < rat_of_nat (2 ^ 53)" using assms(4) by (simp only: of_nat_less_iff)
  then have "1 / rat_of_nat (2 ^ 53) < 1 / rat_of_nat (b * d)" using p by (intro divide_strict_left_mono) simp_all
  moreover have "2 * (2 :: rat) powi (- 54) = 1 / rat_of_nat (2 ^ 53)"
    by (simp only: power_int_minus power_int_numeral inverse_eq_divide) simp
  ultimately show ?thesis by linarith
qed

text \<open>Rounded fractions are ordered as the fractions are.\<close>

lemma fraction_less:
  assumes "0 < b" "a \<le> b" "0 < d" "c \<le> d" "b * d < 2 ^ 53"
  shows "jsLess (jsDivide (Finite (rat_of_nat a)) (Finite (rat_of_nat b))) (jsDivide (Finite (rat_of_nat c)) (Finite (rat_of_nat d)))
    \<longleftrightarrow> a * d < c * b"
proof -
  obtain r where r: "jsDivide (Finite (rat_of_nat a)) (Finite (rat_of_nat b)) = Finite r"
    "\<bar>rat_of_nat a / rat_of_nat b - r\<bar> \<le> 2 powi (- 54)" using fraction_value [OF assms(1,2)] by blast
  obtain s where s: "jsDivide (Finite (rat_of_nat c)) (Finite (rat_of_nat d)) = Finite s"
    "\<bar>rat_of_nat c / rat_of_nat d - s\<bar> \<le> 2 powi (- 54)" using fraction_value [OF assms(3,4)] by blast
  consider "a * d < c * b" | "a * d = c * b" | "c * b < a * d" by linarith
  then have "r < s \<longleftrightarrow> a * d < c * b"
  proof cases
    case 1
    then show ?thesis using r(2) s(2) fraction_gap [OF assms(1,3) 1 assms(5)] by linarith
  next
    case 2
    then have "rat_of_nat (a * d) = rat_of_nat (c * b)" by simp
    then have "rat_of_nat a / rat_of_nat b = rat_of_nat c / rat_of_nat d" using assms(1,3) by (simp add: frac_eq_eq)
    then have "r = s" using r(1) s(1) assms(1,3) by simp
    then show ?thesis using 2 by simp
  next
    case 3
    have "d * b < 2 ^ 53" using assms(5) by (simp only: mult.commute)
    then show ?thesis using r(2) s(2) 3 fraction_gap [OF assms(3,1) 3] by linarith
  qed
  then show ?thesis unfolding r(1) s(1) by simp
qed

subsection \<open>Seconds\<close>

text \<open>Milliseconds divided by a thousand and compared with a whole number of seconds.\<close>

lemma seconds_le:
  assumes "0 \<le> x" "x \<le> 1000 * rat_of_nat s" "s < 2 ^ 40"
  shows "\<not> jsLess (Finite (rat_of_nat s)) (roundJs (x / 1000))"
proof -
  have s: "s \<le> 2 ^ 53" using assms(3) by simp
  then have "rat_of_nat s \<le> rat_of_nat (2 ^ 53)" by (simp only: of_nat_le_iff)
  then have "rat_of_nat s < 2 ^ 1024" by (intro small_1024) simp
  then obtain r where "roundJs (x / 1000) = Finite r" "r \<le> rat_of_nat s"
    using roundJs_le [OF representable_nat [OF s], of "x / 1000"] assms(1,2) by auto
  then show ?thesis by simp
qed

lemma seconds_greater:
  assumes "1000 * rat_of_nat s + 1 \<le> x" "s < 2 ^ 40"
  shows "jsLess (Finite (rat_of_nat s)) (roundJs (x / 1000))"
proof -
  let ?y = "rat_of_nat (s * 1024 + 1) * 2 powi (- 10)"
  have y: "?y = rat_of_nat s + 1 / 1024" by (simp only: power_int_minus power_int_numeral) (simp add: field_simps)
  have rep: "representable ?y" by (rule representable_grid) (use assms(2) in simp_all)
  have "?y \<le> x / 1000" unfolding y using assms(1) by (simp add: field_simps)
  moreover have "0 \<le> x / 1000" using assms(1) by (simp add: order_trans [of 0 "1000 * rat_of_nat s + 1"])
  ultimately have "jsLe (Finite ?y) (roundJs (x / 1000))" by (intro roundJs_ge rep)
  moreover have "rat_of_nat s < ?y" unfolding y by simp
  ultimately show ?thesis by (cases "roundJs (x / 1000)") (auto simp: jsLe_def jsEq_def)
qed

end
