(* ===== verification/Light_Verifier.thy ===== *)
theory Light_Verifier
  imports Query_Result Js_Arith
begin

text \<open>
  The light client's verifiers (\<open>src/src/light-client/verifier.ts\<close>, \<open>types.ts\<close>): headers against a
  trusted header by the voting power that signed them, and GroveDB proofs against a trusted app hash.
  Signature schemes, hashes, the texts of dates and numbers and \<open>TextEncoder\<close> are the parameter
  \<open>lcRuntime\<close>. What an endpoint's answer is parsed to, heights, times, flags and voting powers, is any
  number or date, \<open>NaN\<close> and invalid dates included; the configuration's threshold and drift are whole.
\<close>

subsection \<open>Data\<close>

record TrustThreshold =
  numerator :: nat
  denominator :: nat

record Validator =
  vaddress :: bytes
  pubKey :: bytes
  votingPower :: jsNum

record ValidatorSet =
  validators :: "Validator list"

record BlockId =
  bhash :: bytes
  partSetHeaderTotal :: jsNum
  partSetHeaderHash :: bytes

record Header =
  chainId :: jsstr
  height :: jsNum
  htime :: date
  lastBlockId :: "BlockId option"
  lastCommitHash :: bytes
  dataHash :: bytes
  validatorsHash :: bytes
  nextValidatorsHash :: bytes
  consensusHash :: bytes
  appHash :: bytes
  lastResultsHash :: bytes
  evidenceHash :: bytes
  proposerAddress :: bytes

record CommitSig =
  blockIdFlag :: jsNum
  validatorAddress :: bytes
  timestamp :: date
  signature :: "bytes option"

record Commit =
  cheight :: jsNum
  round :: jsNum
  blockId :: BlockId
  signatures :: "CommitSig list"

record LightBlock =
  header :: Header
  commit :: Commit
  lbValidators :: ValidatorSet
  provider :: "string option"

datatype lcError =
    ChainIdMismatch jsstr
  | InvalidHeight jsNum
  | ClockDrift jsNum
  | NonSequential jsNum jsNum
  | TimeNotForward
  | SignatureCountMismatch
  | InsufficientPower jsNum jsNum
  | ValidatorSetMismatch
  | RootMismatch bytes bytes
  | ResultNotProven nat
  | ProofFailed gerror
  | ThresholdNotPositive
  | ThresholdAboveOne
  | NoTrustedHeaders
  | NoSuitableHeader
  | NoLatestHeight
  | NotFetched jsNum
  | NoHeaderForState jsNum
  | TooFewEndpoints nat
  | NotInitialized

text \<open>\<open>VerificationResult\<close>: \<open>failure\<close> is the \<open>error\<close> field.\<close>

record VerificationResult =
  success :: bool
  failure :: "lcError option"
  vheight :: "jsNum option"
  trustLevel :: "jsNum option"

definition accept :: "jsNum option \<Rightarrow> jsNum option \<Rightarrow> VerificationResult" where
  "accept h level = \<lparr>success = True, failure = None, vheight = h, trustLevel = level\<rparr>"

definition refuse :: "lcError \<Rightarrow> jsNum option \<Rightarrow> jsNum option \<Rightarrow> VerificationResult" where
  "refuse e h level = \<lparr>success = False, failure = Some e, vheight = h, trustLevel = level\<rparr>"

lemma result_simps [simp]:
  "success (accept h l)" "\<not> success (refuse e h l)" "failure (accept h l) = None" "failure (refuse e h l) = Some e"
  by (simp_all add: accept_def refuse_def)

text \<open>An error's message is never empty.\<close>

definition isVerificationValid :: "VerificationResult \<Rightarrow> bool" where
  "isVerificationValid result \<longleftrightarrow> success result \<and> failure result = None"

definition createTrustThreshold :: "int \<Rightarrow> int \<Rightarrow> lcError + TrustThreshold" where
  "createTrustThreshold n d =
     (if n \<le> 0 \<or> d \<le> 0 then Inl ThresholdNotPositive
      else if n > d then Inl ThresholdAboveOne
      else Inr \<lparr>numerator = nat n, denominator = nat d\<rparr>)"

definition getTrustFraction :: "TrustThreshold \<Rightarrow> jsNum" where
  "getTrustFraction threshold =
     jsDivide (Finite (rat_of_nat (numerator threshold))) (Finite (rat_of_nat (denominator threshold)))"

subsection \<open>Sign bytes\<close>

record lcRuntime =
  ed25519Verify :: "bytes \<Rightarrow> bytes \<Rightarrow> bytes \<Rightarrow> bool option"
  secp256k1Verify :: "bytes \<Rightarrow> bytes \<Rightarrow> bytes \<Rightarrow> bool option"
  sha256 :: "bytes \<Rightarrow> bytes"
  isoText :: "int \<Rightarrow> jsstr"
  numberText :: "jsNum \<Rightarrow> jsstr"
  utf8 :: "jsstr \<Rightarrow> bytes"

text \<open>What \<open>JSON.stringify\<close> is given, and its text when the second argument is a list of keys: at
  every depth, the members named in the list, in its order; \<open>null\<close> for a number that is not finite.\<close>

datatype outVal = OutText jsstr | OutNumber jsNum | OutObject "(jsstr \<times> outVal) list"

fun stringifyKeys :: "lcRuntime \<Rightarrow> jsstr list \<Rightarrow> outVal \<Rightarrow> jsstr" where
  "stringifyKeys L keys (OutText s) = quoted s"
| "stringifyKeys L keys (OutNumber n) = (case n of Finite _ \<Rightarrow> numberText L n | _ \<Rightarrow> js ''null'')"
| "stringifyKeys L keys (OutObject ms) =
     (let texts = map (\<lambda>(k, v). (k, stringifyKeys L keys v)) ms in
      [0x7b] @ joinComma (List.map_filter (\<lambda>k. map_option (\<lambda>t. quoted k @ [0x3a] @ t) (map_of texts k)) keys) @ [0x7d])"

text \<open>\<open>sort\<close> of texts, by code units.\<close>

fun codeLess :: "jsstr \<Rightarrow> jsstr \<Rightarrow> bool" where
  "codeLess _ [] = False"
| "codeLess [] (d # t) = True"
| "codeLess (c # s) (d # t) = (c < d \<or> (c = d \<and> codeLess s t))"

fun insertText :: "jsstr \<Rightarrow> jsstr list \<Rightarrow> jsstr list" where
  "insertText k [] = [k]"
| "insertText k (x # xs) = (if codeLess x k then x # insertText k xs else k # x # xs)"

definition sortTexts :: "jsstr list \<Rightarrow> jsstr list" where
  "sortTexts ks = foldr insertText ks []"

definition upperChar :: "char \<Rightarrow> char" where
  "upperChar c = (let n = of_char c :: nat in if 97 \<le> n \<and> n \<le> 122 then char_of (n - 32) else c)"

text \<open>\<open>toISOString\<close> throws for an invalid date.\<close>

definition canonicalVote :: "lcRuntime \<Rightarrow> Commit \<Rightarrow> Header \<Rightarrow> CommitSig \<Rightarrow> (jsstr \<times> outVal) list option" where
  "canonicalVote L c h sig =
     (case timestamp sig of
        None \<Rightarrow> None
      | Some t \<Rightarrow> Some
          [(js ''@type'', OutText (js ''/tendermint.types.CanonicalVote'')),
           (js ''block_id'', OutObject
             [(js ''hash'', OutText (js (map upperChar (bytesToHex (bhash (blockId c)))))),
              (js ''part_set_header'', OutObject
                [(js ''total'', OutNumber (partSetHeaderTotal (blockId c))),
                 (js ''hash'', OutText (js (map upperChar (bytesToHex (partSetHeaderHash (blockId c))))))])]),
           (js ''chain_id'', OutText (chainId h)),
           (js ''height'', OutText (numberText L (cheight c))),
           (js ''round'', OutText (numberText L (round c))),
           (js ''timestamp'', OutText (isoText L t)),
           (js ''type'', OutNumber (wholeNum 2))])"

definition createVoteSignBytes :: "lcRuntime \<Rightarrow> Commit \<Rightarrow> Header \<Rightarrow> CommitSig \<Rightarrow> bytes option" where
  "createVoteSignBytes L c h sig =
     (case canonicalVote L c h sig of
        None \<Rightarrow> None
      | Some vote \<Rightarrow> Some (utf8 L (stringifyKeys L (sortTexts (map fst vote)) (OutObject vote))))"

subsection \<open>Signatures and headers\<close>

text \<open>Sign bytes or a scheme that throw are caught and count as no signature.\<close>

definition verifySignature :: "lcRuntime \<Rightarrow> Commit \<Rightarrow> Header \<Rightarrow> Validator \<Rightarrow> CommitSig \<Rightarrow> bool" where
  "verifySignature L c h val sig =
     (case signature sig of
        None \<Rightarrow> False
      | Some s \<Rightarrow>
          (case createVoteSignBytes L c h sig of
             None \<Rightarrow> False
           | Some signBytes \<Rightarrow>
               if length (pubKey val) = 32 then ed25519Verify L s signBytes (pubKey val) = Some True
               else if length (pubKey val) = 33 \<or> length (pubKey val) = 65
                 then secp256k1Verify L s (sha256 L signBytes) (pubKey val) = Some True
               else False))"

fun commitLoop ::
  "lcRuntime \<Rightarrow> Commit \<Rightarrow> Header \<Rightarrow> (CommitSig \<times> Validator) list \<Rightarrow> jsNum \<Rightarrow> jsNum \<Rightarrow> jsNum \<times> jsNum" where
  "commitLoop L c h [] tot ok = (tot, ok)"
| "commitLoop L c h ((sig, val) # rest) tot ok =
     (let tot = jsPlus tot (votingPower val) in
      if signature sig = None \<or> \<not> jsEq (blockIdFlag sig) (wholeNum 2) then commitLoop L c h rest tot ok
      else if verifySignature L c h val sig then commitLoop L c h rest tot (jsPlus ok (votingPower val))
      else commitLoop L c h rest tot ok)"

definition verifyCommitSignatures :: "lcRuntime \<Rightarrow> Commit \<Rightarrow> ValidatorSet \<Rightarrow> Header \<Rightarrow> lcError + jsNum" where
  "verifyCommitSignatures L c vs h =
     (if length (signatures c) \<noteq> length (validators vs) then Inl SignatureCountMismatch
      else
        (let (tot, ok) = commitLoop L c h (zip (signatures c) (validators vs)) (wholeNum 0) (wholeNum 0) in
         Inr (if jsLess (wholeNum 0) tot then jsDivide ok tot else wholeNum 0)))"

record HeaderVerifier =
  hvChainId :: jsstr
  trustThreshold :: TrustThreshold

definition timeDiff :: "int \<Rightarrow> Header \<Rightarrow> jsNum" where
  "timeDiff now h = jsDivide (jsAbs (jsMinus (getTime (htime h)) (wholeNum now))) (wholeNum 1000)"

definition validateBasicHeader :: "HeaderVerifier \<Rightarrow> int \<Rightarrow> Header \<Rightarrow> int \<Rightarrow> lcError + unit" where
  "validateBasicHeader hv now h maxClockDriftSecs =
     (if chainId h \<noteq> hvChainId hv then Inl (ChainIdMismatch (chainId h))
      else if jsLe (height h) (wholeNum 0) then Inl (InvalidHeight (height h))
      else if jsLess (wholeNum maxClockDriftSecs) (timeDiff now h) then Inl (ClockDrift (timeDiff now h))
      else Inr ())"

definition verifySequential :: "LightBlock \<Rightarrow> LightBlock \<Rightarrow> lcError + unit" where
  "verifySequential untrusted trusted =
     (let next = jsPlus (height (header trusted)) (wholeNum 1) in
      if \<not> jsEq (height (header untrusted)) next then Inl (NonSequential (height (header untrusted)) next)
      else if jsLe (getTime (htime (header untrusted))) (getTime (htime (header trusted))) then Inl TimeNotForward
      else Inr ())"

definition verifyValidatorSetTransition :: "LightBlock \<Rightarrow> LightBlock \<Rightarrow> lcError + unit" where
  "verifyValidatorSetTransition untrusted trusted =
     (if \<not> bytesEqual (validatorsHash (header untrusted)) (nextValidatorsHash (header trusted))
      then Inl ValidatorSetMismatch else Inr ())"

definition headerChecks ::
  "lcRuntime \<Rightarrow> HeaderVerifier \<Rightarrow> int \<Rightarrow> LightBlock \<Rightarrow> LightBlock option \<Rightarrow> int \<Rightarrow> lcError + VerificationResult" where
  "headerChecks L hv now untrusted trusted maxClockDriftSecs =
     bnd (validateBasicHeader hv now (header untrusted) maxClockDriftSecs) (\<lambda>_.
     bnd (case trusted of None \<Rightarrow> Inr () | Some t \<Rightarrow> verifySequential untrusted t) (\<lambda>_.
     bnd (verifyCommitSignatures L (commit untrusted) (lbValidators untrusted) (header untrusted)) (\<lambda>power.
       (let level = orNumber power (wholeNum 0); required = getTrustFraction (trustThreshold hv);
            h = Some (height (header untrusted)) in
        if jsLess level required then Inr (refuse (InsufficientPower level required) h (Some level))
        else
          bnd (case trusted of None \<Rightarrow> Inr () | Some t \<Rightarrow> verifyValidatorSetTransition untrusted t) (\<lambda>_.
            Inr (accept h (Some level)))))))"

definition verifyHeader ::
  "lcRuntime \<Rightarrow> HeaderVerifier \<Rightarrow> int \<Rightarrow> LightBlock \<Rightarrow> LightBlock option \<Rightarrow> int \<Rightarrow> VerificationResult" where
  "verifyHeader L hv now untrusted trusted maxClockDriftSecs =
     (case headerChecks L hv now untrusted trusted maxClockDriftSecs of
        Inl e \<Rightarrow> refuse e (Some (height (header untrusted))) None
      | Inr r \<Rightarrow> r)"

subsection \<open>Proofs\<close>

record GroveDBQueryProof =
  qproof :: bytes
  qheight :: jsNum
  queryResult :: "bytes list option"

fun firstUnproven :: "bytes list \<Rightarrow> nat \<Rightarrow> bytes list \<Rightarrow> nat option" where
  "firstUnproven proven i [] = None"
| "firstUnproven proven i (v # vs) =
     (if \<not> list_ex (\<lambda>p. bytesEqual p v) proven then Some i else firstUnproven proven (i + 1) vs)"

definition verifyQueryResult ::
  "(bytes \<Rightarrow> bytes) \<Rightarrow> GroveDBQueryProof \<Rightarrow> bytes \<Rightarrow> bytes list option \<Rightarrow> VerificationResult" where
  "verifyQueryResult H p trustedAppHash given =
     (let vs = (case given of Some vs \<Rightarrow> vs | None \<Rightarrow> (case queryResult p of Some vs \<Rightarrow> vs | None \<Rightarrow> []));
          h = Some (qheight p) in
      (case verifyGroveDBProof H (qproof p) noOptions of
         Inl e \<Rightarrow> refuse (ProofFailed e) h None
       | Inr verification \<Rightarrow>
           if \<not> bytesEqual (rootHash verification) trustedAppHash
           then refuse (RootMismatch (rootHash verification) trustedAppHash) h None
           else
             (case firstUnproven (List.map_filter itemOf (results verification)) 0 vs of
                Some i \<Rightarrow> refuse (ResultNotProven i) h None
              | None \<Rightarrow> accept h None)))"

definition verifyInclusionProof ::
  "(bytes \<Rightarrow> bytes) \<Rightarrow> bytes \<Rightarrow> bytes \<Rightarrow> bytes \<Rightarrow> bytes \<Rightarrow> bytes list \<Rightarrow> bool" where
  "verifyInclusionProof H key val proofBytes trustedRoot path =
     (case verifyGroveDBProof H proofBytes (descendTo path) of
        Inl _ \<Rightarrow> False
      | Inr verification \<Rightarrow>
          bytesEqual (rootHash verification) trustedRoot \<and>
          list_ex (\<lambda>r. pathEqual (epath r) path \<and> bytesEqual (ekey r) key \<and>
             (case itemOf r of None \<Rightarrow> False | Some v \<Rightarrow> bytesEqual v val)) (results verification))"

definition verifyAbsenceProof ::
  "(bytes \<Rightarrow> bytes) \<Rightarrow> bytes \<Rightarrow> bytes \<Rightarrow> bytes \<Rightarrow> bytes list \<Rightarrow> bool" where
  "verifyAbsenceProof H key proofBytes trustedRoot path =
     (case verifyKeyAbsence H proofBytes path key of
        Inl _ \<Rightarrow> False
      | Inr r \<Rightarrow> bytesEqual r trustedRoot)"

subsection \<open>Accepted headers\<close>

text \<open>Voting powers that are natural numbers, the power of a list of validators, the votes that count,
  and the power of those whose votes count.\<close>

definition wholePowers :: "Validator list \<Rightarrow> bool" where
  "wholePowers vs \<longleftrightarrow> (\<forall>v\<in>set vs. \<exists>n. votingPower v = Finite (rat_of_nat n))"

definition powerNat :: "Validator \<Rightarrow> nat" where
  "powerNat v = (case votingPower v of Finite x \<Rightarrow> nat \<lfloor>x\<rfloor> | _ \<Rightarrow> 0)"

definition powerOf :: "Validator list \<Rightarrow> nat" where
  "powerOf vs = sum_list (map powerNat vs)"

definition counted :: "lcRuntime \<Rightarrow> Commit \<Rightarrow> Header \<Rightarrow> CommitSig \<times> Validator \<Rightarrow> bool" where
  "counted L c h sv \<longleftrightarrow> jsEq (blockIdFlag (fst sv)) (wholeNum 2) \<and> verifySignature L c h (snd sv) (fst sv)"

definition signedPower :: "lcRuntime \<Rightarrow> LightBlock \<Rightarrow> nat" where
  "signedPower L u =
     powerOf (map snd (filter (counted L (commit u) (header u)) (zip (signatures (commit u)) (validators (lbValidators u)))))"

lemma power_simps [simp]: "powerOf [] = 0" "powerOf (v # vs) = powerNat v + powerOf vs"
  by (simp_all add: powerOf_def)

lemma wholePowers_simps [simp]:
  "wholePowers []" "wholePowers (v # vs) \<longleftrightarrow> votingPower v = Finite (rat_of_nat (powerNat v)) \<and> wholePowers vs"
  by (auto simp: wholePowers_def powerNat_def)

lemma plus_power:
  "votingPower v = Finite (rat_of_nat (powerNat v)) \<Longrightarrow> n + powerNat v \<le> 2 ^ 53 \<Longrightarrow>
     jsPlus (Finite (rat_of_nat n)) (votingPower v) = Finite (rat_of_nat (n + powerNat v))"
  using roundJs_nat [of "n + powerNat v"] by simp

lemma commitLoop_power:
  "wholePowers (map snd svs) \<Longrightarrow> tot + powerOf (map snd svs) < 2 ^ 53 \<Longrightarrow> ok \<le> tot \<Longrightarrow>
     commitLoop L c h svs (Finite (rat_of_nat tot)) (Finite (rat_of_nat ok)) =
       (Finite (rat_of_nat (tot + powerOf (map snd svs))),
        Finite (rat_of_nat (ok + powerOf (map snd (filter (counted L c h) svs)))))"
proof (induction svs arbitrary: tot ok)
  case (Cons sv svs)
  obtain sig val where sv: "sv = (sig, val)" by (cases sv)
  have w: "votingPower val = Finite (rat_of_nat (powerNat val))" "wholePowers (map snd svs)" using Cons.prems(1) sv by simp_all
  have t: "jsPlus (Finite (rat_of_nat tot)) (votingPower val) = Finite (rat_of_nat (tot + powerNat val))"
    "jsPlus (Finite (rat_of_nat ok)) (votingPower val) = Finite (rat_of_nat (ok + powerNat val))"
    by (rule plus_power [OF w(1)], use Cons.prems sv in simp)+
  have b: "tot + powerNat val + powerOf (map snd svs) < 2 ^ 53" using Cons.prems(2) sv by simp
  have n: "signature sig = None \<Longrightarrow> \<not> verifySignature L c h val sig" by (simp add: verifySignature_def)
  note ih = Cons.IH [OF w(2) b]
  show ?case
  proof (cases "counted L c h sv")
    case True
    then obtain y where y: "signature sig = Some y" "jsEq (blockIdFlag sig) (wholeNum 2)" "verifySignature L c h val sig"
      using n sv by (auto simp: counted_def)
    have "ok + powerNat val \<le> tot + powerNat val" using Cons.prems(3) by simp
    from ih [OF this] show ?thesis using True y unfolding sv by (simp add: t Let_def add_ac)
  next
    case False
    then have "signature sig = None \<or> \<not> jsEq (blockIdFlag sig) (wholeNum 2) \<or> \<not> verifySignature L c h val sig"
      using sv by (auto simp: counted_def)
    moreover have "ok \<le> tot + powerNat val" using Cons.prems(3) by simp
    ultimately show ?thesis using ih [of ok] False unfolding sv by (auto simp: t Let_def add_ac)
  qed
qed simp

lemma filter_power_le: "powerOf (map snd (filter P svs)) \<le> powerOf (map snd svs)"
  by (induction svs) auto

lemma verifyCommitSignatures_power:
  assumes "wholePowers (validators vs)" "powerOf (validators vs) < 2 ^ 53" "length (signatures c) = length (validators vs)"
  shows "verifyCommitSignatures L c vs h =
    Inr (if powerOf (validators vs) > 0
         then jsDivide (Finite (rat_of_nat (powerOf (map snd (filter (counted L c h) (zip (signatures c) (validators vs)))))))
           (Finite (rat_of_nat (powerOf (validators vs))))
         else wholeNum 0)"
proof -
  have z: "map snd (zip (signatures c) (validators vs)) = validators vs" using assms(3) by simp
  have "commitLoop L c h (zip (signatures c) (validators vs)) (Finite (rat_of_nat 0)) (Finite (rat_of_nat 0)) =
      (Finite (rat_of_nat (0 + powerOf (validators vs))),
       Finite (rat_of_nat (0 + powerOf (map snd (filter (counted L c h) (zip (signatures c) (validators vs)))))))"
    using commitLoop_power [of "zip (signatures c) (validators vs)" 0 0 L c h] assms(1,2) unfolding z by simp
  then show ?thesis using assms(3) by (simp add: verifyCommitSignatures_def)
qed

lemma threshold_exact:
  assumes "0 < numerator t" "numerator t \<le> denominator t" "v \<le> s" "s * denominator t < 2 ^ 53" "denominator t < 2 ^ 53"
  shows "jsLess (orNumber (if s > 0 then jsDivide (Finite (rat_of_nat v)) (Finite (rat_of_nat s)) else wholeNum 0) (wholeNum 0))
      (getTrustFraction t) \<longleftrightarrow> \<not> (0 < s \<and> numerator t * s \<le> v * denominator t)"
proof -
  have d: "0 < denominator t" using assms(1,2) by simp
  show ?thesis
  proof (cases "0 < s")
    case True
    obtain r where r: "jsDivide (Finite (rat_of_nat v)) (Finite (rat_of_nat s)) = Finite r"
      using fraction_value [OF True assms(3)] by blast
    then have o: "orNumber (jsDivide (Finite (rat_of_nat v)) (Finite (rat_of_nat s))) (wholeNum 0) =
        jsDivide (Finite (rat_of_nat v)) (Finite (rat_of_nat s))"
      by (simp add: orNumber_def)
    have "jsLess (jsDivide (Finite (rat_of_nat v)) (Finite (rat_of_nat s))) (getTrustFraction t) \<longleftrightarrow>
        v * denominator t < numerator t * s"
      unfolding getTrustFraction_def by (rule fraction_less [OF True assms(3) d assms(2,4)])
    then show ?thesis using True o by auto
  next
    case False
    have "jsLess (jsDivide (Finite (rat_of_nat 0)) (Finite (rat_of_nat 1))) (getTrustFraction t)"
      unfolding getTrustFraction_def using fraction_less [OF _ _ d assms(2), of 1 0] assms(1,5) by simp
    then show ?thesis using False by (simp add: roundJs_def orNumber_def)
  qed
qed

lemma headerChecks_success:
  "success (verifyHeader L hv now u t drift) \<longleftrightarrow>
     (\<exists>level. validateBasicHeader hv now (header u) drift = Inr () \<and>
        (case t of None \<Rightarrow> True | Some b \<Rightarrow> verifySequential u b = Inr () \<and> verifyValidatorSetTransition u b = Inr ()) \<and>
        verifyCommitSignatures L (commit u) (lbValidators u) (header u) = Inr level \<and>
        \<not> jsLess (orNumber level (wholeNum 0)) (getTrustFraction (trustThreshold hv)))"
proof -
  have s: "success (verifyHeader L hv now u t drift) \<longleftrightarrow> (\<exists>r. headerChecks L hv now u t drift = Inr r \<and> success r)"
    by (simp add: verifyHeader_def split: sum.splits)
  have r: "(case t of None \<Rightarrow> Inr () | Some b \<Rightarrow> f b) = (Inr () :: lcError + unit) \<longleftrightarrow>
      (case t of None \<Rightarrow> True | Some b \<Rightarrow> f b = Inr ())" for f
    by (cases t) simp_all
  show ?thesis unfolding s headerChecks_def
    by (auto simp: Let_def r split: option.splits if_splits)
qed

text \<open>What the checks of an accepted header come to: the height is \<open>NaN\<close> or positive, the date invalid or
  within the drift of the clock; after a trusted header the height is the next one, the time later unless
  one of the two is invalid.\<close>

definition positiveOrNaN :: "jsNum \<Rightarrow> bool" where
  "positiveOrNaN h = (case h of NotANumber \<Rightarrow> True | Infinite neg \<Rightarrow> \<not> neg | Finite x \<Rightarrow> 0 < x)"

definition basicOk :: "HeaderVerifier \<Rightarrow> int \<Rightarrow> int \<Rightarrow> Header \<Rightarrow> bool" where
  "basicOk hv now drift h \<longleftrightarrow>
     chainId h = hvChainId hv \<and> positiveOrNaN (height h) \<and>
     (case htime h of None \<Rightarrow> True | Some t \<Rightarrow> \<bar>t - now\<bar> \<le> 1000 * drift)"

definition follows :: "Header \<Rightarrow> Header \<Rightarrow> bool" where
  "follows h b \<longleftrightarrow>
     height h \<noteq> NotANumber \<and> height h = jsPlus (height b) (wholeNum 1) \<and>
     (case (htime b, htime h) of (Some s, Some t) \<Rightarrow> s < t | _ \<Rightarrow> True) \<and>
     validatorsHash h = nextValidatorsHash b"

lemma height_positive: "\<not> jsLe h (wholeNum 0) \<longleftrightarrow> positiveOrNaN h"
  by (cases h) (auto simp: positiveOrNaN_def jsLe_def jsEq_def)

text \<open>The drift in seconds, rounded, is compared as the milliseconds are.\<close>

lemma seconds_int:
  assumes "0 \<le> x" "drift < 2 ^ 40"
  shows "jsLess (wholeNum drift) (roundJs (rat_of_int x / 1000)) \<longleftrightarrow> 1000 * drift < x"
proof (cases "0 \<le> drift")
  case True
  define s where "s = nat drift"
  have s: "wholeNum drift = Finite (rat_of_nat s)" "s < 2 ^ 40" "int s = drift" using True assms(2) by (simp_all add: s_def nat_less_iff)
  show ?thesis
  proof (cases "1000 * drift < x")
    case True
    then have "1000 * int s + 1 \<le> x" using s(3) by simp
    then have "rat_of_int (1000 * int s + 1) \<le> rat_of_int x" by (simp only: of_int_le_iff)
    then show ?thesis using seconds_greater [OF _ s(2), of "rat_of_int x"] True s(1) by simp
  next
    case False
    then have "x \<le> 1000 * int s" using s(3) by simp
    then have "rat_of_int x \<le> rat_of_int (1000 * int s)" by (simp only: of_int_le_iff)
    then have "\<not> jsLess (wholeNum drift) (roundJs (rat_of_int x / 1000))"
      unfolding s(1) using assms(1) by (intro seconds_le s(2)) simp_all
    then show ?thesis using False by blast
  qed
next
  case False
  have "representable (rat_of_nat 0)" by (rule representable_nat) simp
  then have "jsLe (wholeNum 0) (roundJs (rat_of_int x / 1000))" using roundJs_ge [of 0 "rat_of_int x / 1000"] assms(1) by simp
  then show ?thesis using False assms(1) by (cases "roundJs (rat_of_int x / 1000)") (auto simp: jsLe_def jsEq_def)
qed

lemma drift_int:
  assumes "drift < 2 ^ 40"
  shows "jsLess (wholeNum drift) (jsDivide (jsAbs (jsMinus (wholeNum t) (wholeNum now))) (wholeNum 1000)) \<longleftrightarrow>
    1000 * drift < \<bar>t - now\<bar>"
proof -
  have m: "jsMinus (wholeNum t) (wholeNum now) = roundJs (rat_of_int (t - now))" by (simp add: jsMinus_def)
  have a: "jsAbs (roundJs (rat_of_int n)) = roundJs (rat_of_int \<bar>n\<bar>)" for n
  proof (cases "0 \<le> n")
    case True
    have "representable (rat_of_nat 0)" by (rule representable_nat) simp
    then have "jsLe (wholeNum 0) (roundJs (rat_of_int n))" using roundJs_ge [of 0 "rat_of_int n"] True by simp
    then show ?thesis using True by (cases "roundJs (rat_of_int n)") (auto simp: jsLe_def jsEq_def)
  next
    case False
    have "representable (rat_of_nat 0)" by (rule representable_nat) simp
    then have "jsLe (wholeNum 0) (roundJs (rat_of_int (- n)))" using roundJs_ge [of 0 "rat_of_int (- n)"] False by simp
    moreover have "roundJs (rat_of_int n) = jsNegate (roundJs (rat_of_int (- n)))" using roundJs_negate [of "rat_of_int (- n)"] by simp
    ultimately show ?thesis using False by (cases "roundJs (rat_of_int (- n))") (auto simp: jsLe_def jsEq_def)
  qed
  let ?d = "\<bar>t - now\<bar>"
  show ?thesis unfolding m a
  proof (cases "?d \<le> 2 ^ 53")
    case True
    then have "roundJs (rat_of_int ?d) = wholeNum ?d" by (intro roundJs_int) simp
    then show "jsLess (wholeNum drift) (jsDivide (roundJs (rat_of_int ?d)) (wholeNum 1000)) \<longleftrightarrow> 1000 * drift < ?d"
      using seconds_int [OF _ assms, of ?d] by simp
  next
    case False
    have "representable (rat_of_nat (2 ^ 53))" by (rule representable_nat) simp
    moreover have "rat_of_int (2 ^ 53) \<le> rat_of_int ?d" using False by (simp only: of_int_le_iff)
    ultimately have le: "jsLe (Finite (2 ^ 53)) (roundJs (rat_of_int ?d))" using roundJs_ge [of "2 ^ 53" "rat_of_int ?d"] by simp
    have "jsLess (wholeNum drift) (jsDivide (roundJs (rat_of_int ?d)) (wholeNum 1000))"
    proof (cases "roundJs (rat_of_int ?d)")
      case (Finite r)
      then have r: "2 ^ 53 \<le> r" using le by simp
      let ?s = "nat (max drift 0)"
      have s: "?s < 2 ^ 40" using assms by (simp add: nat_less_iff)
      then have "1000 * ?s + 1 \<le> 2 ^ 53" by simp
      then have "rat_of_nat (1000 * ?s + 1) \<le> rat_of_nat (2 ^ 53)" by (simp only: of_nat_le_iff)
      then have "jsLess (Finite (rat_of_nat ?s)) (roundJs (r / 1000))" using r by (intro seconds_greater s) simp
      moreover have "rat_of_int drift \<le> rat_of_nat ?s" by (simp add: of_nat_nat)
      ultimately show ?thesis using Finite by (cases "roundJs (r / 1000)") auto
    qed (use le in \<open>auto simp: jsLe_def jsEq_def\<close>)
    moreover have "1000 * drift < ?d" using assms False by simp
    ultimately show "jsLess (wholeNum drift) (jsDivide (roundJs (rat_of_int ?d)) (wholeNum 1000)) \<longleftrightarrow> 1000 * drift < ?d" by blast
  qed
qed

lemma basic_checks:
  "drift < 2 ^ 40 \<Longrightarrow> validateBasicHeader hv now h drift = Inr () \<longleftrightarrow> basicOk hv now drift h"
  using height_positive [of "height h"] drift_int [of drift _ now]
  by (cases "htime h") (auto simp: validateBasicHeader_def basicOk_def timeDiff_def getTime_def jsMinus_def not_less)

lemma sequential_checks:
  "verifySequential u b = Inr () \<and> verifyValidatorSetTransition u b = Inr () \<longleftrightarrow> follows (header u) (header b)"
  by (cases "htime (header u)"; cases "htime (header b)")
    (auto simp: verifySequential_def verifyValidatorSetTransition_def follows_def bytesEqual_def Let_def jsEq_def getTime_def)

lemma header_success:
  assumes "0 < numerator (trustThreshold hv)" "numerator (trustThreshold hv) \<le> denominator (trustThreshold hv)"
    and "wholePowers (validators (lbValidators u))"
    and "powerOf (validators (lbValidators u)) * denominator (trustThreshold hv) < 2 ^ 53"
    and "denominator (trustThreshold hv) < 2 ^ 53" and "drift < 2 ^ 40"
  shows "success (verifyHeader L hv now u t drift) \<longleftrightarrow>
    basicOk hv now drift (header u) \<and> (case t of None \<Rightarrow> True | Some b \<Rightarrow> follows (header u) (header b)) \<and>
    length (signatures (commit u)) = length (validators (lbValidators u)) \<and>
    0 < powerOf (validators (lbValidators u)) \<and>
    numerator (trustThreshold hv) * powerOf (validators (lbValidators u)) \<le> signedPower L u * denominator (trustThreshold hv)"
proof -
  let ?th = "trustThreshold hv" and ?vs = "validators (lbValidators u)" and ?sigs = "signatures (commit u)"
  note b = basic_checks [OF assms(6)]
  note f = sequential_checks
  have "powerOf ?vs * 1 \<le> powerOf ?vs * denominator ?th" using assms(1,2) by (intro mult_left_mono) simp_all
  then have s: "powerOf ?vs < 2 ^ 53" using assms(4) by linarith
  show ?thesis
  proof (cases "length ?sigs = length ?vs")
    case True
    have z: "map snd (zip ?sigs ?vs) = ?vs" using True by simp
    have le: "signedPower L u \<le> powerOf ?vs"
      using filter_power_le [of "counted L (commit u) (header u)" "zip ?sigs ?vs"] unfolding z signedPower_def .
    show ?thesis
      unfolding headerChecks_success b f verifyCommitSignatures_power [OF assms(3) s True] signedPower_def [symmetric]
      using threshold_exact [OF assms(1,2) le assms(4,5)] True by simp
  next
    case False
    then show ?thesis unfolding headerChecks_success by (simp add: verifyCommitSignatures_def)
  qed
qed

lemma sign_bytes_unbound:
  "createVoteSignBytes L (c\<lparr>blockId := b\<rparr>) (h\<lparr>appHash := a\<rparr>) sig = createVoteSignBytes L c h sig"
  by (cases "timestamp sig")
    (simp_all add: createVoteSignBytes_def canonicalVote_def sortTexts_def List.map_filter_simps Let_def)

text \<open>The header's app hash and the commit's block id reach no signature.\<close>

lemma verifySignature_unbound:
  "verifySignature L (c\<lparr>blockId := b\<rparr>) (h\<lparr>appHash := a\<rparr>) val sig = verifySignature L c h val sig"
  unfolding verifySignature_def sign_bytes_unbound ..

lemma commitLoop_unbound:
  "commitLoop L (c\<lparr>blockId := b\<rparr>) (h\<lparr>appHash := a\<rparr>) svs tot ok = commitLoop L c h svs tot ok"
  by (induction L c h svs tot ok rule: commitLoop.induct) (simp_all add: verifySignature_unbound Let_def)

definition rebind :: "bytes \<Rightarrow> BlockId \<Rightarrow> LightBlock \<Rightarrow> LightBlock" where
  "rebind a b u = u\<lparr>header := (header u)\<lparr>appHash := a\<rparr>, commit := (commit u)\<lparr>blockId := b\<rparr>\<rparr>"

subsection \<open>Proofs against the committed state\<close>

lemma holds_content: "wfState m \<Longrightarrow> holds m ps k c \<Longrightarrow> wfContent c"
proof (induction ps arbitrary: m)
  case (Cons p ps)
  then obtain v n where "(p, Subtree v n) \<in> set (entries m)" "holds n ps k c" by (auto simp: holds_Cons)
  then show ?case using Cons.IH wfState_content [OF Cons.prems(1)] by fastforce
qed (use wfState_content in auto)

text \<open>An item a proof proves is stored under its key.\<close>

definition holdsItem :: "state \<Rightarrow> bytes list \<Rightarrow> bytes \<Rightarrow> bytes \<Rightarrow> bool" where
  "holdsItem st path key v \<longleftrightarrow>
     (\<exists>c el f. holds st path key c \<and> tryDeserializeElement el = Some (Item v f) \<and>
        (length el \<notin> {63, 95} \<longrightarrow> c = Stored el))"

lemma proven_item:
  assumes "committed H bs rt st" "verifyGroveDBProof H bs options = Inr res" "rootHash res = rt"
    and "e \<in> set (results res)" "itemOf e = Some v"
  shows "holdsItem st (epath e) (ekey e) v"
proof -
  have s: "soundEntry st (epath e) e" using verified_sound [OF assms(1-3)] assms(4) by blast
  then obtain c where c: "holds st (epath e) (ekey e) c"
    and b: "\<forall>v. evalue e = Some v \<and> length v \<notin> {63, 95} \<longrightarrow> storedAs (enodeType e) c v"
    by (auto simp: soundEntry_def)
  from assms(5) obtain f where k: "enodeType e = TKV" and el: "eelement e = Some (Item v f)"
    by (auto simp: itemOf_def split: if_splits option.splits Grove_Types.Element.splits)
  from s el obtain w where w: "evalue e = Some w" "tryDeserializeElement w = Some (Item v f)"
    by (auto simp: soundEntry_def)
  have "c = Stored w" if "length w \<notin> {63, 95}"
  proof -
    have "c = Stored w \<or> c = Subtree w Tip" using b w(1) that k by (simp add: storedAs_def)
    moreover have "wfContent c" using holds_content [OF _ c] assms(1) by (simp add: committed_def)
    ultimately show ?thesis using item_not_tree [OF w(2)] by auto
  qed
  then show ?thesis using c w(2) unfolding holdsItem_def by blast
qed

lemma firstUnproven_None: "firstUnproven proven i vs = None \<Longrightarrow> set vs \<subseteq> set proven"
  by (induction proven i vs rule: firstUnproven.induct) (auto simp: list_ex_iff bytesEqual_def split: if_splits)

lemma query_values:
  assumes "committed H (qproof p) rt st" "success (verifyQueryResult H p rt given)"
    and "v \<in> set (case given of Some vs \<Rightarrow> vs | None \<Rightarrow> (case queryResult p of Some vs \<Rightarrow> vs | None \<Rightarrow> []))"
  shows "\<exists>path key. holdsItem st path key v"
proof -
  from assms(2) obtain res where v: "verifyGroveDBProof H (qproof p) noOptions = Inr res"
    and r: "rootHash res = rt"
    and f: "firstUnproven (List.map_filter itemOf (results res)) 0
      (case given of Some vs \<Rightarrow> vs | None \<Rightarrow> (case queryResult p of Some vs \<Rightarrow> vs | None \<Rightarrow> [])) = None"
    by (auto simp: verifyQueryResult_def Let_def bytesEqual_def split: sum.splits if_splits option.splits)
  have "v \<in> set (List.map_filter itemOf (results res))" using firstUnproven_None [OF f] assms(3) by blast
  then obtain e where "e \<in> set (results res)" "itemOf e = Some v" by (auto simp: List.map_filter_def)
  from proven_item [OF assms(1) v r this] show ?thesis by blast
qed

lemma included_item:
  assumes "committed H bs rt st" "verifyInclusionProof H key v bs rt path"
  shows "holdsItem st path key v"
proof -
  from assms(2) obtain res e where v: "verifyGroveDBProof H bs (descendTo path) = Inr res" "rootHash res = rt"
    and e: "e \<in> set (results res)" "epath e = path" "ekey e = key" "itemOf e = Some v"
    by (auto simp: verifyInclusionProof_def bytesEqual_def pathEqual_def list_ex_iff split: sum.splits option.splits)
  from proven_item [OF assms(1) v e(1,4)] e(2,3) show ?thesis by simp
qed

text \<open>Three validators of equal power, two of which signed, and a threshold of two thirds.\<close>

definition sampleRuntime :: lcRuntime where
  "sampleRuntime = \<lparr>ed25519Verify = (\<lambda>_ _ _. Some True), secp256k1Verify = (\<lambda>_ _ _. None), sha256 = id,
     isoText = (\<lambda>_. []), numberText = (\<lambda>_. []), utf8 = (\<lambda>_. [])\<rparr>"

definition sampleHeader :: Header where
  "sampleHeader = \<lparr>chainId = js ''c'', height = wholeNum 1, htime = Some 0, lastBlockId = None, lastCommitHash = [], dataHash = [],
     validatorsHash = [], nextValidatorsHash = [], consensusHash = [], appHash = [], lastResultsHash = [],
     evidenceHash = [], proposerAddress = []\<rparr>"

definition sampleBlock :: LightBlock where
  "sampleBlock =
     (let v = \<lparr>vaddress = [], pubKey = replicate 32 0, votingPower = wholeNum 1\<rparr>;
          sig = \<lparr>blockIdFlag = wholeNum 2, validatorAddress = [], timestamp = Some 0, signature = Some []\<rparr> in
      \<lparr>header = sampleHeader,
       commit = \<lparr>cheight = wholeNum 1, round = wholeNum 0,
         blockId = \<lparr>bhash = [], partSetHeaderTotal = wholeNum 0, partSetHeaderHash = []\<rparr>,
         signatures = [sig, sig\<lparr>blockIdFlag := wholeNum 1\<rparr>, sig]\<rparr>,
       lbValidators = \<lparr>validators = [v, v, v]\<rparr>, provider = None\<rparr>)"

definition sampleVerifier :: HeaderVerifier where
  "sampleVerifier = \<lparr>hvChainId = js ''c'', trustThreshold = \<lparr>numerator = 2, denominator = 3\<rparr>\<rparr>"

lemma sample_facts:
  "wholePowers (validators (lbValidators sampleBlock))"
  "powerOf (validators (lbValidators sampleBlock)) = 3"
  "signedPower sampleRuntime sampleBlock = 2"
  "trustThreshold sampleVerifier = \<lparr>numerator = 2, denominator = 3\<rparr>"
  "basicOk sampleVerifier 0 10 (header sampleBlock)"
  "length (signatures (commit sampleBlock)) = length (validators (lbValidators sampleBlock))"
  by (simp_all add: signedPower_def sampleBlock_def Let_def counted_def verifySignature_def createVoteSignBytes_def
      canonicalVote_def sampleRuntime_def powerNat_def jsEq_def positiveOrNaN_def
      sampleVerifier_def basicOk_def sampleHeader_def)

lemma sample_accepted: "success (verifyHeader sampleRuntime sampleVerifier 0 sampleBlock None 10)"
  by (subst header_success) (simp_all add: sample_facts)

text \<open>The same block with an invalid date: no clock refuses it.\<close>

definition undatedBlock :: LightBlock where
  "undatedBlock = sampleBlock\<lparr>header := sampleHeader\<lparr>htime := None\<rparr>\<rparr>"

lemma undated_facts:
  "wholePowers (validators (lbValidators undatedBlock))" "powerOf (validators (lbValidators undatedBlock)) = 3"
  "signedPower sampleRuntime undatedBlock = 2" "basicOk sampleVerifier now 10 (header undatedBlock)"
  "length (signatures (commit undatedBlock)) = length (validators (lbValidators undatedBlock))"
  by (simp_all add: undatedBlock_def signedPower_def sampleBlock_def Let_def counted_def verifySignature_def
      createVoteSignBytes_def canonicalVote_def sampleRuntime_def powerNat_def jsEq_def positiveOrNaN_def
      sampleVerifier_def basicOk_def sampleHeader_def)

lemma undated_accepted: "success (verifyHeader sampleRuntime sampleVerifier now undatedBlock None 10)"
  by (subst header_success) (simp_all add: undated_facts sample_facts(4))

lemma verify_noOptions:
  "verifyGroveDBProof lenHash oneProof noOptions = Inr \<lparr>rootHash = oneRoot, results = [oneEntry]\<rparr>"
  by (simp add: noOptions_def verifyGroveDBProof_def verifyProof_def decode_oneProof checkHeader_def
      checkProveOptions_def layer_oneProof)

subsection \<open>Properties\<close>

text \<open>C29: Accepted headers. With a threshold of whole numbers, voting powers that are natural numbers
  with a sum small enough, and an allowed drift below \<open>2^40\<close> seconds, \<open>verifyHeader\<close> succeeds exactly when
  the header is of this chain, its height is positive or \<open>NaN\<close>, its date is within the allowed drift of
  the clock or invalid, it follows the trusted header if there is one (the height after it as doubles
  add, which is not \<open>NaN\<close>; a later time unless one of the two dates is invalid; the validators the
  trusted header announced), there is a signature for each validator, and the power that signed is at
  least the threshold's share of the total: the division and comparison of doubles decide as exact
  arithmetic does. An unreadable date thus passes every check of time, as the witness's second part shows.\<close>

theorem header_accepted:
  assumes "0 < numerator (trustThreshold hv)" and "numerator (trustThreshold hv) \<le> denominator (trustThreshold hv)"
    and "wholePowers (validators (lbValidators u))"
    and "powerOf (validators (lbValidators u)) * denominator (trustThreshold hv) < 2 ^ 53"
    and "denominator (trustThreshold hv) < 2 ^ 53" and "drift < 2 ^ 40"
  shows "success (verifyHeader L hv now u t drift) \<longleftrightarrow>
    basicOk hv now drift (header u) \<and> (case t of None \<Rightarrow> True | Some b \<Rightarrow> follows (header u) (header b)) \<and>
    length (signatures (commit u)) = length (validators (lbValidators u)) \<and>
    0 < powerOf (validators (lbValidators u)) \<and>
    numerator (trustThreshold hv) * powerOf (validators (lbValidators u)) \<le> signedPower L u * denominator (trustThreshold hv)"
  using assms by (rule header_success)

theorem header_accepted_witness:
  "success (verifyHeader sampleRuntime sampleVerifier 0 sampleBlock None 10) \<and>
   success (verifyHeader sampleRuntime sampleVerifier 1000000 undatedBlock None 10)"
  by (intro conjI; subst header_accepted) (simp_all add: sample_facts undated_facts)

text \<open>C30: Headers are not bound to what was signed. Whatever app hash is put in a header and whatever
  block id in its commit, \<open>verifyHeader\<close> gives the same result: the sign bytes keep no member of the
  block id, and no check compares the commit with the header.\<close>

theorem header_unbound: "verifyHeader L hv now (rebind a b u) t drift = verifyHeader L hv now u t drift"
proof -
  have v: "verifyCommitSignatures L (commit (rebind a b u)) (lbValidators (rebind a b u)) (header (rebind a b u)) =
      verifyCommitSignatures L (commit u) (lbValidators u) (header u)"
    by (simp add: verifyCommitSignatures_def rebind_def commitLoop_unbound)
  have h: "validateBasicHeader hv now (header (rebind a b u)) drift = validateBasicHeader hv now (header u) drift"
    "height (header (rebind a b u)) = height (header u)"
    "verifySequential (rebind a b u) w = verifySequential u w"
    "verifyValidatorSetTransition (rebind a b u) w = verifyValidatorSetTransition u w" for w
    by (simp_all add: validateBasicHeader_def timeDiff_def verifySequential_def verifyValidatorSetTransition_def rebind_def Let_def)
  show ?thesis unfolding verifyHeader_def headerChecks_def v h ..
qed

text \<open>C31: Inclusion. When \<open>verifyInclusionProof\<close> accepts a key and value at a path against the root of
  a committed state, the state holds at that path and key the bytes of an item with that value (for
  items of 63 or 95 bytes, something at that path and key).\<close>

theorem inclusion_sound:
  assumes "committed H bs rt st" and "verifyInclusionProof H key v bs rt path"
  shows "holdsItem st path key v"
  using assms by (rule included_item)

theorem inclusion_sound_witness: "verifyInclusionProof lenHash [7] [9] oneProof oneRoot [] \<and> holdsItem oneState [] [7] [9]"
proof -
  have "verifyInclusionProof lenHash [7] [9] oneProof oneRoot []"
    by (simp add: verifyInclusionProof_def descendTo_def verify_oneProof oneEntry_def itemOf_def bytesEqual_def pathEqual_def)
  with inclusion_sound [OF one_committed this] show ?thesis by blast
qed

end
