(* ===== verification/Light_Client.thy ===== *)
theory Light_Client
  imports Light_Verifier
begin

text \<open>
  The light client (\<open>src/src/light-client/client.ts\<close> and the rest of \<open>types.ts\<close>): its configuration,
  the map of trusted headers with the latest height and the verified range, initialisation, the
  verification of headers and of proofs against them, synchronisation, export and import, the latest
  height the endpoints report and the header they agree on. What an endpoint answers is a parameter:
  a function of the endpoint and height, one for each round of requests. Calls are atomic steps.
\<close>

subsection \<open>Configuration and codecs\<close>

record LightClientConfig =
  cfgChainId :: jsstr
  validatorEndpoints :: "string list"
  cfgThreshold :: TrustThreshold
  maxClockDriftSecs :: int
  minValidatorsForConsensus :: int

datatype configError = NoEndpoints | MinValidatorsTooSmall | NotEnoughEndpoints | BadThreshold lcError

text \<open>A count of zero is falsy, as a missing one; so is \<open>NaN\<close>.\<close>

definition orCount :: "int option \<Rightarrow> int \<Rightarrow> int" where
  "orCount v d = (case v of None \<Rightarrow> d | Some n \<Rightarrow> if n = 0 then d else n)"

definition orDefault :: "jsNum option \<Rightarrow> jsNum \<Rightarrow> jsNum" where
  "orDefault v d = (case v of None \<Rightarrow> d | Some n \<Rightarrow> orNumber n d)"

definition createLightClientConfig ::
  "jsstr \<Rightarrow> string list \<Rightarrow> TrustThreshold option \<Rightarrow> int option \<Rightarrow> int option \<Rightarrow> configError + LightClientConfig" where
  "createLightClientConfig chain endpoints threshold drift minimum =
     (if endpoints = [] then Inl NoEndpoints
      else
        (let minValidators = orCount minimum 2 in
         if minValidators < 1 then Inl MinValidatorsTooSmall
         else if int (length endpoints) < minValidators then Inl NotEnoughEndpoints
         else
           (case (case threshold of Some t \<Rightarrow> Inr t | None \<Rightarrow> createTrustThreshold 2 3) of
              Inl e \<Rightarrow> Inl (BadThreshold e)
            | Inr t \<Rightarrow>
                Inr \<lparr>cfgChainId = chain, validatorEndpoints = endpoints, cfgThreshold = t,
                  maxClockDriftSecs = orCount drift 10, minValidatorsForConsensus = minValidators\<rparr>)))"

record codecs =
  toBase64 :: "bytes \<Rightarrow> string"
  fromBase64 :: "string \<Rightarrow> bytes option"
  dateText :: "int \<Rightarrow> jsstr"
  textDate :: "jsstr \<Rightarrow> date"

definition hexChar :: "char \<Rightarrow> bool" where
  "hexChar c \<longleftrightarrow> c \<in> set ''0123456789abcdefABCDEF''"

definition decodeBytes :: "codecs \<Rightarrow> string \<Rightarrow> bytes option" where
  "decodeBytes C s =
     (if s = [] then Some []
      else if list_all hexChar s \<and> even (length s) then (case hexToBytes s of Inl _ \<Rightarrow> None | Inr b \<Rightarrow> Some b)
      else fromBase64 C s)"

definition appHashToHex :: "codecs \<Rightarrow> string \<Rightarrow> string option" where
  "appHashToHex C s = map_option bytesToHex (decodeBytes C s)"

record TrustedHeader =
  theader :: Header
  tvalidatorsHash :: bytes
  tnextValidatorsHash :: bytes
  trustedAt :: date
  tprovider :: "string option"

record StoredHeader =
  sheight :: jsNum
  schainId :: jsstr
  sappHash :: string
  svalidatorsHash :: string
  snextValidatorsHash :: string
  strustedAt :: jsstr
  sprovider :: "string option"

text \<open>\<open>toISOString\<close> throws for an invalid date.\<close>

definition serializeTrustedHeader :: "codecs \<Rightarrow> TrustedHeader \<Rightarrow> StoredHeader option" where
  "serializeTrustedHeader C t =
     map_option (\<lambda>time.
       \<lparr>sheight = height (theader t), schainId = chainId (theader t), sappHash = toBase64 C (appHash (theader t)),
        svalidatorsHash = toBase64 C (tvalidatorsHash t), snextValidatorsHash = toBase64 C (tnextValidatorsHash t),
        strustedAt = dateText C time, sprovider = tprovider t\<rparr>) (trustedAt t)"

definition deserializeTrustedHeader :: "codecs \<Rightarrow> StoredHeader \<Rightarrow> TrustedHeader option" where
  "deserializeTrustedHeader C d =
     (case (fromBase64 C (svalidatorsHash d), fromBase64 C (snextValidatorsHash d), fromBase64 C (sappHash d)) of
        (Some vh, Some nh, Some ah) \<Rightarrow>
          Some \<lparr>theader = \<lparr>chainId = schainId d, height = sheight d, htime = textDate C (strustedAt d), lastBlockId = None,
              lastCommitHash = [], dataHash = [], validatorsHash = vh, nextValidatorsHash = nh, consensusHash = [],
              appHash = ah, lastResultsHash = [], evidenceHash = [], proposerAddress = []\<rparr>,
            tvalidatorsHash = vh, tnextValidatorsHash = nh, trustedAt = textDate C (strustedAt d), tprovider = sprovider d\<rparr>
      | _ \<Rightarrow> None)"

record StoredQueryProof =
  pproof :: string
  pheight :: jsNum
  pqueryResult :: "string list option"

definition serializeQueryProof :: "codecs \<Rightarrow> GroveDBQueryProof \<Rightarrow> StoredQueryProof" where
  "serializeQueryProof C p =
     \<lparr>pproof = toBase64 C (qproof p), pheight = qheight p, pqueryResult = map_option (map (toBase64 C)) (queryResult p)\<rparr>"

fun allSome :: "'a option list \<Rightarrow> 'a list option" where
  "allSome [] = Some []"
| "allSome (x # xs) = (case (x, allSome xs) of (Some y, Some ys) \<Rightarrow> Some (y # ys) | _ \<Rightarrow> None)"

definition deserializeQueryProof :: "codecs \<Rightarrow> StoredQueryProof \<Rightarrow> GroveDBQueryProof option" where
  "deserializeQueryProof C d =
     (case (fromBase64 C (pproof d),
            case pqueryResult d of None \<Rightarrow> Some None | Some rs \<Rightarrow> map_option Some (allSome (map (fromBase64 C) rs))) of
        (Some b, Some rs) \<Rightarrow> Some \<lparr>qproof = b, qheight = pheight d, queryResult = rs\<rparr>
      | _ \<Rightarrow> None)"

subsection \<open>State\<close>

text \<open>A \<open>Map\<close> keeps its keys in the order they came.\<close>

record LightClient =
  config :: LightClientConfig
  trustedHeaders :: "(jsNum \<times> LightBlock) list"
  latestHeight :: "jsNum option"
  verifiedHeightRange :: "(jsNum \<times> jsNum) option"

definition newLightClient :: "LightClientConfig \<Rightarrow> LightClient" where
  "newLightClient c = \<lparr>config = c, trustedHeaders = [], latestHeight = None, verifiedHeightRange = None\<rparr>"

definition headerVerifier :: "LightClient \<Rightarrow> HeaderVerifier" where
  "headerVerifier lc = \<lparr>hvChainId = cfgChainId (config lc), trustThreshold = cfgThreshold (config lc)\<rparr>"

text \<open>The endpoints' headers (\<open>None\<close> when the request fails) at a height, the latest for one not above 0.\<close>

type_synonym network = "string \<Rightarrow> jsNum \<Rightarrow> LightBlock option"

subsection \<open>Agreement of the endpoints\<close>

text \<open>Headers grouped by app hash, the groups in the order of their first header.\<close>

fun addToGroup :: "string \<Rightarrow> LightBlock \<Rightarrow> (string \<times> LightBlock list) list \<Rightarrow> (string \<times> LightBlock list) list" where
  "addToGroup k b [] = [(k, [b])]"
| "addToGroup k b ((j, bs) # gs) = (if j = k then (j, bs @ [b]) # gs else (j, bs) # addToGroup k b gs)"

definition headerGroups :: "LightBlock list \<Rightarrow> (string \<times> LightBlock list) list" where
  "headerGroups bs = foldl (\<lambda>gs b. addToGroup (bytesToHex (appHash (header b))) b gs) [] bs"

definition largestGroup :: "(string \<times> LightBlock list) list \<Rightarrow> LightBlock list" where
  "largestGroup gs = foldl (\<lambda>best (_, g). if length g > length best then g else best) [] gs"

definition findConsensusHeader :: "LightClient \<Rightarrow> LightBlock list \<Rightarrow> LightBlock option" where
  "findConsensusHeader lc bs =
     (let g = largestGroup (headerGroups bs) in
      if int (length g) \<ge> minValidatorsForConsensus (config lc) then (case g of [] \<Rightarrow> None | b # _ \<Rightarrow> Some b) else None)"

definition fetchHeaderFromValidators :: "LightClient \<Rightarrow> network \<Rightarrow> jsNum \<Rightarrow> LightBlock option" where
  "fetchHeaderFromValidators lc net h =
     (let bs = List.map_filter (\<lambda>e. net e h) (validatorEndpoints (config lc)) in
      if int (length bs) < minValidatorsForConsensus (config lc) then None else findConsensusHeader lc bs)"

text \<open>\<open>getLatestHeightFromValidators\<close>: the most frequent height, the first counted among equals.\<close>

fun countHeight :: "jsNum \<Rightarrow> (jsNum \<times> nat) list \<Rightarrow> (jsNum \<times> nat) list" where
  "countHeight h [] = [(h, 1)]"
| "countHeight h ((j, n) # cs) = (if j = h then (j, n + 1) # cs else (j, n) # countHeight h cs)"

definition mostCommonHeight :: "jsNum list \<Rightarrow> jsNum \<times> nat" where
  "mostCommonHeight hs =
     foldl (\<lambda>(best, most) (h, n). if n > most then (h, n) else (best, most)) (wholeNum 0, 0)
       (foldl (\<lambda>cs h. countHeight h cs) [] hs)"

definition getLatestHeightFromValidators :: "LightClient \<Rightarrow> network \<Rightarrow> jsNum option" where
  "getLatestHeightFromValidators lc net =
     (let hs = List.map_filter (\<lambda>e. map_option (\<lambda>b. height (header b)) (net e (wholeNum 0))) (validatorEndpoints (config lc)) in
      if hs = [] then None
      else
        (let (h, n) = mostCommonHeight hs in
         if int n \<ge> minValidatorsForConsensus (config lc) then Some h else None))"

subsection \<open>Trusted headers\<close>

definition trustedAtHeight :: "LightClient \<Rightarrow> jsNum \<Rightarrow> LightBlock option" where
  "trustedAtHeight lc h = map_of (trustedHeaders lc) h"

text \<open>The highest trusted header below the target, else the lowest of all.\<close>

definition findBestTrustedHeader :: "LightClient \<Rightarrow> jsNum \<Rightarrow> LightBlock option" where
  "findBestTrustedHeader lc target =
     (if trustedHeaders lc = [] then None
      else
        (let best = foldl (\<lambda>best h. if jsLess h target \<and> jsLess best h then h else best) (wholeNum (- 1))
               (map fst (trustedHeaders lc)) in
         if best \<noteq> wholeNum (- 1) then trustedAtHeight lc best
         else trustedAtHeight lc (foldl jsMin (Infinite False) (map fst (trustedHeaders lc)))))"

definition addTrustedHeader :: "LightClient \<Rightarrow> LightBlock \<Rightarrow> LightClient" where
  "addTrustedHeader lc b =
     (let h = height (header b) in
      lc\<lparr>trustedHeaders := AList.update h b (trustedHeaders lc),
        latestHeight := (case latestHeight lc of None \<Rightarrow> Some h | Some l \<Rightarrow> Some (if jsLess l h then h else l)),
        verifiedHeightRange :=
          (case verifiedHeightRange lc of None \<Rightarrow> Some (h, h) | Some (lo, hi) \<Rightarrow> Some (jsMin lo h, jsMax hi h))\<rparr>)"

definition trustOnly :: "LightClient \<Rightarrow> LightBlock \<Rightarrow> LightClient" where
  "trustOnly lc b =
     (let h = height (header b) in
      lc\<lparr>trustedHeaders := AList.update h b (trustedHeaders lc), latestHeight := Some h, verifiedHeightRange := Some (h, h)\<rparr>)"

definition initializeWithTrustOnFirstUse :: "LightClient \<Rightarrow> network \<Rightarrow> lcError + LightClient" where
  "initializeWithTrustOnFirstUse lc net =
     (case fetchHeaderFromValidators lc net (wholeNum 0) of None \<Rightarrow> Inl NotInitialized | Some b \<Rightarrow> Inr (trustOnly lc b))"

definition initializeWithTrustedHeader ::
  "lcRuntime \<Rightarrow> int \<Rightarrow> LightClient \<Rightarrow> LightBlock \<Rightarrow> lcError + LightClient" where
  "initializeWithTrustedHeader L now lc b =
     (let r = verifyHeader L (headerVerifier lc) now b None (maxClockDriftSecs (config lc)) in
      if \<not> success r then Inl (case failure r of Some e \<Rightarrow> e | None \<Rightarrow> NotInitialized) else Inr (trustOnly lc b))"

definition clientVerifyHeader ::
  "lcRuntime \<Rightarrow> int \<Rightarrow> LightClient \<Rightarrow> LightBlock \<Rightarrow> VerificationResult \<times> LightClient" where
  "clientVerifyHeader L now lc b =
     (if trustedHeaders lc = [] then (refuse NoTrustedHeaders (Some (height (header b))) None, lc)
      else
        (case findBestTrustedHeader lc (height (header b)) of
           None \<Rightarrow> (refuse NoSuitableHeader (Some (height (header b))) None, lc)
         | Some t \<Rightarrow>
             (let r = verifyHeader L (headerVerifier lc) now b (Some t) (maxClockDriftSecs (config lc)) in
              (r, if success r then addTrustedHeader lc b else lc))))"

definition getHeaderByHeight ::
  "lcRuntime \<Rightarrow> int \<Rightarrow> network \<Rightarrow> LightClient \<Rightarrow> jsNum \<Rightarrow> LightBlock option \<times> LightClient" where
  "getHeaderByHeight L now net lc h =
     (case trustedAtHeight lc h of
        Some b \<Rightarrow> (Some b, lc)
      | None \<Rightarrow>
          (case fetchHeaderFromValidators lc net h of
             None \<Rightarrow> (None, lc)
           | Some b \<Rightarrow>
               (let (r, lc') = clientVerifyHeader L now lc b in (if success r then Some b else None, lc'))))"

definition getLatestHeader :: "LightClient \<Rightarrow> LightBlock option" where
  "getLatestHeader lc = (case latestHeight lc of None \<Rightarrow> None | Some h \<Rightarrow> trustedAtHeight lc h)"

definition isHeightVerified :: "LightClient \<Rightarrow> jsNum \<Rightarrow> bool" where
  "isHeightVerified lc h \<longleftrightarrow> trustedAtHeight lc h \<noteq> None"

text \<open>The loop of \<open>syncToLatest\<close>, one round for each time it has got so far: the time at which the header is
  verified, and what the endpoints answer then. \<open>None\<close> when the rounds end before the loop does, which past
  \<open>2^53\<close>, where \<open>height++\<close> stays, it may never do.\<close>

fun syncLoop ::
  "lcRuntime \<Rightarrow> (int \<times> network) list \<Rightarrow> jsNum \<Rightarrow> jsNum \<Rightarrow> LightClient \<Rightarrow> VerificationResult option \<times> LightClient" where
  "syncLoop L [] h latest lc = (if jsLe h latest then None else Some (accept (Some latest) None), lc)"
| "syncLoop L ((now, net) # rounds) h latest lc =
     (if \<not> jsLe h latest then (Some (accept (Some latest) None), lc)
      else
        (case fetchHeaderFromValidators lc net h of
           None \<Rightarrow> (Some (refuse (NotFetched h) (Some h) None), lc)
         | Some b \<Rightarrow>
             (let (r, lc') = clientVerifyHeader L now lc b in
              if \<not> success r then (Some r, lc') else syncLoop L rounds (jsPlus h (wholeNum 1)) latest lc')))"

definition syncToLatest ::
  "lcRuntime \<Rightarrow> network \<Rightarrow> (int \<times> network) list \<Rightarrow> LightClient \<Rightarrow> VerificationResult option \<times> LightClient" where
  "syncToLatest L net rounds lc =
     (case getLatestHeightFromValidators lc net of
        None \<Rightarrow> (Some (refuse NoLatestHeight None None), lc)
      | Some latest \<Rightarrow>
          (if (case latestHeight lc of None \<Rightarrow> False | Some l \<Rightarrow> jsLe latest l)
           then (Some (accept (latestHeight lc) None), lc)
           else syncLoop L rounds (jsPlus (orDefault (latestHeight lc) (wholeNum 1)) (wholeNum 1)) latest lc))"

definition clientVerifyQueryProof ::
  "(bytes \<Rightarrow> bytes) \<Rightarrow> lcRuntime \<Rightarrow> int \<Rightarrow> network \<Rightarrow> LightClient \<Rightarrow> GroveDBQueryProof \<Rightarrow> jsNum option \<Rightarrow>
     VerificationResult \<times> LightClient" where
  "clientVerifyQueryProof H L now net lc p given =
     (let h = orDefault given (qheight p) in
      (case getHeaderByHeight L now net lc (jsPlus h (wholeNum 1)) of
         (None, lc') \<Rightarrow> (refuse (NoHeaderForState h) (Some h) None, lc')
       | (Some t, lc') \<Rightarrow> (verifyQueryResult H p (appHash (header t)) None, lc')))"

definition exportTrustedState :: "int \<Rightarrow> LightClient \<Rightarrow> TrustedHeader list" where
  "exportTrustedState now lc =
     map (\<lambda>(_, b). \<lparr>theader = header b, tvalidatorsHash = validatorsHash (header b),
       tnextValidatorsHash = nextValidatorsHash (header b), trustedAt = Some now, tprovider = provider b\<rparr>) (trustedHeaders lc)"

text \<open>The commit of an imported header is an empty object and its validators none; neither is used.\<close>

definition emptyCommit :: Commit where
  "emptyCommit = \<lparr>cheight = NotANumber, round = NotANumber,
     blockId = \<lparr>bhash = [], partSetHeaderTotal = NotANumber, partSetHeaderHash = []\<rparr>, signatures = []\<rparr>"

definition importHeader :: "LightClient \<Rightarrow> TrustedHeader \<Rightarrow> LightClient" where
  "importHeader lc t =
     (let h = height (theader t) in
      lc\<lparr>trustedHeaders := AList.update h
          \<lparr>header = theader t, commit = emptyCommit, lbValidators = \<lparr>validators = []\<rparr>, provider = tprovider t\<rparr> (trustedHeaders lc),
        latestHeight := (case latestHeight lc of None \<Rightarrow> Some h | Some l \<Rightarrow> Some (if jsLess l h then h else l))\<rparr>)"

definition importTrustedState :: "LightClient \<Rightarrow> TrustedHeader list \<Rightarrow> LightClient" where
  "importTrustedState lc ts =
     (let lc' = foldl importHeader lc ts; hs = map fst (trustedHeaders lc') in
      if hs = [] then lc'
      else lc'\<lparr>verifiedHeightRange := Some (foldl jsMin (Infinite False) hs, foldl jsMax (Infinite True) hs)\<rparr>)"

text \<open>The latest height a majority of the endpoints that answer have reached. A status is \<open>None\<close> when the
  request fails or the answer has no whole positive height.\<close>

definition getLatestChainHeight :: "LightClient \<Rightarrow> (string \<Rightarrow> int option) \<Rightarrow> lcError + jsNum" where
  "getLatestChainHeight lc status =
     (let heights = rev (sort (filter (\<lambda>h. 0 < h \<and> h \<le> int MAX_SAFE_INTEGER)
            (List.map_filter status (validatorEndpoints (config lc)))));
          needed = max 1 (minValidatorsForConsensus (config lc)) in
      if int (length heights) < needed then Inl (TooFewEndpoints (length heights))
      else
        (let majority = int (length heights div 2 + 1);
             reached = heights ! nat (max needed majority - 1) in
         Inr (case latestHeight lc of
                None \<Rightarrow> wholeNum reached
              | Some l \<Rightarrow> if jsLess (wholeNum reached) l then l else wholeNum reached)))"

subsection \<open>The trusted set\<close>

abbreviation heights :: "LightClient \<Rightarrow> jsNum set" where
  "heights lc \<equiv> set (map fst (trustedHeaders lc))"

definition ownHeights :: "(jsNum \<times> LightBlock) list \<Rightarrow> bool" where
  "ownHeights xs \<longleftrightarrow> (\<forall>(h, b)\<in>set xs. height (header b) = h)"

text \<open>A range is in order, or both its ends are \<open>NaN\<close>.\<close>

definition rangeInOrder :: "jsNum \<Rightarrow> jsNum \<Rightarrow> bool" where
  "rangeInOrder lo hi \<longleftrightarrow> jsLe lo hi \<or> (lo = NotANumber \<and> hi = NotANumber)"

definition wfClient :: "LightClient \<Rightarrow> bool" where
  "wfClient lc \<longleftrightarrow>
     distinct (map fst (trustedHeaders lc)) \<and>
     ownHeights (trustedHeaders lc) \<and>
     (case latestHeight lc of None \<Rightarrow> heights lc = {} | Some l \<Rightarrow> l \<in> heights lc) \<and>
     (case verifiedHeightRange lc of
        None \<Rightarrow> heights lc = {}
      | Some (lo, hi) \<Rightarrow> lo \<in> heights lc \<and> hi \<in> heights lc \<and> rangeInOrder lo hi)"

lemma rangeInOrder_refl [simp]: "rangeInOrder h h"
  using jsLe_refl by (auto simp: rangeInOrder_def)

lemma rangeInOrder_add: "rangeInOrder lo hi \<Longrightarrow> rangeInOrder (jsMin lo h) (jsMax hi h)"
proof (cases "lo = NotANumber \<or> hi = NotANumber \<or> h = NotANumber")
  case False
  then have "jsLe (jsMin lo h) h" "jsLe h (jsMax hi h)" using jsMin_le le_jsMax by blast+
  then show ?thesis using jsLe_trans unfolding rangeInOrder_def by blast
qed (auto simp: rangeInOrder_def)

lemma foldl_jsMin:
  "foldl jsMin a hs \<in> insert a (set hs) \<and> (foldl jsMin a hs = NotANumber \<longleftrightarrow> a = NotANumber \<or> NotANumber \<in> set hs) \<and>
   (foldl jsMin a hs \<noteq> NotANumber \<longrightarrow> jsLe (foldl jsMin a hs) a)"
proof (induction hs arbitrary: a)
  case (Cons h hs)
  note ih = Cons.IH [of "jsMin a h"]
  have "foldl jsMin (jsMin a h) hs \<in> insert a (set (h # hs))" using ih jsMin_cases [of a h] by auto
  moreover have "jsLe (foldl jsMin (jsMin a h) hs) a" if "foldl jsMin (jsMin a h) hs \<noteq> NotANumber"
    using ih that jsMin_le [of a h] jsLe_trans [of "foldl jsMin (jsMin a h) hs" "jsMin a h" a] by simp
  ultimately show ?case using ih by auto
qed (simp add: jsLe_refl)

lemma foldl_jsMax:
  "foldl jsMax a hs \<in> insert a (set hs) \<and> (foldl jsMax a hs = NotANumber \<longleftrightarrow> a = NotANumber \<or> NotANumber \<in> set hs) \<and>
   (foldl jsMax a hs \<noteq> NotANumber \<longrightarrow> jsLe a (foldl jsMax a hs))"
proof (induction hs arbitrary: a)
  case (Cons h hs)
  note ih = Cons.IH [of "jsMax a h"]
  have "foldl jsMax (jsMax a h) hs \<in> insert a (set (h # hs))" using ih jsMax_cases [of a h] by auto
  moreover have "jsLe a (foldl jsMax (jsMax a h) hs)" if "foldl jsMax (jsMax a h) hs \<noteq> NotANumber"
    using ih that le_jsMax [of a h] jsLe_trans [of a "jsMax a h" "foldl jsMax (jsMax a h) hs"] by simp
  ultimately show ?case using ih by auto
qed (simp add: jsLe_refl)

lemma range_of_heights:
  assumes "hs \<noteq> []"
  shows "foldl jsMin (Infinite False) hs \<in> set hs \<and> foldl jsMax (Infinite True) hs \<in> set hs \<and>
    rangeInOrder (foldl jsMin (Infinite False) hs) (foldl jsMax (Infinite True) hs)"
proof -
  obtain h t where hs: "hs = h # t" using assms by (cases hs) auto
  have "jsMin (Infinite False) h = h" "jsMax (Infinite True) h = h" by (cases h; simp add: jsMin_def jsMax_def)+
  then have f: "foldl jsMin (Infinite False) hs = foldl jsMin h t" "foldl jsMax (Infinite True) hs = foldl jsMax h t"
    by (simp_all add: hs)
  have "rangeInOrder (foldl jsMin h t) (foldl jsMax h t)"
    using foldl_jsMin [of h t] foldl_jsMax [of h t] jsLe_trans unfolding rangeInOrder_def by blast
  then show ?thesis using foldl_jsMin [of h t] foldl_jsMax [of h t] unfolding f by (simp add: hs)
qed

lemma trustedAtHeight_Some: "trustedAtHeight lc h = Some b \<Longrightarrow> (h, b) \<in> set (trustedHeaders lc)"
  by (simp add: trustedAtHeight_def map_of_SomeD)

lemma update_entries: "(k, x) \<in> set (AList.update h b xs) \<Longrightarrow> (k, x) = (h, b) \<or> (k, x) \<in> set xs"
  by (induction xs) (auto split: if_splits)

lemma update_keys: "fst ` set (AList.update h b xs) = insert h (fst ` set xs)"
  by (simp add: dom_update)

lemma keys_match_update: "ownHeights xs \<Longrightarrow> ownHeights (AList.update (height (header c)) c xs)"
  unfolding ownHeights_def using update_entries by fastforce

lemma wf_new: "wfClient (newLightClient c)"
  by (simp add: wfClient_def ownHeights_def newLightClient_def)

lemma wf_trustOnly: "wfClient lc \<Longrightarrow> wfClient (trustOnly lc b)"
  unfolding wfClient_def
  by (elim conjE, intro conjI) (simp_all add: trustOnly_def Let_def keys_match_update distinct_update update_keys)

lemma addTrustedHeader_fields:
  "trustedHeaders (addTrustedHeader lc b) = AList.update (height (header b)) b (trustedHeaders lc)"
  "latestHeight (addTrustedHeader lc b) =
     Some (case latestHeight lc of None \<Rightarrow> height (header b)
       | Some l \<Rightarrow> if jsLess l (height (header b)) then height (header b) else l)"
  "verifiedHeightRange (addTrustedHeader lc b) =
     Some (case verifiedHeightRange lc of None \<Rightarrow> (height (header b), height (header b))
       | Some (lo, hi) \<Rightarrow> (jsMin lo (height (header b)), jsMax hi (height (header b))))"
  "config (addTrustedHeader lc b) = config lc"
  by (simp_all add: addTrustedHeader_def Let_def split: option.splits prod.splits)

lemma wf_addTrustedHeader:
  assumes "wfClient lc"
  shows "wfClient (addTrustedHeader lc b)"
proof -
  let ?h = "height (header b)"
  have l: "(case latestHeight lc of None \<Rightarrow> ?h | Some l \<Rightarrow> if jsLess l ?h then ?h else l) \<in> insert ?h (heights lc)"
    using assms by (auto simp: wfClient_def split: option.splits)
  show ?thesis
  proof (cases "verifiedHeightRange lc")
    case None
    then show ?thesis using assms l keys_match_update [of "[]" b] unfolding wfClient_def
      by (elim conjE, intro conjI) (simp_all add: addTrustedHeader_fields keys_match_update distinct_update update_keys)
  next
    case (Some r)
    obtain lo hi where r: "r = (lo, hi)" by (cases r)
    then have "jsMin lo ?h \<in> insert ?h (heights lc)" "jsMax hi ?h \<in> insert ?h (heights lc)"
      "rangeInOrder (jsMin lo ?h) (jsMax hi ?h)"
      using assms Some jsMin_cases [of lo ?h] jsMax_cases [of hi ?h] rangeInOrder_add by (auto simp: wfClient_def)
    then show ?thesis using assms l Some r unfolding wfClient_def
      by (elim conjE, intro conjI) (simp_all add: addTrustedHeader_fields keys_match_update distinct_update update_keys)
  qed
qed

lemma findBest_trusted: "findBestTrustedHeader lc h = Some t \<Longrightarrow> \<exists>k. (k, t) \<in> set (trustedHeaders lc)"
  unfolding findBestTrustedHeader_def Let_def
  by (auto simp del: list.set_map split: if_split_asm dest!: trustedAtHeight_Some)

lemma clientVerifyHeader_cases:
  assumes "clientVerifyHeader L now lc b = (r, lc')"
  obtains "lc' = lc" "\<not> success r"
  | t k where "lc' = addTrustedHeader lc b" "success r" "(k, t) \<in> set (trustedHeaders lc)"
    "findBestTrustedHeader lc (height (header b)) = Some t"
    "r = verifyHeader L (headerVerifier lc) now b (Some t) (maxClockDriftSecs (config lc))"
proof (cases "trustedHeaders lc = [] \<or> findBestTrustedHeader lc (height (header b)) = None")
  case True
  then have "lc' = lc \<and> \<not> success r" using assms by (auto simp: clientVerifyHeader_def split: if_splits)
  with that(1) show thesis by blast
next
  case False
  then obtain t where t: "findBestTrustedHeader lc (height (header b)) = Some t" by blast
  then have r: "r = verifyHeader L (headerVerifier lc) now b (Some t) (maxClockDriftSecs (config lc))"
    "lc' = (if success r then addTrustedHeader lc b else lc)"
    using assms False by (auto simp: clientVerifyHeader_def Let_def)
  obtain k where "(k, t) \<in> set (trustedHeaders lc)" using findBest_trusted [OF t] by blast
  with that r t show thesis by (cases "success r") auto
qed

subsection \<open>Steps\<close>

inductive verifyingStep :: "lcRuntime \<Rightarrow> (bytes \<Rightarrow> bytes) \<Rightarrow> LightClient \<Rightarrow> LightClient \<Rightarrow> bool" for L H where
  StepVerify: "clientVerifyHeader L now lc b = (r, lc') \<Longrightarrow> verifyingStep L H lc lc'"
| StepGet: "getHeaderByHeight L now net lc h = (found, lc') \<Longrightarrow> verifyingStep L H lc lc'"
| StepSync: "syncToLatest L net rounds lc = (r, lc') \<Longrightarrow> verifyingStep L H lc lc'"
| StepProof: "clientVerifyQueryProof H L now net lc p given = (r, lc') \<Longrightarrow> verifyingStep L H lc lc'"

inductive lcStep :: "lcRuntime \<Rightarrow> (bytes \<Rightarrow> bytes) \<Rightarrow> LightClient \<Rightarrow> LightClient \<Rightarrow> bool" for L H where
  StepFirstUse: "initializeWithTrustOnFirstUse lc net = Inr lc' \<Longrightarrow> lcStep L H lc lc'"
| StepTrusted: "initializeWithTrustedHeader L now lc b = Inr lc' \<Longrightarrow> lcStep L H lc lc'"
| StepImport: "lcStep L H lc (importTrustedState lc ts)"
| StepVerifying: "verifyingStep L H lc lc' \<Longrightarrow> lcStep L H lc lc'"

text \<open>Each of these steps is a sequence of verifications of one header.\<close>

inductive verifyOne :: "lcRuntime \<Rightarrow> LightClient \<Rightarrow> LightClient \<Rightarrow> bool" for L where
  VerifyOne: "clientVerifyHeader L now lc b = (r, lc') \<Longrightarrow> verifyOne L lc lc'"

lemma ones_getHeaderByHeight: "(verifyOne L)\<^sup>*\<^sup>* lc (snd (getHeaderByHeight L now net lc h))"
proof (cases "trustedAtHeight lc h")
  case None
  show ?thesis
  proof (cases "fetchHeaderFromValidators lc net h")
    case (Some b)
    obtain r lc' where v: "clientVerifyHeader L now lc b = (r, lc')" by fastforce
    then show ?thesis using None Some VerifyOne [OF v] by (simp add: getHeaderByHeight_def)
  qed (use None in \<open>simp add: getHeaderByHeight_def\<close>)
qed (simp add: getHeaderByHeight_def)

lemma ones_syncLoop: "(verifyOne L)\<^sup>*\<^sup>* lc (snd (syncLoop L rounds h latest lc))"
proof (induction rounds arbitrary: h lc)
  case (Cons a rounds)
  obtain now net where a: "a = (now, net)" by (cases a)
  show ?case
  proof (cases "jsLe h latest \<and> fetchHeaderFromValidators lc net h \<noteq> None")
    case True
    then obtain b where b: "fetchHeaderFromValidators lc net h = Some b" by blast
    obtain r lc' where v: "clientVerifyHeader L now lc b = (r, lc')" by fastforce
    show ?thesis using True b v Cons.IH [of lc' "jsPlus h (wholeNum 1)"] VerifyOne [OF v]
      by (auto simp: a intro: converse_rtranclp_into_rtranclp)
  qed (auto simp: a split: option.split)
qed simp

lemma ones_syncToLatest: "(verifyOne L)\<^sup>*\<^sup>* lc (snd (syncToLatest L net rounds lc))"
  by (simp add: syncToLatest_def ones_syncLoop split: option.split)

lemma verifyingStep_ones: "verifyingStep L H lc lc' \<Longrightarrow> (verifyOne L)\<^sup>*\<^sup>* lc lc'"
proof (erule verifyingStep.cases)
  fix now b r lc1 lc2
  assume "lc = lc1" "lc' = lc2" "clientVerifyHeader L now lc1 b = (r, lc2)"
  then show ?thesis using VerifyOne by blast
next
  fix now net lc1 h found lc2
  assume "lc = lc1" "lc' = lc2" "getHeaderByHeight L now net lc1 h = (found, lc2)"
  then show ?thesis using ones_getHeaderByHeight [of L lc1 now net h] by simp
next
  fix net rounds lc1 r lc2
  assume "lc = lc1" "lc' = lc2" "syncToLatest L net rounds lc1 = (r, lc2)"
  then show ?thesis using ones_syncToLatest [of L lc1 net rounds] by simp
next
  fix now net lc1 p given r lc2
  assume p: "lc = lc1" "lc' = lc2" "clientVerifyQueryProof H L now net lc1 p given = (r, lc2)"
  let ?h = "jsPlus (orDefault given (qheight p)) (wholeNum 1)"
  obtain found lc3 where g: "getHeaderByHeight L now net lc1 ?h = (found, lc3)" by fastforce
  then have "lc2 = lc3" using p(3) by (cases found) (simp_all add: clientVerifyQueryProof_def Let_def)
  then show ?thesis using ones_getHeaderByHeight [of L lc1 now net ?h] g p(1,2) by simp
qed

lemma verifyingSteps_ones: "(verifyingStep L H)\<^sup>*\<^sup>* lc lc' \<Longrightarrow> (verifyOne L)\<^sup>*\<^sup>* lc lc'"
  by (induction rule: rtranclp_induct) (auto dest: verifyingStep_ones)

lemma wf_one: "verifyOne L lc lc' \<Longrightarrow> wfClient lc \<Longrightarrow> wfClient lc'"
  by (auto elim!: verifyOne.cases clientVerifyHeader_cases simp: wf_addTrustedHeader)

lemma wf_ones: "(verifyOne L)\<^sup>*\<^sup>* lc lc' \<Longrightarrow> wfClient lc \<Longrightarrow> wfClient lc'"
  by (induction rule: rtranclp_induct) (auto intro: wf_one)

text \<open>Importing leaves the range to the end.\<close>

definition wfImport :: "LightClient \<Rightarrow> bool" where
  "wfImport lc \<longleftrightarrow>
     distinct (map fst (trustedHeaders lc)) \<and> ownHeights (trustedHeaders lc) \<and>
     (case latestHeight lc of None \<Rightarrow> heights lc = {} | Some l \<Rightarrow> l \<in> heights lc) \<and>
     (heights lc = {} \<longrightarrow> verifiedHeightRange lc = None)"

lemma importHeader_entry:
  "\<exists>b. height (header b) = height (theader t) \<and>
     trustedHeaders (importHeader lc t) = AList.update (height (theader t)) b (trustedHeaders lc)"
  by (rule exI [of _ "\<lparr>header = theader t, commit = emptyCommit, lbValidators = \<lparr>validators = []\<rparr>, provider = tprovider t\<rparr>"])
    (simp add: importHeader_def Let_def)

lemma importHeader_latest:
  "latestHeight (importHeader lc t) =
     Some (case latestHeight lc of None \<Rightarrow> height (theader t)
       | Some l \<Rightarrow> if jsLess l (height (theader t)) then height (theader t) else l)"
  by (simp add: importHeader_def Let_def split: option.splits)

lemma wfImport_step: "wfImport lc \<Longrightarrow> wfImport (importHeader lc t)"
proof -
  assume wf: "wfImport lc"
  obtain b where b: "height (header b) = height (theader t)"
    "trustedHeaders (importHeader lc t) = AList.update (height (theader t)) b (trustedHeaders lc)"
    using importHeader_entry by blast
  have own: "ownHeights (AList.update (height (theader t)) b (trustedHeaders lc))"
    using wf keys_match_update [of "trustedHeaders lc" b] b(1) by (simp add: wfImport_def)
  have "(case latestHeight lc of None \<Rightarrow> height (theader t)
      | Some l \<Rightarrow> if jsLess l (height (theader t)) then height (theader t) else l) \<in> insert (height (theader t)) (heights lc)"
    using wf by (auto simp: wfImport_def split: option.splits)
  then show ?thesis using wf own unfolding wfImport_def
    by (elim conjE, intro conjI) (simp_all add: importHeader_latest b(2) distinct_update update_keys)
qed

lemma wf_import: "wfClient lc \<Longrightarrow> wfClient (importTrustedState lc ts)"
proof -
  assume "wfClient lc"
  then have "wfImport lc" by (auto simp: wfClient_def wfImport_def split: option.splits)
  then have wf: "wfImport (foldl importHeader lc ts)" by (induction ts arbitrary: lc) (simp_all add: wfImport_step)
  let ?lc = "foldl importHeader lc ts"
  show ?thesis
  proof (cases "map fst (trustedHeaders ?lc) = []")
    case True
    then show ?thesis using wf
      by (simp add: importTrustedState_def Let_def wfImport_def wfClient_def split: option.splits)
  next
    case False
    note range_of_heights [OF False]
    then show ?thesis using wf False
      by (simp add: importTrustedState_def Let_def wfImport_def wfClient_def del: set_map split: option.splits)
  qed
qed

lemma wf_init: "initializeWithTrustOnFirstUse lc net = Inr lc' \<Longrightarrow> wfClient lc \<Longrightarrow> wfClient lc'"
  "initializeWithTrustedHeader L now lc b = Inr lc' \<Longrightarrow> wfClient lc \<Longrightarrow> wfClient lc'"
  by (auto simp: initializeWithTrustOnFirstUse_def initializeWithTrustedHeader_def Let_def wf_trustOnly split: option.splits if_splits)

lemma wf_step: "lcStep L H lc lc' \<Longrightarrow> wfClient lc \<Longrightarrow> wfClient lc'"
  by (erule lcStep.cases) (auto intro: wf_init wf_import wf_ones dest!: verifyingStep_ones)

lemma wf_reachable: "(lcStep L H)\<^sup>*\<^sup>* lc lc' \<Longrightarrow> wfClient lc \<Longrightarrow> wfClient lc'"
  by (induction rule: rtranclp_induct) (auto intro: wf_step)

subsection \<open>One initialisation\<close>

text \<open>Between two moments of a client, a header was accepted against another: the best trusted one then.\<close>

definition acceptedAgainst :: "lcRuntime \<Rightarrow> LightClient \<Rightarrow> LightClient \<Rightarrow> LightBlock \<Rightarrow> LightBlock \<Rightarrow> bool" where
  "acceptedAgainst L lc lc' t b \<longleftrightarrow>
     (\<exists>now mid mid'. (verifyOne L)\<^sup>*\<^sup>* lc mid \<and> findBestTrustedHeader mid (height (header b)) = Some t \<and>
        clientVerifyHeader L now mid b =
          (verifyHeader L (headerVerifier mid) now b (Some t) (maxClockDriftSecs (config mid)), mid') \<and>
        success (verifyHeader L (headerVerifier mid) now b (Some t) (maxClockDriftSecs (config mid))) \<and>
        (verifyOne L)\<^sup>*\<^sup>* mid' lc')"

text \<open>A chain from the first header to one, each header accepted against the one before.\<close>

definition linked :: "lcRuntime \<Rightarrow> LightClient \<Rightarrow> LightClient \<Rightarrow> LightBlock \<Rightarrow> LightBlock \<Rightarrow> bool" where
  "linked L lc lc' b0 b \<longleftrightarrow>
     (\<exists>bs. bs \<noteq> [] \<and> hd bs = b0 \<and> last bs = b \<and> successively (acceptedAgainst L lc lc') bs)"

lemma linked_first: "linked L lc lc' b b"
  unfolding linked_def by (rule exI [of _ "[b]"]) simp

lemma linked_next: "linked L lc lc' b0 t \<Longrightarrow> acceptedAgainst L lc lc' t b \<Longrightarrow> linked L lc lc' b0 b"
proof -
  assume "linked L lc lc' b0 t" and a: "acceptedAgainst L lc lc' t b"
  then obtain bs where bs: "bs \<noteq> []" "hd bs = b0" "last bs = t" "successively (acceptedAgainst L lc lc') bs"
    by (auto simp: linked_def)
  then show ?thesis unfolding linked_def using a
    by (intro exI [of _ "bs @ [b]"]) (simp add: successively_append_iff)
qed

lemma linked_mono: "linked L lc lc' b0 b \<Longrightarrow> verifyOne L lc' lc'' \<Longrightarrow> linked L lc lc'' b0 b"
  unfolding linked_def acceptedAgainst_def
  by (elim exE conjE, intro exI conjI, assumption, assumption, assumption)
    (erule successively_mono, blast intro: rtranclp.rtrancl_into_rtrancl)

text \<open>A verification either changes nothing or trusts a header accepted against a trusted one.\<close>

lemma one_cases:
  assumes "(verifyOne L)\<^sup>*\<^sup>* lc lc'" "verifyOne L lc' lc''"
  obtains "lc'' = lc'"
  | t k b where "lc'' = addTrustedHeader lc' b" "(k, t) \<in> set (trustedHeaders lc')" "acceptedAgainst L lc lc'' t b"
      "jsEq (height (header b)) (jsPlus (height (header t)) (wholeNum 1))"
proof -
  from assms(2) obtain now b r where v: "clientVerifyHeader L now lc' b = (r, lc'')" by (auto elim: verifyOne.cases)
  from v show thesis
  proof (cases rule: clientVerifyHeader_cases)
    case (2 t k)
    note r = 2(5)
    have "jsEq (height (header b)) (jsPlus (height (header t)) (wholeNum 1))"
      using 2(2) unfolding r headerChecks_success by (auto simp: verifySequential_def Let_def split: if_splits)
    moreover have "acceptedAgainst L lc lc'' t b"
      unfolding acceptedAgainst_def
      by (rule exI [of _ now], rule exI [of _ lc'], rule exI [of _ lc'']) (use assms(1) v 2(2,4) r in simp)
    ultimately show thesis using that(2) 2(1,3) by blast
  qed (use that in blast)
qed

lemma trusted_linked:
  assumes "trustedHeaders lc = [(height (header b0), b0)]" "(verifyOne L)\<^sup>*\<^sup>* lc lc'"
  shows "\<forall>(h, b)\<in>set (trustedHeaders lc'). linked L lc lc' b0 b"
  using assms(2)
proof (induction rule: rtranclp_induct)
  case base
  then show ?case using assms(1) linked_first by auto
next
  case (step lc' lc'')
  show ?case using step.hyps
  proof (cases rule: one_cases)
    case 1
    then show ?thesis using step.IH by blast
  next
    case (2 t k b)
    have "linked L lc lc'' b0 d" if "(h, d) \<in> set (trustedHeaders lc')" for h d
      using step.IH that linked_mono [OF _ step.hyps(2)] by blast
    moreover from this have "linked L lc lc'' b0 b" using 2(2,3) linked_next by blast
    ultimately show ?thesis unfolding 2(1) addTrustedHeader_fields(1) using update_entries by fastforce
  qed
qed

text \<open>The heights from a first one to the latest, without a gap.\<close>

definition noGaps :: "LightClient \<Rightarrow> int \<Rightarrow> bool" where
  "noGaps lc lo \<longleftrightarrow>
     ownHeights (trustedHeaders lc) \<and>
     (\<exists>hi. lo \<le> hi \<and> hi \<le> 2 ^ 53 \<and> heights lc = wholeNum ` {lo..hi} \<and> latestHeight lc = Some (wholeNum hi) \<and>
        verifiedHeightRange lc = Some (wholeNum lo, wholeNum hi))"

lemma noGaps_add:
  assumes g: "noGaps lc lo" and lo: "- (2 ^ 53) \<le> lo" and t: "(k, t) \<in> set (trustedHeaders lc)"
    and h: "jsEq (height (header b)) (jsPlus (height (header t)) (wholeNum 1))"
  shows "noGaps (addTrustedHeader lc b) lo"
proof -
  obtain hi where hi: "lo \<le> hi" "hi \<le> 2 ^ 53" "heights lc = wholeNum ` {lo..hi}" "latestHeight lc = Some (wholeNum hi)"
    "verifiedHeightRange lc = Some (wholeNum lo, wholeNum hi)" and own: "ownHeights (trustedHeaders lc)"
    using g by (auto simp: noGaps_def)
  have "k \<in> heights lc" "height (header t) = k" using t own by (force, auto simp: ownHeights_def)
  then obtain j where j: "height (header t) = wholeNum j" "lo \<le> j" "j \<le> hi" using hi(3) by auto
  obtain n where n: "height (header b) = wholeNum n" "lo \<le> n" "n \<le> max hi (min (2 ^ 53) (hi + 1))"
  proof (cases "j = 2 ^ 53")
    case True
    then have "height (header b) = wholeNum (2 ^ 53)" using h j jsPlus_top by (simp add: jsEq_def)
    then show thesis using that [of "2 ^ 53"] j hi True by simp
  next
    case False
    then have "\<bar>j + 1\<bar> \<le> 2 ^ 53" using j hi(2) lo by simp
    then have "height (header b) = wholeNum (j + 1)" using h j jsPlus_whole [of j 1] by (simp add: jsEq_def)
    then show thesis using that [of "j + 1"] j hi False by simp
  qed
  have "heights (addTrustedHeader lc b) = insert (wholeNum n) (heights lc)" by (simp add: addTrustedHeader_fields update_keys n(1))
  also have "\<dots> = wholeNum ` {lo..max hi n}"
  proof -
    have "{lo..max hi n} = insert n {lo..hi}" using n(2,3) hi(1) by auto
    then show ?thesis using hi(3) by simp
  qed
  finally have s: "heights (addTrustedHeader lc b) = wholeNum ` {lo..max hi n}" .
  have "latestHeight (addTrustedHeader lc b) = Some (wholeNum (max hi n))"
    "verifiedHeightRange (addTrustedHeader lc b) = Some (wholeNum lo, wholeNum (max hi n))"
    using n(2) by (simp_all add: addTrustedHeader_fields hi n(1) jsMin_def jsMax_def max_def)
  moreover have "ownHeights (trustedHeaders (addTrustedHeader lc b))"
    using keys_match_update [OF own] by (simp add: addTrustedHeader_fields)
  moreover have "lo \<le> max hi n" "max hi n \<le> 2 ^ 53" using hi n by simp_all
  ultimately show ?thesis unfolding noGaps_def using s by blast
qed

lemma noGaps_ones:
  assumes "noGaps lc lo" "- (2 ^ 53) \<le> lo" "(verifyOne L)\<^sup>*\<^sup>* lc lc'"
  shows "noGaps lc' lo"
  using assms(3)
proof (induction rule: rtranclp_induct)
  case (step lc' lc'')
  show ?case using step.hyps
  proof (cases rule: one_cases)
    case (2 t k b)
    show ?thesis unfolding 2(1) by (rule noGaps_add [OF step.IH assms(2) 2(2,4)])
  qed (use step.IH in simp)
qed (use assms(1) in simp)

text \<open>No header follows one whose height is \<open>NaN\<close>.\<close>

lemma alone_ones:
  assumes "trustedHeaders lc = [(NotANumber, b0)]" "height (header b0) = NotANumber" "(verifyOne L)\<^sup>*\<^sup>* lc lc'"
  shows "trustedHeaders lc' = [(NotANumber, b0)]"
  using assms(3)
proof (induction rule: rtranclp_induct)
  case (step lc' lc'')
  show ?case using step.hyps
  proof (cases rule: one_cases)
    case (2 t k b)
    then show ?thesis using step.IH assms(2) by (simp add: jsEq_def)
  qed (use step.IH in simp)
qed (use assms(1) in simp)

subsection \<open>Synchronisation returns\<close>

lemma syncLoop_returns:
  assumes "n < 2 ^ 53" "- (2 ^ 53) \<le> k" "nat (n - k + 1) \<le> length rounds"
  shows "fst (syncLoop L rounds (wholeNum k) (wholeNum n) lc) \<noteq> None"
  using assms(2,3)
proof (induction rounds arbitrary: k lc)
  case (Cons a rounds)
  obtain now net where a: "a = (now, net)" by (cases a)
  show ?case
  proof (cases "k \<le> n")
    case True
    then have "jsPlus (wholeNum k) (wholeNum 1) = wholeNum (k + 1)" using Cons.prems(1) assms(1) by (intro jsPlus_whole) simp
    then show ?thesis using Cons.IH [of "k + 1"] Cons.prems True
      by (simp add: a split: option.split prod.split)
  qed (simp add: a)
qed simp

text \<open>When the height most endpoints report is \<open>NaN\<close>, synchronising succeeds and verifies nothing.\<close>

lemma sync_NaN:
  "getLatestHeightFromValidators lc net = Some NotANumber \<Longrightarrow>
     syncToLatest L net rounds lc = (Some (accept (Some NotANumber) None), lc)"
  by (cases rounds) (auto simp: syncToLatest_def split: option.split)

subsection \<open>Heights reached by a majority\<close>

lemma filter_sort: "length (filter P (rev (sort xs))) = length (filter P xs)"
proof -
  have "mset (filter P (rev (sort xs))) = mset (filter P xs)" by simp
  then show ?thesis by (metis size_mset)
qed

lemma nth_desc:
  assumes "sorted (rev ys)" "k < length ys"
  shows "k + 1 \<le> length (filter (\<lambda>h. ys ! k \<le> h) ys)" and "ys ! k < h \<Longrightarrow> length (filter (\<lambda>x. h \<le> x) ys) \<le> k"
proof -
  have anti: "ys ! j \<le> ys ! i" if "i \<le> j" "j < length ys" for i j
    using sorted_wrt_nth_less [of "(\<ge>)" ys i j] that assms(1) by (cases "i = j") (auto simp: sorted_wrt_rev)
  have "{..k} \<subseteq> {i. i < length ys \<and> ys ! k \<le> ys ! i}" using anti assms(2) by auto
  then have "card {..k} \<le> card {i. i < length ys \<and> ys ! k \<le> ys ! i}" by (intro card_mono) simp_all
  then show "k + 1 \<le> length (filter (\<lambda>h. ys ! k \<le> h) ys)" by (simp add: length_filter_conv_card)
  assume h: "ys ! k < h"
  have "{i. i < length ys \<and> h \<le> ys ! i} \<subseteq> {..<k}"
  proof
    fix i assume i: "i \<in> {i. i < length ys \<and> h \<le> ys ! i}"
    then show "i \<in> {..<k}" using anti [of k i] h by (cases "k \<le> i") auto
  qed
  then have "card {i. i < length ys \<and> h \<le> ys ! i} \<le> card {..<k}" by (intro card_mono) simp_all
  then show "length (filter (\<lambda>x. h \<le> x) ys) \<le> k" by (simp add: length_filter_conv_card)
qed

definition reportedHeights :: "LightClient \<Rightarrow> (string \<Rightarrow> int option) \<Rightarrow> int list" where
  "reportedHeights lc status =
     filter (\<lambda>h. 0 < h \<and> h \<le> int MAX_SAFE_INTEGER) (List.map_filter status (validatorEndpoints (config lc)))"

definition quorum :: "LightClient \<Rightarrow> int list \<Rightarrow> nat" where
  "quorum lc hs = nat (max (max 1 (minValidatorsForConsensus (config lc))) (int (length hs div 2 + 1)))"

lemma chain_height:
  assumes "getLatestChainHeight lc status = Inr h"
  defines "hs \<equiv> reportedHeights lc status"
  shows "\<exists>reached. h = (case latestHeight lc of
        None \<Rightarrow> wholeNum reached
      | Some l \<Rightarrow> if jsLess (wholeNum reached) l then l else wholeNum reached) \<and>
    quorum lc hs \<le> length (filter (\<lambda>x. reached \<le> x) hs) \<and>
    (\<forall>y > reached. length (filter (\<lambda>x. y \<le> x) hs) < quorum lc hs)"
proof -
  let ?ys = "rev (sort hs)"
  let ?k = "quorum lc hs - 1"
  let ?needed = "max 1 (minValidatorsForConsensus (config lc))"
  have q: "nat (max ?needed (int (length ?ys div 2 + 1)) - 1) = ?k" by (simp add: quorum_def nat_diff_distrib)
  have e: "getLatestChainHeight lc status =
      (if int (length ?ys) < ?needed then Inl (TooFewEndpoints (length ?ys))
       else Inr (case latestHeight lc of None \<Rightarrow> wholeNum (?ys ! ?k)
         | Some l \<Rightarrow> if jsLess (wholeNum (?ys ! ?k)) l then l else wholeNum (?ys ! ?k)))"
    unfolding getLatestChainHeight_def Let_def hs_def reportedHeights_def q [unfolded hs_def reportedHeights_def] ..
  have enough: "?needed \<le> int (length ?ys)"
    and h: "h = (case latestHeight lc of None \<Rightarrow> wholeNum (?ys ! ?k)
      | Some l \<Rightarrow> if jsLess (wholeNum (?ys ! ?k)) l then l else wholeNum (?ys ! ?k))"
    using assms(1) unfolding e by (simp_all add: not_less split: if_splits)
  have k: "?k < length ?ys" "quorum lc hs = ?k + 1" using enough by (auto simp: quorum_def)
  have s: "sorted (rev ?ys)" by simp
  have "quorum lc hs \<le> length (filter (\<lambda>x. ?ys ! ?k \<le> x) hs)"
    using nth_desc(1) [OF s k(1)] unfolding filter_sort k(2) [symmetric] .
  moreover have "length (filter (\<lambda>x. y \<le> x) hs) < quorum lc hs" if "?ys ! ?k < y" for y
    using nth_desc(2) [OF s k(1) that] k(2) unfolding filter_sort by linarith
  ultimately show ?thesis using h by blast
qed

subsection \<open>Agreement\<close>

definition appKey :: "LightBlock \<Rightarrow> string" where
  "appKey b = bytesToHex (appHash (header b))"

definition grouped :: "LightBlock list \<Rightarrow> (string \<times> LightBlock list) list \<Rightarrow> bool" where
  "grouped bs gs \<longleftrightarrow>
     distinct (map fst gs) \<and> (\<forall>k. (case map_of gs k of None \<Rightarrow> [] | Some g \<Rightarrow> g) = filter (\<lambda>b. appKey b = k) bs)"

lemma addToGroup_keys: "fst ` set (addToGroup k b gs) = insert k (fst ` set gs)"
proof (induction gs)
  case (Cons a gs)
  then show ?case by (cases a) (simp add: insert_commute split: if_split)
qed simp

lemma addToGroup_distinct: "distinct (map fst gs) \<Longrightarrow> distinct (map fst (addToGroup k b gs))"
proof (induction gs)
  case (Cons a gs)
  then show ?case using addToGroup_keys [of k b gs] by (cases a) auto
qed simp

lemma addToGroup_map:
  "map_of (addToGroup k b gs) j =
     (if j = k then Some ((case map_of gs k of None \<Rightarrow> [] | Some g \<Rightarrow> g) @ [b]) else map_of gs j)"
  by (induction gs) auto

lemma headerGroups_grouped: "grouped bs (headerGroups bs)"
proof (induction bs rule: rev_induct)
  case Nil
  then show ?case by (simp add: grouped_def headerGroups_def)
next
  case (snoc b bs)
  have "headerGroups (bs @ [b]) = addToGroup (appKey b) b (headerGroups bs)"
    by (simp add: headerGroups_def appKey_def)
  then show ?case using snoc unfolding grouped_def
    by (simp only: addToGroup_distinct addToGroup_map) auto
qed

lemma largest_from:
  "let g = foldl (\<lambda>best (_, g). if length g > length best then g else best) g0 gs in
     (g = g0 \<or> g \<in> snd ` set gs) \<and> length g0 \<le> length g \<and> (\<forall>h\<in>snd ` set gs. length h \<le> length g)"
proof (induction gs arbitrary: g0)
  case (Cons a gs)
  obtain k g where a: "a = (k, g)" by (cases a)
  show ?case using Cons.IH [of g] Cons.IH [of g0] by (auto simp: a Let_def)
qed simp

text \<open>A header that was fetched is one an endpoint gave, with an app hash that the required number of
  endpoints gave, and no other app hash was given by more.\<close>

lemma fetched_agreed:
  assumes "fetchHeaderFromValidators lc net h = Some b"
  defines "bs \<equiv> List.map_filter (\<lambda>e. net e h) (validatorEndpoints (config lc))"
  shows "b \<in> set bs \<and> minValidatorsForConsensus (config lc) \<le> int (length (filter (\<lambda>c. appKey c = appKey b) bs)) \<and>
    (\<forall>k. length (filter (\<lambda>c. appKey c = k) bs) \<le> length (filter (\<lambda>c. appKey c = appKey b) bs))"
proof -
  let ?g = "largestGroup (headerGroups bs)"
  obtain rest where g: "?g = b # rest" and m: "minValidatorsForConsensus (config lc) \<le> int (length ?g)"
    using assms(1) unfolding fetchHeaderFromValidators_def findConsensusHeader_def Let_def bs_def
    by (auto split: if_splits list.splits)
  note gr = headerGroups_grouped [of bs]
  note lg = largest_from [of "[]" "headerGroups bs", folded largestGroup_def, unfolded Let_def]
  have "?g \<in> snd ` set (headerGroups bs)" using lg g by auto
  then obtain k where k: "(k, ?g) \<in> set (headerGroups bs)" by auto
  then have "map_of (headerGroups bs) k = Some ?g" using gr by (simp add: grouped_def)
  then have f: "?g = filter (\<lambda>c. appKey c = k) bs" using gr unfolding grouped_def by (metis option.case(2))
  then have "b \<in> set (filter (\<lambda>c. appKey c = k) bs)" using g by (metis list.set_intros(1))
  then have b: "b \<in> set bs" "appKey b = k" by simp_all
  have "length (filter (\<lambda>c. appKey c = j) bs) \<le> length ?g" for j
  proof (cases "map_of (headerGroups bs) j")
    case None
    then show ?thesis using gr unfolding grouped_def by (metis le0 list.size(3) option.case(1))
  next
    case (Some g')
    then have "g' = filter (\<lambda>c. appKey c = j) bs" using gr unfolding grouped_def by (metis option.case(2))
    moreover have "g' \<in> snd ` set (headerGroups bs)" using Some by (force dest: map_of_SomeD)
    ultimately show ?thesis using lg by blast
  qed
  then show ?thesis using b m f by simp
qed

text \<open>The header a query proof is checked against was trusted at the height asked for, or was fetched for it
  and has been trusted at its own height since.\<close>

definition stateHeader :: "LightClient \<Rightarrow> network \<Rightarrow> jsNum \<Rightarrow> LightClient \<Rightarrow> LightBlock \<Rightarrow> bool" where
  "stateHeader lc net h lc' t \<longleftrightarrow>
     trustedAtHeight lc h = Some t \<or>
     (fetchHeaderFromValidators lc net h = Some t \<and> trustedAtHeight lc' (height (header t)) = Some t)"

lemma getHeader_trusted:
  assumes "getHeaderByHeight L now net lc h = (Some t, lc')"
  shows "stateHeader lc net h lc' t"
proof (cases "trustedAtHeight lc h")
  case None
  then obtain b where b: "fetchHeaderFromValidators lc net h = Some b"
    using assms by (auto simp: getHeaderByHeight_def split: option.splits)
  obtain r lc1 where v: "clientVerifyHeader L now lc b = (r, lc1)" by fastforce
  then have r: "success r" "t = b" "lc' = lc1" using assms None b by (auto simp: getHeaderByHeight_def split: if_splits)
  from v show ?thesis
  proof (cases rule: clientVerifyHeader_cases)
    case (2 t' k)
    then show ?thesis using b r
      by (simp add: stateHeader_def trustedAtHeight_def addTrustedHeader_fields update_conv)
  qed (use r in simp)
qed (use assms in \<open>simp add: getHeaderByHeight_def stateHeader_def\<close>)

subsection \<open>Root hashes\<close>

text \<open>An endpoint's answer for a block: the text of its header's app hash, \<open>None\<close> when the request fails or
  has none. Its status: the request throws, has no height or app hash, or gives an app hash.\<close>

datatype statusAnswer = StatusThrows | StatusMissing | StatusHash string

definition tryFetchBlockHeaderAppHash :: "codecs \<Rightarrow> string option \<Rightarrow> string option" where
  "tryFetchBlockHeaderAppHash C answer =
     (case answer of None \<Rightarrow> None | Some s \<Rightarrow> if s = [] then None else appHashToHex C s)"

text \<open>\<open>None\<close> when it throws, \<open>Some None\<close> for \<open>null\<close>.\<close>

definition fetchStatus :: "codecs \<Rightarrow> statusAnswer \<Rightarrow> string option option" where
  "fetchStatus C answer =
     (case answer of
        StatusThrows \<Rightarrow> None
      | StatusMissing \<Rightarrow> Some None
      | StatusHash s \<Rightarrow> if s = [] then Some None else map_option Some (appHashToHex C s))"

text \<open>The polls an endpoint answers before the deadline, each with the block and then the status.\<close>

fun pollAppHash :: "codecs \<Rightarrow> (string option \<times> statusAnswer) list \<Rightarrow> string option option" where
  "pollAppHash C [] = Some None"
| "pollAppHash C ((block, status) # polls) =
     (case tryFetchBlockHeaderAppHash C block of
        Some (c # hash) \<Rightarrow> Some (Some (c # hash))
      | _ \<Rightarrow>
          (case fetchStatus C status of
             None \<Rightarrow> None
           | Some None \<Rightarrow> Some None
           | Some (Some _) \<Rightarrow> pollAppHash C polls))"

record endpointAnswers =
  latestStatus :: statusAnswer
  nextBlock :: "(string option \<times> statusAnswer) list"

definition fetchAppHashForHeight :: "codecs \<Rightarrow> endpointAnswers \<Rightarrow> int \<Rightarrow> string option option" where
  "fetchAppHashForHeight C replies h =
     (if h \<le> 0 then fetchStatus C (latestStatus replies) else pollAppHash C (nextBlock replies))"

text \<open>The first endpoint with a hash; \<open>None\<close> when there is none, an error of the client.\<close>

fun firstAppHash :: "codecs \<Rightarrow> int \<Rightarrow> endpointAnswers list \<Rightarrow> string option" where
  "firstAppHash C h [] = None"
| "firstAppHash C h (a # as) =
     (case fetchAppHashForHeight C a h of Some (Some (c # hash)) \<Rightarrow> Some (c # hash) | _ \<Rightarrow> firstAppHash C h as)"

definition getVerifiedRootHashAtHeight ::
  "codecs \<Rightarrow> LightClient \<Rightarrow> (string \<Rightarrow> endpointAnswers) \<Rightarrow> int \<Rightarrow> string option" where
  "getVerifiedRootHashAtHeight C lc replies h = firstAppHash C h (map replies (validatorEndpoints (config lc)))"

definition getVerifiedRootHash :: "codecs \<Rightarrow> LightClient \<Rightarrow> (string \<Rightarrow> endpointAnswers) \<Rightarrow> string option" where
  "getVerifiedRootHash C lc replies = getVerifiedRootHashAtHeight C lc replies 0"

lemma pollAppHash_served:
  "pollAppHash C polls = Some (Some x) \<Longrightarrow>
     \<exists>text status. (Some text, status) \<in> set polls \<and> appHashToHex C text = Some x"
proof (induction polls)
  case (Cons a polls)
  obtain block status where a: "a = (block, status)" by (cases a)
  show ?case
  proof (cases "\<exists>c hash. tryFetchBlockHeaderAppHash C block = Some (c # hash)")
    case True
    then obtain c hash where t: "tryFetchBlockHeaderAppHash C block = Some (c # hash)" by blast
    then have "x = c # hash" using Cons.prems a by simp
    with t a show ?thesis by (auto simp: tryFetchBlockHeaderAppHash_def split: option.splits if_splits)
  next
    case False
    then have "pollAppHash C polls = Some (Some x)" using Cons.prems a by (auto split: option.splits list.splits)
    from Cons.IH [OF this] obtain s st where "(Some s, st) \<in> set polls" "appHashToHex C s = Some x" by blast
    then show ?thesis by (intro exI [of _ s] exI [of _ st]) simp
  qed
qed simp

subsection \<open>Stored headers and proofs\<close>

lemma stored_header:
  assumes "\<And>b. fromBase64 C (toBase64 C b) = Some b" "\<And>t. textDate C (dateText C t) = Some t" "trustedAt t = Some now"
    and "tvalidatorsHash t = validatorsHash (theader t)" "tnextValidatorsHash t = nextValidatorsHash (theader t)"
  shows "\<exists>d u. serializeTrustedHeader C t = Some d \<and> deserializeTrustedHeader C d = Some u \<and>
    height (theader u) = height (theader t) \<and> chainId (theader u) = chainId (theader t) \<and>
    appHash (theader u) = appHash (theader t) \<and> validatorsHash (theader u) = validatorsHash (theader t) \<and>
    nextValidatorsHash (theader u) = nextValidatorsHash (theader t) \<and> trustedAt u = trustedAt t \<and>
    htime (theader u) = trustedAt t"
  using assms by (simp add: deserializeTrustedHeader_def serializeTrustedHeader_def)

lemma stored_proof:
  assumes "\<And>b. fromBase64 C (toBase64 C b) = Some b"
  shows "deserializeQueryProof C (serializeQueryProof C p) = Some p"
proof -
  have "allSome (map (fromBase64 C) (map (toBase64 C) bs)) = Some bs" for bs
    using assms by (induction bs) simp_all
  then show ?thesis using assms by (cases p) (simp add: deserializeQueryProof_def serializeQueryProof_def split: option.split)
qed

subsection \<open>Properties\<close>

definition sampleConfig :: LightClientConfig where
  "sampleConfig = \<lparr>cfgChainId = js ''c'', validatorEndpoints = [''e''], cfgThreshold = \<lparr>numerator = 2, denominator = 3\<rparr>,
     maxClockDriftSecs = 10, minValidatorsForConsensus = 1\<rparr>"

definition sampleClient :: LightClient where
  "sampleClient = trustOnly (newLightClient sampleConfig) sampleBlock"

lemma sample_init: "initializeWithTrustedHeader sampleRuntime 0 (newLightClient sampleConfig) sampleBlock = Inr sampleClient"
proof -
  have v: "headerVerifier (newLightClient sampleConfig) = sampleVerifier"
    by (simp add: headerVerifier_def newLightClient_def sampleConfig_def sampleVerifier_def)
  have d: "maxClockDriftSecs (config (newLightClient sampleConfig)) = 10" by (simp add: newLightClient_def sampleConfig_def)
  show ?thesis unfolding initializeWithTrustedHeader_def v d Let_def sampleClient_def using sample_accepted by simp
qed

text \<open>C32: The trusted set. Whatever is called on a new light client, with whatever answers of the
  endpoints, each trusted header is kept under its own height, one for a height; the latest height and
  both ends of the verified range are heights of trusted headers, and exist as soon as one is trusted;
  the range is in order, or both its ends are \<open>NaN\<close>.\<close>

theorem client_invariant:
  assumes "(lcStep L H)\<^sup>*\<^sup>* (newLightClient c) lc"
  shows "wfClient lc"
  using wf_reachable [OF assms wf_new] .

theorem client_invariant_witness: "wfClient (importTrustedState sampleClient (exportTrustedState 5 sampleClient))"
proof -
  have "lcStep sampleRuntime id (newLightClient sampleConfig) sampleClient" by (rule StepTrusted [OF sample_init])
  moreover have "lcStep sampleRuntime id sampleClient (importTrustedState sampleClient (exportTrustedState 5 sampleClient))"
    by (rule StepImport)
  ultimately show ?thesis by (intro client_invariant [of sampleRuntime id sampleConfig]) simp
qed

text \<open>C33: Linked headers, without gaps. A client is initialised once with a header; then whatever headers are
  verified, fetched or synchronised and whatever proofs are checked, to every header it trusts leads a
  chain that starts with the first: each header of it was accepted by this client, in the course of the
  run, against the one before it, which was the best trusted header at that moment. A trusted header may
  be replaced later by another of its height, so the chain need not run through the headers trusted now.
  When the first height is a whole number of size at most \<open>2^53\<close>, the trusted heights are an interval from
  it, with the latest height and the verified range its ends; when it is \<open>NaN\<close>, no other header is ever
  trusted.\<close>

theorem no_gaps:
  assumes "initializeWithTrustedHeader L now (newLightClient c) b0 = Inr lc \<or>
      (fetchHeaderFromValidators (newLightClient c) net (wholeNum 0) = Some b0 \<and>
       initializeWithTrustOnFirstUse (newLightClient c) net = Inr lc)"
    and "(verifyingStep L H)\<^sup>*\<^sup>* lc lc'"
  shows "(\<forall>(h, b)\<in>set (trustedHeaders lc'). linked L lc lc' b0 b) \<and>
    (\<forall>lo. height (header b0) = wholeNum lo \<and> \<bar>lo\<bar> \<le> 2 ^ 53 \<longrightarrow> noGaps lc' lo) \<and>
    (height (header b0) = NotANumber \<longrightarrow> trustedHeaders lc' = [(NotANumber, b0)])"
proof -
  note ones = verifyingSteps_ones [OF assms(2)]
  have lc: "lc = trustOnly (newLightClient c) b0"
    using assms(1) by (auto simp: initializeWithTrustedHeader_def initializeWithTrustOnFirstUse_def Let_def split: if_splits)
  have first: "trustedHeaders lc = [(height (header b0), b0)]"
    by (simp add: lc trustOnly_def Let_def newLightClient_def)
  have "noGaps lc' lo" if "height (header b0) = wholeNum lo" "\<bar>lo\<bar> \<le> 2 ^ 53" for lo
  proof -
    have "noGaps lc lo" using that by (auto simp: lc noGaps_def trustOnly_def Let_def newLightClient_def ownHeights_def)
    then show ?thesis using noGaps_ones [OF _ _ ones] that(2) by simp
  qed
  then show ?thesis using trusted_linked [OF first ones] alone_ones [OF _ _ ones] first by simp
qed

theorem no_gaps_witness: "noGaps sampleClient 1 \<and> linked sampleRuntime sampleClient sampleClient sampleBlock sampleBlock"
proof -
  have "trustedHeaders sampleClient = [(wholeNum 1, sampleBlock)]" "height (header sampleBlock) = wholeNum 1"
    by (simp_all add: sampleClient_def trustOnly_def Let_def newLightClient_def sampleBlock_def sampleHeader_def)
  then show ?thesis
    using no_gaps [where H = id and net = "\<lambda>_ _. None", OF disjI1 [OF sample_init] rtranclp.rtrancl_refl]
    by (metis abs_one case_prodD list.set_intros(1) one_le_numeral one_le_power of_int_1)
qed

text \<open>C34: Trusted query results. When the light client accepts a query proof, it checked it against a
  header it trusts: when that header's app hash commits to a state, every result of the proof is an item
  this state holds. The header was trusted at the height after the proof's, or fetched for it; of a
  fetched header only the verification is known, not that its height is the one asked for. (For items of
  63 or 95 bytes, something is stored there.)\<close>

theorem trusted_query:
  assumes "clientVerifyQueryProof H L now net lc p given = (r, lc')" and "success r"
  shows "\<exists>t. stateHeader lc net (jsPlus (orDefault given (qheight p)) (wholeNum 1)) lc' t \<and>
    (\<forall>st vs v. committed H (qproof p) (appHash (header t)) st \<and> queryResult p = Some vs \<and> v \<in> set vs \<longrightarrow>
       (\<exists>path key. holdsItem st path key v))"
proof -
  obtain found lc1 where g: "getHeaderByHeight L now net lc (jsPlus (orDefault given (qheight p)) (wholeNum 1)) = (found, lc1)" by fastforce
  then obtain t where t: "found = Some t" "r = verifyQueryResult H p (appHash (header t)) None" "lc' = lc1"
    using assms by (cases found) (auto simp: clientVerifyQueryProof_def Let_def)
  then have "stateHeader lc net (jsPlus (orDefault given (qheight p)) (wholeNum 1)) lc' t" using getHeader_trusted g by blast
  moreover have "\<exists>path key. holdsItem st path key v"
    if "committed H (qproof p) (appHash (header t)) st" "queryResult p = Some vs" "v \<in> set vs" for st vs v
    using query_values [of H p "appHash (header t)" st None v] that assms(2) t(2) by simp
  ultimately show ?thesis by blast
qed

theorem trusted_query_witness:
  "\<exists>t. trustedAtHeight (addTrustedHeader sampleClient (sampleBlock\<lparr>header := sampleHeader\<lparr>appHash := oneRoot\<rparr>\<rparr>)) (wholeNum 1) =
       Some t \<and> (\<exists>path key. holdsItem oneState path key [9])"
proof -
  let ?b = "sampleBlock\<lparr>header := sampleHeader\<lparr>appHash := oneRoot\<rparr>\<rparr>"
  let ?lc = "addTrustedHeader sampleClient ?b"
  let ?p = "\<lparr>qproof = oneProof, qheight = wholeNum 0, queryResult = Some [[9]]\<rparr>"
  have one: "jsPlus (orDefault None (qheight ?p)) (wholeNum 1) = wholeNum 1"
    using jsPlus_whole [of 0 1] by (simp add: orDefault_def)
  have h: "trustedAtHeight ?lc (wholeNum 1) = Some ?b"
    by (simp add: trustedAtHeight_def addTrustedHeader_fields update_conv sampleHeader_def)
  have g: "getHeaderByHeight sampleRuntime 0 (\<lambda>_ _. None) ?lc (wholeNum 1) = (Some ?b, ?lc)"
    unfolding getHeaderByHeight_def h by simp
  let ?r = "verifyQueryResult lenHash ?p oneRoot None"
  have r: "clientVerifyQueryProof lenHash sampleRuntime 0 (\<lambda>_ _. None) ?lc ?p None = (?r, ?lc)"
    unfolding clientVerifyQueryProof_def Let_def one g by simp
  have ok: "success ?r"
    by (simp add: verifyQueryResult_def verify_noOptions oneEntry_def itemOf_def bytesEqual_def List.map_filter_simps)
  from trusted_query [OF r ok, unfolded one] obtain t where t: "stateHeader ?lc (\<lambda>_ _. None) (wholeNum 1) ?lc t"
    and v: "committed lenHash (qproof ?p) (appHash (header t)) oneState \<longrightarrow> (\<exists>path key. holdsItem oneState path key [9])"
    by fastforce
  have "t = ?b" using t h
    by (simp add: stateHeader_def fetchHeaderFromValidators_def List.map_filter_def
        addTrustedHeader_fields sampleClient_def trustOnly_def Let_def newLightClient_def sampleConfig_def)
  then have "\<exists>path key. holdsItem oneState path key [9]" using v one_committed by simp
  with h show ?thesis by blast
qed

text \<open>C35: Latest height. \<open>getLatestChainHeight\<close> gives the highest height that a majority of the endpoints
  that answer, and at least the required number of them, have reached: so many report it or more, and
  fewer report anything higher; or the client's own latest height if that is higher.\<close>

theorem latest_chain_height:
  assumes "getLatestChainHeight lc status = Inr h"
  shows "\<exists>reached. h = (case latestHeight lc of
        None \<Rightarrow> wholeNum reached
      | Some l \<Rightarrow> if jsLess (wholeNum reached) l then l else wholeNum reached) \<and>
    quorum lc (reportedHeights lc status) \<le> length (filter (\<lambda>x. reached \<le> x) (reportedHeights lc status)) \<and>
    (\<forall>y > reached. length (filter (\<lambda>x. y \<le> x) (reportedHeights lc status)) < quorum lc (reportedHeights lc status))"
  by (rule chain_height [OF assms])

theorem latest_chain_height_witness:
  "\<exists>reached. wholeNum 6 = (if jsLess (wholeNum reached) (wholeNum 1) then wholeNum 1 else wholeNum reached) \<and>
     1 \<le> length (filter (\<lambda>x. reached \<le> x) (reportedHeights sampleClient (\<lambda>_. Some 6)))"
proof -
  have e: "getLatestChainHeight sampleClient (\<lambda>_. Some 6) = Inr (wholeNum 6)"
    by (simp add: getLatestChainHeight_def sampleClient_def trustOnly_def Let_def newLightClient_def sampleConfig_def
        List.map_filter_simps MAX_SAFE_INTEGER_def sampleBlock_def sampleHeader_def)
  have l: "latestHeight sampleClient = Some (wholeNum 1)"
    by (simp add: sampleClient_def trustOnly_def Let_def sampleBlock_def sampleHeader_def)
  have "1 \<le> quorum sampleClient hs" for hs by (simp add: quorum_def)
  with latest_chain_height [OF e] show ?thesis unfolding l option.case by (meson order_trans)
qed

text \<open>C36: Agreement of endpoints. A header the client fetches is one an endpoint gave, its app hash was
  given by at least the required number of endpoints, and none was given by more.\<close>

theorem endpoints_agree:
  assumes "fetchHeaderFromValidators lc net h = Some b"
    and "bs = List.map_filter (\<lambda>e. net e h) (validatorEndpoints (config lc))"
  shows "b \<in> set bs \<and> minValidatorsForConsensus (config lc) \<le> int (length (filter (\<lambda>c. appKey c = appKey b) bs)) \<and>
    (\<forall>k. length (filter (\<lambda>c. appKey c = k) bs) \<le> length (filter (\<lambda>c. appKey c = appKey b) bs))"
  unfolding assms(2) by (rule fetched_agreed [OF assms(1)])

theorem endpoints_agree_witness:
  "fetchHeaderFromValidators sampleClient (\<lambda>_ _. Some sampleBlock) (wholeNum 3) = Some sampleBlock \<and>
   1 \<le> int (length (filter (\<lambda>c. appKey c = appKey sampleBlock) [sampleBlock]))"
proof -
  have c: "validatorEndpoints (config sampleClient) = [''e'']" "minValidatorsForConsensus (config sampleClient) = 1"
    by (simp_all add: sampleClient_def trustOnly_def Let_def newLightClient_def sampleConfig_def)
  have f: "fetchHeaderFromValidators sampleClient (\<lambda>_ _. Some sampleBlock) (wholeNum 3) = Some sampleBlock"
    by (simp add: fetchHeaderFromValidators_def c List.map_filter_simps findConsensusHeader_def largestGroup_def headerGroups_def)
  with endpoints_agree [OF f, of "[sampleBlock]"] show ?thesis by (simp add: c List.map_filter_simps)
qed

end
