(* ===== verification/Indexers.thy ===== *)
theory Indexers
  imports Prelude Complex_Main
begin

text \<open>
  Indexer discovery (\<open>src/src/indexers/index.ts\<close>): the cached list of indexers, its expiry, the order
  of candidates for a subgrove, and eviction. A request to the API is a step of its own, since calls that
  come while it is in flight wait for the same answer.
\<close>

subsection \<open>State and operations\<close>

record ApiIndexerInfo =
  indexer_did :: string
  subgroves :: "string list"
  stake_amount :: rat
  endpoint :: string
  query_endpoint :: "string option"
  status :: string
  performance_score :: rat
  last_update :: rat

definition effectiveQueryEndpoint :: "ApiIndexerInfo \<Rightarrow> string" where
  "effectiveQueryEndpoint info = (case query_endpoint info of Some q \<Rightarrow> q | None \<Rightarrow> endpoint info)"

definition DEFAULT_CACHE_TTL_MS :: int where
  "DEFAULT_CACHE_TTL_MS = 30000"

record CacheEntry =
  cached :: "ApiIndexerInfo list"
  fetchedAt :: int

record WillowIndexers =
  indexerUrl :: "string option"
  cacheTtlMs :: int
  cache :: "CacheEntry option"
  inflight :: bool

definition newWillowIndexers :: "string option \<Rightarrow> int option \<Rightarrow> WillowIndexers" where
  "newWillowIndexers url ttl =
     \<lparr>indexerUrl = url, cacheTtlMs = (case ttl of None \<Rightarrow> DEFAULT_CACHE_TTL_MS | Some t \<Rightarrow> t), cache = None, inflight = False\<rparr>"

text \<open>An empty URL is falsy.\<close>

definition overrideUrl :: "WillowIndexers \<Rightarrow> string option" where
  "overrideUrl w = (case indexerUrl w of Some (c # url) \<Rightarrow> Some (c # url) | _ \<Rightarrow> None)"

definition hasExplicitOverride :: "WillowIndexers \<Rightarrow> bool" where
  "hasExplicitOverride w \<longleftrightarrow> overrideUrl w \<noteq> None"

definition invalidate :: "WillowIndexers \<Rightarrow> WillowIndexers" where
  "invalidate w = w\<lparr>cache := None, inflight := False\<rparr>"

definition syntheticEntry :: "string \<Rightarrow> ApiIndexerInfo" where
  "syntheticEntry url =
     \<lparr>indexer_did = ''explicit-override'', subgroves = [], stake_amount = 0, endpoint = url, query_endpoint = Some url,
      status = ''active'', performance_score = 100, last_update = 0\<rparr>"

text \<open>\<open>list\<close> answers at once, or waits for the request in flight, which it starts if there is none.\<close>

datatype listing = Listed "ApiIndexerInfo list" | Waits

definition listIndexers :: "int \<Rightarrow> WillowIndexers \<Rightarrow> listing \<times> WillowIndexers" where
  "listIndexers now w =
     (case overrideUrl w of
        Some url \<Rightarrow> (Listed [syntheticEntry url], w)
      | None \<Rightarrow>
          (case cache w of
             Some c \<Rightarrow> if now - fetchedAt c < cacheTtlMs w then (Listed (cached c), w) else (Waits, w\<lparr>inflight := True\<rparr>)
           | None \<Rightarrow> (Waits, w\<lparr>inflight := True\<rparr>)))"

text \<open>The answer of the request: the data, \<open>None\<close> inside when there is none, or a failure.\<close>

definition answered :: "int \<Rightarrow> ApiIndexerInfo list option option \<Rightarrow> WillowIndexers \<Rightarrow> WillowIndexers" where
  "answered now reply w =
     (case reply of
        None \<Rightarrow> w\<lparr>inflight := False\<rparr>
      | Some data \<Rightarrow>
          w\<lparr>cache := Some \<lparr>cached = (case data of None \<Rightarrow> [] | Some d \<Rightarrow> d), fetchedAt = now\<rparr>, inflight := False\<rparr>)"

text \<open>The candidates of a list: \<open>sort\<close> is stable.\<close>

definition candidates :: "string \<Rightarrow> ApiIndexerInfo list \<Rightarrow> ApiIndexerInfo list" where
  "candidates subgroveId xs =
     sort_key (\<lambda>i. - performance_score i) (filter (\<lambda>i. status i = ''active'' \<and> subgroveId \<in> set (subgroves i)) xs)"

definition forSubgrove :: "int \<Rightarrow> string \<Rightarrow> WillowIndexers \<Rightarrow> listing \<times> WillowIndexers" where
  "forSubgrove now subgroveId w =
     (case overrideUrl w of
        Some url \<Rightarrow> (Listed [syntheticEntry url], w)
      | None \<Rightarrow>
          (case listIndexers now w of
             (Listed xs, w') \<Rightarrow> (Listed (candidates subgroveId xs), w')
           | (Waits, w') \<Rightarrow> (Waits, w')))"

definition evict :: "string \<Rightarrow> WillowIndexers \<Rightarrow> WillowIndexers" where
  "evict did w =
     (case cache w of
        None \<Rightarrow> w
      | Some c \<Rightarrow> w\<lparr>cache := Some \<lparr>cached = filter (\<lambda>i. indexer_did i \<noteq> did) (cached c), fetchedAt = fetchedAt c\<rparr>\<rparr>)"

subsection \<open>Candidates\<close>

lemma candidates_best:
  "set (candidates g xs) = {i \<in> set xs. status i = ''active'' \<and> g \<in> set (subgroves i)}"
  "sorted_wrt (\<lambda>a b. performance_score b \<le> performance_score a) (candidates g xs)"
proof -
  show "set (candidates g xs) = {i \<in> set xs. status i = ''active'' \<and> g \<in> set (subgroves i)}"
    by (auto simp: candidates_def)
  have "sorted (map (\<lambda>i. - performance_score i) (candidates g xs))" by (simp add: candidates_def)
  then show "sorted_wrt (\<lambda>a b. performance_score b \<le> performance_score a) (candidates g xs)"
    by (simp add: sorted_map)
qed

lemma candidates_ties:
  "filter (\<lambda>i. performance_score i = s) (candidates g xs) =
     filter (\<lambda>i. performance_score i = s) (filter (\<lambda>i. status i = ''active'' \<and> g \<in> set (subgroves i)) xs)"
  using sort_key_stable [of "\<lambda>i. - performance_score i" "- s"
      "filter (\<lambda>i. status i = ''active'' \<and> g \<in> set (subgroves i)) xs"]
  by (simp add: candidates_def eq_commute)

text \<open>No evicted indexer comes back from the cache, until a request is answered.\<close>

definition withoutCached :: "string \<Rightarrow> WillowIndexers \<Rightarrow> bool" where
  "withoutCached did w \<longleftrightarrow> (case cache w of None \<Rightarrow> True | Some c \<Rightarrow> \<forall>i\<in>set (cached c). indexer_did i \<noteq> did)"

lemma evict_without: "withoutCached did (evict did w)"
  by (auto simp: withoutCached_def evict_def split: option.split)

lemma without_kept:
  "withoutCached did w \<Longrightarrow> withoutCached did (evict other w)"
  "withoutCached did w \<Longrightarrow> withoutCached did (invalidate w)"
  "withoutCached did w \<Longrightarrow> withoutCached did (snd (forSubgrove now g w))"
  "withoutCached did w \<Longrightarrow> withoutCached did (answered now None w)"
  by (auto simp: withoutCached_def evict_def invalidate_def forSubgrove_def listIndexers_def answered_def split: option.split)

lemma listed_without:
  assumes "withoutCached did w" "overrideUrl w = None" "forSubgrove now g w = (Listed xs, w')"
  shows "\<forall>i\<in>set xs. indexer_did i \<noteq> did \<and> status i = ''active'' \<and> g \<in> set (subgroves i)"
  using assms by (auto simp: forSubgrove_def listIndexers_def withoutCached_def candidates_best split: option.splits if_splits)

end
