(* ===== verification/Subscriptions.thy ===== *)
theory Subscriptions
  imports Indexers
begin

text \<open>
  Subscriptions over WebSocket (\<open>src/src/subscriptions/index.ts\<close>): the state a subscription keeps, what
  each event of its sockets, timers and lookups does, and the reconnection. Sockets, timers and lookups
  are numbered as they are made; what the subscription does to the outside is logged. A step is one
  event the outside may give: an event of a socket that is not closed, a timer that is set, the answer of
  a lookup in progress, or the caller unsubscribing. The caller may also unsubscribe inside any of its
  callbacks; it does nothing else there that the subscription sees, and they do not throw.
\<close>

subsection \<open>Configuration and messages\<close>

text \<open>What a subscription does to the outside; \<open>Unsubscribed\<close> marks the caller's call.\<close>

datatype effect =
    NewSocket nat string
  | SentInit nat
  | SentSubscribe nat
  | SentPong nat
  | SentComplete nat
  | SocketClosing nat
  | OnNext string
  | OnError
  | OnComplete
  | OnReconnect nat nat
  | Evicted string
  | Unsubscribed

text \<open>\<open>unsubscribesIn\<close>: whether the caller unsubscribes inside the callback with which a log ends.\<close>

datatype SubscribeSource = FromValidator | FromIndexer

record SubscribeOptions =
  source :: SubscribeSource
  reconnect :: bool
  maxReconnectAttempts :: "nat option"
  reconnectBackoffMs :: nat
  maxReconnectBackoffMs :: nat
  hasIndexers :: bool
  apiUrl :: string
  location :: "(string \<times> string) option"
  unsubscribesIn :: "effect list \<Rightarrow> bool"

text \<open>Missing options take their defaults; no limit on attempts is \<open>None\<close>.\<close>

definition defaultOptions :: "string \<Rightarrow> bool \<Rightarrow> SubscribeOptions" where
  "defaultOptions url indexers =
     \<lparr>source = FromValidator, reconnect = True, maxReconnectAttempts = None, reconnectBackoffMs = 500,
      maxReconnectBackoffMs = 30000, hasIndexers = indexers, apiUrl = url, location = None,
      unsubscribesIn = (\<lambda>_. False)\<rparr>"

fun stripText :: "string \<Rightarrow> string \<Rightarrow> string option" where
  "stripText [] s = Some s"
| "stripText (c # p) [] = None"
| "stripText (c # p) (d # s) = (if c = d then stripText p s else None)"

text \<open>\<open>location\<close> is the page's protocol and host.\<close>

definition toWsUrl :: "(string \<times> string) option \<Rightarrow> string \<Rightarrow> string" where
  "toWsUrl loc url =
     (case stripText ''https://'' url of
        Some rest \<Rightarrow> ''wss://'' @ rest
      | None \<Rightarrow>
          (case stripText ''http://'' url of
             Some rest \<Rightarrow> ''ws://'' @ rest
           | None \<Rightarrow>
               (case (stripText ''/'' url, loc) of
                  (Some _, Some (protocol, host)) \<Rightarrow> (if protocol = ''https:'' then ''wss:'' else ''ws:'') @ ''//'' @ host @ url
                | _ \<Rightarrow> url)))"

definition dropSlash :: "string \<Rightarrow> string" where
  "dropSlash s = (if s \<noteq> [] \<and> last s = CHR ''/'' then butlast s else s)"

text \<open>A message by its type; \<open>own\<close> when its id is the subscription's.\<close>

datatype ServerMessage =
    ConnectionAck
  | NextMessage bool "string option"
  | ErrorMessage bool
  | CompleteMessage bool
  | Ping
  | OtherMessage

subsection \<open>State\<close>

text \<open>The variables of \<open>subscribe\<close>, then the outside: sockets not yet closed, those that are open, the
  timers set, and the lookups in progress.\<close>

record subscription =
  socket :: "nat option"
  closedByClient :: bool
  reconnectTimer :: "nat option"
  attempts :: nat
  lastIndexerDid :: "string option"
  liveSockets :: "nat list"
  openSockets :: "nat list"
  timers :: "nat list"
  lookups :: nat
  fresh :: nat
  history :: "effect list"

definition emit :: "effect \<Rightarrow> subscription \<Rightarrow> subscription" where
  "emit out s = s\<lparr>history := history s @ [out]\<rparr>"

definition sendOn :: "nat \<Rightarrow> effect \<Rightarrow> subscription \<Rightarrow> subscription" where
  "sendOn k out s = (if k \<in> set (openSockets s) then emit out s else s)"

definition clearReconnectTimer :: "subscription \<Rightarrow> subscription" where
  "clearReconnectTimer s =
     (case reconnectTimer s of None \<Rightarrow> s | Some t \<Rightarrow> s\<lparr>timers := removeAll t (timers s), reconnectTimer := None\<rparr>)"

text \<open>\<open>close\<close> leaves a socket that is not open any more to its close event.\<close>

definition unsubscribe :: "subscription \<Rightarrow> subscription" where
  "unsubscribe s =
     (let s = clearReconnectTimer ((emit Unsubscribed s)\<lparr>closedByClient := True\<rparr>) in
      (case socket s of
         None \<Rightarrow> s
       | Some k \<Rightarrow> (let s = sendOn k (SentComplete k) s in (emit (SocketClosing k) s)\<lparr>openSockets := removeAll k (openSockets s)\<rparr>)))"

text \<open>A callback of the caller.\<close>

definition tell :: "SubscribeOptions \<Rightarrow> effect \<Rightarrow> subscription \<Rightarrow> subscription" where
  "tell cfg out s = (let s = emit out s in if unsubscribesIn cfg (history s) then unsubscribe s else s)"

definition delayOf :: "SubscribeOptions \<Rightarrow> nat \<Rightarrow> nat" where
  "delayOf cfg n = min (reconnectBackoffMs cfg * 2 ^ (n - 1)) (maxReconnectBackoffMs cfg)"

definition exhausted :: "SubscribeOptions \<Rightarrow> nat \<Rightarrow> bool" where
  "exhausted cfg n = (case maxReconnectAttempts cfg of None \<Rightarrow> False | Some m \<Rightarrow> m \<le> n)"

text \<open>The timer is set after the callback, whatever it did.\<close>

definition scheduleReconnect :: "SubscribeOptions \<Rightarrow> subscription \<Rightarrow> subscription" where
  "scheduleReconnect cfg s =
     (if closedByClient s \<or> \<not> reconnect cfg then tell cfg OnComplete s
      else if exhausted cfg (attempts s) then tell cfg OnComplete s
      else
        (let n = attempts s + 1;
             s = tell cfg (OnReconnect n (delayOf cfg n)) (s\<lparr>attempts := n\<rparr>);
             t = fresh s in
         s\<lparr>reconnectTimer := Some t, timers := timers s @ [t], fresh := t + 1\<rparr>))"

text \<open>The socket's constructor throws for a URL it cannot read.\<close>

definition wireSocket :: "bool \<Rightarrow> string \<Rightarrow> subscription \<Rightarrow> bool \<times> subscription" where
  "wireSocket throws wsUrl s =
     (if closedByClient s then (False, s)
      else if throws then (True, s)
      else
        (let k = fresh s in
         (False, (emit (NewSocket k wsUrl) s)\<lparr>socket := Some k, liveSockets := liveSockets s @ [k], fresh := k + 1\<rparr>)))"

definition finish :: "SubscribeOptions \<Rightarrow> subscription \<Rightarrow> subscription" where
  "finish cfg s = tell cfg OnComplete (s\<lparr>closedByClient := True\<rparr>)"

text \<open>\<open>openConnection\<close> up to the lookup it awaits. A constructor that throws rejects its promise, which
  nobody handles.\<close>

definition openConnection :: "SubscribeOptions \<Rightarrow> bool \<Rightarrow> subscription \<Rightarrow> subscription" where
  "openConnection cfg throws s =
     (if closedByClient s then s
      else
        (case source cfg of
           FromValidator \<Rightarrow> snd (wireSocket throws (toWsUrl (location cfg) (dropSlash (apiUrl cfg)) @ ''/graphql/ws'') s)
         | FromIndexer \<Rightarrow>
             (if \<not> hasIndexers cfg then finish cfg (tell cfg OnError s)
              else
                (let s = (case lastIndexerDid s of Some (c # did) \<Rightarrow> emit (Evicted (c # did)) s | _ \<Rightarrow> s) in
                 s\<lparr>lookups := lookups s + 1\<rparr>))))"

definition retry :: "SubscribeOptions \<Rightarrow> subscription \<Rightarrow> subscription" where
  "retry cfg s = (if reconnect cfg then scheduleReconnect cfg s else finish cfg s)"

text \<open>The rest of \<open>openConnection\<close> when the lookup answers: the candidates, or a failure.\<close>

definition lookedUp :: "SubscribeOptions \<Rightarrow> ApiIndexerInfo list option \<Rightarrow> bool \<Rightarrow> subscription \<Rightarrow> subscription" where
  "lookedUp cfg found throws s0 =
     (let s = s0\<lparr>lookups := lookups s0 - 1\<rparr> in
      (case found of
         None \<Rightarrow> retry cfg (tell cfg OnError s)
       | Some [] \<Rightarrow> retry cfg (tell cfg OnError s)
       | Some (chosen # _) \<Rightarrow>
           (let (threw, s) = wireSocket throws (toWsUrl (location cfg) (dropSlash (effectiveQueryEndpoint chosen)) @ ''/graphql/ws'')
                  (s\<lparr>lastIndexerDid := Some (indexer_did chosen)\<rparr>) in
            if threw then retry cfg (tell cfg OnError s) else s)))"

subsection \<open>Events\<close>

definition socketOpened :: "nat \<Rightarrow> subscription \<Rightarrow> subscription" where
  "socketOpened k s = sendOn k (SentInit k) (s\<lparr>openSockets := openSockets s @ [k]\<rparr>)"

definition messageReceived :: "SubscribeOptions \<Rightarrow> nat \<Rightarrow> ServerMessage option \<Rightarrow> subscription \<Rightarrow> subscription" where
  "messageReceived cfg k msg s =
     (case msg of
        None \<Rightarrow> tell cfg OnError s
      | Some ConnectionAck \<Rightarrow> sendOn k (SentSubscribe k) (s\<lparr>attempts := 0\<rparr>)
      | Some (NextMessage own payload) \<Rightarrow>
          (case payload of Some p \<Rightarrow> if own then tell cfg (OnNext p) s else s | None \<Rightarrow> s)
      | Some (ErrorMessage own) \<Rightarrow> if own then tell cfg OnError s else s
      | Some (CompleteMessage own) \<Rightarrow> if own then finish cfg s else s
      | Some Ping \<Rightarrow> sendOn k (SentPong k) s
      | Some OtherMessage \<Rightarrow> s)"

definition socketClosed :: "SubscribeOptions \<Rightarrow> nat \<Rightarrow> subscription \<Rightarrow> subscription" where
  "socketClosed cfg k s0 =
     (let s = s0\<lparr>liveSockets := removeAll k (liveSockets s0), openSockets := removeAll k (openSockets s0)\<rparr> in
      if closedByClient s then s else scheduleReconnect cfg s)"

definition timerFired :: "SubscribeOptions \<Rightarrow> nat \<Rightarrow> bool \<Rightarrow> subscription \<Rightarrow> subscription" where
  "timerFired cfg t throws s =
     openConnection cfg throws (s\<lparr>timers := removeAll t (timers s), reconnectTimer := None\<rparr>)"

definition subscribe :: "SubscribeOptions \<Rightarrow> bool \<Rightarrow> subscription" where
  "subscribe cfg throws =
     openConnection cfg throws
       \<lparr>socket = None, closedByClient = False, reconnectTimer = None, attempts = 0, lastIndexerDid = None,
        liveSockets = [], openSockets = [], timers = [], lookups = 0, fresh = 0, history = []\<rparr>"

datatype event =
    Opened nat
  | Received nat "ServerMessage option"
  | Failed nat
  | Closed nat
  | Fired nat bool
  | LookedUp "ApiIndexerInfo list option" bool
  | Unsubscribe

definition enabled :: "event \<Rightarrow> subscription \<Rightarrow> bool" where
  "enabled ev s =
     (case ev of
        Opened k \<Rightarrow> k \<in> set (liveSockets s)
      | Received k _ \<Rightarrow> k \<in> set (liveSockets s)
      | Failed k \<Rightarrow> k \<in> set (liveSockets s)
      | Closed k \<Rightarrow> k \<in> set (liveSockets s)
      | Fired t _ \<Rightarrow> t \<in> set (timers s)
      | LookedUp _ _ \<Rightarrow> 0 < lookups s
      | Unsubscribe \<Rightarrow> True)"

definition handle :: "SubscribeOptions \<Rightarrow> event \<Rightarrow> subscription \<Rightarrow> subscription" where
  "handle cfg ev s =
     (case ev of
        Opened k \<Rightarrow> socketOpened k s
      | Received k msg \<Rightarrow> messageReceived cfg k msg s
      | Failed k \<Rightarrow> tell cfg OnError s
      | Closed k \<Rightarrow> socketClosed cfg k s
      | Fired t throws \<Rightarrow> timerFired cfg t throws s
      | LookedUp found throws \<Rightarrow> lookedUp cfg found throws s
      | Unsubscribe \<Rightarrow> unsubscribe s)"

inductive subStep :: "SubscribeOptions \<Rightarrow> subscription \<Rightarrow> event \<Rightarrow> subscription \<Rightarrow> bool" for cfg where
  Handle: "enabled ev s \<Longrightarrow> subStep cfg s ev (handle cfg ev s)"

inductive subRun :: "SubscribeOptions \<Rightarrow> subscription \<Rightarrow> event list \<Rightarrow> subscription \<Rightarrow> bool" for cfg where
  Stop: "subRun cfg s [] s"
| Step: "subStep cfg s ev s' \<Longrightarrow> subRun cfg s' evs s'' \<Longrightarrow> subRun cfg s (ev # evs) s''"

subsection \<open>One connection at a time\<close>

definition busy :: "subscription \<Rightarrow> nat" where
  "busy s = length (liveSockets s) + length (timers s) + lookups s"

definition withinLimit :: "SubscribeOptions \<Rightarrow> nat \<Rightarrow> bool" where
  "withinLimit cfg n \<longleftrightarrow> (case maxReconnectAttempts cfg of None \<Rightarrow> True | Some m \<Rightarrow> n \<le> m)"

definition soundEffect :: "SubscribeOptions \<Rightarrow> effect \<Rightarrow> bool" where
  "soundEffect cfg out \<longleftrightarrow>
     (case out of OnReconnect n d \<Rightarrow> 0 < n \<and> withinLimit cfg n \<and> d = delayOf cfg n | _ \<Rightarrow> True)"

definition wfSub :: "SubscribeOptions \<Rightarrow> subscription \<Rightarrow> bool" where
  "wfSub cfg s \<longleftrightarrow>
     busy s \<le> 1 \<and> withinLimit cfg (attempts s) \<and>
     (\<forall>t\<in>set (timers s). reconnectTimer s = Some t) \<and>
     (\<forall>k\<in>set (liveSockets s). socket s = Some k) \<and>
     (\<forall>out\<in>set (history s). soundEffect cfg out)"

lemma emit_fields [simp]:
  "socket (emit out s) = socket s" "closedByClient (emit out s) = closedByClient s" "reconnectTimer (emit out s) = reconnectTimer s"
  "attempts (emit out s) = attempts s" "lastIndexerDid (emit out s) = lastIndexerDid s" "liveSockets (emit out s) = liveSockets s"
  "openSockets (emit out s) = openSockets s" "timers (emit out s) = timers s" "lookups (emit out s) = lookups s"
  "fresh (emit out s) = fresh s" "history (emit out s) = history s @ [out]"
  by (simp_all add: emit_def)

lemma wf_emit: "wfSub cfg s \<Longrightarrow> soundEffect cfg out \<Longrightarrow> wfSub cfg (emit out s)"
  by (simp add: wfSub_def busy_def)

lemma wf_sendOn: "wfSub cfg s \<Longrightarrow> soundEffect cfg out \<Longrightarrow> wfSub cfg (sendOn k out s)"
  by (simp add: sendOn_def wf_emit)

lemma quiet_sound [simp]:
  "soundEffect cfg OnComplete" "soundEffect cfg OnError" "soundEffect cfg (NewSocket k u)" "soundEffect cfg (SentInit k)"
  "soundEffect cfg (SentSubscribe k)" "soundEffect cfg (SentPong k)" "soundEffect cfg (SentComplete k)"
  "soundEffect cfg (SocketClosing k)" "soundEffect cfg (OnNext p)" "soundEffect cfg (Evicted d)" "soundEffect cfg Unsubscribed"
  by (simp_all add: soundEffect_def)

text \<open>A free subscription: no socket, timer or lookup.\<close>

definition idle :: "SubscribeOptions \<Rightarrow> subscription \<Rightarrow> bool" where
  "idle cfg s \<longleftrightarrow> wfSub cfg s \<and> busy s = 0"

lemma idle_fields: "idle cfg s \<Longrightarrow> liveSockets s = [] \<and> timers s = [] \<and> lookups s = 0"
  by (simp add: idle_def busy_def)

lemma idle_emit: "idle cfg s \<Longrightarrow> soundEffect cfg out \<Longrightarrow> idle cfg (emit out s)"
  using wf_emit by (simp add: idle_def busy_def)

lemma idle_closed: "idle cfg s \<Longrightarrow> idle cfg (s\<lparr>closedByClient := b\<rparr>)"
  by (simp add: idle_def wfSub_def busy_def)

lemma unsubscribe_fields:
  "attempts (unsubscribe s) = attempts s" "liveSockets (unsubscribe s) = liveSockets s" "lookups (unsubscribe s) = lookups s"
  "socket (unsubscribe s) = socket s" "closedByClient (unsubscribe s)"
  "set (timers (unsubscribe s)) \<subseteq> set (timers s)" "length (timers (unsubscribe s)) \<le> length (timers s)"
  by (auto simp: unsubscribe_def Let_def clearReconnectTimer_def sendOn_def split: option.split)

lemma unsubscribe_history:
  "\<exists>out. history (unsubscribe s) = history s @ Unsubscribed # out \<and> set out \<subseteq> range SentComplete \<union> range SocketClosing"
  by (auto simp: unsubscribe_def Let_def clearReconnectTimer_def sendOn_def split: option.split)

lemma unsubscribe_timers: "wfSub cfg s \<Longrightarrow> timers (unsubscribe s) = []"
  by (cases "timers s") (auto simp: wfSub_def busy_def unsubscribe_def Let_def clearReconnectTimer_def sendOn_def split: option.split)

lemma wf_unsubscribe: "wfSub cfg s \<Longrightarrow> wfSub cfg (unsubscribe s)"
proof -
  assume w: "wfSub cfg s"
  obtain out where out: "history (unsubscribe s) = history s @ Unsubscribed # out"
    "set out \<subseteq> range SentComplete \<union> range SocketClosing" using unsubscribe_history by blast
  have "\<forall>e\<in>set out. soundEffect cfg e" using out(2) by (auto simp: soundEffect_def)
  then show ?thesis using w out(1) unsubscribe_timers [OF w] by (auto simp: wfSub_def busy_def unsubscribe_fields)
qed

lemma wf_tell: "wfSub cfg s \<Longrightarrow> soundEffect cfg out \<Longrightarrow> wfSub cfg (tell cfg out s)"
  by (simp add: tell_def Let_def wf_emit wf_unsubscribe)

lemma tell_fields:
  "attempts (tell cfg out s) = attempts s" "liveSockets (tell cfg out s) = liveSockets s" "lookups (tell cfg out s) = lookups s"
  "socket (tell cfg out s) = socket s" "set (timers (tell cfg out s)) \<subseteq> set (timers s)"
  "length (timers (tell cfg out s)) \<le> length (timers s)"
  "closedByClient s \<Longrightarrow> closedByClient (tell cfg out s)"
  using unsubscribe_fields(6,7) [of "emit out s"] by (simp_all add: tell_def Let_def unsubscribe_fields)

lemma idle_tell: "idle cfg s \<Longrightarrow> soundEffect cfg out \<Longrightarrow> idle cfg (tell cfg out s)"
  using wf_tell [of cfg s out] tell_fields(6) [of cfg out s] by (simp add: idle_def busy_def tell_fields)

lemma wf_schedule: "idle cfg s \<Longrightarrow> wfSub cfg (scheduleReconnect cfg s)"
proof -
  assume i: "idle cfg s"
  show ?thesis
  proof (cases "closedByClient s \<or> \<not> reconnect cfg \<or> exhausted cfg (attempts s)")
    case True
    then show ?thesis using i wf_tell by (auto simp: scheduleReconnect_def idle_def)
  next
    case False
    then have l: "withinLimit cfg (attempts s + 1)" by (auto simp: exhausted_def withinLimit_def split: option.splits)
    let ?n = "attempts s + 1"
    let ?t = "tell cfg (OnReconnect ?n (delayOf cfg ?n)) (s\<lparr>attempts := ?n\<rparr>)"
    have "idle cfg (s\<lparr>attempts := ?n\<rparr>)" using i l by (simp add: idle_def wfSub_def busy_def)
    moreover have "soundEffect cfg (OnReconnect ?n (delayOf cfg ?n))" using l by (simp add: soundEffect_def)
    ultimately have t: "idle cfg ?t" by (rule idle_tell)
    show ?thesis using t idle_fields [OF t] False
      by (simp add: scheduleReconnect_def Let_def idle_def wfSub_def busy_def)
  qed
qed

lemma idle_finish: "idle cfg s \<Longrightarrow> idle cfg (finish cfg s)"
  by (simp add: finish_def idle_closed idle_tell)

lemma wf_retry: "idle cfg s \<Longrightarrow> wfSub cfg (retry cfg s)"
  using idle_finish by (auto simp: retry_def wf_schedule idle_def)

lemma wf_wire: "idle cfg s \<Longrightarrow> wfSub cfg (snd (wireSocket b u s))"
proof -
  assume i: "idle cfg s"
  note f = idle_fields [OF i]
  show ?thesis
  proof (cases "closedByClient s \<or> b")
    case True
    then show ?thesis using i by (auto simp: wireSocket_def idle_def)
  next
    case False
    then show ?thesis using i f by (simp add: wireSocket_def Let_def idle_def wfSub_def busy_def)
  qed
qed

lemma wire_threw: "fst (wireSocket b u s) \<Longrightarrow> snd (wireSocket b u s) = s"
  by (simp add: wireSocket_def Let_def split: if_splits)

lemma wf_lookup: "idle cfg s \<Longrightarrow> wfSub cfg (s\<lparr>lookups := lookups s + 1\<rparr>)"
  by (simp add: idle_def wfSub_def busy_def)

lemma wf_open: "idle cfg s \<Longrightarrow> wfSub cfg (openConnection cfg b s)"
proof -
  assume i: "idle cfg s"
  have e: "idle cfg (case lastIndexerDid s of Some (c # did) \<Rightarrow> emit (Evicted (c # did)) s | _ \<Rightarrow> s)"
    using i idle_emit by (auto split: option.split list.split)
  have f: "wfSub cfg (finish cfg (tell cfg OnError s))" using idle_finish [OF idle_tell [OF i]] by (simp add: idle_def)
  show ?thesis unfolding openConnection_def Let_def
    using i wf_wire [OF i] f wf_lookup [OF e] by (simp add: idle_def split: SubscribeSource.split)
qed

text \<open>Each event that ends a socket, timer or lookup leaves the subscription idle, and adds one at most.\<close>

lemma idle_closed_socket:
  "wfSub cfg s \<Longrightarrow> k \<in> set (liveSockets s) \<Longrightarrow>
     idle cfg (s\<lparr>liveSockets := removeAll k (liveSockets s), openSockets := os\<rparr>)"
  by (cases "liveSockets s") (auto simp: idle_def wfSub_def busy_def)

lemma idle_timer: "wfSub cfg s \<Longrightarrow> t \<in> set (timers s) \<Longrightarrow> idle cfg (s\<lparr>timers := removeAll t (timers s), reconnectTimer := None\<rparr>)"
  by (cases "timers s") (auto simp: idle_def wfSub_def busy_def)

lemma idle_lookup: "wfSub cfg s \<Longrightarrow> 0 < lookups s \<Longrightarrow> idle cfg (s\<lparr>lookups := lookups s - 1\<rparr>)"
  by (cases "liveSockets s"; cases "timers s") (auto simp: idle_def wfSub_def busy_def)

lemma wf_lookedUp:
  assumes "wfSub cfg s" "0 < lookups s"
  shows "wfSub cfg (lookedUp cfg found b s)"
proof -
  let ?s = "s\<lparr>lookups := lookups s - 1\<rparr>"
  have i: "idle cfg ?s" using assms by (rule idle_lookup)
  have r: "wfSub cfg (retry cfg (tell cfg OnError ?s))" using wf_retry idle_tell [OF i] by simp
  show ?thesis
  proof (cases found)
    case (Some xs)
    show ?thesis
    proof (cases xs)
      case (Cons c cs)
      let ?t = "?s\<lparr>lastIndexerDid := Some (indexer_did c)\<rparr>"
      let ?u = "toWsUrl (location cfg) (dropSlash (effectiveQueryEndpoint c)) @ ''/graphql/ws''"
      have it: "idle cfg ?t" using i by (simp add: idle_def wfSub_def busy_def)
      obtain threw w where w: "wireSocket b ?u ?t = (threw, w)" by fastforce
      have "wfSub cfg w" using wf_wire [OF it, of b ?u] w by simp
      moreover have "threw \<Longrightarrow> wfSub cfg (retry cfg (tell cfg OnError w))"
        using wire_threw [of b ?u ?t] w wf_retry [OF idle_tell [OF it, of OnError]] by simp
      ultimately show ?thesis using Some Cons w by (simp add: lookedUp_def Let_def)
    qed (use Some r in \<open>simp add: lookedUp_def Let_def\<close>)
  qed (use r in \<open>simp add: lookedUp_def Let_def\<close>)
qed

lemma wf_message: "wfSub cfg s \<Longrightarrow> wfSub cfg (messageReceived cfg k msg s)"
proof -
  assume w: "wfSub cfg s"
  have a: "wfSub cfg (s\<lparr>attempts := 0\<rparr>)" using w by (simp add: wfSub_def busy_def withinLimit_def split: option.split)
  have f: "wfSub cfg (finish cfg s)"
    unfolding finish_def by (rule wf_tell) (use w in \<open>simp_all add: wfSub_def busy_def\<close>)
  show ?thesis using w f wf_sendOn [OF a] wf_sendOn [OF w] wf_tell [OF w]
    by (simp add: messageReceived_def split: option.split ServerMessage.split)
qed

lemma wf_handle: "wfSub cfg s \<Longrightarrow> enabled ev s \<Longrightarrow> wfSub cfg (handle cfg ev s)"
proof (cases ev)
  case (Opened k)
  assume "wfSub cfg s"
  then have "wfSub cfg (s\<lparr>openSockets := openSockets s @ [k]\<rparr>)" by (simp add: wfSub_def busy_def)
  then show ?thesis using Opened by (simp add: handle_def socketOpened_def wf_sendOn)
next
  case (Closed k)
  assume w: "wfSub cfg s" "enabled ev s"
  then have "idle cfg (s\<lparr>liveSockets := removeAll k (liveSockets s), openSockets := removeAll k (openSockets s)\<rparr>)"
    using Closed idle_closed_socket by (simp add: enabled_def)
  then show ?thesis using Closed wf_schedule by (simp add: handle_def socketClosed_def Let_def idle_def)
next
  case (Fired t b)
  assume "wfSub cfg s" "enabled ev s"
  then show ?thesis using Fired wf_open [OF idle_timer] by (simp add: handle_def timerFired_def enabled_def)
qed (simp_all add: handle_def enabled_def wf_message wf_tell wf_lookedUp wf_unsubscribe)

lemma wf_subscribe: "wfSub cfg (subscribe cfg b)"
  unfolding subscribe_def
  by (rule wf_open) (simp add: idle_def wfSub_def busy_def withinLimit_def split: option.split)


subsection \<open>After the end\<close>

text \<open>Nothing that opens a connection.\<close>

fun quiet :: "effect \<Rightarrow> bool" where
  "quiet (NewSocket k u) = False"
| "quiet (OnReconnect n d) = False"
| "quiet (Evicted d) = False"
| "quiet out = True"

text \<open>Wherever the log has the caller's call: all is quiet since, and no timer is left, unless the call was
  made in \<open>onReconnect\<close>.\<close>

definition stays :: "subscription \<Rightarrow> bool" where
  "stays s \<longleftrightarrow>
     (\<forall>before after. history s = before @ Unsubscribed # after \<longrightarrow>
        closedByClient s \<and> list_all quiet after \<and>
        (timers s = [] \<or> (\<exists>earlier n d. before = earlier @ [OnReconnect n d])))"

lemma stays_open: "stays s \<Longrightarrow> \<not> closedByClient s \<Longrightarrow> Unsubscribed \<notin> set (history s)"
  unfolding stays_def by (meson split_list)

lemma stays_never: "Unsubscribed \<notin> set (history s) \<Longrightarrow> stays s"
  by (auto simp: stays_def)

lemma stays_same:
  "stays s \<Longrightarrow> history t = history s \<Longrightarrow> (closedByClient s \<Longrightarrow> closedByClient t) \<Longrightarrow>
     set (timers t) \<subseteq> set (timers s) \<Longrightarrow> stays t"
  unfolding stays_def by (metis list.set(1) set_empty subset_empty)

lemma stays_emit:
  assumes "stays s" "out \<noteq> Unsubscribed" "quiet out \<or> \<not> closedByClient s"
  shows "stays (emit out s)"
  unfolding stays_def
proof (intro allI impI)
  fix before "after"
  assume h: "history (emit out s) = before @ Unsubscribed # after"
  show "closedByClient (emit out s) \<and> list_all quiet after \<and>
      (timers (emit out s) = [] \<or> (\<exists>earlier n d. before = earlier @ [OnReconnect n d]))"
  proof (cases "after" rule: rev_cases)
    case Nil
    then show ?thesis using h assms(2) by simp
  next
    case (snoc rest e)
    then have e: "e = out" "history s = before @ Unsubscribed # rest" using h by simp_all
    then show ?thesis using assms(1,3) snoc unfolding stays_def by auto
  qed
qed

lemma stays_sendOn: "stays s \<Longrightarrow> out \<noteq> Unsubscribed \<Longrightarrow> quiet out \<Longrightarrow> stays (sendOn k out s)"
  by (simp add: sendOn_def stays_emit)

lemma split_two:
  assumes "xs @ x # ys = before @ x # after" "x \<notin> set ys"
  shows "(before = xs \<and> after = ys) \<or> (\<exists>mid. xs = before @ x # mid \<and> after = mid @ x # ys)"
  using assms by (auto simp: append_eq_append_conv2 append_eq_Cons_conv Cons_eq_append_conv)

lemma stays_unsubscribe:
  assumes "wfSub cfg s" "stays s"
  shows "stays (unsubscribe s)"
  unfolding stays_def
proof (intro allI impI)
  fix before "after"
  assume h: "history (unsubscribe s) = before @ Unsubscribed # after"
  obtain out where out: "history (unsubscribe s) = history s @ Unsubscribed # out"
    "set out \<subseteq> range SentComplete \<union> range SocketClosing" using unsubscribe_history by blast
  have q: "list_all quiet out" "Unsubscribed \<notin> set out" using out(2) by (auto simp: list_all_iff)
  have "(before = history s \<and> after = out) \<or> (\<exists>mid. history s = before @ Unsubscribed # mid \<and> after = mid @ Unsubscribed # out)"
    using h out(1) q(2) split_two by metis
  then have "list_all quiet after" using q assms(2) unfolding stays_def by auto
  then show "closedByClient (unsubscribe s) \<and> list_all quiet after \<and>
      (timers (unsubscribe s) = [] \<or> (\<exists>earlier n d. before = earlier @ [OnReconnect n d]))"
    using unsubscribe_timers [OF assms(1)] by (simp add: unsubscribe_fields)
qed

lemma stays_tell:
  assumes "wfSub cfg s" "stays s" "out \<noteq> Unsubscribed" "quiet out \<or> \<not> closedByClient s" "soundEffect cfg out"
  shows "stays (tell cfg out s)"
  using stays_emit [OF assms(2-4)] stays_unsubscribe [OF wf_emit [OF assms(1,5)]] by (simp add: tell_def Let_def)

lemma stays_schedule:
  assumes "idle cfg s" "stays s"
  shows "stays (scheduleReconnect cfg s)"
proof -
  have w: "wfSub cfg s" using assms(1) by (simp add: idle_def)
  show ?thesis
  proof (cases "closedByClient s \<or> \<not> reconnect cfg \<or> exhausted cfg (attempts s)")
    case True
    then show ?thesis using stays_tell [OF w assms(2), of OnComplete] by (auto simp: scheduleReconnect_def)
  next
    case False
    let ?n = "attempts s + 1"
    let ?e = "OnReconnect ?n (delayOf cfg ?n)"
    let ?u = "emit ?e (s\<lparr>attempts := ?n\<rparr>)"
    have never: "Unsubscribed \<notin> set (history s)" using stays_open [OF assms(2)] False by blast
    define t where "t = tell cfg ?e (s\<lparr>attempts := ?n\<rparr>)"
    have sch: "scheduleReconnect cfg s = t\<lparr>reconnectTimer := Some (fresh t), timers := timers t @ [fresh t], fresh := fresh t + 1\<rparr>"
      using False by (simp add: scheduleReconnect_def Let_def t_def)
    show ?thesis
    proof (cases "unsubscribesIn cfg (history ?u)")
      case True
      obtain out where out: "history (unsubscribe ?u) = history ?u @ Unsubscribed # out"
        "set out \<subseteq> range SentComplete \<union> range SocketClosing" using unsubscribe_history by blast
      have q: "list_all quiet out" "Unsubscribed \<notin> set out" using out(2) by (auto simp: list_all_iff)
      have t: "t = unsubscribe ?u" using True by (simp add: t_def tell_def Let_def)
      show ?thesis unfolding stays_def sch
      proof (intro allI impI)
        fix before "after"
        assume "history (t\<lparr>reconnectTimer := Some (fresh t), timers := timers t @ [fresh t], fresh := fresh t + 1\<rparr>) =
          before @ Unsubscribed # after"
        then have e: "history ?u @ Unsubscribed # out = before @ Unsubscribed # after" using out(1) t by simp
        have "\<nexists>mid. history ?u = before @ Unsubscribed # mid \<and> after = mid @ Unsubscribed # out"
        proof
          assume "\<exists>mid. history ?u = before @ Unsubscribed # mid \<and> after = mid @ Unsubscribed # out"
          then have "Unsubscribed \<in> set (history ?u)" by (metis in_set_conv_decomp)
          with never show False by simp
        qed
        with split_two [OF e q(2)] have "before = history ?u \<and> after = out" by blast
        then show "closedByClient (t\<lparr>reconnectTimer := Some (fresh t), timers := timers t @ [fresh t], fresh := fresh t + 1\<rparr>) \<and>
            list_all quiet after \<and>
            (timers (t\<lparr>reconnectTimer := Some (fresh t), timers := timers t @ [fresh t], fresh := fresh t + 1\<rparr>) = [] \<or>
             (\<exists>earlier n d. before = earlier @ [OnReconnect n d]))"
          using q(1) t by (simp add: unsubscribe_fields)
      qed
    next
      case False
      then have "t = ?u" by (simp add: t_def tell_def Let_def)
      then show ?thesis unfolding sch by (intro stays_never) (use never in simp)
    qed
  qed
qed

lemma stays_finish: "wfSub cfg s \<Longrightarrow> stays s \<Longrightarrow> stays (finish cfg s)"
  unfolding finish_def by (rule stays_tell, simp add: wfSub_def busy_def, erule stays_same) simp_all

lemma stays_retry: "idle cfg s \<Longrightarrow> stays s \<Longrightarrow> stays (retry cfg s)"
  using stays_finish [of cfg s] stays_schedule [of cfg s] by (simp add: retry_def idle_def)

lemma stays_wire: "stays s \<Longrightarrow> stays (snd (wireSocket b u s))"
proof (cases "closedByClient s \<or> b")
  case True
  assume "stays s"
  then show ?thesis using True by (auto simp: wireSocket_def)
next
  case False
  assume "stays s"
  then have "stays (emit (NewSocket (fresh s) u) s)" using False by (intro stays_emit) simp_all
  then show ?thesis using False by (simp add: wireSocket_def Let_def) (erule stays_same; simp)
qed

lemma stays_openConnection:
  assumes i: "idle cfg s" and st: "stays s"
  shows "stays (openConnection cfg b s)"
proof (cases "closedByClient s")
  case True
  then show ?thesis using st by (simp add: openConnection_def)
next
  case False
  define x where "x = (case lastIndexerDid s of Some (c # did) \<Rightarrow> emit (Evicted (c # did)) s | _ \<Rightarrow> s)"
  have "stays x" using st stays_emit [OF st, of "Evicted d" for d] False unfolding x_def
    by (simp split: option.split list.split)
  then have x: "stays (x\<lparr>lookups := lookups x + 1\<rparr>)" by (rule stays_same) simp_all
  have "stays (finish cfg (tell cfg OnError s))"
    by (rule stays_finish) (use i st idle_tell [OF i, of OnError] stays_tell [of cfg s OnError] in \<open>simp_all add: idle_def\<close>)
  then show ?thesis unfolding openConnection_def Let_def x_def [symmetric]
    using False x stays_wire [OF st] by (cases "source cfg") simp_all
qed

lemma stays_lookedUp:
  assumes "wfSub cfg s" "0 < lookups s" "stays s"
  shows "stays (lookedUp cfg found b s)"
proof -
  let ?s = "s\<lparr>lookups := lookups s - 1\<rparr>"
  have retry: "stays (retry cfg (tell cfg OnError t))" if "idle cfg t" "stays t" for t
    by (rule stays_retry [OF idle_tell [OF that(1)]]) (use that stays_tell [of cfg t OnError] in \<open>simp_all add: idle_def\<close>)
  have i: "idle cfg ?s" using assms(1,2) by (rule idle_lookup)
  have st: "stays ?s" by (rule stays_same [OF assms(3)]) simp_all
  show ?thesis
  proof (cases found)
    case (Some xs)
    show ?thesis
    proof (cases xs)
      case (Cons c cs)
      let ?t = "?s\<lparr>lastIndexerDid := Some (indexer_did c)\<rparr>"
      let ?u = "toWsUrl (location cfg) (dropSlash (effectiveQueryEndpoint c)) @ ''/graphql/ws''"
      have it: "idle cfg ?t" using i by (simp add: idle_def wfSub_def busy_def)
      have stt: "stays ?t" by (rule stays_same [OF st]) simp_all
      obtain threw w where w: "wireSocket b ?u ?t = (threw, w)" by fastforce
      then have "stays w" using stays_wire [OF stt, of b ?u] by simp
      moreover have "threw \<Longrightarrow> w = ?t" using wire_threw [of b ?u ?t] w by simp
      ultimately show ?thesis using Some Cons w retry [OF it stt] by (simp add: lookedUp_def Let_def)
    qed (use Some retry [OF i st] in \<open>simp add: lookedUp_def Let_def\<close>)
  qed (use retry [OF i st] in \<open>simp add: lookedUp_def Let_def\<close>)
qed

lemma stays_message: "wfSub cfg s \<Longrightarrow> stays s \<Longrightarrow> stays (messageReceived cfg k msg s)"
proof -
  assume w: "wfSub cfg s" and st: "stays s"
  have "stays (s\<lparr>attempts := 0\<rparr>)" by (rule stays_same [OF st]) simp_all
  then show ?thesis using st stays_tell [OF w st] stays_finish [OF w st] stays_sendOn
    by (simp add: messageReceived_def split: option.split ServerMessage.split)
qed

lemma stays_handle:
  assumes "wfSub cfg s" "enabled ev s" "stays s"
  shows "stays (handle cfg ev s)"
proof (cases ev)
  case (Opened k)
  have "stays (s\<lparr>openSockets := openSockets s @ [k]\<rparr>)" by (rule stays_same [OF assms(3)]) simp_all
  then show ?thesis using Opened by (simp add: handle_def socketOpened_def stays_sendOn)
next
  case (Closed k)
  let ?s = "s\<lparr>liveSockets := removeAll k (liveSockets s), openSockets := removeAll k (openSockets s)\<rparr>"
  have "stays ?s" by (rule stays_same [OF assms(3)]) simp_all
  moreover have "idle cfg ?s" using Closed assms(1,2) idle_closed_socket by (simp add: enabled_def)
  ultimately show ?thesis using Closed stays_schedule by (simp add: handle_def socketClosed_def Let_def)
next
  case (Fired t b)
  have "stays (s\<lparr>timers := removeAll t (timers s), reconnectTimer := None\<rparr>)" by (rule stays_same [OF assms(3)]) auto
  then show ?thesis using Fired stays_openConnection idle_timer assms(1,2) by (simp add: handle_def timerFired_def enabled_def)
qed (use assms in \<open>simp_all add: handle_def enabled_def stays_message stays_tell stays_lookedUp stays_unsubscribe\<close>)

lemma stays_run: "subRun cfg s evs t \<Longrightarrow> wfSub cfg s \<Longrightarrow> stays s \<Longrightarrow> stays t"
  by (induction rule: subRun.induct) (auto elim!: subStep.cases simp: wf_handle stays_handle)

lemma stays_subscribe: "stays (subscribe cfg b)"
  unfolding subscribe_def
  by (rule stays_openConnection)
    (simp_all add: idle_def wfSub_def busy_def withinLimit_def stays_never split: option.split)

text \<open>A timer that is left does nothing when it fires.\<close>

lemma closed_timer: "closedByClient s \<Longrightarrow> handle cfg (Fired t b) s = s\<lparr>timers := removeAll t (timers s), reconnectTimer := None\<rparr>"
  by (simp add: handle_def timerFired_def openConnection_def)

subsection \<open>Giving up\<close>

text \<open>Events that end a socket, a timer or a lookup.\<close>

fun connecting :: "event \<Rightarrow> bool" where
  "connecting (Closed k) = True"
| "connecting (Fired t b) = True"
| "connecting (LookedUp found b) = True"
| "connecting ev = False"

fun acknowledged :: "event \<Rightarrow> bool" where
  "acknowledged (Received k (Some ConnectionAck)) = True"
| "acknowledged ev = False"

text \<open>What is left to do before the attempts run out.\<close>

definition effort :: "nat \<Rightarrow> subscription \<Rightarrow> nat" where
  "effort m s = 3 * (m - attempts s) + 3 * length (timers s) + 2 * lookups s + length (liveSockets s)"

lemma effort_emit [simp]: "effort m (emit out s) = effort m s"
  by (simp add: effort_def)

lemma effort_sendOn [simp]: "effort m (sendOn k out s) = effort m s"
  by (simp add: sendOn_def)

lemma effort_unsubscribe: "effort m (unsubscribe s) \<le> effort m s"
  using unsubscribe_fields(7) [of s] by (simp add: effort_def unsubscribe_fields)

lemma effort_tell: "effort m (tell cfg out s) \<le> effort m s"
  using effort_unsubscribe [of m "emit out s"] by (simp add: tell_def Let_def)

lemma effort_finish: "effort m (finish cfg s) \<le> effort m s"
  unfolding finish_def by (rule order_trans [OF effort_tell]) (simp add: effort_def)

lemma effort_schedule:
  assumes "maxReconnectAttempts cfg = Some m"
  shows "effort m (scheduleReconnect cfg s) \<le> effort m s"
proof (cases "closedByClient s \<or> \<not> reconnect cfg \<or> exhausted cfg (attempts s)")
  case True
  then show ?thesis using effort_tell by (auto simp: scheduleReconnect_def)
next
  case False
  let ?t = "tell cfg (OnReconnect (attempts s + 1) (delayOf cfg (attempts s + 1))) (s\<lparr>attempts := attempts s + 1\<rparr>)"
  have "effort m ?t + 3 \<le> effort m s"
    by (rule order_trans [OF add_right_mono [OF effort_tell]])
      (use False assms in \<open>auto simp: effort_def exhausted_def\<close>)
  then show ?thesis using False by (simp add: scheduleReconnect_def Let_def) (simp add: effort_def)
qed

lemma effort_retry: "maxReconnectAttempts cfg = Some m \<Longrightarrow> effort m (retry cfg s) \<le> effort m s"
  by (simp add: retry_def effort_schedule effort_finish)

lemma effort_wire: "effort m (snd (wireSocket b u s)) \<le> effort m s + 1"
  by (simp add: wireSocket_def Let_def) (simp add: effort_def)

lemma effort_open: "effort m (openConnection cfg b s) \<le> effort m s + 2"
proof -
  have e: "effort m (t\<lparr>lookups := lookups t + 1\<rparr>) = effort m t + 2" for t by (simp add: effort_def)
  define x where "x = (case lastIndexerDid s of Some (c # did) \<Rightarrow> emit (Evicted (c # did)) s | _ \<Rightarrow> s)"
  have x: "effort m x = effort m s" by (simp add: x_def split: option.split list.split)
  have w: "effort m (snd (wireSocket b u s)) \<le> effort m s + 2" for u using effort_wire [of m b u s] by linarith
  have f: "effort m (finish cfg (tell cfg OnError s)) \<le> effort m s" using effort_finish effort_tell order_trans by blast
  show ?thesis unfolding openConnection_def Let_def x_def [symmetric]
    using w e [of x] x f by (cases "source cfg") simp_all
qed

lemma effort_lookedUp:
  assumes "maxReconnectAttempts cfg = Some m" "0 < lookups s"
  shows "effort m (lookedUp cfg found b s) + 1 \<le> effort m s"
proof -
  let ?s = "s\<lparr>lookups := lookups s - 1\<rparr>"
  have l: "effort m ?s + 2 = effort m s" using assms(2) by (simp add: effort_def)
  have r: "effort m (retry cfg (tell cfg OnError t)) \<le> effort m t" for t
    using effort_retry [OF assms(1)] effort_tell order_trans by blast
  show ?thesis
  proof (cases found)
    case (Some xs)
    show ?thesis
    proof (cases xs)
      case (Cons c cs)
      let ?t = "?s\<lparr>lastIndexerDid := Some (indexer_did c)\<rparr>"
      let ?u = "toWsUrl (location cfg) (dropSlash (effectiveQueryEndpoint c)) @ ''/graphql/ws''"
      have t: "effort m ?t = effort m ?s" by (simp add: effort_def)
      obtain threw w where w: "wireSocket b ?u ?t = (threw, w)" by fastforce
      then have "effort m w \<le> effort m ?s + 1" using effort_wire [of m b ?u ?t] t by simp
      then have "effort m (if threw then retry cfg (tell cfg OnError w) else w) \<le> effort m ?s + 1"
        using r [of w] by (simp split: if_split)
      then show ?thesis using Some Cons w l by (simp add: lookedUp_def Let_def)
    qed (use Some r [of ?s] l in \<open>simp add: lookedUp_def Let_def\<close>)
  qed (use r [of ?s] l in \<open>simp add: lookedUp_def Let_def\<close>)
qed

lemma effort_handle:
  assumes "maxReconnectAttempts cfg = Some m" "enabled ev s" "\<not> acknowledged ev"
  shows "effort m (handle cfg ev s) + (if connecting ev then 1 else 0) \<le> effort m s"
proof (cases ev)
  case (Opened k)
  have "effort m (s\<lparr>openSockets := openSockets s @ [k]\<rparr>) = effort m s" by (simp add: effort_def)
  then show ?thesis using Opened by (simp add: handle_def socketOpened_def)
next
  case (Received k msg)
  then show ?thesis using assms(3) effort_tell effort_finish
    by (auto simp: handle_def messageReceived_def split: option.split ServerMessage.split)
next
  case (Closed k)
  let ?s = "s\<lparr>liveSockets := removeAll k (liveSockets s), openSockets := removeAll k (openSockets s)\<rparr>"
  have "k \<in> set (liveSockets s)" using assms(2) Closed by (simp add: enabled_def)
  then have "effort m ?s + 1 \<le> effort m s" using length_removeAll_less [of k "liveSockets s"] by (simp add: effort_def)
  then show ?thesis using Closed effort_schedule [OF assms(1), of ?s]
    by (simp add: handle_def socketClosed_def Let_def)
next
  case (Fired t b)
  let ?s = "s\<lparr>timers := removeAll t (timers s), reconnectTimer := None\<rparr>"
  have "t \<in> set (timers s)" using assms(2) Fired by (simp add: enabled_def)
  then have "effort m ?s + 3 \<le> effort m s" using length_removeAll_less [of t "timers s"] by (simp add: effort_def)
  then show ?thesis using Fired effort_open [of m cfg b ?s] by (simp add: handle_def timerFired_def)
next
  case (LookedUp found b)
  then show ?thesis using effort_lookedUp [OF assms(1)] assms(2) by (simp add: handle_def enabled_def)
next
  case Unsubscribe
  then show ?thesis using effort_unsubscribe by (simp add: handle_def)
qed (use effort_tell in \<open>simp add: handle_def\<close>)

lemma effort_run:
  "subRun cfg s evs t \<Longrightarrow> maxReconnectAttempts cfg = Some m \<Longrightarrow> list_all (\<lambda>ev. \<not> acknowledged ev) evs \<Longrightarrow>
     length (filter connecting evs) + effort m t \<le> effort m s"
proof (induction rule: subRun.induct)
  case (Step s ev s' evs s'')
  then have "enabled ev s" "s' = handle cfg ev s" by (auto elim: subStep.cases)
  then have "effort m s' + (if connecting ev then 1 else 0) \<le> effort m s" using effort_handle Step.prems by auto
  moreover have "length (filter connecting evs) + effort m s'' \<le> effort m s'" using Step by simp
  ultimately show ?case by (simp split: if_splits)
qed simp

lemma effort_subscribe: "effort m (subscribe cfg b) \<le> 3 * m + 2"
  unfolding subscribe_def by (rule order_trans [OF effort_open]) (simp add: effort_def)

text \<open>Whoever is closed or has nothing left to wait for has told its caller, or was told by it.\<close>

definition ended :: "subscription \<Rightarrow> bool" where
  "ended s \<longleftrightarrow> OnComplete \<in> set (history s) \<or> Unsubscribed \<in> set (history s)"

definition settled :: "subscription \<Rightarrow> bool" where
  "settled s \<longleftrightarrow> (closedByClient s \<or> busy s = 0 \<longrightarrow> ended s)"

lemma ended_emit [simp]: "ended (emit out s) \<longleftrightarrow> ended s \<or> out = OnComplete \<or> out = Unsubscribed"
  by (auto simp: ended_def)

lemma ended_unsubscribe: "ended (unsubscribe s)"
proof -
  obtain out where "history (unsubscribe s) = history s @ Unsubscribed # out" using unsubscribe_history by blast
  then show ?thesis by (simp add: ended_def)
qed

lemma ended_tell: "ended s \<or> out = OnComplete \<Longrightarrow> ended (tell cfg out s)"
  by (auto simp: tell_def Let_def ended_unsubscribe)

lemma settled_ended: "ended s \<Longrightarrow> settled s"
  by (simp add: settled_def)

lemma settled_schedule: "settled (scheduleReconnect cfg s)"
proof (cases "closedByClient s \<or> \<not> reconnect cfg \<or> exhausted cfg (attempts s)")
  case True
  then have "ended (scheduleReconnect cfg s)" by (auto simp: scheduleReconnect_def ended_tell)
  then show ?thesis by (rule settled_ended)
next
  case False
  let ?e = "OnReconnect (attempts s + 1) (delayOf cfg (attempts s + 1))"
  let ?s = "s\<lparr>attempts := attempts s + 1\<rparr>"
  show ?thesis
  proof (cases "unsubscribesIn cfg (history (emit ?e ?s))")
    case True
    then have "ended (tell cfg ?e ?s)" by (simp add: tell_def Let_def ended_unsubscribe)
    then show ?thesis using False by (intro settled_ended) (simp add: scheduleReconnect_def Let_def ended_def)
  qed (use False in \<open>simp add: scheduleReconnect_def Let_def tell_def settled_def busy_def\<close>)
qed

lemma settled_finish: "settled (finish cfg s)"
  by (rule settled_ended) (simp add: finish_def ended_tell)

lemma settled_retry: "settled (retry cfg s)"
  by (simp add: retry_def settled_schedule settled_finish)

lemma settled_wire:
  assumes "closedByClient s \<longrightarrow> ended s" "\<not> fst (wireSocket b u s)"
  shows "settled (snd (wireSocket b u s))"
proof (cases "closedByClient s")
  case True
  then show ?thesis using assms(1) by (simp add: wireSocket_def settled_ended)
next
  case False
  then show ?thesis using assms(2)
    by (simp add: wireSocket_def Let_def settled_def busy_def split: if_splits)
qed

text \<open>The constructor of a validator's socket does not throw.\<close>

fun opens :: "SubscribeOptions \<Rightarrow> event \<Rightarrow> bool" where
  "opens cfg (Fired t b) = (source cfg = FromValidator \<longrightarrow> \<not> b)"
| "opens cfg ev = True"

lemma settled_open:
  assumes "closedByClient s \<longrightarrow> ended s" "source cfg = FromValidator \<longrightarrow> \<not> b"
  shows "settled (openConnection cfg b s)"
proof (cases "closedByClient s")
  case True
  then show ?thesis using assms(1) by (simp add: openConnection_def settled_ended)
next
  case False
  define x where "x = (case lastIndexerDid s of Some (c # did) \<Rightarrow> emit (Evicted (c # did)) s | _ \<Rightarrow> s)"
  have x: "\<not> closedByClient x" using False by (simp add: x_def split: option.split list.split)
  show ?thesis
  proof (cases "source cfg")
    case FromValidator
    then have "\<not> fst (wireSocket b u s)" for u using assms(2) by (simp add: wireSocket_def Let_def)
    then show ?thesis using settled_wire [OF assms(1)] FromValidator False by (simp add: openConnection_def)
  next
    case FromIndexer
    then show ?thesis unfolding openConnection_def Let_def x_def [symmetric]
      using False x settled_finish by (simp add: settled_def busy_def)
  qed
qed

lemma settled_lookedUp:
  assumes "closedByClient s \<longrightarrow> ended s"
  shows "settled (lookedUp cfg found b s)"
proof -
  let ?s = "s\<lparr>lookups := lookups s - 1\<rparr>"
  show ?thesis
  proof (cases found)
    case (Some xs)
    show ?thesis
    proof (cases xs)
      case (Cons c cs)
      let ?t = "?s\<lparr>lastIndexerDid := Some (indexer_did c)\<rparr>"
      let ?u = "toWsUrl (location cfg) (dropSlash (effectiveQueryEndpoint c)) @ ''/graphql/ws''"
      have t: "closedByClient ?t \<longrightarrow> ended ?t" using assms by (simp add: ended_def)
      obtain threw w where w: "wireSocket b ?u ?t = (threw, w)" by fastforce
      then have "\<not> threw \<Longrightarrow> settled w" using settled_wire [OF t, of b ?u] by simp
      then show ?thesis using Some Cons w settled_retry by (simp add: lookedUp_def Let_def)
    qed (use Some settled_retry in \<open>simp add: lookedUp_def Let_def\<close>)
  qed (use settled_retry in \<open>simp add: lookedUp_def Let_def\<close>)
qed

lemma settled_same: "settled s \<Longrightarrow> closedByClient t = closedByClient s \<Longrightarrow> busy t = busy s \<Longrightarrow> (ended s \<Longrightarrow> ended t) \<Longrightarrow> settled t"
  by (auto simp: settled_def)

lemma settled_emit: "settled s \<Longrightarrow> settled (emit out s)"
  by (erule settled_same) (simp_all add: busy_def)

lemma settled_tell: "settled s \<Longrightarrow> settled (tell cfg out s)"
  using settled_ended [OF ended_unsubscribe] by (simp add: tell_def Let_def settled_emit)

lemma settled_sendOn: "settled s \<Longrightarrow> settled (sendOn k out s)"
  by (simp add: sendOn_def settled_emit)

lemma settled_handle:
  assumes "settled s" "opens cfg ev"
  shows "settled (handle cfg ev s)"
proof (cases ev)
  case (Opened k)
  have "settled (s\<lparr>openSockets := openSockets s @ [k]\<rparr>)"
    by (rule settled_same [OF assms(1)]) (simp_all add: busy_def ended_def)
  then show ?thesis using Opened by (simp add: handle_def socketOpened_def settled_sendOn)
next
  case (Received k msg)
  have "settled (s\<lparr>attempts := 0\<rparr>)" by (rule settled_same [OF assms(1)]) (simp_all add: busy_def ended_def)
  then show ?thesis using Received assms(1) settled_finish
    by (simp add: handle_def messageReceived_def settled_sendOn settled_tell split: option.split ServerMessage.split)
next
  case (Closed k)
  let ?s = "s\<lparr>liveSockets := removeAll k (liveSockets s), openSockets := removeAll k (openSockets s)\<rparr>"
  have "closedByClient s \<Longrightarrow> settled ?s" using assms(1) by (simp add: settled_def ended_def)
  then show ?thesis using Closed settled_schedule by (simp add: handle_def socketClosed_def Let_def)
next
  case (Fired t b)
  let ?s = "s\<lparr>timers := removeAll t (timers s), reconnectTimer := None\<rparr>"
  have "closedByClient ?s \<longrightarrow> ended ?s" using assms(1) by (simp add: settled_def ended_def)
  then show ?thesis using Fired assms(2) settled_open by (simp add: handle_def timerFired_def)
next
  case (LookedUp found b)
  then show ?thesis using assms(1) settled_lookedUp by (simp add: handle_def settled_def)
qed (use assms settled_ended [OF ended_unsubscribe] in \<open>simp_all add: handle_def settled_tell\<close>)

lemma settled_run: "subRun cfg s evs t \<Longrightarrow> list_all (opens cfg) evs \<Longrightarrow> settled s \<Longrightarrow> settled t"
  by (induction rule: subRun.induct) (auto elim!: subStep.cases simp: settled_handle)

lemma settled_subscribe: "(source cfg = FromValidator \<longrightarrow> \<not> b) \<Longrightarrow> settled (subscribe cfg b)"
  unfolding subscribe_def by (rule settled_open) simp_all

lemma silent_failure:
  assumes "source cfg = FromValidator"
  shows "busy (subscribe cfg True) = 0 \<and> history (subscribe cfg True) = []"
  using assms by (simp add: subscribe_def openConnection_def wireSocket_def busy_def)

lemma unsubscribe_silent: "\<exists>new. history (unsubscribe s) = history s @ new \<and> OnComplete \<notin> set new"
  using unsubscribe_history [of s] by fastforce

subsection \<open>Properties\<close>

text \<open>A run: the socket closes before it is acknowledged, the timer fires, the caller unsubscribes.\<close>

definition sampleOptions :: SubscribeOptions where
  "sampleOptions = (defaultOptions ''http://v'' False)\<lparr>maxReconnectAttempts := Some 1\<rparr>"

definition sampleEvents :: "event list" where
  "sampleEvents = [Closed 0, Fired 1 False, Closed 2]"

lemma run_fold: "subRun cfg s (ev # evs) t \<longleftrightarrow> enabled ev s \<and> subRun cfg (handle cfg ev s) evs t"
  by (auto elim: subRun.cases subStep.cases intro: Step Handle)

lemma run_nil: "subRun cfg s [] t \<longleftrightarrow> t = s"
  by (auto elim: subRun.cases intro: Stop)

lemmas sub_defs = subscribe_def openConnection_def wireSocket_def handle_def enabled_def socketClosed_def timerFired_def
  scheduleReconnect_def exhausted_def delayOf_def tell_def emit_def Let_def

lemma sample_run:
  "subRun sampleOptions (subscribe sampleOptions False) sampleEvents s \<longleftrightarrow>
     s = fold (\<lambda>ev. handle sampleOptions ev) sampleEvents (subscribe sampleOptions False)"
  by (simp add: sampleEvents_def run_fold run_nil) (simp add: sub_defs sampleOptions_def defaultOptions_def)



text \<open>C38: Unsubscribing. Once the caller has unsubscribed, between events or inside a callback, then
  whatever the outside still does no socket is made, no reconnection announced and no indexer evicted,
  and no timer is left unless the call was made inside \<open>onReconnect\<close>, which runs just before the timer
  is set. When that timer fires, it opens nothing: it is only gone.\<close>

theorem unsubscribed_stays:
  assumes "subRun cfg (subscribe cfg b) evs s" and "history s = before @ Unsubscribed # after"
  shows "list_all quiet after \<and> (timers s = [] \<or> (\<exists>earlier n d. before = earlier @ [OnReconnect n d])) \<and>
    handle cfg (Fired t throws) s = s\<lparr>timers := removeAll t (timers s), reconnectTimer := None\<rparr>"
proof -
  have "stays s" by (rule stays_run [OF assms(1) wf_subscribe stays_subscribe])
  then show ?thesis using assms(2) closed_timer unfolding stays_def by blast
qed

text \<open>A caller that unsubscribes in \<open>onReconnect\<close>: the timer is set all the same.\<close>

definition hastyOptions :: SubscribeOptions where
  "hastyOptions = sampleOptions\<lparr>unsubscribesIn := (\<lambda>log. case last log of OnReconnect _ _ \<Rightarrow> True | _ \<Rightarrow> False)\<rparr>"

lemma hasty_run: "subRun hastyOptions (subscribe hastyOptions False) [Closed 0] (handle hastyOptions (Closed 0) (subscribe hastyOptions False))"
  by (simp add: run_fold run_nil) (simp add: sub_defs hastyOptions_def sampleOptions_def defaultOptions_def)

lemma hasty_log: "\<exists>earlier after. [a, OnReconnect n d, Unsubscribed, c] = (earlier @ [OnReconnect n d]) @ Unsubscribed # after"
  by (rule exI [of _ "[a]"]) simp

lemma hasty_facts:
  "timers (handle hastyOptions (Closed 0) (subscribe hastyOptions False)) = [1]"
  "\<exists>earlier after. history (handle hastyOptions (Closed 0) (subscribe hastyOptions False)) = (earlier @ [OnReconnect 1 500]) @ Unsubscribed # after"
  using hasty_log
  by (simp_all add: sub_defs unsubscribe_def clearReconnectTimer_def sendOn_def hastyOptions_def sampleOptions_def defaultOptions_def)

theorem unsubscribed_stays_witness:
  "timers (handle hastyOptions (Closed 0) (subscribe hastyOptions False)) = [1] \<and>
   timers (handle hastyOptions (Fired 1 False) (handle hastyOptions (Closed 0) (subscribe hastyOptions False))) = []"
proof -
  obtain earlier "after" where h: "history (handle hastyOptions (Closed 0) (subscribe hastyOptions False)) =
      (earlier @ [OnReconnect 1 500]) @ Unsubscribed # after" using hasty_facts(2) by blast
  from unsubscribed_stays [OF hasty_run h, of 1 False] show ?thesis by (simp add: hasty_facts(1))
qed

text \<open>C39: Giving up. With a limit of m attempts, a run in which no server acknowledges the connection has at
  most 3m + 2 events that close a socket, fire a timer or answer a lookup: reconnecting comes to an end.\<close>

theorem gives_up:
  assumes "subRun cfg (subscribe cfg b) evs s" and "maxReconnectAttempts cfg = Some m"
    and "list_all (\<lambda>ev. \<not> acknowledged ev) evs"
  shows "length (filter connecting evs) \<le> 3 * m + 2"
  using effort_run [OF assms] effort_subscribe [of m cfg b] by linarith

theorem gives_up_witness: "length (filter connecting sampleEvents) \<le> 3 * 1 + 2"
proof (rule gives_up)
  show "subRun sampleOptions (subscribe sampleOptions False) sampleEvents
      (fold (\<lambda>ev. handle sampleOptions ev) sampleEvents (subscribe sampleOptions False))"
    by (rule sample_run [THEN iffD2, OF refl])
qed (simp_all add: sampleOptions_def sampleEvents_def)

text \<open>C40: The end is told. While the caller has not unsubscribed, between events or in a callback, and no
  constructor of a validator's socket throws, a subscription left without socket, timer and lookup has
  called \<open>onComplete\<close>: it never stops without telling its caller.\<close>

theorem end_told:
  assumes "subRun cfg (subscribe cfg b) evs s" and "list_all (opens cfg) evs" and "source cfg = FromValidator \<longrightarrow> \<not> b"
    and "liveSockets s = []" and "timers s = []" and "lookups s = 0" and "Unsubscribed \<notin> set (history s)"
  shows "OnComplete \<in> set (history s)"
  using settled_run [OF assms(1,2) settled_subscribe [OF assms(3)]] assms(4-7)
  by (simp add: settled_def busy_def ended_def)

theorem end_told_witness:
  "OnComplete \<in> set (history (fold (\<lambda>ev. handle sampleOptions ev) sampleEvents (subscribe sampleOptions False)))"
proof (rule end_told)
  let ?s = "fold (\<lambda>ev. handle sampleOptions ev) sampleEvents (subscribe sampleOptions False)"
  show "subRun sampleOptions (subscribe sampleOptions False) sampleEvents ?s" by (rule sample_run [THEN iffD2, OF refl])
  show "liveSockets ?s = []" "timers ?s = []" "lookups ?s = 0" "Unsubscribed \<notin> set (history ?s)"
    by (simp_all add: sampleEvents_def sub_defs sampleOptions_def defaultOptions_def)
qed (simp_all add: sampleEvents_def)

end
