(* ===== verification/Tx_Fields.thy ===== *)
theory Tx_Fields
  imports Sort_Order
begin

text \<open>
  Checked field values of signed transactions (\<open>src/src/consensus/fields.ts\<close>), over the values a
  caller can pass: JSON values, bigints, \<open>undefined\<close> and byte arrays. A number is \<open>Safe\<close> when it is
  a safe integer, and otherwise only its text is kept. The text of an error message is dropped: the
  labels of the checks go into messages only, those of the lines are kept. The names of properties are
  texts of one-byte characters, and \<open>-0\<close> is \<open>0\<close>, as its JSON is. The lemmas: UTF-8 is a
  prefix-free code on well-formed texts, so equal bytes are equal texts, and a checked integer is
  sent as exactly its value.
\<close>

subsection \<open>Values and errors\<close>

datatype jnum = Safe int | Unsafe jsstr

datatype val =
    Undefined
  | Null
  | Boolean bool
  | Number jnum
  | BigInt int
  | Text jsstr
  | Array "val list"
  | Uint8 bytes
  | Object "(string \<times> val) list"

text \<open>The codes of \<open>WillowError\<close>, what the language itself throws, and the end of a loop's fuel.\<close>

datatype txError =
    INVALID_SIGNED_FIELD
  | LINE_BREAK_IN_SIGNED_FIELD
  | INVALID_DID
  | INVALID_SUBGROVE_ID
  | INVALID_KEY_GRANT
  | INVALID_SCHEMA
  | SCHEMA_INDEXES_UNSUPPORTED
  | TYPE_ERROR
  | OUT_OF_FUEL

text \<open>Reading a property: \<open>undefined\<close> where there is none, a \<open>TypeError\<close> on \<open>undefined\<close> and \<open>null\<close>.\<close>

fun get :: "val \<Rightarrow> string \<Rightarrow> txError + val" where
  "get Undefined k = Inl TYPE_ERROR"
| "get Null k = Inl TYPE_ERROR"
| "get (Object kvs) k = Inr (case map_of kvs k of None \<Rightarrow> Undefined | Some v \<Rightarrow> v)"
| "get _ k = Inr Undefined"

text \<open>\<open>a ?? b\<close>.\<close>

fun orElse :: "val \<Rightarrow> val \<Rightarrow> val" where
  "orElse Undefined b = b"
| "orElse Null b = b"
| "orElse a b = a"

text \<open>\<open>xs.map(f)\<close>, with the first error.\<close>

fun mapE :: "('a \<Rightarrow> 'e + 'b) \<Rightarrow> 'a list \<Rightarrow> 'e + 'b list" where
  "mapE f [] = Inr []"
| "mapE f (x # xs) = bnd (f x) (\<lambda>y. bnd (mapE f xs) (\<lambda>ys. Inr (y # ys)))"

lemma mapE_cong [fundef_cong]:
  "xs = ys \<Longrightarrow> (\<And>x. x \<in> set ys \<Longrightarrow> f x = g x) \<Longrightarrow> mapE f xs = mapE g ys"
  by (induction xs arbitrary: ys) auto

lemma mapE_Inr: "mapE f xs = Inr ys \<longleftrightarrow> list_all2 (\<lambda>x y. f x = Inr y) xs ys"
  by (induction xs arbitrary: ys) (auto simp: list_all2_Cons1)

lemma mapE_all:
  assumes "mapE f xs = Inr ys" and "\<And>x y. x \<in> set xs \<Longrightarrow> f x = Inr y \<Longrightarrow> P y"
  shows "list_all P ys"
proof -
  have "list_all2 (\<lambda>x y. f x = Inr y) xs ys" using assms(1) by (simp add: mapE_Inr)
  then show ?thesis using assms(2)
    by (induction rule: list_all2_induct) (simp_all add: list_all_iff, blast)
qed

subsection \<open>Texts\<close>

definition isHigh :: "16 word \<Rightarrow> bool" where
  "isHigh c \<longleftrightarrow> 0xd800 \<le> c \<and> c \<le> 0xdbff"

definition isLow :: "16 word \<Rightarrow> bool" where
  "isLow c \<longleftrightarrow> 0xdc00 \<le> c \<and> c \<le> 0xdfff"

fun isWellFormed :: "jsstr \<Rightarrow> bool" where
  "isWellFormed [] = True"
| "isWellFormed (c # s) =
     (if isHigh c then (case s of [] \<Rightarrow> False | d # t \<Rightarrow> isLow d \<and> isWellFormed t)
      else \<not> isLow c \<and> isWellFormed s)"

fun textField :: "val \<Rightarrow> txError + jsstr" where
  "textField (Text s) = (if isWellFormed s then Inr s else Inl INVALID_SIGNED_FIELD)"
| "textField _ = Inl INVALID_SIGNED_FIELD"

definition LF :: "16 word" where
  "LF = 0x0a"

definition textLine :: "string \<Rightarrow> val \<Rightarrow> txError + jsstr" where
  "textLine label v =
     bnd (textField v) (\<lambda>v.
       if LF \<in> set v then Inl LINE_BREAK_IN_SIGNED_FIELD else Inr (js label @ js '': '' @ v))"

definition MAX_DID_LEN :: nat where
  "MAX_DID_LEN = 128"

text \<open>\<open>/[A-Za-z0-9_-]/\<close> and \<open>/^did:willow:[A-Za-z0-9_-]+$/\<close>.\<close>

definition isAlnum :: "16 word \<Rightarrow> bool" where
  "isAlnum c \<longleftrightarrow> isDigit c \<or> (0x41 \<le> c \<and> c \<le> 0x5a) \<or> (0x61 \<le> c \<and> c \<le> 0x7a)"

definition idChar :: "16 word \<Rightarrow> bool" where
  "idChar c \<longleftrightarrow> isAlnum c \<or> c = 0x5f \<or> c = 0x2d"

definition WILLOW_DID :: "jsstr \<Rightarrow> bool" where
  "WILLOW_DID s \<longleftrightarrow>
     isPrefix (js ''did:willow:'') s \<and> (let r = drop 11 s in r \<noteq> [] \<and> list_all idChar r)"

definition willowDid :: "val \<Rightarrow> txError + jsstr" where
  "willowDid v =
     bnd (textField v) (\<lambda>v.
       if \<not> WILLOW_DID v \<or> length v > MAX_DID_LEN then Inl INVALID_DID else Inr v)"

definition keySubgroveId :: "val \<Rightarrow> txError + jsstr" where
  "keySubgroveId v =
     bnd (textField v) (\<lambda>v. if v = [] \<or> 0x3a \<in> set v then Inl INVALID_SUBGROVE_ID else Inr v)"

subsection \<open>Integers\<close>

definition uintField :: "val \<Rightarrow> nat \<Rightarrow> txError + int" where
  "uintField value bits =
     bnd (case value of
            Number (Safe n) \<Rightarrow> Inr n
          | Number (Unsafe _) \<Rightarrow> Inl INVALID_SIGNED_FIELD
          | BigInt n \<Rightarrow> Inr n
          | Text s \<Rightarrow> if s \<noteq> [] \<and> list_all isDigit s then Inr (int (decVal s)) else Inl INVALID_SIGNED_FIELD
          | _ \<Rightarrow> Inl INVALID_SIGNED_FIELD)
       (\<lambda>v. if v < 0 \<or> v \<ge> 2 ^ bits then Inl INVALID_SIGNED_FIELD else Inr v)"

definition wireInt :: "int \<Rightarrow> val" where
  "wireInt v = (if v \<le> int MAX_SAFE_INTEGER then Number (Safe v) else BigInt v)"

definition wireUint :: "val \<Rightarrow> nat \<Rightarrow> txError + val" where
  "wireUint value bits = bnd (uintField value bits) (\<lambda>v. Inr (wireInt v))"

definition uintLineOf :: "string \<Rightarrow> val \<Rightarrow> nat \<Rightarrow> txError + jsstr" where
  "uintLineOf label value bits = bnd (uintField value bits) (\<lambda>v. Inr (js label @ js '': '' @ intText v))"

subsection \<open>Booleans, bytes, lists, variants\<close>

fun boolField :: "val \<Rightarrow> txError + bool" where
  "boolField (Boolean b) = Inr b"
| "boolField _ = Inl INVALID_SIGNED_FIELD"

fun byteOf :: "val \<Rightarrow> txError + byte" where
  "byteOf (Number (Safe n)) = (if n < 0 \<or> n > 255 then Inl INVALID_SIGNED_FIELD else Inr (of_int n))"
| "byteOf _ = Inl INVALID_SIGNED_FIELD"

text \<open>The ASCII form of a text of one-byte units, for the hex functions of \<open>Bincode\<close>.\<close>

definition narrow :: "jsstr \<Rightarrow> string option" where
  "narrow s = (if list_all (\<lambda>c. c < 0x100) s then Some (map (\<lambda>c. char_of (unat c)) s) else None)"

definition hexBytes :: "jsstr \<Rightarrow> bytes option" where
  "hexBytes s =
     (case narrow s of None \<Rightarrow> None | Some h \<Rightarrow> (case hexToBytes h of Inl _ \<Rightarrow> None | Inr b \<Rightarrow> Some b))"

definition bytesField :: "nat option \<Rightarrow> bool \<Rightarrow> val \<Rightarrow> txError + bytes" where
  "bytesField len hex value =
     bnd (case value of
            Uint8 b \<Rightarrow> Inr b
          | Array xs \<Rightarrow> mapE byteOf xs
          | Text s \<Rightarrow>
              if hex then (case hexBytes s of None \<Rightarrow> Inl INVALID_SIGNED_FIELD | Some b \<Rightarrow> Inr b)
              else Inl INVALID_SIGNED_FIELD
          | _ \<Rightarrow> Inl INVALID_SIGNED_FIELD)
       (\<lambda>out. if len \<noteq> None \<and> len \<noteq> Some (length out) then Inl INVALID_SIGNED_FIELD else Inr out)"

text \<open>A byte string as the wire carries it: an array of numbers.\<close>

definition byteArray :: "bytes \<Rightarrow> val" where
  "byteArray b = Array (map (\<lambda>x. Number (Safe (uint x))) b)"

fun texts :: "val \<Rightarrow> txError + jsstr list" where
  "texts (Array xs) = mapE textField xs"
| "texts _ = Inl INVALID_SIGNED_FIELD"

definition textArray :: "jsstr list \<Rightarrow> val" where
  "textArray ss = Array (map Text ss)"

text \<open>The entries of an object that is not an array; those of a byte array are its elements by index.\<close>

fun variant :: "val \<Rightarrow> txError + jsstr \<times> val" where
  "variant (Text s) = Inr (s, Undefined)"
| "variant (Object [(k, v)]) = Inr (js k, v)"
| "variant (Uint8 [b]) = Inr (js ''0'', Number (Safe (uint b)))"
| "variant _ = Inl INVALID_SIGNED_FIELD"

subsection \<open>UTF-8\<close>

text \<open>\<open>TextEncoder\<close>: each code point, a lone surrogate as U+FFFD.\<close>

definition scalar :: "nat \<Rightarrow> nat" where
  "scalar n = (if 0xd800 \<le> n \<and> n \<le> 0xdfff then 0xfffd else n)"

definition utf8Point :: "nat \<Rightarrow> nat list" where
  "utf8Point n =
     (if n < 0x80 then [n]
      else if n < 0x800 then [0xc0 + n div 0x40, 0x80 + n mod 0x40]
      else if n < 0x10000 then [0xe0 + n div 0x1000, 0x80 + n div 0x40 mod 0x40, 0x80 + n mod 0x40]
      else [0xf0 + n div 0x40000, 0x80 + n div 0x1000 mod 0x40, 0x80 + n div 0x40 mod 0x40, 0x80 + n mod 0x40])"

definition utf8ToBytes :: "jsstr \<Rightarrow> bytes" where
  "utf8ToBytes s = concat (map (\<lambda>n. map of_nat (utf8Point (scalar n))) (codePoints s))"

lemma of_nat_byte_eq: "a < 256 \<Longrightarrow> b < 256 \<Longrightarrow> (of_nat a :: byte) = of_nat b \<longleftrightarrow> a = b"
  by (simp add: byte_eq_iff)

lemma utf8Point_bytes: "n < 0x110000 \<Longrightarrow> \<forall>b\<in>set (utf8Point n). b < 256"
  by (auto simp: utf8Point_def)

text \<open>The point an encoding starts with, and what follows it.\<close>

fun uDec :: "nat list \<Rightarrow> nat \<times> nat list" where
  "uDec (a # r) =
     (if a < 0x80 then (a, r)
      else if a < 0xe0 then ((a - 0xc0) * 0x40 + (hd r - 0x80), drop 1 r)
      else if a < 0xf0 then (((a - 0xe0) * 0x40 + (hd r - 0x80)) * 0x40 + (r ! 1 - 0x80), drop 2 r)
      else ((((a - 0xf0) * 0x40 + (hd r - 0x80)) * 0x40 + (r ! 1 - 0x80)) * 0x40 + (r ! 2 - 0x80), drop 3 r))"
| "uDec [] = (0, [])"

lemma join6: "(n::nat) div 64 * 64 + n mod 64 = n"
  by simp

lemma uDec_point:
  assumes "n < 0x110000"
  shows "uDec (utf8Point n @ r) = (n, r)"
proof -
  have d: "n div 4096 = n div 64 div 64" "n div 262144 = n div 64 div 64 div 64"
    by (simp_all add: div_mult2_eq [symmetric])
  consider "n < 0x80" | "\<not> n < 0x80" "n < 0x800" | "\<not> n < 0x80" "\<not> n < 0x800" "n < 0x10000"
    | "\<not> n < 0x80" "\<not> n < 0x800" "\<not> n < 0x10000" by blast
  then show ?thesis
  proof cases
    case 2
    then have "n div 64 < 32" by simp
    then show ?thesis using 2 join6 [of n] by (simp add: utf8Point_def)
  next
    case 3
    then have "n div 4096 < 16" by simp
    then show ?thesis using 3 join6 [of n] join6 [of "n div 64"] by (simp add: utf8Point_def d)
  next
    case 4
    then show ?thesis using join6 [of n] join6 [of "n div 64"] join6 [of "n div 64 div 64"]
      by (simp add: utf8Point_def d)
  qed (simp add: utf8Point_def)
qed

lemma utf8Point_prefix:
  assumes "n < 0x110000" "m < 0x110000" "utf8Point n @ r = utf8Point m @ t"
  shows "n = m \<and> r = t"
proof -
  have "(n, r) = uDec (utf8Point m @ t)" using uDec_point [OF assms(1), of r] unfolding assms(3) by (rule sym)
  also have "\<dots> = (m, t)" by (rule uDec_point [OF assms(2)])
  finally show ?thesis by blast
qed

text \<open>A well-formed text has no surrogate code point, and every code point is below \<open>0x110000\<close>.\<close>

lemma codePoints_valid:
  "isWellFormed s \<Longrightarrow> n \<in> set (codePoints s) \<Longrightarrow> n < 0x110000 \<and> scalar n = n"
proof (induction s rule: isWellFormed.induct)
  case (2 c s)
  note step = codePoints.simps [of "c # s"]
  have "unat c < 65536" using unsigned_less [of c] by simp
  show ?case
  proof (cases "isHigh c")
    case True
    then obtain d t where s: "s = d # t" "isLow d" "isWellFormed t" using 2(3) by (auto split: list.splits)
    then have "codePointAt (c # s) = 0x10000 + (unat c - 0xd800) * 0x400 + (unat d - 0xdc00)"
      using True by (simp add: codePointAt_def isHigh_def isLow_def)
    moreover have "unat c - 0xd800 < 0x400" "unat d - 0xdc00 < 0x400"
      using True s by (auto simp: isHigh_def isLow_def word_le_nat_alt)
    ultimately have "codePointAt (c # s) > 0xffff" "codePointAt (c # s) < 0x110000" by linarith+
    then show ?thesis using 2(1) [OF True s(1,3)] 2(4) s step by (auto simp: scalar_def)
  next
    case False
    then have "codePointAt (c # s) = unat c"
      by (auto simp: codePointAt_def isHigh_def split: list.splits)
    moreover have "\<not> (0xd800 \<le> unat c \<and> unat c \<le> 0xdfff)"
      using False 2(3) by (auto simp: isHigh_def isLow_def word_le_nat_alt)
    ultimately show ?thesis
      using 2(2) [OF False] 2(3,4) False step \<open>unat c < 65536\<close> by (auto simp: scalar_def)
  qed
qed simp

lemma unat_of_nats: "list_all (\<lambda>x. x < 256) xs \<Longrightarrow> map unat (map (of_nat :: nat \<Rightarrow> byte) xs) = xs"
  by (induction xs) (simp_all only: list.map list.pred_inject unat_of_nat_byte mod_less)

lemma map_of_nat_inj:
  assumes "list_all (\<lambda>x. x < 256) xs" "list_all (\<lambda>y. y < 256) ys" "map (of_nat :: nat \<Rightarrow> byte) xs = map of_nat ys"
  shows "xs = ys"
  using unat_of_nats [OF assms(1)] unat_of_nats [OF assms(2)] unfolding assms(3) by (rule trans [OF sym])

lemma utf8Point_not_Nil [simp]: "utf8Point n \<noteq> []"
  by (simp add: utf8Point_def)

lemma utf8_points_inj:
  "list_all (\<lambda>n. n < 0x110000) ns \<Longrightarrow> list_all (\<lambda>m. m < 0x110000) ms \<Longrightarrow>
     concat (map utf8Point ns) = concat (map utf8Point ms) \<Longrightarrow> ns = ms"
proof (induction ns arbitrary: ms)
  case Nil
  then show ?case by (cases ms) simp_all
next
  case (Cons n ns)
  from Cons.prems(3) obtain m ms' where ms: "ms = m # ms'" by (cases ms) simp_all
  have eq: "n = m \<and> concat (map utf8Point ns) = concat (map utf8Point ms')"
    by (rule utf8Point_prefix) (use Cons.prems ms in \<open>simp_all only: list.pred_inject list.map concat.simps\<close>)
  have "ns = ms'"
    by (rule Cons.IH) (use Cons.prems(1,2) ms eq in \<open>simp_all only: list.pred_inject\<close>)
  then show ?case using eq ms by simp
qed

lemma utf8ToBytes_wf:
  "isWellFormed s \<Longrightarrow> utf8ToBytes s = map of_nat (concat (map utf8Point (codePoints s)))"
proof -
  assume "isWellFormed s"
  then have "map (\<lambda>n. map of_nat (utf8Point (scalar n))) (codePoints s)
      = map (\<lambda>n. map (of_nat :: nat \<Rightarrow> byte) (utf8Point n)) (codePoints s)"
    using codePoints_valid by (intro map_cong refl) simp
  then show ?thesis by (simp only: utf8ToBytes_def map_concat map_map comp_def)
qed

lemma utf8ToBytes_inj:
  assumes "isWellFormed s" "isWellFormed t" "utf8ToBytes s = utf8ToBytes t"
  shows "s = t"
proof -
  have small: "list_all (\<lambda>n. n < 0x110000) (codePoints u)" if "isWellFormed u" for u
    unfolding list_all_iff using codePoints_valid [OF that] by blast
  have bs: "list_all (\<lambda>b. b < 256) (concat (map utf8Point ns))" if "list_all (\<lambda>n. n < 0x110000) ns" for ns
    using that utf8Point_bytes unfolding list_all_iff set_concat set_map by blast
  have "map (of_nat :: nat \<Rightarrow> byte) (concat (map utf8Point (codePoints s))) = map of_nat (concat (map utf8Point (codePoints t)))"
    using assms(3) unfolding utf8ToBytes_wf [OF assms(1)] utf8ToBytes_wf [OF assms(2)] .
  then have "concat (map utf8Point (codePoints s)) = concat (map utf8Point (codePoints t))"
    by (rule map_of_nat_inj [OF bs [OF small [OF assms(1)]] bs [OF small [OF assms(2)]]])
  then have "codePoints s = codePoints t" by (rule utf8_points_inj [OF small [OF assms(1)] small [OF assms(2)]])
  then show ?thesis by (rule codePoints_inj)
qed

subsection \<open>What the checks accept\<close>

lemma textField_Inr [simp]: "textField v = Inr s \<longleftrightarrow> v = Text s \<and> isWellFormed s"
  by (cases v) auto

lemma mapE_textField: "mapE textField xs = Inr ss \<longleftrightarrow> xs = map Text ss \<and> list_all isWellFormed ss"
proof (induction xs arbitrary: ss)
  case (Cons x xs)
  then show ?case by (cases ss) auto
qed auto

lemma texts_Inr: "texts v = Inr ss \<longleftrightarrow> v = Array (map Text ss) \<and> list_all isWellFormed ss"
  by (cases v) (auto simp: mapE_textField)

lemma uintField_range: "uintField v b = Inr n \<Longrightarrow> 0 \<le> n \<and> n < 2 ^ b"
  by (auto simp: uintField_def split: if_splits)

text \<open>What is sent is read as the value that was checked.\<close>

lemma uintField_wireInt [simp]: "0 \<le> n \<Longrightarrow> n < 2 ^ b \<Longrightarrow> uintField (wireInt n) b = Inr n"
  by (simp add: uintField_def wireInt_def)

lemma wireInt_inj [simp]: "wireInt n = wireInt m \<longleftrightarrow> n = m"
  by (auto simp: wireInt_def)

lemma wireUint_Inr: "wireUint v b = Inr w \<longleftrightarrow> (\<exists>n. uintField v b = Inr n \<and> w = wireInt n)"
  by (auto simp: wireUint_def)

lemma byteArray_inj [simp]: "byteArray a = byteArray b \<longleftrightarrow> a = b"
proof
  assume "byteArray a = byteArray b"
  then have "map (\<lambda>x. Number (Safe (uint x))) a = map (\<lambda>x. Number (Safe (uint x))) b" by (simp only: byteArray_def val.inject)
  then show "a = b" by (rule map_injective) (simp add: inj_def unsigned_word_eqI)
qed simp

lemma bytesField_length: "bytesField (Some n) hex v = Inr b \<Longrightarrow> length b = n"
  by (auto simp: bytesField_def split: if_splits)

lemma unat_of_char16: "unat (of_char c :: 16 word) = of_char c"
proof -
  have "(of_char c :: nat) < 256" by simp
  then have "(of_char c :: nat) mod 65536 = of_char c" by (intro mod_less) linarith
  moreover have "(of_char c :: 16 word) = of_nat (of_char c)" by (rule of_nat_of_char [symmetric])
  ultimately show ?thesis by (simp only: unat_of_nat) simp
qed

lemma js_inj [simp]: "js a = js b \<longleftrightarrow> a = b"
proof -
  have "inj (of_char :: char \<Rightarrow> 16 word)"
    by (rule injI) (metis unat_of_char16 of_char_eq_iff)
  then show ?thesis by (simp add: js_def inj_map_eq_map)
qed

end
