(* ===== verification/Tx_Schema.thy ===== *)
theory Tx_Schema
  imports Tx_Fields Json_Text
begin

text \<open>
  The schema of a data or file subgrove (\<open>src/src/consensus/schema.ts\<close>): its text
  (\<open>serializeSchema\<close>), and the reader that refuses text the chain would not parse
  (\<open>checkStorageSchema\<close>). \<open>JSON.parse\<close> is modelled as far as the code uses it: whether it accepts a
  text, and the string a token denotes. The reader's state is the text it has left; a loop over an
  object's or array's entries takes fuel, one unit for each entry, and \<open>checkStorageSchema_fuel\<close>
  shows that the length of the text is enough.
\<close>

subsection \<open>\<open>JSON.parse\<close>\<close>

text \<open>The text after a string token, given the text after its opening quote.\<close>

fun strRest :: "jsstr \<Rightarrow> jsstr option" where
  "strRest [] = None"
| "strRest (c # s) =
     (if c = 0x22 then Some s
      else if c = 0x5c then
        (case s of
           [] \<Rightarrow> None
         | d # t \<Rightarrow>
             if d = 0x75 then
               (case t of
                  h1 # h2 # h3 # h4 # u \<Rightarrow>
                    if list_all (\<lambda>h. hexVal h \<noteq> None) [h1, h2, h3, h4] then strRest u else None
                | _ \<Rightarrow> None)
             else if d \<in> set (js [CHR 0x22, CHR 0x5C, CHR ''/'', CHR ''b'', CHR ''f'', CHR ''n'', CHR ''r'', CHR ''t''])
             then strRest t
             else None)
      else if c < 0x20 then None
      else strRest s)"

lemma strRest_length: "strRest s = Some t \<Longrightarrow> length t < length s"
proof (induction s rule: strRest.induct)
  case (2 c s)
  then show ?case by (fastforce split: if_splits list.splits)
qed simp

text \<open>The string written between the quotes of a token.\<close>

definition unescape :: "16 word \<Rightarrow> 16 word" where
  "unescape d =
     (if d = 0x62 then 0x08 else if d = 0x66 then 0x0c else if d = 0x6e then 0x0a
      else if d = 0x72 then 0x0d else if d = 0x74 then 0x09 else d)"

fun decodeEscapes :: "jsstr \<Rightarrow> jsstr" where
  "decodeEscapes (c # d # s) =
     (if c = 0x5c then
        (if d = 0x75 then
           of_nat (foldl (\<lambda>v h. 16 * v + the (hexVal h)) 0 (take 4 s)) # decodeEscapes (drop 4 s)
         else unescape d # decodeEscapes s)
      else c # decodeEscapes (d # s))"
| "decodeEscapes s = s"

definition parseStringToken :: "jsstr \<Rightarrow> jsstr option" where
  "parseStringToken tok =
     (case tok of
        [] \<Rightarrow> None
      | c # s \<Rightarrow> if c = 0x22 \<and> strRest s = Some [] then Some (decodeEscapes (butlast s)) else None)"

text \<open>Whether a whole text is JSON, with the open brackets on a stack (\<open>True\<close> for an object).\<close>

datatype expect = AValue | AValueOrEnd | AKey | AKeyOrEnd | AnEnd

definition scalarRest :: "jsstr \<Rightarrow> jsstr option" where
  "scalarRest s =
     (if isPrefix (js ''true'') s \<or> isPrefix (js ''null'') s then Some (drop 4 s)
      else if isPrefix (js ''false'') s then Some (drop 5 s)
      else (case number s of Inl e \<Rightarrow> None | Inr (v, t) \<Rightarrow> Some t))"

function jsonAccepts :: "expect \<Rightarrow> bool list \<Rightarrow> jsstr \<Rightarrow> bool" where
  "jsonAccepts e st s =
     (case ws s of
        [] \<Rightarrow> e = AnEnd \<and> st = []
      | c # r \<Rightarrow>
          if e = AnEnd then
            (case st of
               [] \<Rightarrow> False
             | obj # st' \<Rightarrow>
                 if c = 0x2c then jsonAccepts (if obj then AKey else AValue) st r
                 else if c = (if obj then 0x7d else 0x5d) then jsonAccepts AnEnd st' r
                 else False)
          else if e = AKey \<or> e = AKeyOrEnd then
            (if e = AKeyOrEnd \<and> c = 0x7d then jsonAccepts AnEnd (tl st) r
             else if c = 0x22 then
               (case strRest r of
                  None \<Rightarrow> False
                | Some t \<Rightarrow> (case ws t of d # u \<Rightarrow> if d = 0x3a then jsonAccepts AValue st u else False | [] \<Rightarrow> False))
             else False)
          else if e = AValueOrEnd \<and> c = 0x5d then jsonAccepts AnEnd (tl st) r
          else if c = 0x22 then
            (case strRest r of None \<Rightarrow> False | Some t \<Rightarrow> jsonAccepts AnEnd st t)
          else if c = 0x7b then jsonAccepts AKeyOrEnd (True # st) r
          else if c = 0x5b then jsonAccepts AValueOrEnd (False # st) r
          else
            (case scalarRest (c # r) of
               None \<Rightarrow> False
             | Some t \<Rightarrow> if length t < length (c # r) then jsonAccepts AnEnd st t else False))"
  by pat_completeness auto

lemma ws_length: "length (ws s) \<le> length s"
  by (simp add: ws_def length_dropWhile_le)

lemma ws_Cons_length: "ws s = c # r \<Longrightarrow> length r < length s"
  using ws_length [of s] by simp

lemma ws_strRest: "ws s = c # r \<Longrightarrow> strRest r = Some t \<Longrightarrow> length t < length s"
  using ws_Cons_length strRest_length less_trans by blast

lemma ws_strRest_ws: "ws s = c # r \<Longrightarrow> strRest r = Some t \<Longrightarrow> ws t = d # u \<Longrightarrow> length u < length s"
  using ws_Cons_length ws_strRest less_trans by blast

lemma ws_less: "ws s = c # r \<Longrightarrow> length t < length (c # r) \<Longrightarrow> length t < length s"
  using ws_length [of s] by simp

termination jsonAccepts
  by (relation "measure (\<lambda>(e, st, s). length s)")
    (auto intro: ws_Cons_length ws_strRest ws_strRest_ws ws_less)

declare jsonAccepts.simps [simp del]

subsection \<open>The reader\<close>

type_synonym 'a schemaReader = "(jsstr, txError, 'a) meth"

text \<open>The next character after whitespace, not consumed; \<open>None\<close> at the end of the text.\<close>

definition jtPeek :: "16 word option schemaReader" where
  "jtPeek s = Inr (peek (ws s), ws s)"

definition jtEat :: "jsstr \<Rightarrow> bool schemaReader" where
  "jtEat token s =
     (let s = ws s in if isPrefix token s then Inr (True, drop (length token) s) else Inr (False, s))"

text \<open>The text after the next quote that no backslash is before, given the text after the opening quote.\<close>

fun afterQuote :: "jsstr \<Rightarrow> jsstr" where
  "afterQuote [] = []"
| "afterQuote (c # s) =
     (if c = 0x22 then s
      else if c = 0x5c then (case s of [] \<Rightarrow> [] | d # t \<Rightarrow> afterQuote t)
      else afterQuote s)"

definition jtStringToken :: "jsstr schemaReader" where
  "jtStringToken s =
     (let s = ws s; r = afterQuote (tl s) in Inr (take (length s - length r) s, r))"

definition jtString :: "jsstr schemaReader" where
  "jtString =
     bind jtStringToken (\<lambda>tok. case parseStringToken tok of None \<Rightarrow> throw TYPE_ERROR | Some v \<Rightarrow> ret v)"

text \<open>The longest number token, \<open>''\<close> when none comes next.\<close>

definition jtNumber :: "jsstr schemaReader" where
  "jtNumber s =
     (let s = ws s;
          u = unsigned s;
          w = (if peek u = Some 0x30 then [0x30] else takeWhile isDigit u);
          r = drop (length w) u;
          f = (if peek r = Some 0x2e \<and> takeWhile isDigit (tl r) \<noteq> [] then 0x2e # takeWhile isDigit (tl r) else []);
          r2 = drop (length f) r;
          sg = (if peek (tl r2) = Some 0x2b \<or> peek (tl r2) = Some 0x2d then 1 else 0);
          ds = takeWhile isDigit (drop sg (tl r2));
          x = (if (peek r2 = Some 0x65 \<or> peek r2 = Some 0x45) \<and> ds \<noteq> [] then take (1 + sg + length ds) r2 else []);
          token = (if w = [] then [] else take (length s - length u) s @ w @ f @ x)
      in Inr (token, drop (length token) s))"

definition endsScalar :: "16 word \<Rightarrow> bool" where
  "endsScalar c \<longleftrightarrow> isWs c \<or> c = 0x2c \<or> c = 0x3a \<or> c = 0x5d \<or> c = 0x7d"

text \<open>\<open>skip\<close>'s loop from a depth; its state is the text alone.\<close>

function jtSkip :: "int \<Rightarrow> unit schemaReader" where
  "jtSkip depth s =
     (case ws s of
        [] \<Rightarrow> Inl INVALID_SCHEMA
      | c # r \<Rightarrow>
          (let (d, t) =
             (if c = 0x22 then (depth, afterQuote r)
              else if c = 0x7b \<or> c = 0x5b then (depth + 1, r)
              else if c = 0x7d \<or> c = 0x5d then (depth - 1, r)
              else if c = 0x2c \<or> c = 0x3a then (depth, r)
              else (depth, dropWhile (\<lambda>c. \<not> endsScalar c) (c # r)))
           in if d > 0 then jtSkip d t else Inr ((), t)))"
  by pat_completeness auto

lemma afterQuote_length: "length (afterQuote s) \<le> length s"
proof (induction s rule: afterQuote.induct)
  case (2 c s)
  then show ?case by (fastforce split: list.splits)
qed simp

lemma skip_shorter:
  assumes "ws s = c # r" "\<not> (c = 0x2c \<or> c = 0x3a \<or> c = 0x7d \<or> c = 0x5d)"
  shows "length (dropWhile (\<lambda>c. \<not> endsScalar c) (c # r)) < length s"
proof -
  have "\<not> isWs c" using assms(1) hd_dropWhile [of isWs s] by (auto simp: ws_def)
  then have "\<not> endsScalar c" using assms(2) by (auto simp: endsScalar_def)
  moreover have "length (dropWhile (\<lambda>c. \<not> endsScalar c) r) \<le> length r" by (rule length_dropWhile_le)
  ultimately show ?thesis using ws_Cons_length [OF assms(1)] by simp
qed

lemma skip_quote: "ws s = c # r \<Longrightarrow> length (afterQuote r) < length s"
  using ws_Cons_length afterQuote_length le_less_trans by blast

termination jtSkip
  by (relation "measure (\<lambda>(d, s). length s)")
    (auto split: if_splits dest: skip_quote ws_Cons_length skip_shorter)

declare jtSkip.simps [simp del]

text \<open>
  The loops over entries. The callback gets the keys read before it (an index for an array);
  the object's keys are returned, and \<open>None\<close> when no object comes next.
\<close>

fun objectLoop :: "nat \<Rightarrow> (jsstr list \<Rightarrow> jsstr \<Rightarrow> unit schemaReader) \<Rightarrow> jsstr list \<Rightarrow> jsstr list option schemaReader" where
  "objectLoop 0 entry ks = throw OUT_OF_FUEL"
| "objectLoop (Suc n) entry ks =
     bind jtString (\<lambda>key.
     bind (jtEat [0x3a]) (\<lambda>_.
     bind (entry ks key) (\<lambda>_.
     bind (jtEat [0x2c]) (\<lambda>more.
       if more then objectLoop n entry (ks @ [key])
       else bind (jtEat [0x7d]) (\<lambda>_. ret (Some (ks @ [key])))))))"

definition jtObject :: "(jsstr list \<Rightarrow> jsstr \<Rightarrow> unit schemaReader) \<Rightarrow> jsstr list option schemaReader" where
  "jtObject entry s =
     bind (jtEat [0x7b]) (\<lambda>open.
       if \<not> open then ret None
       else bind (jtEat [0x7d]) (\<lambda>empty.
         if empty then ret (Some []) else objectLoop (Suc (length s)) entry [])) s"

fun arrayLoop :: "nat \<Rightarrow> (nat \<Rightarrow> unit schemaReader) \<Rightarrow> nat \<Rightarrow> bool schemaReader" where
  "arrayLoop 0 item i = throw OUT_OF_FUEL"
| "arrayLoop (Suc n) item i =
     bind (item i) (\<lambda>_.
     bind (jtEat [0x2c]) (\<lambda>more.
       if more then arrayLoop n item (i + 1)
       else bind (jtEat [0x5d]) (\<lambda>_. ret True)))"

definition jtArray :: "(nat \<Rightarrow> unit schemaReader) \<Rightarrow> bool schemaReader" where
  "jtArray item s =
     bind (jtEat [0x5b]) (\<lambda>open.
       if \<not> open then ret False
       else bind (jtEat [0x5d]) (\<lambda>empty.
         if empty then ret True else arrayLoop (Suc (length s)) item 0)) s"

subsection \<open>Reading a schema\<close>

definition SCHEMA_FIELD_TYPES :: "jsstr list" where
  "SCHEMA_FIELD_TYPES = map js [''string'', ''number'', ''boolean'', ''array'', ''object'', ''bytes'']"

datatype schemaKey = KVersion | KFields | KIndexes | KRequired

definition SCHEMA_KEYS :: "(jsstr \<times> schemaKey) list" where
  "SCHEMA_KEYS = [(js ''version'', KVersion), (js ''fields'', KFields), (js ''indexes'', KIndexes),
     (js ''required_fields'', KRequired)]"

definition U32_LIMIT :: nat where
  "U32_LIMIT = 4294967295"

definition isFieldType :: "jsstr \<Rightarrow> bool" where
  "isFieldType name \<longleftrightarrow> name \<in> set SCHEMA_FIELD_TYPES"

definition fieldName :: "jsstr \<Rightarrow> txError + jsstr" where
  "fieldName field = (if isWellFormed field then Inr field else Inl INVALID_SCHEMA)"

definition wellFormed :: "jsstr \<Rightarrow> txError + jsstr" where
  "wellFormed v = (if isWellFormed v then Inr v else Inl INVALID_SCHEMA)"

definition check :: "bool \<Rightarrow> txError \<Rightarrow> unit schemaReader" where
  "check ok e = (if ok then ret () else throw e)"

definition readVersion :: "unit schemaReader" where
  "readVersion =
     bind jtPeek (\<lambda>c.
       if (case c of None \<Rightarrow> False | Some d \<Rightarrow> d = 0x2d \<or> isDigit d) then
         bind jtNumber (\<lambda>token.
           check (wholeOk token \<and> decVal token \<le> U32_LIMIT) INVALID_SCHEMA)
       else throw INVALID_SCHEMA)"

definition readFieldType :: "unit schemaReader" where
  "readFieldType =
     bind jtPeek (\<lambda>c.
       if c = Some 0x22 then
         bind jtString (\<lambda>name. check (isFieldType name) INVALID_SCHEMA)
       else
         bind (jtObject (\<lambda>earlier name.
             if \<not> isFieldType name then throw INVALID_SCHEMA
             else bind (jtEat (js ''null'')) (\<lambda>isNull. check isNull INVALID_SCHEMA)))
           (\<lambda>keys. check (case keys of Some [k] \<Rightarrow> True | _ \<Rightarrow> False) INVALID_SCHEMA))"

definition readFields :: "unit schemaReader" where
  "readFields =
     bind (jtObject (\<lambda>earlier field. bind (lift (fieldName field)) (\<lambda>_. readFieldType)))
       (\<lambda>keys. check (keys \<noteq> None) INVALID_SCHEMA)"

definition readIndexes :: "unit schemaReader" where
  "readIndexes =
     bind jtPeek (\<lambda>c.
       if c \<noteq> Some 0x5b then throw INVALID_SCHEMA
       else bind (jtEat [0x5b]) (\<lambda>_. bind (jtEat [0x5d]) (\<lambda>empty. check empty SCHEMA_INDEXES_UNSUPPORTED)))"

definition readRequired :: "unit schemaReader" where
  "readRequired =
     bind (jtArray (\<lambda>i.
         bind jtPeek (\<lambda>c.
           if c \<noteq> Some 0x22 then throw INVALID_SCHEMA
           else bind jtString (\<lambda>v. bind (lift (wellFormed v)) (\<lambda>_. ret ())))))
       (\<lambda>isArray. check isArray INVALID_SCHEMA)"

fun readSchemaPart :: "schemaKey \<Rightarrow> unit schemaReader" where
  "readSchemaPart KVersion = readVersion"
| "readSchemaPart KFields = readFields"
| "readSchemaPart KIndexes = readIndexes"
| "readSchemaPart KRequired = readRequired"

definition schemaEntry :: "jsstr list \<Rightarrow> jsstr \<Rightarrow> unit schemaReader" where
  "schemaEntry earlier key =
     bind (lift (wellFormed key)) (\<lambda>_.
       case map_of SCHEMA_KEYS key of
         None \<Rightarrow> jtSkip 0
       | Some k \<Rightarrow> if key \<in> set earlier then throw INVALID_SCHEMA else readSchemaPart k)"

definition schemaItem :: "nat \<Rightarrow> unit schemaReader" where
  "schemaItem i =
     (if i \<ge> length SCHEMA_KEYS then throw INVALID_SCHEMA else readSchemaPart (snd (SCHEMA_KEYS ! i)))"

definition checkStorageSchema :: "jsstr \<Rightarrow> txError + unit" where
  "checkStorageSchema schema =
     (if \<not> jsonAccepts AValue [] schema then Inl INVALID_SCHEMA
      else
        (let c = peek (ws schema) in
         if c = Some 0x7b then bnd (jtObject schemaEntry schema) (\<lambda>_. Inr ())
         else if c = Some 0x5b then bnd (jtArray schemaItem schema) (\<lambda>_. Inr ())
         else Inl INVALID_SCHEMA))"

subsection \<open>The fuel is enough\<close>

text \<open>On a text of at most \<open>k\<close> characters a reader does not run out of fuel and leaves no more text.\<close>

definition withinFuel :: "nat \<Rightarrow> 'a schemaReader \<Rightarrow> bool" where
  "withinFuel k m \<longleftrightarrow> (\<forall>s. length s \<le> k \<longrightarrow> (case m s of Inl e \<Rightarrow> e \<noteq> OUT_OF_FUEL | Inr (x, t) \<Rightarrow> length t \<le> length s))"

named_theorems withinFuel_intros \<open>readers that do not run out of fuel\<close>

lemma withinFuelI:
  "(\<And>s e. length s \<le> k \<Longrightarrow> m s = Inl e \<Longrightarrow> e \<noteq> OUT_OF_FUEL) \<Longrightarrow>
   (\<And>s x t. length s \<le> k \<Longrightarrow> m s = Inr (x, t) \<Longrightarrow> length t \<le> length s) \<Longrightarrow> withinFuel k m"
  unfolding withinFuel_def by (auto split: sum.splits)

lemma withinFuel_Inl: "withinFuel k m \<Longrightarrow> length s \<le> k \<Longrightarrow> m s = Inl e \<Longrightarrow> e \<noteq> OUT_OF_FUEL"
  unfolding withinFuel_def by (drule spec [of _ s]) simp

lemma withinFuel_Inr: "withinFuel k m \<Longrightarrow> length s \<le> k \<Longrightarrow> m s = Inr (x, t) \<Longrightarrow> length t \<le> length s"
  unfolding withinFuel_def by (drule spec [of _ s]) simp

lemma withinFuel_bind [withinFuel_intros]:
  assumes "withinFuel k m" "\<And>x. withinFuel k (f x)"
  shows "withinFuel k (bind m f)"
proof (rule withinFuelI)
  fix s e
  assume s: "length s \<le> k" and e: "bind m f s = Inl e"
  show "e \<noteq> OUT_OF_FUEL"
  proof (cases "m s")
    case (Inl d)
    then show ?thesis using e withinFuel_Inl [OF assms(1) s] by (simp add: bind_def)
  next
    case (Inr p)
    then obtain x t where m: "m s = Inr (x, t)" by (cases p) simp
    then have "length t \<le> k" using withinFuel_Inr [OF assms(1) s] s le_trans by blast
    then show ?thesis using e m withinFuel_Inl [OF assms(2)] by (simp add: bind_def)
  qed
next
  fix s x t
  assume s: "length s \<le> k" and "bind m f s = Inr (x, t)"
  then obtain y u where m: "m s = Inr (y, u)" and f: "f y u = Inr (x, t)" by (cases "m s") (auto simp: bind_def)
  have u: "length u \<le> length s" by (rule withinFuel_Inr [OF assms(1) s m])
  then have "length t \<le> length u" using s by (intro withinFuel_Inr [OF assms(2) _ f]) simp
  then show "length t \<le> length s" using u by simp
qed

lemma withinFuel_ret [withinFuel_intros]: "withinFuel k (ret x)"
  by (rule withinFuelI) simp_all

lemma withinFuel_throw [withinFuel_intros]: "e \<noteq> OUT_OF_FUEL \<Longrightarrow> withinFuel k (throw e)"
  by (rule withinFuelI) auto

lemma withinFuel_check [withinFuel_intros]: "e \<noteq> OUT_OF_FUEL \<Longrightarrow> withinFuel k (check ok e)"
  by (simp add: check_def withinFuel_ret withinFuel_throw)

lemma withinFuel_lift [withinFuel_intros]: "r \<noteq> Inl OUT_OF_FUEL \<Longrightarrow> withinFuel k (lift r)"
  by (rule withinFuelI) (auto simp: lift_def split: sum.splits)

lemma withinFuel_jtPeek [withinFuel_intros]: "withinFuel k jtPeek"
  by (rule withinFuelI) (auto simp: jtPeek_def ws_length)

lemma jtEat_length: "jtEat token s = Inr (b, t) \<Longrightarrow> length t + (if b then length token else 0) \<le> length s"
proof -
  assume eat: "jtEat token s = Inr (b, t)"
  show ?thesis
  proof (cases "isPrefix token (ws s)")
    case True
    then obtain r where "ws s = token @ r" by (auto simp: isPrefix_iff)
    then show ?thesis using eat ws_length [of s] True by (auto simp: jtEat_def Let_def)
  next
    case False
    then show ?thesis using eat ws_length [of s] by (auto simp: jtEat_def Let_def)
  qed
qed

lemma withinFuel_jtEat [withinFuel_intros]: "withinFuel k (jtEat token)"
proof (rule withinFuelI)
  fix s x t
  assume "jtEat token s = Inr (x, t)"
  then show "length t \<le> length s" using jtEat_length by fastforce
qed (auto simp: jtEat_def Let_def split: if_splits)

lemma withinFuel_jtStringToken [withinFuel_intros]: "withinFuel k jtStringToken"
proof (rule withinFuelI)
  fix s x t
  assume "jtStringToken s = Inr (x, t)"
  then have t: "t = afterQuote (tl (ws s))" by (simp add: jtStringToken_def Let_def)
  have "length (tl (ws s)) \<le> length s" using ws_length [of s] by simp
  then show "length t \<le> length s" unfolding t using afterQuote_length le_trans by blast
qed (simp add: jtStringToken_def Let_def)

lemma withinFuel_jtString [withinFuel_intros]: "withinFuel k jtString"
proof -
  have "withinFuel k (case parseStringToken tok of None \<Rightarrow> throw TYPE_ERROR | Some v \<Rightarrow> ret v)" for tok
    by (cases "parseStringToken tok") (simp_all add: withinFuel_intros)
  then show ?thesis unfolding jtString_def by (intro withinFuel_intros)
qed

lemma withinFuel_jtNumber [withinFuel_intros]: "withinFuel k jtNumber"
proof (rule withinFuelI)
  fix s x t
  assume "jtNumber s = Inr (x, t)"
  then have "t = drop (length x) (ws s)"
    by (simp only: jtNumber_def Let_def sum.inject prod.inject) (elim conjE, hypsubst, rule refl)
  then show "length t \<le> length s" using ws_length [of s] by simp
next
  fix s e
  assume "jtNumber s = Inl e"
  then show "e \<noteq> OUT_OF_FUEL" by (simp only: jtNumber_def Let_def sum.distinct)
qed

lemma jtSkip_result:
  "case jtSkip d s of Inl e \<Rightarrow> e = INVALID_SCHEMA | Inr (u, t) \<Rightarrow> length t \<le> length s"
proof (induction d s rule: jtSkip.induct)
  case (1 depth s)
  show ?case
  proof (cases "ws s")
    case Nil
    then show ?thesis by (subst jtSkip.simps) simp
  next
    case (Cons c r)
    define p where "p =
        (if c = 0x22 then (depth, afterQuote r)
         else if c = 0x7b \<or> c = 0x5b then (depth + 1, r)
         else if c = 0x7d \<or> c = 0x5d then (depth - 1, r)
         else if c = 0x2c \<or> c = 0x3a then (depth, r)
         else (depth, dropWhile (\<lambda>c. \<not> endsScalar c) (c # r)))"
    obtain d t where p: "p = (d, t)" by (cases p)
    note step = p [symmetric, unfolded p_def]
    have t: "length t \<le> length s"
      using step skip_quote [OF Cons] ws_Cons_length [OF Cons] skip_shorter [OF Cons] by (auto split: if_splits)
    have unfold: "jtSkip depth s = (if d > 0 then jtSkip d t else Inr ((), t))"
      by (subst jtSkip.simps) (simp only: Cons list.case step [symmetric] Let_def prod.case)
    show ?thesis
    proof (cases "d > 0")
      case True
      then have "case jtSkip d t of Inl e \<Rightarrow> e = INVALID_SCHEMA | Inr (u, v) \<Rightarrow> length v \<le> length t"
        using 1 [OF Cons step refl] by blast
      then show ?thesis using t True unfold by (auto split: sum.splits)
    next
      case False
      then show ?thesis using t unfold by simp
    qed
  qed
qed

lemma withinFuel_jtSkip [withinFuel_intros]: "withinFuel k (jtSkip d)"
proof (rule withinFuelI)
  fix s e
  assume "jtSkip d s = Inl e"
  then show "e \<noteq> OUT_OF_FUEL" using jtSkip_result [where d = d and s = s] by simp
next
  fix s x t
  assume "jtSkip d s = Inr (x, t)"
  then show "length t \<le> length s" using jtSkip_result [where d = d and s = s] by simp
qed

text \<open>Each entry but the last is followed by a comma, so the length of the text bounds the loops.\<close>

lemma withinFuel_comma:
  assumes "\<And>j. Suc j = k \<Longrightarrow> withinFuel j m" "withinFuel k l"
  shows "withinFuel k (bind (jtEat [c]) (\<lambda>more. if more then m else l))"
proof (rule withinFuelI)
  fix s e
  assume s: "length s \<le> k" and e: "bind (jtEat [c]) (\<lambda>more. if more then m else l) s = Inl e"
  obtain b t where eat: "jtEat [c] s = Inr (b, t)" by (cases "isPrefix [c] (ws s)") (simp_all add: jtEat_def Let_def)
  note t = jtEat_length [OF eat]
  show "e \<noteq> OUT_OF_FUEL"
  proof (cases b)
    case True
    then have "withinFuel (k - 1) m" using t s by (intro assms(1)) simp
    then show ?thesis using e eat True t s withinFuel_Inl [of "k - 1" m t e] by (simp add: bind_def)
  next
    case False
    then show ?thesis using e eat t s withinFuel_Inl [OF assms(2), of t e] by (simp add: bind_def)
  qed
next
  fix s x r
  assume s: "length s \<le> k" and e: "bind (jtEat [c]) (\<lambda>more. if more then m else l) s = Inr (x, r)"
  obtain b t where eat: "jtEat [c] s = Inr (b, t)" by (cases "isPrefix [c] (ws s)") (simp_all add: jtEat_def Let_def)
  note t = jtEat_length [OF eat]
  show "length r \<le> length s"
  proof (cases b)
    case True
    then have "withinFuel (k - 1) m" using t s by (intro assms(1)) simp
    moreover have "length t \<le> k - 1" "m t = Inr (x, r)" using e eat True t s by (simp_all add: bind_def)
    ultimately have "length r \<le> length t" by (rule withinFuel_Inr)
    then show ?thesis using t by simp
  next
    case False
    then show ?thesis using e eat t s withinFuel_Inr [OF assms(2), of t x r] by (simp add: bind_def)
  qed
qed

lemma withinFuel_less: "withinFuel k m \<Longrightarrow> j \<le> k \<Longrightarrow> withinFuel j m"
  unfolding withinFuel_def using le_trans by blast

lemma objectLoop_fuel:
  "(\<And>ks key. withinFuel k (entry ks key)) \<Longrightarrow> k < n \<Longrightarrow> withinFuel k (objectLoop n entry ks)"
proof (induction n arbitrary: k ks)
  case (Suc n)
  have "withinFuel j (objectLoop n entry (ks @ [key]))" if j: "Suc j = k" for j key
  proof (rule Suc.IH)
    show "withinFuel j (entry ls l)" for ls l by (rule withinFuel_less [OF Suc.prems(1)]) (use j in simp)
  qed (use j Suc.prems(2) in simp)
  then show ?case using Suc.prems(1) by (auto intro!: withinFuel_intros withinFuel_comma)
qed simp

lemma arrayLoop_fuel:
  "(\<And>i. withinFuel k (item i)) \<Longrightarrow> k < n \<Longrightarrow> withinFuel k (arrayLoop n item i)"
proof (induction n arbitrary: k i)
  case (Suc n)
  have "withinFuel j (arrayLoop n item (i + 1))" if j: "Suc j = k" for j
  proof (rule Suc.IH)
    show "withinFuel j (item i)" for i by (rule withinFuel_less [OF Suc.prems(1)]) (use j in simp)
  qed (use j Suc.prems(2) in simp)
  then show ?case using Suc.prems(1) by (auto intro!: withinFuel_intros withinFuel_comma)
qed simp

text \<open>The fuel is one more than the length of the text the reader starts on.\<close>

lemma withinFuel_start: "(\<And>s. length s \<le> k \<Longrightarrow> \<exists>m. withinFuel (length s) m \<and> f s = m s) \<Longrightarrow> withinFuel k f"
  unfolding withinFuel_def by (metis order_refl)

lemma jtObject_fuel [withinFuel_intros]:
  assumes "\<And>ks key. withinFuel k (entry ks key)"
  shows "withinFuel k (jtObject entry)"
proof (rule withinFuel_start)
  fix s :: jsstr
  assume s: "length s \<le> k"
  have "withinFuel (length s) (objectLoop (Suc (length s)) entry [])"
    using withinFuel_less [OF assms s] by (intro objectLoop_fuel) simp_all
  then have r: "withinFuel (length s) (bind (jtEat [0x7b]) (\<lambda>open. if \<not> open then ret None
      else bind (jtEat [0x7d]) (\<lambda>empty. if empty then ret (Some []) else objectLoop (Suc (length s)) entry [])))"
    by (auto simp del: objectLoop.simps intro!: withinFuel_intros)
  show "\<exists>m. withinFuel (length s) m \<and> jtObject entry s = m s"
    by (rule exI, rule conjI, rule r, rule jtObject_def)
qed

lemma jtArray_fuel [withinFuel_intros]:
  assumes "\<And>i. withinFuel k (item i)"
  shows "withinFuel k (jtArray item)"
proof (rule withinFuel_start)
  fix s :: jsstr
  assume s: "length s \<le> k"
  have "withinFuel (length s) (arrayLoop (Suc (length s)) item 0)"
    using withinFuel_less [OF assms s] by (intro arrayLoop_fuel) simp_all
  then have r: "withinFuel (length s) (bind (jtEat [0x5b]) (\<lambda>open. if \<not> open then ret False
      else bind (jtEat [0x5d]) (\<lambda>empty. if empty then ret True else arrayLoop (Suc (length s)) item 0)))"
    by (auto simp del: arrayLoop.simps intro!: withinFuel_intros)
  show "\<exists>m. withinFuel (length s) m \<and> jtArray item s = m s"
    by (rule exI, rule conjI, rule r, rule jtArray_def)
qed

lemma check_codes: "fieldName s \<noteq> Inl OUT_OF_FUEL" "wellFormed s \<noteq> Inl OUT_OF_FUEL"
  by (simp_all add: fieldName_def wellFormed_def)

lemma withinFuel_fieldType [withinFuel_intros]: "withinFuel k readFieldType"
  by (auto simp: readFieldType_def intro!: withinFuel_intros)

lemma withinFuel_part: "withinFuel k (readSchemaPart part)"
  by (cases part)
    (auto simp: readVersion_def readFields_def readIndexes_def readRequired_def check_codes intro!: withinFuel_intros)

text \<open>The check of a schema always ends with an answer.\<close>

lemma checkStorageSchema_fuel: "checkStorageSchema schema \<noteq> Inl OUT_OF_FUEL"
proof -
  have "withinFuel (length schema) (schemaEntry ks key)" for ks key
    unfolding schemaEntry_def
    by (cases "map_of SCHEMA_KEYS key") (auto simp: check_codes intro!: withinFuel_intros withinFuel_part)
  then have o: "withinFuel (length schema) (jtObject schemaEntry)" by (rule jtObject_fuel)
  have "withinFuel (length schema) (schemaItem i)" for i
    unfolding schemaItem_def by (auto intro!: withinFuel_intros withinFuel_part)
  then have a: "withinFuel (length schema) (jtArray schemaItem)" by (rule jtArray_fuel)
  show ?thesis
    using withinFuel_Inl [OF o order_refl] withinFuel_Inl [OF a order_refl]
    by (cases "jtObject schemaEntry schema"; cases "jtArray schemaItem schema") (simp_all add: checkStorageSchema_def Let_def)
qed

subsection \<open>Writing a schema\<close>

definition isObject :: "val \<Rightarrow> bool" where
  "isObject v = (case v of Object _ \<Rightarrow> True | Uint8 _ \<Rightarrow> True | _ \<Rightarrow> False)"

definition isAbsent :: "val \<Rightarrow> bool" where
  "isAbsent v \<longleftrightarrow> v = Undefined \<or> v = Null"

text \<open>\<open>Object.entries\<close> of an object, those of a byte array being its elements by index.\<close>

fun entriesOf :: "val \<Rightarrow> (jsstr \<times> val) list" where
  "entriesOf (Object kvs) = map (\<lambda>(k, v). (js k, v)) kvs"
| "entriesOf (Uint8 bs) = map (\<lambda>(i, b). (decText i, Number (Safe (uint b)))) (List.enumerate 0 bs)"
| "entriesOf _ = []"

fun namesOf :: "val \<Rightarrow> txError + jsstr list" where
  "namesOf (Array xs) = mapE (\<lambda>x. case x of Text s \<Rightarrow> wellFormed s | _ \<Rightarrow> Inl INVALID_SCHEMA) xs"
| "namesOf _ = Inl INVALID_SCHEMA"

fun codePointOrder :: "nat list \<Rightarrow> nat list \<Rightarrow> int" where
  "codePointOrder (a # x) (b # y) = (if int a - int b \<noteq> 0 then int a - int b else codePointOrder x y)"
| "codePointOrder x y = int (length x) - int (length y)"

text \<open>\<open>sort\<close> with a comparison, stable.\<close>

fun insertField :: "jsstr \<times> 'a \<Rightarrow> (jsstr \<times> 'a) list \<Rightarrow> (jsstr \<times> 'a) list" where
  "insertField f [] = [f]"
| "insertField f (g # gs) =
     (if codePointOrder (codePoints (fst f)) (codePoints (fst g)) \<le> 0 then f # g # gs else g # insertField f gs)"

definition sortFields :: "(jsstr \<times> 'a) list \<Rightarrow> (jsstr \<times> 'a) list" where
  "sortFields fs = foldr insertField fs []"

definition flagOk :: "val \<Rightarrow> bool" where
  "flagOk v \<longleftrightarrow> isAbsent v \<or> (case v of Boolean b \<Rightarrow> True | _ \<Rightarrow> False)"

text \<open>One field's name, type and whether it is marked required.\<close>

definition readField :: "jsstr \<times> val \<Rightarrow> txError + jsstr \<times> jsstr \<times> bool" where
  "readField f =
     (case f of (field, value) \<Rightarrow>
       bnd (fieldName field) (\<lambda>_.
         case value of
           Text ty \<Rightarrow> if isFieldType ty then Inr (field, ty, False) else Inl INVALID_SCHEMA
         | _ \<Rightarrow>
             if \<not> isObject value then Inl INVALID_SCHEMA
             else
               bnd (get value ''type'') (\<lambda>ty.
               bnd (get value ''indexed'') (\<lambda>indexed.
               bnd (get value ''required'') (\<lambda>required.
                 case ty of
                   Text ty \<Rightarrow>
                     if \<not> isFieldType ty then Inl INVALID_SCHEMA
                     else if \<not> flagOk indexed \<or> \<not> flagOk required then Inl INVALID_SCHEMA
                     else if indexed = Boolean True then Inl SCHEMA_INDEXES_UNSUPPORTED
                     else Inr (field, ty, required = Boolean True)
                 | _ \<Rightarrow> Inl INVALID_SCHEMA)))))"

fun addRequired :: "jsstr list \<Rightarrow> (jsstr \<times> jsstr \<times> bool) list \<Rightarrow> jsstr list" where
  "addRequired required [] = required"
| "addRequired required ((field, ty, marked) # fs) =
     addRequired (if marked \<and> field \<notin> set required then required @ [field] else required) fs"

definition schemaText :: "int \<Rightarrow> (jsstr \<times> jsstr) list \<Rightarrow> jsstr list \<Rightarrow> jsstr" where
  "schemaText ver fs required =
     js [CHR ''{'', CHR 0x22] @ js ''version'' @ [0x22, 0x3a] @ intText ver @
     [0x2c, 0x22] @ js ''fields'' @ [0x22, 0x3a, 0x7b] @
     joinComma (map (\<lambda>(f, t). quoted f @ 0x3a # quoted t) fs) @
     [0x7d, 0x2c, 0x22] @ js ''indexes'' @ [0x22, 0x3a, 0x5b, 0x5d, 0x2c, 0x22] @ js ''required_fields'' @
     [0x22, 0x3a, 0x5b] @ joinComma (map quoted required) @ [0x5d, 0x7d]"

definition serializeSchema :: "val \<Rightarrow> txError + jsstr" where
  "serializeSchema schema =
     (let s = orElse schema (Object []) in
      if \<not> isObject s then Inl INVALID_SCHEMA
      else
        bnd (get s ''version'') (\<lambda>v.
        bnd (if isAbsent v then Inr 1
             else (case uintField v 32 of Inl e \<Rightarrow> Inl INVALID_SCHEMA | Inr n \<Rightarrow> Inr n)) (\<lambda>ver.
        bnd (get s ''indexes'') (\<lambda>indexes.
        bnd (if isAbsent indexes then Inr ()
             else (case indexes of
                     Array xs \<Rightarrow> if xs \<noteq> [] then Inl SCHEMA_INDEXES_UNSUPPORTED else Inr ()
                   | _ \<Rightarrow> Inl INVALID_SCHEMA)) (\<lambda>_.
        bnd (get s ''required_fields'') (\<lambda>r.
        bnd (if isAbsent r then Inr [] else namesOf r) (\<lambda>required.
        bnd (get s ''fields'') (\<lambda>f.
        (let fieldsIn = (if isAbsent f then Object [] else f) in
         if \<not> isObject fieldsIn then Inl INVALID_SCHEMA
         else
           bnd (mapE readField (entriesOf fieldsIn)) (\<lambda>fs.
             (let fs = sortFields fs in
              Inr (schemaText ver (map (\<lambda>(f, t, _). (f, t)) fs) (addRequired required fs)))))))))))))"

end
