(* ===== verification/Tx_Wire.thy ===== *)
theory Tx_Wire
  imports Tx_Schema
begin

text \<open>
  The JSON objects of the signed transactions whose signature covers every field
  (\<open>src/src/consensus/wire.ts\<close>): each function builds one object, its fields in the order of the
  chain's struct, and throws at the first field that fails its check. \<open>objectOf\<close> is an object
  literal, \<open>propOf\<close> a property of a value that is an object. The sets at the end say what each
  function can return, and the lemmas that it returns nothing else.
\<close>

subsection \<open>Objects\<close>

definition recordOf :: "val \<Rightarrow> txError + val" where
  "recordOf v = (if isObject v then Inr v else Inl INVALID_SIGNED_FIELD)"

definition propOf :: "val \<Rightarrow> string \<Rightarrow> val" where
  "propOf v k = (case get v k of Inl e \<Rightarrow> Undefined | Inr x \<Rightarrow> x)"

definition objectOf :: "(string \<times> (txError + val)) list \<Rightarrow> txError + val" where
  "objectOf fs = bnd (mapE (\<lambda>(k, r). bnd r (\<lambda>v. Inr (k, v))) fs) (\<lambda>kvs. Inr (Object kvs))"

definition optional :: "val \<Rightarrow> (val \<Rightarrow> txError + val) \<Rightarrow> txError + val" where
  "optional v f = (if isAbsent v then Inr Null else f v)"

text \<open>The checks of \<open>Tx_Fields\<close> with their results as values of the object.\<close>

definition textV :: "val \<Rightarrow> txError + val" where
  "textV v = bnd (textField v) (\<lambda>s. Inr (Text s))"

definition textsV :: "val \<Rightarrow> txError + val" where
  "textsV v = bnd (texts v) (\<lambda>ss. Inr (textArray ss))"

definition boolV :: "val \<Rightarrow> txError + val" where
  "boolV v = bnd (boolField v) (\<lambda>b. Inr (Boolean b))"

definition bytesV :: "nat option \<Rightarrow> bool \<Rightarrow> val \<Rightarrow> txError + val" where
  "bytesV len hex v = bnd (bytesField len hex v) (\<lambda>b. Inr (byteArray b))"

definition oneOf :: "string list \<Rightarrow> val \<Rightarrow> txError + val" where
  "oneOf names v =
     (case v of
        Text s \<Rightarrow> if s \<in> set (map js names) then Inr v else Inl INVALID_SIGNED_FIELD
      | _ \<Rightarrow> Inl INVALID_SIGNED_FIELD)"

definition TEE_TYPES :: "string list" where
  "TEE_TYPES = [''AwsNitro'', ''IntelSgx'', ''AmdSev'']"

definition teeType :: "val \<Rightarrow> txError + val" where
  "teeType = oneOf TEE_TYPES"

subsection \<open>Key grants and prices\<close>

definition keyGrantWire :: "val \<Rightarrow> txError + val" where
  "keyGrantWire value =
     bnd (recordOf value) (\<lambda>g.
       objectOf
         [(''grantee_did'', textV (propOf g ''grantee_did'')),
          (''key_epoch'', wireUint (propOf g ''key_epoch'') 32),
          (''grantee_public_key_id'', textV (propOf g ''grantee_public_key_id'')),
          (''ephemeral_public_key'', bytesV None False (propOf g ''ephemeral_public_key'')),
          (''encrypted_key'', bytesV None False (propOf g ''encrypted_key'')),
          (''granted_by'', textV (propOf g ''granted_by'')),
          (''granted_at'', wireUint (propOf g ''granted_at'') 64)])"

definition readPricingWire :: "val \<Rightarrow> txError + val" where
  "readPricingWire value =
     bnd (recordOf value) (\<lambda>p.
       objectOf
         [(''enabled'', boolV (propOf p ''enabled'')),
          (''price_per_query'', wireUint (propOf p ''price_per_query'') 128),
          (''owner_revenue_share_bps'', wireUint (propOf p ''owner_revenue_share_bps'') 32)])"

subsection \<open>A mode's parts\<close>

text \<open>\<open>String(v)\<close>.\<close>

fun jsString :: "val \<Rightarrow> jsstr" where
  "jsString Undefined = js ''undefined''"
| "jsString Null = js ''null''"
| "jsString (Boolean b) = (if b then js ''true'' else js ''false'')"
| "jsString (Number (Safe n)) = intText n"
| "jsString (Number (Unsafe t)) = t"
| "jsString (BigInt n) = intText n"
| "jsString (Text s) = s"
| "jsString (Array xs) = joinComma (map (\<lambda>x. if isAbsent x then [] else jsString x) xs)"
| "jsString (Uint8 bs) = joinComma (map (\<lambda>b. decText (unat b)) bs)"
| "jsString (Object _) = js ''[object Object]''"

definition retentionKind :: "val \<Rightarrow> txError + jsstr \<times> val" where
  "retentionKind value =
     (case value of
        Object kvs \<Rightarrow>
          if ''type'' \<in> set (map fst kvs) then Inr (jsString (propOf value ''type''), propOf value ''value'')
          else variant value
      | _ \<Rightarrow> variant value)"

definition retentionWindowWire :: "val \<Rightarrow> txError + val" where
  "retentionWindowWire value =
     bnd (retentionKind value) (\<lambda>(kind, n).
       if kind = js ''Blocks'' then objectOf [(''Blocks'', wireUint n 64)]
       else if kind = js ''Seconds'' then objectOf [(''Seconds'', wireUint n 64)]
       else if kind = js ''Indefinite'' \<or> kind = js ''VerifyOnly'' then Inr (Text kind)
       else Inl INVALID_SIGNED_FIELD)"

definition executionModeWire :: "val \<Rightarrow> txError + val" where
  "executionModeWire value =
     bnd (variant value) (\<lambda>(kind, fs).
       if kind = js ''ConsensusExecution'' then
         (if isAbsent fs then Inr (Text kind) else Inl INVALID_SIGNED_FIELD)
       else if kind = js ''IndexerExecution'' then
         bnd (recordOf fs) (\<lambda>f.
           objectOf [(''IndexerExecution'',
             objectOf [(''sampling_rate_percent'', wireUint (propOf f ''sampling_rate_percent'') 8)])])
       else if kind = js ''TeeExecution'' then
         bnd (recordOf fs) (\<lambda>f.
           objectOf [(''TeeExecution'', objectOf [(''tee_type'', teeType (propOf f ''tee_type''))])])
       else Inl INVALID_SIGNED_FIELD)"

definition DEFAULT_EPOCH_LENGTH :: int where
  "DEFAULT_EPOCH_LENGTH = 100"

definition indexerConfigWire :: "val \<Rightarrow> txError + val" where
  "indexerConfigWire value =
     bnd (recordOf value) (\<lambda>c.
       objectOf
         [(''min_indexers'', wireUint (propOf c ''min_indexers'') 8),
          (''max_indexers'', wireUint (propOf c ''max_indexers'') 8),
          (''reward_per_epoch'', wireUint (propOf c ''reward_per_epoch'') 128),
          (''epoch_length'',
             wireUint (orElse (propOf c ''epoch_length'') (Number (Safe DEFAULT_EPOCH_LENGTH))) 64),
          (''min_indexer_stake'', wireUint (propOf c ''min_indexer_stake'') 128)])"

definition configHash :: "val \<Rightarrow> txError + val" where
  "configHash value =
     (case value of
        Array xs \<Rightarrow>
          if length xs \<noteq> 4 then Inl INVALID_SIGNED_FIELD
          else bnd (mapE (\<lambda>x. bnd (uintField x 32) (\<lambda>n. Inr (Number (Safe n)))) xs) (\<lambda>ys. Inr (Array ys))
      | _ \<Rightarrow> Inl INVALID_SIGNED_FIELD)"

definition completenessWire :: "val \<Rightarrow> txError + val" where
  "completenessWire value =
     bnd (recordOf value) (\<lambda>c.
       objectOf
         [(''log_config_hash'', configHash (propOf c ''log_config_hash'')),
          (''tx_config_hash'', configHash (propOf c ''tx_config_hash'')),
          (''deferred'', boolV (orElse (propOf c ''deferred'') (Boolean False))),
          (''bond_amount'', wireUint (orElse (propOf c ''bond_amount'') (Number (Safe 0))) 128)])"

definition HISTORICAL_AUTH_MODES :: "string list" where
  "HISTORICAL_AUTH_MODES = [''BftEquivalent'', ''CanonizedAccumulator'']"

definition historicalAuthModeWire :: "val \<Rightarrow> txError + val" where
  "historicalAuthModeWire = oneOf HISTORICAL_AUTH_MODES"

definition wasmModuleWire :: "val \<Rightarrow> txError + val" where
  "wasmModuleWire value =
     bnd (recordOf value) (\<lambda>m.
       objectOf
         [(''name'', textV (propOf m ''name'')),
          (''hash'', bytesV (Some 32) True (propOf m ''hash'')),
          (''content'', bytesV None False (propOf m ''content''))])"

definition accessLists :: "val \<Rightarrow> txError + val \<times> val" where
  "accessLists m =
     bnd (textsV (orElse (propOf m ''writers'') (Array []))) (\<lambda>writers.
     bnd (textsV (orElse (propOf m ''free_readers'') (orElse (propOf m ''readers'') (Array [])))) (\<lambda>free_readers.
       Inr (writers, free_readers)))"

subsection \<open>Modes\<close>

definition dataStorageWire :: "val \<Rightarrow> txError + val" where
  "dataStorageWire fs =
     bnd (recordOf fs) (\<lambda>m.
     bnd (accessLists m) (\<lambda>(writers, free_readers).
       objectOf [(''DataStorage'',
         objectOf
           [(''name'', textV (propOf m ''name'')),
            (''writers'', Inr writers),
            (''free_readers'', Inr free_readers),
            (''read_pricing'', optional (propOf m ''read_pricing'') readPricingWire)])]))"

definition fileStorageWire :: "val \<Rightarrow> txError + val" where
  "fileStorageWire fs =
     bnd (recordOf fs) (\<lambda>m.
     bnd (accessLists m) (\<lambda>(writers, free_readers).
       objectOf [(''FileStorage'',
         objectOf
           [(''name'', textV (propOf m ''name'')),
            (''max_file_size'', wireUint (propOf m ''max_file_size'') 64),
            (''replication_factor'', wireUint (propOf m ''replication_factor'') 8),
            (''writers'', Inr writers),
            (''free_readers'', Inr free_readers),
            (''read_pricing'', optional (propOf m ''read_pricing'') readPricingWire),
            (''retention_period'', wireUint (orElse (propOf m ''retention_period'') (Number (Safe 0))) 64)])]))"

definition indexingWire :: "val \<Rightarrow> val \<Rightarrow> txError + val" where
  "indexingWire txWindow fs =
     bnd (recordOf fs) (\<lambda>m.
       if propOf m ''retention_window'' \<noteq> Undefined \<and> txWindow \<noteq> Undefined then Inl INVALID_SIGNED_FIELD
       else
         (case orElse (propOf m ''wasm_modules'') (Array []) of
            Array modules \<Rightarrow>
              objectOf [(''BlockchainIndexing'',
                objectOf
                  [(''manifest_content'', bytesV None False (propOf m ''manifest_content'')),
                   (''wasm_modules'', bnd (mapE wasmModuleWire modules) (\<lambda>ws. Inr (Array ws))),
                   (''execution_mode'', executionModeWire (propOf m ''execution_mode'')),
                   (''indexer_config'', indexerConfigWire (propOf m ''indexer_config'')),
                   (''retention_window'',
                      retentionWindowWire
                        (orElse (propOf m ''retention_window'') (orElse txWindow (Text (js ''Indefinite''))))),
                   (''completeness'', optional (propOf m ''completeness'') completenessWire),
                   (''historical_auth_mode'',
                      historicalAuthModeWire
                        (orElse (propOf m ''historical_auth_mode'') (Text (js ''BftEquivalent''))))])]
          | _ \<Rightarrow> Inl INVALID_SIGNED_FIELD))"

definition modeWire :: "val \<Rightarrow> val \<Rightarrow> txError + val" where
  "modeWire tx name =
     (let mode = orElse (propOf tx ''mode'')
            (Object [(''DataStorage'',
               Object [(''name'', name), (''writers'', Array [propOf tx ''ownerDid'']), (''free_readers'', Array [])])])
      in
      bnd (variant mode) (\<lambda>(kind, fs).
        if kind \<noteq> js ''BlockchainIndexing'' \<and> propOf tx ''retention_window'' \<noteq> Undefined
        then Inl INVALID_SIGNED_FIELD
        else if kind = js ''DataStorage'' then dataStorageWire fs
        else if kind = js ''FileStorage'' then fileStorageWire fs
        else if kind = js ''BlockchainIndexing'' then indexingWire (propOf tx ''retention_window'') fs
        else Inl INVALID_SIGNED_FIELD))"

subsection \<open>The other optional parts\<close>

definition frequencyWire :: "val \<Rightarrow> txError + val" where
  "frequencyWire value =
     bnd (variant value) (\<lambda>(kind, n).
       if kind = js ''EveryUpdate'' \<or> kind = js ''Never'' then
         (if isAbsent n then Inr (Text kind) else Inl INVALID_SIGNED_FIELD)
       else if kind = js ''EveryNBlocks'' then objectOf [(''EveryNBlocks'', wireUint n 64)]
       else if kind = js ''EveryNSeconds'' then objectOf [(''EveryNSeconds'', wireUint n 64)]
       else Inl INVALID_SIGNED_FIELD)"

definition privacyWire :: "val \<Rightarrow> txError + val" where
  "privacyWire value =
     bnd (recordOf value) (\<lambda>p.
     bnd (frequencyWire (propOf p ''commitment_frequency'')) (\<lambda>frequency.
       objectOf
         [(''allowed_indexers'', optional (propOf p ''allowed_indexers'') textsV),
          (''commitment_frequency'', Inr frequency)]))"

definition templateWire :: "val \<Rightarrow> txError + val" where
  "templateWire value =
     bnd (recordOf value) (\<lambda>t.
       objectOf
         [(''template_id'', textV (propOf t ''template_id'')),
          (''template_version'', wireUint (propOf t ''template_version'') 32),
          (''variant_id'', textV (propOf t ''variant_id'')),
          (''parameters'', bytesV None False (propOf t ''parameters'')),
          (''contracts'', textsV (propOf t ''contracts'')),
          (''event_signatures'', textsV (propOf t ''event_signatures'')),
          (''chain'', optional (propOf t ''chain'') textV)])"

definition initialFundingWire :: "val \<Rightarrow> txError + val" where
  "initialFundingWire value =
     (if isAbsent value \<or> value = Text [] then Inr Null
      else bnd (uintField value 128) (\<lambda>n. Inr (Text (intText n))))"

subsection \<open>The chain's rules for a data or file registration\<close>

definition STORAGE_SUBGROVE_ID :: "jsstr \<Rightarrow> bool" where
  "STORAGE_SUBGROVE_ID s \<longleftrightarrow>
     (case s of [] \<Rightarrow> False | c # r \<Rightarrow> isAlnum c \<and> list_all idChar r \<and> length r \<le> 63)"

fun itemsOf :: "val \<Rightarrow> val list" where
  "itemsOf (Array xs) = xs"
| "itemsOf _ = []"

definition textOf :: "val \<Rightarrow> jsstr" where
  "textOf v = (case v of Text s \<Rightarrow> s | _ \<Rightarrow> [])"

text \<open>The one entry of the mode object.\<close>

definition modeEntry :: "val \<Rightarrow> string \<times> val" where
  "modeEntry mode = (case mode of Object (e # es) \<Rightarrow> e | _ \<Rightarrow> ([], Undefined))"

definition checkStorageRegistration :: "val \<Rightarrow> txError + unit" where
  "checkStorageRegistration w =
     bnd (ensure (STORAGE_SUBGROVE_ID (textOf (propOf w ''subgrove_id''))) INVALID_SUBGROVE_ID) (\<lambda>_.
     bnd (mapE willowDid (itemsOf (propOf w ''admins''))) (\<lambda>_.
     (let (kind, m) = modeEntry (propOf w ''mode'') in
      bnd (mapE willowDid (itemsOf (propOf m ''writers''))) (\<lambda>_.
      bnd (mapE willowDid (itemsOf (propOf m ''free_readers''))) (\<lambda>_.
      bnd (checkStorageSchema (textOf (propOf w ''schema''))) (\<lambda>_.
      (let grant = propOf w ''initial_owner_key_grant'' in
       if kind = ''DataStorage'' \<and> propOf w ''privacy'' \<noteq> Null \<and> grant \<noteq> Null then
         bnd (ensure (propOf grant ''key_epoch'' = Number (Safe 0)) INVALID_KEY_GRANT) (\<lambda>_.
         bnd (ensure (propOf grant ''grantee_did'' = propOf w ''owner_did'') INVALID_KEY_GRANT) (\<lambda>_.
         bnd (willowDid (propOf grant ''grantee_did'')) (\<lambda>_. Inr ())))
       else Inr ())))))))"

definition checkpointWire :: "val \<Rightarrow> txError + val" where
  "checkpointWire checkpoint =
     objectOf [(''required_tee'',
       bnd (recordOf checkpoint) (\<lambda>c. optional (propOf c ''required_tee'') teeType))]"

definition isStorage :: "val \<Rightarrow> bool" where
  "isStorage mode \<longleftrightarrow> fst (modeEntry mode) \<in> {''DataStorage'', ''FileStorage''}"

definition registerSubgroveWire :: "val \<Rightarrow> val \<Rightarrow> txError + val" where
  "registerSubgroveWire tx signature =
     (let name = orElse (propOf tx ''name'') (propOf tx ''subgroveId'');
          checkpoint = orElse (propOf tx ''checkpointVerification'') (Object [(''required_tee'', Null)])
      in
      bnd (modeWire tx name) (\<lambda>mode.
      bnd (objectOf
         [(''subgrove_id'', textV (propOf tx ''subgroveId'')),
          (''name'', textV name),
          (''description'', textV (orElse (propOf tx ''description'') (Text []))),
          (''schema'', textV (propOf tx ''schema'')),
          (''owner_did'', textV (propOf tx ''ownerDid'')),
          (''admins'', textsV (orElse (propOf tx ''admins'') (Array []))),
          (''initial_funding'', initialFundingWire (propOf tx ''initialFunding'')),
          (''checkpoint_verification'', checkpointWire checkpoint),
          (''mode'', Inr mode),
          (''privacy'', optional (propOf tx ''privacy'') privacyWire),
          (''initial_owner_key_grant'', optional (propOf tx ''initialOwnerKeyGrant'') keyGrantWire),
          (''template_config'', optional (propOf tx ''templateConfig'') templateWire),
          (''confirmation_depth'', wireUint (orElse (propOf tx ''confirmationDepth'') (Number (Safe 0))) 32),
          (''signature'', Inr signature),
          (''public_key_id'', textV (orElse (propOf tx ''publicKeyId'') (Text []))),
          (''nonce'', wireUint (orElse (propOf tx ''nonce'') (Number (Safe 0))) 64),
          (''cryptographic_completeness'',
             boolV (orElse (propOf tx ''cryptographicCompleteness'') (Boolean False)))]) (\<lambda>w.
      bnd (if isStorage mode then checkStorageRegistration w else Inr ()) (\<lambda>_. Inr w))))"

subsection \<open>DID documents\<close>

text \<open>\<open>base64ToBytes\<close> over \<open>atob\<close>, and a key's hex.\<close>

definition base64Bytes :: "(jsstr \<Rightarrow> jsstr option) \<Rightarrow> jsstr \<Rightarrow> txError + bytes" where
  "base64Bytes atob s =
     (case atob s of None \<Rightarrow> Inl TYPE_ERROR | Some binary \<Rightarrow> Inr (map (\<lambda>c. ucast c) binary))"

definition sdkKeyHex :: "(jsstr \<Rightarrow> jsstr option) \<Rightarrow> val \<Rightarrow> txError + val" where
  "sdkKeyHex atob k =
     (if \<not> isAbsent (propOf k ''publicKeyHex'') then textV (propOf k ''publicKeyHex'')
      else if \<not> isAbsent (propOf k ''publicKeyBase64'') then
        bnd (textField (propOf k ''publicKeyBase64'')) (\<lambda>s.
        bnd (base64Bytes atob s) (\<lambda>b. Inr (Text (js (bytesToHex b)))))
      else Inr Null)"

definition isText :: "val \<Rightarrow> bool" where
  "isText v = (case v of Text _ \<Rightarrow> True | _ \<Rightarrow> False)"

text \<open>A falsy entry of the list is passed over, and so is any other value without the properties.\<close>

definition didDocumentKeyType :: "val \<Rightarrow> val \<Rightarrow> jsstr option" where
  "didDocumentKeyType doc publicKeyId =
     (let keys = (case (propOf doc ''publicKeys'', propOf doc ''public_keys'') of
             (Array xs, _) \<Rightarrow> xs | (_, Array xs) \<Rightarrow> xs | _ \<Rightarrow> []);
          found = List.find (\<lambda>k. propOf k ''id'' = publicKeyId \<and> isText (propOf k ''type'')) keys
      in Option.bind found (\<lambda>k. case propOf k ''type'' of Text s \<Rightarrow> Some s | _ \<Rightarrow> None))"

definition chainKey :: "val \<Rightarrow> txError + val" where
  "chainKey key =
     bnd (recordOf key) (\<lambda>k.
       objectOf
         [(''id'', textV (propOf k ''id'')),
          (''type'', textV (propOf k ''type'')),
          (''controller'', textV (propOf k ''controller'')),
          (''public_key_base58'', optional (propOf k ''public_key_base58'') textV),
          (''public_key_hex'', optional (propOf k ''public_key_hex'') textV)])"

definition serviceWire :: "val \<Rightarrow> txError + val" where
  "serviceWire entry =
     bnd (recordOf entry) (\<lambda>s.
       objectOf
         [(''id'', textV (propOf s ''id'')),
          (''type'', textV (propOf s ''type'')),
          (''service_endpoint'', textV (propOf s ''service_endpoint''))])"

definition proofWire :: "val \<Rightarrow> txError + val" where
  "proofWire p =
     bnd (recordOf p) (\<lambda>r.
       objectOf
         [(''type'', textV (propOf r ''type'')),
          (''created'', wireUint (propOf r ''created'') 64),
          (''verification_method'', textV (propOf r ''verification_method'')),
          (''proof_purpose'', textV (propOf r ''proof_purpose'')),
          (''jws'', textV (propOf r ''jws''))])"

definition sdkKey :: "(jsstr \<Rightarrow> jsstr option) \<Rightarrow> jsstr \<Rightarrow> val \<Rightarrow> txError + val" where
  "sdkKey atob did key =
     bnd (recordOf key) (\<lambda>k.
       objectOf
         [(''id'', textV (propOf k ''id'')),
          (''type'', textV (propOf k ''type'')),
          (''controller'', Inr (Text did)),
          (''public_key_base58'', Inr Null),
          (''public_key_hex'', sdkKeyHex atob k)])"

definition chainDidDocument :: "(jsstr \<Rightarrow> jsstr option) \<Rightarrow> val \<Rightarrow> txError + val" where
  "chainDidDocument atob value =
     bnd (recordOf value) (\<lambda>d.
     bnd (textField (propOf d ''id'')) (\<lambda>did.
     bnd (wireUint (propOf d ''created'') 64) (\<lambda>created.
     bnd (wireUint (propOf d ''updated'') 64) (\<lambda>updated.
       case propOf d ''public_keys'' of
         Array keys \<Rightarrow>
           (case orElse (propOf d ''service'') (Array []) of
              Array services \<Rightarrow>
                objectOf
                  [(''id'', Inr (Text did)),
                   (''public_keys'', bnd (mapE chainKey keys) (\<lambda>ks. Inr (Array ks))),
                   (''authentication'', textsV (propOf d ''authentication'')),
                   (''service'', bnd (mapE serviceWire services) (\<lambda>ss. Inr (Array ss))),
                   (''created'', Inr created),
                   (''updated'', Inr updated),
                   (''proof'', optional (propOf d ''proof'') proofWire)]
            | _ \<Rightarrow> Inl INVALID_SIGNED_FIELD)
       | _ \<Rightarrow>
           (case propOf d ''publicKeys'' of
              Array keys \<Rightarrow>
                bnd (mapE (sdkKey atob did) keys) (\<lambda>ks.
                  Inr (Object
                    [(''id'', Text did),
                     (''public_keys'', Array ks),
                     (''authentication'', Array (map (\<lambda>k. propOf k ''id'') ks)),
                     (''service'', Array []),
                     (''created'', created),
                     (''updated'', updated),
                     (''proof'', Null)]))
            | _ \<Rightarrow> Inl INVALID_SIGNED_FIELD)))))"

end
