(* ===== verification/Tx_Bincode.thy ===== *)
theory Tx_Bincode
  imports Tx_Wire
begin

text \<open>
  The bincode of a registration (\<open>src/src/consensus/bincode.ts\<close>), which its signature covers. A
  method of \<open>Writer\<close> appends to the bytes written so far (the buffer's capacity, which \<open>reserve\<close>
  doubles, is not modelled). The lemmas: each writer is a prefix-free code on the values its field
  can hold, put together from the codes of its parts (\<open>codes_fields\<close>, \<open>codes_list\<close>,
  \<open>codes_option\<close>, \<open>codes_variant\<close>), so equal bytes are equal registrations.
\<close>

type_synonym writer = "(bytes, txError, unit) meth"

subsection \<open>\<open>Writer\<close>\<close>

definition put :: "bytes \<Rightarrow> writer" where
  "put bs buf = Inr ((), buf @ bs)"

fun leBytes :: "nat \<Rightarrow> int \<Rightarrow> bytes" where
  "leBytes 0 v = []"
| "leBytes (Suc n) v = of_int (v mod 256) # leBytes n (v div 256)"

definition wInt :: "nat \<Rightarrow> val \<Rightarrow> writer" where
  "wInt bits value = bind (lift (uintField value bits)) (\<lambda>v. put (leBytes (bits div 8) v))"

abbreviation wU8 :: "val \<Rightarrow> writer" where "wU8 \<equiv> wInt 8"
abbreviation wU32 :: "val \<Rightarrow> writer" where "wU32 \<equiv> wInt 32"
abbreviation wU64 :: "val \<Rightarrow> writer" where "wU64 \<equiv> wInt 64"
abbreviation wU128 :: "val \<Rightarrow> writer" where "wU128 \<equiv> wInt 128"

fun truthy :: "val \<Rightarrow> bool" where
  "truthy Undefined = False"
| "truthy Null = False"
| "truthy (Boolean b) = b"
| "truthy (Number (Safe n)) = (n \<noteq> 0)"
| "truthy (Number (Unsafe t)) = (t \<noteq> js ''NaN'')"
| "truthy (BigInt n) = (n \<noteq> 0)"
| "truthy (Text s) = (s \<noteq> [])"
| "truthy _ = True"

definition nat_val :: "nat \<Rightarrow> val" where
  "nat_val n = Number (Safe (int n))"

definition wBool :: "val \<Rightarrow> writer" where
  "wBool v = wU8 (nat_val (if truthy v then 1 else 0))"

text \<open>The bytes of an array of numbers or a byte array; nothing else is passed.\<close>

fun byteList :: "val \<Rightarrow> txError + bytes" where
  "byteList (Array xs) = mapE (\<lambda>x. case x of Number (Safe n) \<Rightarrow> Inr (of_int n) | _ \<Rightarrow> Inl TYPE_ERROR) xs"
| "byteList (Uint8 bs) = Inr bs"
| "byteList _ = Inl TYPE_ERROR"

definition wRaw :: "val \<Rightarrow> writer" where
  "wRaw b = bind (lift (byteList b)) put"

definition wBytes :: "val \<Rightarrow> writer" where
  "wBytes b = bind (lift (byteList b)) (\<lambda>bs. bind (wU64 (nat_val (length bs))) (\<lambda>_. put bs))"

fun wString :: "val \<Rightarrow> writer" where
  "wString (Text s) = wBytes (Uint8 (utf8ToBytes s))"
| "wString _ = throw TYPE_ERROR"

text \<open>A list: its length, then each element.\<close>

fun wList :: "(val \<Rightarrow> writer) \<Rightarrow> val \<Rightarrow> writer" where
  "wList w (Array xs) = bind (wU64 (nat_val (length xs))) (\<lambda>_. forEach xs w)"
| "wList w _ = throw TYPE_ERROR"

definition wStrings :: "val \<Rightarrow> writer" where
  "wStrings = wList wString"

definition wOption :: "(val \<Rightarrow> writer) \<Rightarrow> val \<Rightarrow> writer" where
  "wOption w v = (if isAbsent v then wU8 (nat_val 0) else bind (wU8 (nat_val 1)) (\<lambda>_. w v))"

text \<open>\<open>w.a(o.x); w.b(o.y); ...\<close> over the properties of an object.\<close>

fun writeFields :: "(string \<times> (val \<Rightarrow> writer)) list \<Rightarrow> val \<Rightarrow> writer" where
  "writeFields [] v = ret ()"
| "writeFields ((k, w) # fs) v = bind (lift (get v k)) (\<lambda>x. bind (w x) (\<lambda>_. writeFields fs v))"

subsection \<open>Enums\<close>

fun indexFrom :: "nat \<Rightarrow> string list \<Rightarrow> jsstr \<Rightarrow> txError + nat" where
  "indexFrom i [] name = Inl INVALID_SIGNED_FIELD"
| "indexFrom i (n # ns) name = (if js n = name then Inr i else indexFrom (i + 1) ns name)"

definition wIndex :: "string list \<Rightarrow> jsstr \<Rightarrow> writer" where
  "wIndex names name = bind (lift (indexFrom 0 names name)) (\<lambda>i. wU32 (nat_val i))"

text \<open>An enum of names only: \<open>w.u32(index(names, v))\<close>.\<close>

definition wEnum :: "string list \<Rightarrow> val \<Rightarrow> writer" where
  "wEnum names v = (case v of Text s \<Rightarrow> wIndex names s | _ \<Rightarrow> throw INVALID_SIGNED_FIELD)"

text \<open>An enum whose variants have fields: the index of its name, then what \<open>rest\<close> writes for it.\<close>

definition wVariant :: "string list \<Rightarrow> (jsstr \<Rightarrow> val \<Rightarrow> writer) \<Rightarrow> val \<Rightarrow> writer" where
  "wVariant names rest v =
     bind (lift (variant v)) (\<lambda>(name, x). bind (wIndex names name) (\<lambda>_. rest name x))"

definition COMMITMENT_FREQUENCIES :: "string list" where
  "COMMITMENT_FREQUENCIES = [''EveryUpdate'', ''EveryNBlocks'', ''EveryNSeconds'', ''Never'']"

definition RETENTION_WINDOWS :: "string list" where
  "RETENTION_WINDOWS = [''Blocks'', ''Seconds'', ''Indefinite'', ''VerifyOnly'']"

definition EXECUTION_MODES :: "string list" where
  "EXECUTION_MODES = [''ConsensusExecution'', ''IndexerExecution'', ''TeeExecution'']"

definition SUBGROVE_MODES :: "string list" where
  "SUBGROVE_MODES = [''DataStorage'', ''FileStorage'', ''BlockchainIndexing'']"

subsection \<open>The parts of a registration\<close>

definition wReadPricing :: "val \<Rightarrow> writer" where
  "wReadPricing = writeFields
     [(''enabled'', wBool), (''price_per_query'', wU128), (''owner_revenue_share_bps'', wU32)]"

definition wKeyGrant :: "val \<Rightarrow> writer" where
  "wKeyGrant = writeFields
     [(''grantee_did'', wString), (''key_epoch'', wU32), (''grantee_public_key_id'', wString),
      (''ephemeral_public_key'', wBytes), (''encrypted_key'', wBytes), (''granted_by'', wString),
      (''granted_at'', wU64)]"

definition wModule :: "val \<Rightarrow> writer" where
  "wModule = writeFields [(''name'', wString), (''hash'', wRaw), (''content'', wBytes)]"

definition wExecutionMode :: "val \<Rightarrow> writer" where
  "wExecutionMode = wVariant EXECUTION_MODES (\<lambda>ex fs.
     if ex = js ''IndexerExecution'' then writeFields [(''sampling_rate_percent'', wU8)] fs
     else if ex = js ''TeeExecution'' then writeFields [(''tee_type'', wEnum TEE_TYPES)] fs
     else ret ())"

definition wIndexerConfig :: "val \<Rightarrow> writer" where
  "wIndexerConfig = writeFields
     [(''min_indexers'', wU8), (''max_indexers'', wU8), (''reward_per_epoch'', wU128),
      (''epoch_length'', wU64), (''min_indexer_stake'', wU128)]"

definition wRetention :: "val \<Rightarrow> writer" where
  "wRetention = wVariant RETENTION_WINDOWS (\<lambda>rw n.
     if rw = js ''Blocks'' \<or> rw = js ''Seconds'' then wU64 n else ret ())"

fun wWords :: "val \<Rightarrow> writer" where
  "wWords (Array xs) = forEach xs wU32"
| "wWords _ = throw TYPE_ERROR"

definition wCompleteness :: "val \<Rightarrow> writer" where
  "wCompleteness = writeFields
     [(''log_config_hash'', wWords), (''tx_config_hash'', wWords), (''deferred'', wBool),
      (''bond_amount'', wU128)]"

definition subgroveMode :: "val \<Rightarrow> writer" where
  "subgroveMode = wVariant SUBGROVE_MODES (\<lambda>name.
     if name = js ''DataStorage'' then
       writeFields
         [(''name'', wString), (''writers'', wStrings), (''free_readers'', wStrings),
          (''read_pricing'', wOption wReadPricing)]
     else if name = js ''FileStorage'' then
       writeFields
         [(''name'', wString), (''max_file_size'', wU64), (''replication_factor'', wU8),
          (''writers'', wStrings), (''free_readers'', wStrings),
          (''read_pricing'', wOption wReadPricing), (''retention_period'', wU64)]
     else
       writeFields
         [(''manifest_content'', wBytes), (''wasm_modules'', wList wModule),
          (''execution_mode'', wExecutionMode), (''indexer_config'', wIndexerConfig),
          (''retention_window'', wRetention), (''completeness'', wOption wCompleteness),
          (''historical_auth_mode'', wEnum HISTORICAL_AUTH_MODES)])"

definition wFrequency :: "val \<Rightarrow> writer" where
  "wFrequency = wVariant COMMITMENT_FREQUENCIES (\<lambda>cf n.
     if cf = js ''EveryNBlocks'' \<or> cf = js ''EveryNSeconds'' then wU64 n else ret ())"

definition wPrivacy :: "val \<Rightarrow> writer" where
  "wPrivacy = writeFields
     [(''allowed_indexers'', wOption wStrings), (''commitment_frequency'', wFrequency)]"

definition wTemplate :: "val \<Rightarrow> writer" where
  "wTemplate = writeFields
     [(''template_id'', wString), (''template_version'', wU32), (''variant_id'', wString),
      (''parameters'', wBytes), (''contracts'', wStrings), (''event_signatures'', wStrings),
      (''chain'', wOption wString)]"

text \<open>The signature is written empty, whatever the body carries.\<close>

definition wRegistration :: "val \<Rightarrow> writer" where
  "wRegistration = writeFields
     [(''subgrove_id'', wString), (''name'', wString), (''description'', wString), (''schema'', wString),
      (''owner_did'', wString), (''admins'', wStrings), (''initial_funding'', wOption wU128),
      (''checkpoint_verification'', writeFields [(''required_tee'', wOption (wEnum TEE_TYPES))]),
      (''mode'', subgroveMode), (''privacy'', wOption wPrivacy),
      (''initial_owner_key_grant'', wOption wKeyGrant), (''template_config'', wOption wTemplate),
      (''confirmation_depth'', wU32), (''signature'', \<lambda>_. wBytes (Array [])),
      (''public_key_id'', wString), (''nonce'', wU64), (''cryptographic_completeness'', wBool)]"

definition registerSubgroveBincode :: "val \<Rightarrow> txError + bytes" where
  "registerSubgroveBincode t =
     (case wRegistration t [] of Inl e \<Rightarrow> Inl e | Inr (u, buf) \<Rightarrow> Inr buf)"

subsection \<open>Prefix-free codes\<close>

text \<open>What a writer appends for a value, and when it is a code on a set of values.\<close>

definition encOf :: "(val \<Rightarrow> writer) \<Rightarrow> val \<Rightarrow> bytes option" where
  "encOf w x = (case w x [] of Inl e \<Rightarrow> None | Inr (u, b) \<Rightarrow> Some b)"

definition appends :: "(val \<Rightarrow> writer) \<Rightarrow> val \<Rightarrow> bool" where
  "appends w x \<longleftrightarrow>
     (\<forall>buf. w x buf = (case encOf w x of None \<Rightarrow> Inl INVALID_SIGNED_FIELD | Some b \<Rightarrow> Inr ((), buf @ b)))"

definition separates :: "('a \<Rightarrow> bytes option) \<Rightarrow> 'a set \<Rightarrow> bool" where
  "separates enc D \<longleftrightarrow>
     (\<forall>x\<in>D. \<forall>y\<in>D. \<forall>b c r t. enc x = Some b \<longrightarrow> enc y = Some c \<longrightarrow> b @ r = c @ t \<longrightarrow> x = y \<and> r = t)"

definition codes :: "(val \<Rightarrow> writer) \<Rightarrow> val set \<Rightarrow> bool" where
  "codes w D \<longleftrightarrow> (\<forall>x\<in>D. appends w x) \<and> separates (encOf w) D"

named_theorems code_intros \<open>the writers that are codes\<close>

lemma separatesI:
  "(\<And>x y b c r t. x \<in> D \<Longrightarrow> y \<in> D \<Longrightarrow> enc x = Some b \<Longrightarrow> enc y = Some c \<Longrightarrow> b @ r = c @ t \<Longrightarrow> x = y \<and> r = t)
     \<Longrightarrow> separates enc D"
  unfolding separates_def by blast

lemma separatesD:
  "separates enc D \<Longrightarrow> x \<in> D \<Longrightarrow> y \<in> D \<Longrightarrow> enc x = Some b \<Longrightarrow> enc y = Some c \<Longrightarrow> b @ r = c @ t
     \<Longrightarrow> x = y \<and> r = t"
  unfolding separates_def by blast

text \<open>A writer is a code as soon as it appends what a separating function says.\<close>

lemma codesI:
  assumes w: "\<And>x buf. x \<in> D \<Longrightarrow> w x buf = (case e x of None \<Rightarrow> Inl INVALID_SIGNED_FIELD | Some b \<Rightarrow> Inr ((), buf @ b))"
    and sep: "separates e D"
  shows "codes w D"
proof -
  have enc: "encOf w x = e x" if "x \<in> D" for x
    unfolding encOf_def w [OF that] by (cases "e x") simp_all
  have "separates (encOf w) D"
    by (rule separatesI) (metis enc separatesD [OF sep])
  moreover have "appends w x" if "x \<in> D" for x
    unfolding appends_def enc [OF that] using w [OF that] by blast
  ultimately show ?thesis by (simp add: codes_def)
qed

lemma codes_appends: "codes w D \<Longrightarrow> x \<in> D \<Longrightarrow>
    w x buf = (case encOf w x of None \<Rightarrow> Inl INVALID_SIGNED_FIELD | Some b \<Rightarrow> Inr ((), buf @ b))"
  by (simp add: codes_def appends_def)

lemma codes_separates: "codes w D \<Longrightarrow> separates (encOf w) D"
  by (simp add: codes_def)

lemma codes_subset: "codes w D \<Longrightarrow> E \<subseteq> D \<Longrightarrow> codes w E"
  unfolding codes_def separates_def by blast

lemma codes_cong: "codes w D \<Longrightarrow> (\<And>x. x \<in> D \<Longrightarrow> v x = w x) \<Longrightarrow> codes v D"
  by (rule codesI [where e = "encOf w"]) (simp_all add: codes_appends codes_separates)

lemma codes_const: "w x = put [] \<Longrightarrow> codes w {x}"
  by (rule codesI [where e = "\<lambda>_. Some []"]) (simp_all add: put_def separates_def)

subsection \<open>Integers, bytes, texts\<close>

lemma leBytes_length [simp]: "length (leBytes n v) = n"
  by (induction n arbitrary: v) simp_all

lemma byte_of_int_eq: "(of_int a :: byte) = of_int b \<longleftrightarrow> a mod 256 = b mod 256"
  by (simp add: word_of_int_eq_iff take_bit_eq_mod)

lemma leBytes_inj:
  "0 \<le> v \<Longrightarrow> v < 256 ^ n \<Longrightarrow> 0 \<le> u \<Longrightarrow> u < 256 ^ n \<Longrightarrow> leBytes n v = leBytes n u \<Longrightarrow> v = u"
proof (induction n arbitrary: v u)
  case (Suc n)
  have "v div 256 = u div 256" using Suc.prems by (intro Suc.IH) (auto simp: int_div_less_self)
  moreover have "v mod 256 = u mod 256" using Suc.prems by (simp add: byte_of_int_eq)
  ultimately show ?case by (metis mult_div_mod_eq)
qed simp

definition ints :: "nat \<Rightarrow> val set" where
  "ints b = wireInt ` {0..<2 ^ b}"

lemma codes_int:
  assumes "b = 8 * n"
  shows "codes (wInt b) (ints b)"
proof (rule codesI [where e = "\<lambda>x. case uintField x b of Inl e \<Rightarrow> None | Inr v \<Rightarrow> Some (leBytes n v)"])
  fix x buf
  assume "x \<in> ints b"
  then obtain v where "0 \<le> v" "v < 2 ^ b" "x = wireInt v" by (auto simp: ints_def)
  then show "wInt b x buf = (case (case uintField x b of Inl e \<Rightarrow> None | Inr v \<Rightarrow> Some (leBytes n v)) of
      None \<Rightarrow> Inl INVALID_SIGNED_FIELD | Some b \<Rightarrow> Inr ((), buf @ b))"
    using assms by (simp add: wInt_def bind_def put_def)
next
  have p: "(256::int) ^ n = 2 ^ b" using assms by (simp add: power_mult)
  show "separates (\<lambda>x. case uintField x b of Inl e \<Rightarrow> None | Inr v \<Rightarrow> Some (leBytes n v)) (ints b)"
  proof (rule separatesI)
    fix x y c d r t
    assume xy: "x \<in> ints b" "y \<in> ints b"
      and enc: "(case uintField x b of Inl e \<Rightarrow> None | Inr v \<Rightarrow> Some (leBytes n v)) = Some c"
        "(case uintField y b of Inl e \<Rightarrow> None | Inr v \<Rightarrow> Some (leBytes n v)) = Some d"
      and eq: "c @ r = d @ t"
    from xy obtain v u where v: "0 \<le> v" "v < 2 ^ b" "x = wireInt v" and u: "0 \<le> u" "u < 2 ^ b" "y = wireInt u"
      by (auto simp: ints_def)
    from enc v u have "c = leBytes n v" "d = leBytes n u" by simp_all
    with eq have "leBytes n v = leBytes n u" "r = t" by simp_all
    with v u show "x = y \<and> r = t" using leBytes_inj [of v n u] p by simp
  qed
qed

lemmas codes_u8 [code_intros] = codes_int [of 8 1, simplified]
lemmas codes_u32 [code_intros] = codes_int [of 32 4, simplified]
lemmas codes_u64 [code_intros] = codes_int [of 64 8, simplified]
lemmas codes_u128 [code_intros] = codes_int [of 128 16, simplified]

text \<open>A length, and its bytes.\<close>

definition lenBytes :: "nat \<Rightarrow> bytes option" where
  "lenBytes n = (if int n < 2 ^ 64 then Some (leBytes 8 (int n)) else None)"

lemma wU64_len: "wU64 (nat_val n) buf = (case lenBytes n of None \<Rightarrow> Inl INVALID_SIGNED_FIELD | Some b \<Rightarrow> Inr ((), buf @ b))"
  by (simp add: wInt_def nat_val_def uintField_def lenBytes_def bind_def put_def)

lemma lenBytes_eq:
  "lenBytes n = Some b \<Longrightarrow> lenBytes m = Some c \<Longrightarrow> b @ r = c @ t \<Longrightarrow> n = m \<and> r = t"
  using leBytes_inj [of "int n" 8 "int m"] by (auto simp: lenBytes_def split: if_splits)

definition lenPrefixed :: "bytes \<Rightarrow> bytes option" where
  "lenPrefixed bs = map_option (\<lambda>l. l @ bs) (lenBytes (length bs))"

lemma lenPrefixed_eq:
  assumes "lenPrefixed x = Some b" "lenPrefixed y = Some c" "b @ r = c @ t"
  shows "x = y \<and> r = t"
proof -
  obtain l m where l: "lenBytes (length x) = Some l" "b = l @ x" "lenBytes (length y) = Some m" "c = m @ y"
    using assms by (auto simp: lenPrefixed_def)
  then have "length x = length y \<and> x @ r = y @ t" using assms(3) by (intro lenBytes_eq) simp_all
  then show ?thesis using append_eq_append_conv [of x y r t] by blast
qed

lemma wBytes_eq:
  "byteList v = Inr bs \<Longrightarrow>
     wBytes v buf = (case lenPrefixed bs of None \<Rightarrow> Inl INVALID_SIGNED_FIELD | Some b \<Rightarrow> Inr ((), buf @ b))"
  by (simp add: wBytes_def bind_def wU64_len put_def lenPrefixed_def split: option.split)

lemma byteList_byteArray [simp]: "byteList (byteArray bs) = Inr bs"
  by (induction bs) (auto simp: byteArray_def)

lemma separates_prefixed:
  assumes "\<And>x. x \<in> D \<Longrightarrow> e x = lenPrefixed (f x)" "inj_on f D"
  shows "separates e D"
proof (rule separatesI)
  fix x y b c r t
  assume a: "x \<in> D" "y \<in> D" "e x = Some b" "e y = Some c" "b @ r = c @ t"
  then have "f x = f y \<and> r = t" using assms(1) by (intro lenPrefixed_eq) simp_all
  then show "x = y \<and> r = t" using inj_onD [OF assms(2)] a(1,2) by blast
qed

definition txBytes :: "val \<Rightarrow> bytes" where
  "txBytes v = (case byteList v of Inl e \<Rightarrow> [] | Inr b \<Rightarrow> b)"

lemma txBytes_byteArray [simp]: "txBytes (byteArray b) = b"
  by (simp add: txBytes_def)

lemma codes_bytes [code_intros]: "codes wBytes (range byteArray)"
proof (rule codesI [where e = "\<lambda>v. lenPrefixed (txBytes v)"])
  show "separates (\<lambda>v. lenPrefixed (txBytes v)) (range byteArray)"
    by (rule separates_prefixed [OF refl]) (auto intro!: inj_onI)
qed (auto simp: wBytes_eq)

definition texts_ok :: "val set" where
  "texts_ok = {Text s | s. isWellFormed s}"

lemma codes_string [code_intros]: "codes wString texts_ok"
proof (rule codesI [where e = "\<lambda>v. lenPrefixed (utf8ToBytes (textOf v))"])
  show "separates (\<lambda>v. lenPrefixed (utf8ToBytes (textOf v))) texts_ok"
    by (rule separates_prefixed [OF refl])
      (auto simp: texts_ok_def textOf_def intro!: inj_onI dest: utf8ToBytes_inj [rotated 2])
qed (auto simp: texts_ok_def textOf_def wBytes_eq)

lemma wBool_eq: "wBool (Boolean b) buf = Inr ((), buf @ [if b then 1 else 0])"
  by (simp add: wBool_def wInt_def nat_val_def uintField_def bind_def put_def)

lemma codes_bool [code_intros]: "codes wBool (range Boolean)"
proof (rule codesI [where e = "\<lambda>v. Some [if truthy v then 1 else 0]"])
  show "separates (\<lambda>v. Some [if truthy v then 1 else 0 :: byte]) (range Boolean)"
  proof (rule separatesI)
    fix x y and b c r t :: bytes
    assume "x \<in> range Boolean" "y \<in> range Boolean" "Some [if truthy x then 1 else 0 :: byte] = Some b"
      "Some [if truthy y then 1 else 0 :: byte] = Some c" "b @ r = c @ t"
    then show "x = y \<and> r = t" by (cases "truthy x"; cases "truthy y") auto
  qed
next
  fix x buf
  assume "x \<in> range Boolean"
  then obtain v where "x = Boolean v" by blast
  then show "wBool x buf = (case Some [if truthy x then 1 else 0] of None \<Rightarrow> Inl INVALID_SIGNED_FIELD | Some b \<Rightarrow> Inr ((), buf @ b))"
    by (simp add: wBool_eq)
qed

lemma codes_hash [code_intros]: "codes wRaw {byteArray bs | bs. length bs = n}"
proof (rule codesI [where e = "\<lambda>v. Some (txBytes v)"])
  show "separates (\<lambda>v. Some (txBytes v)) {byteArray bs | bs. length bs = n}"
  proof (rule separatesI)
    fix x y b c r t
    assume "x \<in> {byteArray bs | bs. length bs = n}" "y \<in> {byteArray bs | bs. length bs = n}"
      "Some (txBytes x) = Some b" "Some (txBytes y) = Some c" and eq: "b @ r = c @ t"
    then obtain p q where "x = byteArray p" "length p = n" "y = byteArray q" "length q = n" "b = p" "c = q"
      using txBytes_byteArray by blast
    with eq show "x = y \<and> r = t" using append_eq_append_conv [of b c r t] by simp
  qed
next
  fix v buf
  assume "v \<in> {byteArray bs | bs. length bs = n}"
  then obtain bs where "v = byteArray bs" by blast
  then show "wRaw v buf = (case Some (txBytes v) of None \<Rightarrow> Inl INVALID_SIGNED_FIELD | Some b \<Rightarrow> Inr ((), buf @ b))"
    by (simp add: wRaw_def bind_def put_def)
qed

subsection \<open>Lists, options, objects, variants\<close>

text \<open>Writing every element of a list, one after the other.\<close>

fun encAll :: "(val \<Rightarrow> writer) \<Rightarrow> val list \<Rightarrow> bytes option" where
  "encAll w [] = Some []"
| "encAll w (x # xs) =
     (case encOf w x of None \<Rightarrow> None | Some b \<Rightarrow> map_option (\<lambda>c. b @ c) (encAll w xs))"

lemma forEach_appends:
  "codes w D \<Longrightarrow> set xs \<subseteq> D \<Longrightarrow>
     forEach xs w buf = (case encAll w xs of None \<Rightarrow> Inl INVALID_SIGNED_FIELD | Some b \<Rightarrow> Inr ((), buf @ b))"
proof (induction xs arbitrary: buf)
  case (Cons x xs)
  then show ?case
    by (cases "encOf w x") (simp_all add: bind_def codes_appends [of w D x] split: option.split)
qed simp

lemma encAll_eq:
  assumes "codes w D"
  shows "set xs \<subseteq> D \<Longrightarrow> set ys \<subseteq> D \<Longrightarrow> length xs = length ys \<Longrightarrow> encAll w xs = Some b \<Longrightarrow>
    encAll w ys = Some c \<Longrightarrow> b @ r = c @ t \<Longrightarrow> xs = ys \<and> r = t"
proof (induction xs arbitrary: ys b c)
  case (Cons x xs)
  then obtain y ys' where y: "ys = y # ys'" by (cases ys) simp_all
  obtain b1 b2 where b: "encOf w x = Some b1" "encAll w xs = Some b2" "b = b1 @ b2"
    using Cons.prems(4) by (auto split: option.splits)
  obtain c1 c2 where c: "encOf w y = Some c1" "encAll w ys' = Some c2" "c = c1 @ c2"
    using Cons.prems(5) y by (auto split: option.splits)
  have "x = y \<and> b2 @ r = c2 @ t"
    by (rule separatesD [OF codes_separates [OF assms] _ _ b(1) c(1)]) (use Cons.prems y b c in simp_all)
  moreover from this have "xs = ys' \<and> r = t"
    using Cons.IH [of ys' b2 c2] Cons.prems b c y by simp
  ultimately show ?case using y by simp
qed simp

lemma codes_list [code_intros]:
  assumes "codes w D"
  shows "codes (wList w) {Array xs | xs. set xs \<subseteq> D}"
proof (rule codesI [where e = "\<lambda>v. case lenBytes (length (itemsOf v)) of None \<Rightarrow> None
      | Some l \<Rightarrow> map_option (\<lambda>c. l @ c) (encAll w (itemsOf v))"])
  fix v buf
  assume "v \<in> {Array xs | xs. set xs \<subseteq> D}"
  then obtain xs where v: "v = Array xs" "set xs \<subseteq> D" by blast
  show "wList w v buf = (case (case lenBytes (length (itemsOf v)) of None \<Rightarrow> None
      | Some l \<Rightarrow> map_option (\<lambda>c. l @ c) (encAll w (itemsOf v))) of
        None \<Rightarrow> Inl INVALID_SIGNED_FIELD | Some b \<Rightarrow> Inr ((), buf @ b))"
    by (cases "lenBytes (length xs)")
      (simp_all add: v(1) bind_def wU64_len forEach_appends [OF assms v(2)] split: option.split)
next
  show "separates (\<lambda>v. case lenBytes (length (itemsOf v)) of None \<Rightarrow> None
      | Some l \<Rightarrow> map_option (\<lambda>c. l @ c) (encAll w (itemsOf v))) {Array xs | xs. set xs \<subseteq> D}"
  proof (rule separatesI)
    fix v u b c r t
    assume vu: "v \<in> {Array xs | xs. set xs \<subseteq> D}" "u \<in> {Array xs | xs. set xs \<subseteq> D}"
      and enc: "(case lenBytes (length (itemsOf v)) of None \<Rightarrow> None
          | Some l \<Rightarrow> map_option (\<lambda>c. l @ c) (encAll w (itemsOf v))) = Some b"
        "(case lenBytes (length (itemsOf u)) of None \<Rightarrow> None
          | Some l \<Rightarrow> map_option (\<lambda>c. l @ c) (encAll w (itemsOf u))) = Some c"
      and eq: "b @ r = c @ t"
    from vu obtain xs ys where v: "v = Array xs" "set xs \<subseteq> D" and u: "u = Array ys" "set ys \<subseteq> D" by blast
    from enc(1) obtain l b2 where b: "lenBytes (length xs) = Some l" "encAll w xs = Some b2" "b = l @ b2"
      using v by (auto split: option.splits)
    from enc(2) obtain m c2 where c: "lenBytes (length ys) = Some m" "encAll w ys = Some c2" "c = m @ c2"
      using u by (auto split: option.splits)
    have "length xs = length ys \<and> b2 @ r = c2 @ t"
      by (rule lenBytes_eq [OF b(1) c(1)]) (use eq b c in simp)
    then have "xs = ys \<and> r = t" using encAll_eq [OF assms v(2) u(2) _ b(2) c(2)] by blast
    then show "v = u \<and> r = t" using v u by simp
  qed
qed

lemma codes_words [code_intros]: "codes wWords {Array xs | xs. length xs = n \<and> set xs \<subseteq> ints 32}"
proof (rule codesI [where e = "\<lambda>v. encAll wU32 (itemsOf v)"])
  show "separates (\<lambda>v. encAll wU32 (itemsOf v)) {Array xs | xs. length xs = n \<and> set xs \<subseteq> ints 32}"
  proof (rule separatesI)
    fix v u b c r t
    assume a: "v \<in> {Array xs | xs. length xs = n \<and> set xs \<subseteq> ints 32}"
      "u \<in> {Array xs | xs. length xs = n \<and> set xs \<subseteq> ints 32}"
      "encAll wU32 (itemsOf v) = Some b" "encAll wU32 (itemsOf u) = Some c" "b @ r = c @ t"
    then obtain xs ys where v: "v = Array xs" "length xs = n" "set xs \<subseteq> ints 32"
      and u: "u = Array ys" "length ys = n" "set ys \<subseteq> ints 32" by blast
    have "xs = ys \<and> r = t"
      by (rule encAll_eq [OF codes_u32 v(3) u(3) _ _ _ a(5)]) (use a v u in simp_all)
    then show "v = u \<and> r = t" using v u by simp
  qed
qed (auto simp: forEach_appends [OF codes_u32])

lemma wByte: "wU8 (nat_val 0) buf = Inr ((), buf @ [0])" "wU8 (nat_val (Suc 0)) buf = Inr ((), buf @ [1])"
  by (simp_all add: wInt_def nat_val_def uintField_def bind_def put_def)

text \<open>An optional value is \<open>null\<close> or one of the values, none of which is \<open>undefined\<close> or \<open>null\<close>.\<close>

lemma codes_option [code_intros]:
  assumes "codes w D" "\<And>x. x \<in> D \<Longrightarrow> \<not> isAbsent x"
  shows "codes (wOption w) (insert Null D)"
proof (rule codesI [where e = "\<lambda>v. if v = Null then Some [0] else map_option (\<lambda>b. 1 # b) (encOf w v)"])
  fix x buf
  assume "x \<in> insert Null D"
  moreover have "\<not> isAbsent x \<Longrightarrow> x \<noteq> Null" "isAbsent Null" by (auto simp: isAbsent_def)
  ultimately show "wOption w x buf = (case (if x = Null then Some [0] else map_option (\<lambda>b. 1 # b) (encOf w x)) of
      None \<Rightarrow> Inl INVALID_SIGNED_FIELD | Some b \<Rightarrow> Inr ((), buf @ b))"
    using assms(2) [of x] codes_appends [OF assms(1), of x "buf @ [1]"]
    by (cases "encOf w x") (auto simp: wOption_def wByte bind_def)
next
  show "separates (\<lambda>v. if v = Null then Some [0] else map_option (\<lambda>b. 1 # b) (encOf w v)) (insert Null D)"
  proof (rule separatesI)
    fix x y b c r t
    assume a: "x \<in> insert Null D" "y \<in> insert Null D" "b @ r = c @ t"
      "(if x = Null then Some [0] else map_option (\<lambda>b. 1 # b) (encOf w x)) = Some b"
      "(if y = Null then Some [0] else map_option (\<lambda>b. 1 # b) (encOf w y)) = Some c"
    then have "x = Null \<longleftrightarrow> y = Null" by (auto split: if_splits)
    moreover have "x = y \<and> r = t" if n: "x \<noteq> Null" "y \<noteq> Null"
    proof -
      from a n obtain b1 c1 where "encOf w x = Some b1" "encOf w y = Some c1" "b1 @ r = c1 @ t" by auto
      then show ?thesis using separatesD [OF codes_separates [OF assms(1)], of x y b1 c1 r t] a(1,2) n by blast
    qed
    ultimately show "x = y \<and> r = t" using a(3,4,5) by (auto split: if_splits)
  qed
qed

text \<open>The fields of an object literal, in their order, with the code of each.\<close>

type_synonym fieldCodes = "(string \<times> (val \<Rightarrow> writer) \<times> val set) list"

definition objects :: "fieldCodes \<Rightarrow> val set" where
  "objects fs = {Object kvs | kvs. list_all2 (\<lambda>(k, x) (l, w, D). k = l \<and> x \<in> D) kvs fs}"

definition writersOf :: "fieldCodes \<Rightarrow> (string \<times> (val \<Rightarrow> writer)) list" where
  "writersOf fs = map (\<lambda>(k, w, D). (k, w)) fs"

fun encFields :: "(string \<times> (val \<Rightarrow> writer)) list \<Rightarrow> (string \<times> val) list \<Rightarrow> bytes option" where
  "encFields ((k, w) # fs) ((l, x) # kvs) =
     (case encOf w x of None \<Rightarrow> None | Some b \<Rightarrow> map_option (\<lambda>c. b @ c) (encFields fs kvs))"
| "encFields _ _ = Some []"

lemma writeFields_eq:
  "list_all2 (\<lambda>(k, x) (l, w, D). k = l \<and> x \<in> D) kvs fs \<Longrightarrow> \<forall>(k, w, D)\<in>set fs. codes w D \<Longrightarrow>
     \<forall>(k, x)\<in>set kvs. map_of all k = Some x \<Longrightarrow>
     writeFields (writersOf fs) (Object all) buf =
       (case encFields (writersOf fs) kvs of None \<Rightarrow> Inl INVALID_SIGNED_FIELD | Some b \<Rightarrow> Inr ((), buf @ b))"
proof (induction kvs arbitrary: fs buf)
  case Nil
  then show ?case by (simp add: writersOf_def)
next
  case (Cons e kvs)
  obtain k x where e: "e = (k, x)" by (cases e)
  from Cons.prems(1) e obtain w D gs where fs: "fs = (k, w, D) # gs" "x \<in> D"
    "list_all2 (\<lambda>(k, x) (l, w, D). k = l \<and> x \<in> D) kvs gs"
    by (auto simp: list_all2_Cons1)
  have w: "codes w D" and all: "map_of all k = Some x" using Cons.prems e fs by auto
  have IH: "writeFields (writersOf gs) (Object all) b =
      (case encFields (writersOf gs) kvs of None \<Rightarrow> Inl INVALID_SIGNED_FIELD | Some c \<Rightarrow> Inr ((), b @ c))" for b
    by (rule Cons.IH [OF fs(3)]) (use Cons.prems fs in auto)
  have ws: "writersOf fs = (k, w) # writersOf gs" by (simp add: fs writersOf_def)
  show ?case
    by (cases "encOf w x") (simp_all add: ws e all bind_def codes_appends [OF w fs(2)] IH split: option.split)
qed

lemma encFields_eq:
  "list_all2 (\<lambda>(k, x) (l, w, D). k = l \<and> x \<in> D) kvs fs \<Longrightarrow>
     list_all2 (\<lambda>(k, x) (l, w, D). k = l \<and> x \<in> D) lvs fs \<Longrightarrow> \<forall>(k, w, D)\<in>set fs. codes w D \<Longrightarrow>
     encFields (writersOf fs) kvs = Some b \<Longrightarrow> encFields (writersOf fs) lvs = Some c \<Longrightarrow> b @ r = c @ t \<Longrightarrow>
     kvs = lvs \<and> r = t"
proof (induction kvs arbitrary: fs lvs b c)
  case Nil
  then show ?case by (simp add: writersOf_def)
next
  case (Cons e kvs)
  obtain k x where e: "e = (k, x)" by (cases e)
  from Cons.prems(1) e obtain w D gs where fs: "fs = (k, w, D) # gs" "x \<in> D"
    "list_all2 (\<lambda>(k, x) (l, w, D). k = l \<and> x \<in> D) kvs gs"
    by (auto simp: list_all2_Cons1)
  from Cons.prems(2) fs(1) obtain y lvs' where lvs: "lvs = (k, y) # lvs'" "y \<in> D"
    "list_all2 (\<lambda>(k, x) (l, w, D). k = l \<and> x \<in> D) lvs' gs"
    by (auto simp: list_all2_Cons2)
  have w: "codes w D" using Cons.prems(3) fs by auto
  have ws: "writersOf fs = (k, w) # writersOf gs" by (simp add: fs writersOf_def)
  obtain b1 b2 where b: "encOf w x = Some b1" "encFields (writersOf gs) kvs = Some b2" "b = b1 @ b2"
    using Cons.prems(4) by (auto simp: ws e split: option.splits)
  obtain c1 c2 where c: "encOf w y = Some c1" "encFields (writersOf gs) lvs' = Some c2" "c = c1 @ c2"
    using Cons.prems(5) by (auto simp: ws lvs split: option.splits)
  have 1: "x = y \<and> b2 @ r = c2 @ t"
    by (rule separatesD [OF codes_separates [OF w] fs(2) lvs(2) b(1) c(1)]) (use Cons.prems(6) b c in simp)
  have "kvs = lvs' \<and> r = t"
    by (rule Cons.IH [OF fs(3) lvs(3) _ b(2) c(2)]) (use Cons.prems(3) fs 1 in auto)
  then show ?case using 1 e lvs by simp
qed

lemma field_keys: "list_all2 (\<lambda>(k, x) (l, w, D). k = l \<and> x \<in> D) kvs fs \<Longrightarrow> map fst kvs = map fst fs"
  by (induction rule: list_all2_induct) auto

lemma codes_fields:
  assumes "distinct (map fst fs)" and "\<forall>(k, w, D)\<in>set fs. codes w D"
  shows "codes (writeFields (writersOf fs)) (objects fs)"
proof (rule codesI [where e = "\<lambda>v. encFields (writersOf fs) (case v of Object kvs \<Rightarrow> kvs | _ \<Rightarrow> [])"])
  fix v buf
  assume "v \<in> objects fs"
  then obtain kvs where v: "v = Object kvs" "list_all2 (\<lambda>(k, x) (l, w, D). k = l \<and> x \<in> D) kvs fs"
    by (auto simp: objects_def)
  have "\<forall>(k, x)\<in>set kvs. map_of kvs k = Some x" using assms(1) field_keys [OF v(2)] by auto
  from writeFields_eq [OF v(2) assms(2) this]
  show "writeFields (writersOf fs) v buf =
      (case encFields (writersOf fs) (case v of Object kvs \<Rightarrow> kvs | _ \<Rightarrow> []) of
         None \<Rightarrow> Inl INVALID_SIGNED_FIELD | Some b \<Rightarrow> Inr ((), buf @ b))" by (simp add: v(1))
next
  show "separates (\<lambda>v. encFields (writersOf fs) (case v of Object kvs \<Rightarrow> kvs | _ \<Rightarrow> [])) (objects fs)"
  proof (rule separatesI)
    fix v u b c r t
    assume "v \<in> objects fs" "u \<in> objects fs"
      and e: "encFields (writersOf fs) (case v of Object kvs \<Rightarrow> kvs | _ \<Rightarrow> []) = Some b"
      "encFields (writersOf fs) (case u of Object kvs \<Rightarrow> kvs | _ \<Rightarrow> []) = Some c" "b @ r = c @ t"
    then obtain kvs lvs where v: "v = Object kvs" "list_all2 (\<lambda>(k, x) (l, w, D). k = l \<and> x \<in> D) kvs fs"
      and u: "u = Object lvs" "list_all2 (\<lambda>(k, x) (l, w, D). k = l \<and> x \<in> D) lvs fs"
      by (auto simp: objects_def)
    have "kvs = lvs \<and> r = t"
      by (rule encFields_eq [OF v(2) u(2) assms(2) _ _ e(3)]) (use e v u in simp_all)
    then show "v = u \<and> r = t" using v u by simp
  qed
qed

text \<open>A variant: its index, then a code of the values with that name.\<close>

lemma codes_variant:
  assumes eq: "\<And>i x buf. i < n \<Longrightarrow> x \<in> D i \<Longrightarrow> w x buf = bind (wU32 (nat_val i)) (\<lambda>_. c i x) buf"
    and part: "\<And>i. i < n \<Longrightarrow> codes (c i) (D i)" and n: "n \<le> 256"
  shows "codes w (\<Union>i<n. D i)"
proof -
  have u32: "wU32 (nat_val i) buf = Inr ((), buf @ leBytes 4 (int i))" if "i < n" for i buf
    using that n by (simp add: wInt_def nat_val_def uintField_def bind_def put_def)
  have step: "w x buf = (case encOf (c i) x of None \<Rightarrow> Inl INVALID_SIGNED_FIELD
      | Some b \<Rightarrow> Inr ((), buf @ leBytes 4 (int i) @ b))" if "i < n" "x \<in> D i" for i x buf
    using that by (simp add: eq bind_def u32 codes_appends [OF part, of i x] split: option.split)
  have enc: "encOf w x = map_option (\<lambda>b. leBytes 4 (int i) @ b) (encOf (c i) x)" if "i < n" "x \<in> D i" for i x
    using step [OF that, of "[]"] by (simp add: encOf_def split: option.split)
  show ?thesis
  proof (rule codesI [where e = "encOf w"])
    fix x buf
    assume "x \<in> (\<Union>i<n. D i)"
    then obtain i where i: "i < n" "x \<in> D i" by blast
    show "w x buf = (case encOf w x of None \<Rightarrow> Inl INVALID_SIGNED_FIELD | Some b \<Rightarrow> Inr ((), buf @ b))"
      by (simp add: step [OF i] enc [OF i] split: option.split)
  next
    show "separates (encOf w) (\<Union>i<n. D i)"
    proof (rule separatesI)
      fix x y b d r t
      assume "x \<in> (\<Union>i<n. D i)" "y \<in> (\<Union>i<n. D i)" and e: "encOf w x = Some b" "encOf w y = Some d" "b @ r = d @ t"
      then obtain i j where i: "i < n" "x \<in> D i" and j: "j < n" "y \<in> D j" by blast
      obtain b1 where b: "encOf (c i) x = Some b1" "b = leBytes 4 (int i) @ b1" using e(1) enc [OF i] by auto
      obtain d1 where d: "encOf (c j) y = Some d1" "d = leBytes 4 (int j) @ d1" using e(2) enc [OF j] by auto
      have "leBytes 4 (int i) = leBytes 4 (int j) \<and> b1 @ r = d1 @ t"
        using e(3) append_eq_append_conv [of "leBytes 4 (int i)" "leBytes 4 (int j)" "b1 @ r" "d1 @ t"] by (simp add: b d)
      moreover from this have "i = j" using leBytes_inj [of "int i" 4 "int j"] i j n by simp
      ultimately show "x = y \<and> r = t"
        using separatesD [OF codes_separates [OF part [OF i(1)]] i(2), of y b1 d1 r t] b d j by simp
    qed
  qed
qed

end
