(* ===== verification/Tx_Covered.thy ===== *)
theory Tx_Covered
  imports Tx_Bincode
begin

text \<open>
  A registration's signature covers every field of it: the values \<open>registerSubgroveWire\<close>
  (\<open>src/src/consensus/wire.ts\<close>) can build are given field by field, with the code
  \<open>registerSubgroveBincode\<close> (\<open>src/src/consensus/bincode.ts\<close>) writes for each, so two registrations
  with the same bincode are the same object.
\<close>

subsection \<open>Enums and variants as codes\<close>

lemma codes_uint:
  assumes "b = 8 * n" "\<And>x. x \<in> D \<Longrightarrow> \<exists>v. uintField x b = Inr v" "inj_on (\<lambda>x. uintField x b) D"
  shows "codes (wInt b) D"
proof (rule codesI [where e = "\<lambda>x. case uintField x b of Inl e \<Rightarrow> None | Inr v \<Rightarrow> Some (leBytes n v)"])
  fix x buf
  assume "x \<in> D"
  with assms(2) obtain v where "uintField x b = Inr v" by blast
  then show "wInt b x buf = (case (case uintField x b of Inl e \<Rightarrow> None | Inr v \<Rightarrow> Some (leBytes n v)) of
      None \<Rightarrow> Inl INVALID_SIGNED_FIELD | Some b \<Rightarrow> Inr ((), buf @ b))"
    using assms(1) by (simp add: wInt_def bind_def put_def)
next
  have p: "(256::int) ^ n = 2 ^ b" using assms(1) by (simp add: power_mult)
  show "separates (\<lambda>x. case uintField x b of Inl e \<Rightarrow> None | Inr v \<Rightarrow> Some (leBytes n v)) D"
  proof (rule separatesI)
    fix x y c d r t
    assume xy: "x \<in> D" "y \<in> D"
      and enc: "(case uintField x b of Inl e \<Rightarrow> None | Inr v \<Rightarrow> Some (leBytes n v)) = Some c"
        "(case uintField y b of Inl e \<Rightarrow> None | Inr v \<Rightarrow> Some (leBytes n v)) = Some d"
      and eq: "c @ r = d @ t"
    from xy assms(2) obtain v u where v: "uintField x b = Inr v" and u: "uintField y b = Inr u" by blast
    from enc v u have "c = leBytes n v" "d = leBytes n u" by simp_all
    with eq have "leBytes n v = leBytes n u" "r = t"
      using append_eq_append_conv [of c d r t] by simp_all
    then have "v = u" using leBytes_inj [of v n u] uintField_range [OF v] uintField_range [OF u] p by simp
    then show "x = y \<and> r = t" using inj_onD [OF assms(3)] xy v u \<open>r = t\<close> by simp
  qed
qed

lemma indexFrom_nth:
  "distinct ns \<Longrightarrow> i < length ns \<Longrightarrow> indexFrom k ns (js (ns ! i)) = Inr (k + i)"
proof (induction ns arbitrary: i k)
  case (Cons n ns)
  then show ?case by (cases i) auto
qed simp

text \<open>A variant without fields is its name, one with fields an object of one entry.\<close>

type_synonym variantCodes = "(string \<times> ((val \<Rightarrow> writer) \<times> val set) option) list"

fun variantValues :: "string \<times> ((val \<Rightarrow> writer) \<times> val set) option \<Rightarrow> val set" where
  "variantValues (n, None) = {Text (js n)}"
| "variantValues (n, Some (w, D)) = {Object [(n, x)] | x. x \<in> D}"

definition variantsOf :: "variantCodes \<Rightarrow> val set" where
  "variantsOf vs = (\<Union>v\<in>set vs. variantValues v)"

fun caseWriter :: "string \<times> ((val \<Rightarrow> writer) \<times> val set) option \<Rightarrow> val \<Rightarrow> writer" where
  "caseWriter (n, None) v = ret ()"
| "caseWriter (n, Some (w, D)) v = (case v of Object [(k, x)] \<Rightarrow> w x | _ \<Rightarrow> ret ())"

lemma wIndex_nth:
  "distinct ns \<Longrightarrow> i < length ns \<Longrightarrow> wIndex ns (js (ns ! i)) buf = wU32 (nat_val i) buf"
  using indexFrom_nth [of ns i 0] by (simp add: wIndex_def bind_def)

lemma separates_wrap: "separates (encOf w) D \<Longrightarrow> separates (encOf (caseWriter (n, Some (w, D)))) {Object [(n, x)] | x. x \<in> D}"
proof (rule separatesI)
  fix x y b c r t
  assume s: "separates (encOf w) D" and "x \<in> {Object [(n, x)] | x. x \<in> D}" "y \<in> {Object [(n, x)] | x. x \<in> D}"
    and e: "encOf (caseWriter (n, Some (w, D))) x = Some b" "encOf (caseWriter (n, Some (w, D))) y = Some c" "b @ r = c @ t"
  then obtain u v where "x = Object [(n, u)]" "u \<in> D" "y = Object [(n, v)]" "v \<in> D" by blast
  with separatesD [OF s, of u v b c r t] e show "x = y \<and> r = t" by (simp add: encOf_def)
qed

lemma codes_case: "(\<And>n w D. v = (n, Some (w, D)) \<Longrightarrow> codes w D) \<Longrightarrow> codes (caseWriter v) (variantValues v)"
proof (cases v)
  case (Pair n o')
  assume c: "\<And>n w D. v = (n, Some (w, D)) \<Longrightarrow> codes w D"
  show ?thesis
  proof (cases o')
    case None
    then show ?thesis using Pair by (simp add: codes_const put_def fun_eq_iff)
  next
    case (Some p)
    then obtain w D where p: "o' = Some (w, D)" by (cases p) auto
    then have w: "codes w D" using c Pair by blast
    have "codes (caseWriter (n, Some (w, D))) {Object [(n, x)] | x. x \<in> D}"
    proof (rule codesI [where e = "encOf (caseWriter (n, Some (w, D)))"])
      fix x buf
      assume "x \<in> {Object [(n, x)] | x. x \<in> D}"
      then obtain u where "x = Object [(n, u)]" "u \<in> D" by blast
      then show "caseWriter (n, Some (w, D)) x buf = (case encOf (caseWriter (n, Some (w, D))) x of
          None \<Rightarrow> Inl INVALID_SIGNED_FIELD | Some b \<Rightarrow> Inr ((), buf @ b))"
        using codes_appends [OF w, of u buf] by (simp add: encOf_def)
    qed (rule separates_wrap [OF codes_separates [OF w]])
    then show ?thesis using Pair p by simp
  qed
qed

lemma codes_wVariant:
  assumes "distinct (map fst vs)" "length vs \<le> 256" "names = map fst vs"
    and "\<forall>v\<in>set vs. case v of (n, None) \<Rightarrow> rest (js n) Undefined = ret ()
       | (n, Some (w, D)) \<Rightarrow> codes w D \<and> (\<forall>x. rest (js n) x = w x)"
  shows "codes (wVariant names rest) (variantsOf vs)"
proof -
  have "codes (wVariant names rest) (\<Union>i<length vs. variantValues (vs ! i))"
  proof (rule codes_variant [where c = "\<lambda>i. caseWriter (vs ! i)"])
    fix i x buf
    assume i: "i < length vs" and x: "x \<in> variantValues (vs ! i)"
    obtain n o' where v: "vs ! i = (n, o')" by (cases "vs ! i")
    have n: "names ! i = n" using v i assms(3) by simp
    have ix: "wIndex names (js n) buf = wU32 (nat_val i) buf"
      using wIndex_nth [of names i buf] assms i n by simp
    have r: "case (n, o') of (n, None) \<Rightarrow> rest (js n) Undefined = ret ()
       | (n, Some (w, D)) \<Rightarrow> codes w D \<and> (\<forall>x. rest (js n) x = w x)"
      using assms(4) nth_mem [OF i] v by auto
    show "wVariant names rest x buf = bind (wU32 (nat_val i)) (\<lambda>_. caseWriter (vs ! i) x) buf"
    proof (cases o')
      case None
      then show ?thesis using x v r ix by (simp add: wVariant_def bind_def)
    next
      case (Some p)
      then obtain w D where p: "o' = Some (w, D)" by (cases p) auto
      then obtain u where u: "x = Object [(n, u)]" using x v by auto
      then have "caseWriter (vs ! i) x = w u" "rest (js n) u = w u" using v p r by simp_all
      then show ?thesis using u ix by (simp add: wVariant_def bind_def)
    qed
  next
    fix i
    assume "i < length vs"
    then have "vs ! i \<in> set vs" by simp
    with assms(4) show "codes (caseWriter (vs ! i)) (variantValues (vs ! i))"
      by (intro codes_case) auto
  qed (rule assms(2))
  moreover have "(\<Union>i<length vs. variantValues (vs ! i)) = variantsOf vs"
    unfolding variantsOf_def set_conv_nth by blast
  ultimately show ?thesis by simp
qed

definition names_ok :: "string list \<Rightarrow> val set" where
  "names_ok names = {Text (js n) | n. n \<in> set names}"

lemma codes_enum:
  assumes "distinct names" "length names \<le> 256"
  shows "codes (wEnum names) (names_ok names)"
proof -
  have "codes (wEnum names) (\<Union>i<length names. {Text (js (names ! i))})"
    by (rule codes_variant [where c = "\<lambda>i _. ret ()"])
      (use assms in \<open>auto simp: wEnum_def wIndex_nth bind_def codes_const put_def fun_eq_iff split: sum.splits\<close>)
  moreover have "(\<Union>i<length names. {Text (js (names ! i))}) = names_ok names"
    by (auto simp: names_ok_def in_set_conv_nth)
  ultimately show ?thesis by simp
qed

lemma codes_tee [code_intros]: "codes (wEnum TEE_TYPES) (names_ok TEE_TYPES)"
  by (rule codes_enum) (simp_all add: TEE_TYPES_def)

lemma codes_auth [code_intros]: "codes (wEnum HISTORICAL_AUTH_MODES) (names_ok HISTORICAL_AUTH_MODES)"
  by (rule codes_enum) (simp_all add: HISTORICAL_AUTH_MODES_def)

subsection \<open>The fields of each object\<close>

lemma present [simp]:
  "\<not> isAbsent (Text s)" "\<not> isAbsent (Array xs)" "\<not> isAbsent (Object kvs)" "\<not> isAbsent (Boolean b)"
  "\<not> isAbsent (Number n)" "\<not> isAbsent (BigInt i)"
  by (simp_all add: isAbsent_def)

lemma present_sets:
  "x \<in> texts_ok \<Longrightarrow> \<not> isAbsent x" "x \<in> objects fs \<Longrightarrow> \<not> isAbsent x" "x \<in> names_ok ns \<Longrightarrow> \<not> isAbsent x"
  "x \<in> {Array xs | xs. set xs \<subseteq> D} \<Longrightarrow> \<not> isAbsent x"
  by (auto simp: texts_ok_def objects_def names_ok_def)

definition textLists :: "val set" where
  "textLists = {Array xs | xs. set xs \<subseteq> texts_ok}"

lemma codes_strings [code_intros]: "codes wStrings textLists"
  unfolding wStrings_def textLists_def by (rule codes_list [OF codes_string])

lemma present_lists: "x \<in> textLists \<Longrightarrow> \<not> isAbsent x"
  by (auto simp: textLists_def)

definition pricingFields :: fieldCodes where
  "pricingFields =
     [(''enabled'', wBool, range Boolean), (''price_per_query'', wU128, ints 128),
      (''owner_revenue_share_bps'', wU32, ints 32)]"

definition grantFields :: fieldCodes where
  "grantFields =
     [(''grantee_did'', wString, texts_ok), (''key_epoch'', wU32, ints 32),
      (''grantee_public_key_id'', wString, texts_ok), (''ephemeral_public_key'', wBytes, range byteArray),
      (''encrypted_key'', wBytes, range byteArray), (''granted_by'', wString, texts_ok),
      (''granted_at'', wU64, ints 64)]"

definition moduleFields :: fieldCodes where
  "moduleFields =
     [(''name'', wString, texts_ok), (''hash'', wRaw, {byteArray bs | bs. length bs = 32}),
      (''content'', wBytes, range byteArray)]"

definition indexerFields :: fieldCodes where
  "indexerFields =
     [(''min_indexers'', wU8, ints 8), (''max_indexers'', wU8, ints 8), (''reward_per_epoch'', wU128, ints 128),
      (''epoch_length'', wU64, ints 64), (''min_indexer_stake'', wU128, ints 128)]"

definition fourWords :: "val set" where
  "fourWords = {Array xs | xs. length xs = 4 \<and> set xs \<subseteq> ints 32}"

definition completenessFields :: fieldCodes where
  "completenessFields =
     [(''log_config_hash'', wWords, fourWords), (''tx_config_hash'', wWords, fourWords),
      (''deferred'', wBool, range Boolean), (''bond_amount'', wU128, ints 128)]"

definition samplingFields :: fieldCodes where
  "samplingFields = [(''sampling_rate_percent'', wU8, ints 8)]"

definition teeFields :: fieldCodes where
  "teeFields = [(''tee_type'', wEnum TEE_TYPES, names_ok TEE_TYPES)]"

definition executionModes :: variantCodes where
  "executionModes =
     [(''ConsensusExecution'', None), (''IndexerExecution'', Some (writeFields (writersOf samplingFields), objects samplingFields)),
      (''TeeExecution'', Some (writeFields (writersOf teeFields), objects teeFields))]"

definition retentionWindows :: variantCodes where
  "retentionWindows =
     [(''Blocks'', Some (wU64, ints 64)), (''Seconds'', Some (wU64, ints 64)), (''Indefinite'', None),
      (''VerifyOnly'', None)]"

definition frequencies :: variantCodes where
  "frequencies =
     [(''EveryUpdate'', None), (''EveryNBlocks'', Some (wU64, ints 64)), (''EveryNSeconds'', Some (wU64, ints 64)),
      (''Never'', None)]"

definition dataFields :: fieldCodes where
  "dataFields =
     [(''name'', wString, texts_ok), (''writers'', wStrings, textLists), (''free_readers'', wStrings, textLists),
      (''read_pricing'', wOption wReadPricing, insert Null (objects pricingFields))]"

definition fileFields :: fieldCodes where
  "fileFields =
     [(''name'', wString, texts_ok), (''max_file_size'', wU64, ints 64), (''replication_factor'', wU8, ints 8),
      (''writers'', wStrings, textLists), (''free_readers'', wStrings, textLists),
      (''read_pricing'', wOption wReadPricing, insert Null (objects pricingFields)),
      (''retention_period'', wU64, ints 64)]"

definition indexingFields :: fieldCodes where
  "indexingFields =
     [(''manifest_content'', wBytes, range byteArray),
      (''wasm_modules'', wList wModule, {Array xs | xs. set xs \<subseteq> objects moduleFields}),
      (''execution_mode'', wExecutionMode, variantsOf executionModes),
      (''indexer_config'', wIndexerConfig, objects indexerFields),
      (''retention_window'', wRetention, variantsOf retentionWindows),
      (''completeness'', wOption wCompleteness, insert Null (objects completenessFields)),
      (''historical_auth_mode'', wEnum HISTORICAL_AUTH_MODES, names_ok HISTORICAL_AUTH_MODES)]"

definition modes :: variantCodes where
  "modes =
     [(''DataStorage'', Some (writeFields (writersOf dataFields), objects dataFields)),
      (''FileStorage'', Some (writeFields (writersOf fileFields), objects fileFields)),
      (''BlockchainIndexing'', Some (writeFields (writersOf indexingFields), objects indexingFields))]"

definition privacyFields :: fieldCodes where
  "privacyFields =
     [(''allowed_indexers'', wOption wStrings, insert Null textLists),
      (''commitment_frequency'', wFrequency, variantsOf frequencies)]"

definition templateFields :: fieldCodes where
  "templateFields =
     [(''template_id'', wString, texts_ok), (''template_version'', wU32, ints 32), (''variant_id'', wString, texts_ok),
      (''parameters'', wBytes, range byteArray), (''contracts'', wStrings, textLists),
      (''event_signatures'', wStrings, textLists), (''chain'', wOption wString, insert Null texts_ok)]"

definition checkpointFields :: fieldCodes where
  "checkpointFields = [(''required_tee'', wOption (wEnum TEE_TYPES), insert Null (names_ok TEE_TYPES))]"

definition fundings :: "val set" where
  "fundings = {Text (intText n) | n. 0 \<le> n \<and> n < 2 ^ 128}"

definition registrationFields :: fieldCodes where
  "registrationFields =
     [(''subgrove_id'', wString, texts_ok), (''name'', wString, texts_ok), (''description'', wString, texts_ok),
      (''schema'', wString, texts_ok), (''owner_did'', wString, texts_ok), (''admins'', wStrings, textLists),
      (''initial_funding'', wOption wU128, insert Null fundings),
      (''checkpoint_verification'', writeFields (writersOf checkpointFields), objects checkpointFields),
      (''mode'', subgroveMode, variantsOf modes), (''privacy'', wOption wPrivacy, insert Null (objects privacyFields)),
      (''initial_owner_key_grant'', wOption wKeyGrant, insert Null (objects grantFields)),
      (''template_config'', wOption wTemplate, insert Null (objects templateFields)),
      (''confirmation_depth'', wU32, ints 32), (''signature'', \<lambda>_. wBytes (Array []), {Array []}),
      (''public_key_id'', wString, texts_ok), (''nonce'', wU64, ints 64),
      (''cryptographic_completeness'', wBool, range Boolean)]"

lemmas field_defs = pricingFields_def grantFields_def moduleFields_def indexerFields_def completenessFields_def
  samplingFields_def teeFields_def dataFields_def fileFields_def indexingFields_def privacyFields_def
  templateFields_def checkpointFields_def registrationFields_def

lemma codes_funding: "codes wU128 fundings"
proof (rule codes_uint [where n = 16])
  have v: "uintField (Text (intText n)) 128 = Inr n" if "0 \<le> n" "n < 2 ^ 128" for n
    using that decText_digits [of "nat n"] by (simp add: uintField_def intText_def)
  then show "\<And>x. x \<in> fundings \<Longrightarrow> \<exists>v. uintField x 128 = Inr v" by (auto simp: fundings_def)
  show "inj_on (\<lambda>x. uintField x 128) fundings"
    by (rule inj_onI) (auto simp: fundings_def v)
qed simp

lemma codes_four: "codes wWords fourWords"
  unfolding fourWords_def by (rule codes_words)

lemma codes_pricing: "codes wReadPricing (objects pricingFields)"
  using codes_fields [of pricingFields] code_intros
  by (simp add: wReadPricing_def field_defs writersOf_def)

lemma codes_grant: "codes wKeyGrant (objects grantFields)"
  using codes_fields [of grantFields] code_intros
  by (simp add: wKeyGrant_def field_defs writersOf_def)

lemma codes_module: "codes wModule (objects moduleFields)"
  using codes_fields [of moduleFields] code_intros
  by (simp add: wModule_def field_defs writersOf_def)

lemma codes_execution: "codes wExecutionMode (variantsOf executionModes)"
proof -
  have "codes (writeFields (writersOf samplingFields)) (objects samplingFields)"
    "codes (writeFields (writersOf teeFields)) (objects teeFields)"
    using codes_fields [of samplingFields] codes_fields [of teeFields] code_intros by (simp_all add: field_defs)
  then show ?thesis
    unfolding wExecutionMode_def
    by (intro codes_wVariant)
      (simp_all add: executionModes_def EXECUTION_MODES_def field_defs writersOf_def fun_eq_iff)
qed

lemma codes_retention: "codes wRetention (variantsOf retentionWindows)"
  unfolding wRetention_def
  by (intro codes_wVariant)
    (simp_all add: retentionWindows_def RETENTION_WINDOWS_def codes_u64 fun_eq_iff)

lemma codes_frequency: "codes wFrequency (variantsOf frequencies)"
  unfolding wFrequency_def
  by (intro codes_wVariant)
    (simp_all add: frequencies_def COMMITMENT_FREQUENCIES_def codes_u64 fun_eq_iff)

lemma codes_indexer: "codes wIndexerConfig (objects indexerFields)"
  using codes_fields [of indexerFields] code_intros
  by (simp add: wIndexerConfig_def field_defs writersOf_def)

lemma codes_completeness: "codes wCompleteness (objects completenessFields)"
  using codes_fields [of completenessFields] code_intros codes_four
  by (simp add: wCompleteness_def field_defs writersOf_def)

lemma codes_price_option: "codes (wOption wReadPricing) (insert Null (objects pricingFields))"
  by (rule codes_option [OF codes_pricing]) (rule present_sets)

lemma codes_data: "codes (writeFields (writersOf dataFields)) (objects dataFields)"
  by (rule codes_fields) (use code_intros codes_price_option in \<open>simp_all add: dataFields_def\<close>)

lemma codes_file: "codes (writeFields (writersOf fileFields)) (objects fileFields)"
  by (rule codes_fields) (use code_intros codes_price_option in \<open>simp_all add: fileFields_def\<close>)

lemma codes_indexing: "codes (writeFields (writersOf indexingFields)) (objects indexingFields)"
proof (rule codes_fields)
  have "codes (wOption wCompleteness) (insert Null (objects completenessFields))"
    by (rule codes_option [OF codes_completeness]) (rule present_sets)
  then show "\<forall>(k, w, D)\<in>set indexingFields. codes w D"
    using codes_list [OF codes_module] codes_execution codes_retention codes_indexer codes_bytes codes_auth
    by (simp add: indexingFields_def)
qed (simp add: indexingFields_def)

lemma codes_mode: "codes subgroveMode (variantsOf modes)"
  unfolding subgroveMode_def
  by (intro codes_wVariant)
    (use codes_data codes_file codes_indexing in
      \<open>simp_all add: modes_def SUBGROVE_MODES_def dataFields_def fileFields_def indexingFields_def writersOf_def fun_eq_iff\<close>)

lemma codes_privacy: "codes wPrivacy (objects privacyFields)"
proof -
  have "codes (wOption wStrings) (insert Null textLists)"
    by (rule codes_option [OF codes_strings]) (rule present_lists)
  then show ?thesis
    using codes_fields [of privacyFields] codes_frequency by (simp add: wPrivacy_def field_defs writersOf_def)
qed

lemma codes_template: "codes wTemplate (objects templateFields)"
proof -
  have "codes (wOption wString) (insert Null texts_ok)"
    by (rule codes_option [OF codes_string]) (rule present_sets)
  then show ?thesis
    using codes_fields [of templateFields] code_intros by (simp add: wTemplate_def field_defs writersOf_def)
qed

lemma codes_checkpoint: "codes (writeFields (writersOf checkpointFields)) (objects checkpointFields)"
proof (rule codes_fields)
  have "codes (wOption (wEnum TEE_TYPES)) (insert Null (names_ok TEE_TYPES))"
    by (rule codes_option [OF codes_tee]) (rule present_sets)
  then show "\<forall>(k, w, D)\<in>set checkpointFields. codes w D" by (simp add: checkpointFields_def)
qed (simp add: checkpointFields_def)

lemma codes_signature: "codes (\<lambda>_. wBytes (Array [])) {Array []}"
proof (rule codesI [where e = "\<lambda>_. lenPrefixed []"])
  show "separates (\<lambda>_. lenPrefixed []) {Array []}"
    by (rule separatesI) (auto dest: lenPrefixed_eq)
qed (simp add: wBytes_eq)

lemma codes_registration: "codes wRegistration (objects registrationFields)"
proof -
  have "codes (wOption wU128) (insert Null fundings)"
    by (rule codes_option [OF codes_funding]) (auto simp: fundings_def)
  moreover have "codes (wOption wPrivacy) (insert Null (objects privacyFields))"
    "codes (wOption wKeyGrant) (insert Null (objects grantFields))"
    "codes (wOption wTemplate) (insert Null (objects templateFields))"
    by (rule codes_option, rule codes_privacy codes_grant codes_template, erule present_sets(2))+
  ultimately have "\<forall>(k, w, D)\<in>set registrationFields. codes w D"
    using code_intros codes_checkpoint codes_mode codes_signature by (simp add: registrationFields_def)
  moreover have "distinct (map fst registrationFields)" by (simp add: registrationFields_def)
  ultimately have "codes (writeFields (writersOf registrationFields)) (objects registrationFields)"
    by (intro codes_fields)
  moreover have "wRegistration = writeFields (writersOf registrationFields)"
    by (simp add: wRegistration_def registrationFields_def writersOf_def checkpointFields_def)
  ultimately show ?thesis by simp
qed

text \<open>Two registrations with one bincode are one registration.\<close>

lemma bincode_separates:
  assumes "w \<in> objects registrationFields" "v \<in> objects registrationFields"
    and "registerSubgroveBincode w = Inr b" "registerSubgroveBincode v = Inr b"
  shows "w = v"
proof -
  have "encOf wRegistration w = Some b" "encOf wRegistration v = Some b"
    using assms(3,4) by (auto simp: encOf_def registerSubgroveBincode_def split: sum.splits)
  then show ?thesis
    using separatesD [OF codes_separates [OF codes_registration] assms(1,2), of b b "[]" "[]"] by simp
qed

text \<open>It fails only where a length does not fit 64 bits.\<close>

lemma bincode_fails:
  assumes "w \<in> objects registrationFields"
  shows "registerSubgroveBincode w = Inl INVALID_SIGNED_FIELD \<or> (\<exists>b. registerSubgroveBincode w = Inr b)"
  using codes_appends [OF codes_registration assms, of "[]"]
  by (auto simp: registerSubgroveBincode_def split: option.splits)

subsection \<open>What the wire functions build\<close>

lemma wire_text: "textV v = Inr x \<Longrightarrow> x \<in> texts_ok"
  by (auto simp: textV_def texts_ok_def)

lemma wire_texts: "textsV v = Inr x \<Longrightarrow> x \<in> textLists"
  by (auto simp: textsV_def texts_Inr textArray_def textLists_def texts_ok_def list_all_iff)

lemma wire_bool: "boolV v = Inr x \<Longrightarrow> x \<in> range Boolean"
  by (auto simp: boolV_def)

lemma wire_bytes: "bytesV len hex v = Inr x \<Longrightarrow> x \<in> range byteArray"
  by (auto simp: bytesV_def)

lemma wire_hash: "bytesV (Some n) hex v = Inr x \<Longrightarrow> x \<in> {byteArray bs | bs. length bs = n}"
  by (auto simp: bytesV_def dest: bytesField_length)

lemma wire_int: "wireUint v b = Inr x \<Longrightarrow> x \<in> ints b"
  by (auto simp: wireUint_Inr ints_def dest: uintField_range)

lemma wire_optional: "optional v f = Inr x \<Longrightarrow> (\<And>y. f v = Inr y \<Longrightarrow> y \<in> D) \<Longrightarrow> x \<in> insert Null D"
  by (auto simp: optional_def split: if_splits)

lemma wire_oneOf: "oneOf names v = Inr x \<Longrightarrow> x \<in> names_ok names"
  by (auto simp: oneOf_def names_ok_def split: val.splits if_splits)

lemma objectOf_Inr:
  "objectOf fs = Inr w \<longleftrightarrow> (\<exists>kvs. w = Object kvs \<and> list_all2 (\<lambda>(k, r) (l, x). k = l \<and> r = Inr x) fs kvs)"
proof -
  have eq: "(case f of (k, r) \<Rightarrow> bnd r (\<lambda>v. Inr (k, v))) = Inr e \<longleftrightarrow> (case f of (k, r) \<Rightarrow> \<lambda>(l, x). k = l \<and> r = Inr x) e"
    for f :: "string \<times> (txError + val)" and e
    by (cases f; cases e) auto
  show ?thesis by (auto simp: objectOf_def mapE_Inr eq)
qed

text \<open>An object literal is in the set of its fields' values when each field's check is.\<close>

lemma wire_object:
  assumes "objectOf fs = Inr w"
    and "list_all2 (\<lambda>(k, r) (l, m, D). k = l \<and> (\<forall>x. r = Inr x \<longrightarrow> x \<in> D)) fs gs"
  shows "w \<in> objects gs"
proof -
  obtain kvs where w: "w = Object kvs" and e: "list_all2 (\<lambda>(k, r) (l, x). k = l \<and> r = Inr x) fs kvs"
    using assms(1) by (auto simp: objectOf_Inr)
  have "list_all2 (\<lambda>(k, x) (l, w, D). k = l \<and> x \<in> D) kvs gs"
    using assms(2) e
  proof (induction fs arbitrary: gs kvs)
    case (Cons f fs)
    then show ?case by (auto simp: list_all2_Cons1)
  qed simp
  then show ?thesis by (auto simp: w objects_def)
qed

lemma wire_list: "mapE f xs = Inr ys \<Longrightarrow> (\<And>x y. f x = Inr y \<Longrightarrow> y \<in> D) \<Longrightarrow> Array ys \<in> {Array xs | xs. set xs \<subseteq> D}"
  using mapE_all [of f xs ys "\<lambda>y. y \<in> D"] by (auto simp: list_all_iff)

lemmas wire_facts = wire_text wire_texts wire_bool wire_bytes wire_hash wire_int wire_oneOf

lemma wire_grant: "keyGrantWire v = Inr x \<Longrightarrow> x \<in> objects grantFields"
  unfolding keyGrantWire_def bnd_eq_Inr
  by (elim exE conjE wire_object) (use wire_facts in \<open>auto simp: grantFields_def\<close>)

lemma wire_pricing: "readPricingWire v = Inr x \<Longrightarrow> x \<in> objects pricingFields"
  unfolding readPricingWire_def bnd_eq_Inr
  by (elim exE conjE wire_object) (use wire_facts in \<open>auto simp: pricingFields_def\<close>)

lemma wire_module: "wasmModuleWire v = Inr x \<Longrightarrow> x \<in> objects moduleFields"
  unfolding wasmModuleWire_def bnd_eq_Inr
  by (elim exE conjE wire_object) (use wire_facts in \<open>auto simp: moduleFields_def\<close>)

lemma wire_indexer: "indexerConfigWire v = Inr x \<Longrightarrow> x \<in> objects indexerFields"
  unfolding indexerConfigWire_def bnd_eq_Inr
  by (elim exE conjE wire_object) (use wire_facts in \<open>auto simp: indexerFields_def\<close>)

lemma safe_word: "uintField x 32 = Inr n \<Longrightarrow> Number (Safe n) \<in> ints 32"
  using uintField_range [of x 32 n] by (auto simp: ints_def wireInt_def MAX_SAFE_INTEGER_def intro!: image_eqI [of _ _ n])

lemma wire_words: "configHash v = Inr x \<Longrightarrow> x \<in> fourWords"
proof -
  assume "configHash v = Inr x"
  then obtain xs ys where "length xs = 4" and m: "mapE (\<lambda>x. bnd (uintField x 32) (\<lambda>n. Inr (Number (Safe n)))) xs = Inr ys"
    and x: "x = Array ys" by (auto simp: configHash_def split: val.splits if_splits)
  moreover have "length ys = length xs" using m by (auto simp: mapE_Inr dest: list_all2_lengthD)
  moreover have "list_all (\<lambda>y. y \<in> ints 32) ys" by (rule mapE_all [OF m]) (auto dest: safe_word)
  ultimately show ?thesis by (auto simp: fourWords_def list_all_iff)
qed

lemma wire_completeness: "completenessWire v = Inr x \<Longrightarrow> x \<in> objects completenessFields"
  unfolding completenessWire_def bnd_eq_Inr
  by (elim exE conjE wire_object) (use wire_facts wire_words in \<open>auto simp: completenessFields_def\<close>)

lemma in_variants:
  "(n, None) \<in> set vs \<Longrightarrow> Text (js n) \<in> variantsOf vs"
  "(n, Some (w, D)) \<in> set vs \<Longrightarrow> x \<in> D \<Longrightarrow> Object [(n, x)] \<in> variantsOf vs"
  by (auto simp: variantsOf_def intro: bexI [of _ "(n, None)"] bexI [of _ "(n, Some (w, D))"])

lemma one_field: "objectOf [(k, r)] = Inr x \<longleftrightarrow> (\<exists>y. r = Inr y \<and> x = Object [(k, y)])"
  by (auto simp: objectOf_def)

lemma wire_sampling: "wireUint v 8 = Inr y \<Longrightarrow> Object [(''sampling_rate_percent'', y)] \<in> objects samplingFields"
  by (auto simp: objects_def samplingFields_def dest: wire_int)

lemma wire_tee: "teeType v = Inr y \<Longrightarrow> Object [(''tee_type'', y)] \<in> objects teeFields"
  by (auto simp: objects_def teeFields_def teeType_def dest: wire_oneOf)

lemma wire_execution: "executionModeWire v = Inr x \<Longrightarrow> x \<in> variantsOf executionModes"
  by (auto simp: executionModeWire_def one_field executionModes_def simp del: js_simps split: if_splits
      dest!: wire_sampling wire_tee intro: in_variants)

lemma wire_retention: "retentionWindowWire v = Inr x \<Longrightarrow> x \<in> variantsOf retentionWindows"
  by (auto simp: retentionWindowWire_def one_field retentionWindows_def simp del: js_simps split: if_splits
      dest!: wire_int intro: in_variants)

lemma wire_frequency: "frequencyWire v = Inr x \<Longrightarrow> x \<in> variantsOf frequencies"
  by (auto simp: frequencyWire_def one_field frequencies_def simp del: js_simps split: if_splits
      dest!: wire_int intro: in_variants)

lemma wire_price_option: "optional v readPricingWire = Inr x \<Longrightarrow> x \<in> insert Null (objects pricingFields)"
  by (elim wire_optional wire_pricing)

lemma wire_access: "accessLists m = Inr (a, b) \<Longrightarrow> a \<in> textLists \<and> b \<in> textLists"
  by (auto simp: accessLists_def dest: wire_texts)

lemma wire_data: "dataStorageWire v = Inr x \<Longrightarrow> x \<in> variantsOf modes"
  unfolding dataStorageWire_def bnd_eq_Inr
  by (elim exE conjE, clarsimp simp: one_field, drule wire_access, rule in_variants(2), simp add: modes_def, erule wire_object)
    (use wire_facts wire_price_option in \<open>auto simp: dataFields_def\<close>)

lemma wire_file: "fileStorageWire v = Inr x \<Longrightarrow> x \<in> variantsOf modes"
  unfolding fileStorageWire_def bnd_eq_Inr
  by (elim exE conjE, clarsimp simp: one_field, drule wire_access, rule in_variants(2), simp add: modes_def, erule wire_object)
    (use wire_facts wire_price_option in \<open>auto simp: fileFields_def\<close>)

lemma wire_modules: "bnd (mapE wasmModuleWire xs) (\<lambda>ws. Inr (Array ws)) = Inr x \<Longrightarrow> x \<in> {Array xs | xs. set xs \<subseteq> objects moduleFields}"
  using wire_list [of wasmModuleWire xs _ "objects moduleFields"] wire_module by auto

lemma wire_completeness_option:
  "optional v completenessWire = Inr x \<Longrightarrow> x \<in> insert Null (objects completenessFields)"
  by (elim wire_optional wire_completeness)

lemma wire_auth: "historicalAuthModeWire v = Inr x \<Longrightarrow> x \<in> names_ok HISTORICAL_AUTH_MODES"
  by (simp add: historicalAuthModeWire_def wire_oneOf)

lemma wire_indexing: "indexingWire window v = Inr x \<Longrightarrow> x \<in> variantsOf modes"
proof -
  assume "indexingWire window v = Inr x"
  then obtain m modules y where x: "x = Object [(''BlockchainIndexing'', y)]"
    and y: "objectOf
       [(''manifest_content'', bytesV None False (propOf m ''manifest_content'')),
        (''wasm_modules'', bnd (mapE wasmModuleWire modules) (\<lambda>ws. Inr (Array ws))),
        (''execution_mode'', executionModeWire (propOf m ''execution_mode'')),
        (''indexer_config'', indexerConfigWire (propOf m ''indexer_config'')),
        (''retention_window'',
           retentionWindowWire (orElse (propOf m ''retention_window'') (orElse window (Text (js ''Indefinite''))))),
        (''completeness'', optional (propOf m ''completeness'') completenessWire),
        (''historical_auth_mode'',
           historicalAuthModeWire (orElse (propOf m ''historical_auth_mode'') (Text (js ''BftEquivalent''))))] = Inr y"
    unfolding indexingWire_def bnd_eq_Inr
    by (auto simp del: js_simps simp: one_field split: if_splits val.splits)
  have "y \<in> objects indexingFields"
    by (rule wire_object [OF y])
      (use wire_bytes wire_modules wire_execution wire_indexer wire_retention wire_completeness_option wire_auth in
        \<open>auto simp: indexingFields_def simp del: js_simps\<close>)
  then show ?thesis unfolding x by (intro in_variants(2)) (simp_all add: modes_def)
qed

lemma wire_mode: "modeWire tx name = Inr x \<Longrightarrow> x \<in> variantsOf modes"
  unfolding modeWire_def Let_def bnd_eq_Inr
  by (auto simp del: js_simps split: if_splits dest: wire_data wire_file wire_indexing)

lemma wire_privacy: "privacyWire v = Inr x \<Longrightarrow> x \<in> objects privacyFields"
proof -
  assume "privacyWire v = Inr x"
  then obtain p f where f: "frequencyWire (propOf p ''commitment_frequency'') = Inr f"
    and x: "objectOf
       [(''allowed_indexers'', optional (propOf p ''allowed_indexers'') textsV), (''commitment_frequency'', Inr f)] = Inr x"
    by (auto simp: privacyWire_def)
  have "y \<in> insert Null textLists" if "optional v textsV = Inr y" for v y
    using that wire_optional [of v textsV y textLists] wire_texts by blast
  then show ?thesis
    by (intro wire_object [OF x]) (use wire_frequency [OF f] in \<open>auto simp: privacyFields_def\<close>)
qed

lemma wire_template: "templateWire v = Inr x \<Longrightarrow> x \<in> objects templateFields"
proof -
  have chain: "y \<in> insert Null texts_ok" if "optional v textV = Inr y" for v y
    using that wire_optional [of v textV y texts_ok] wire_text by blast
  assume "templateWire v = Inr x"
  then show ?thesis
    unfolding templateWire_def bnd_eq_Inr
    by (elim exE conjE wire_object) (use wire_facts chain in \<open>auto simp: templateFields_def\<close>)
qed

lemma wire_funding: "initialFundingWire v = Inr x \<Longrightarrow> x \<in> insert Null fundings"
  by (auto simp: initialFundingWire_def fundings_def split: if_splits dest: uintField_range)

lemma wire_checkpoint: "checkpointWire v = Inr x \<Longrightarrow> x \<in> objects checkpointFields"
proof -
  have tee: "y \<in> insert Null (names_ok TEE_TYPES)" if "optional v teeType = Inr y" for v y
    using that wire_optional [of v teeType y "names_ok TEE_TYPES"] wire_oneOf by (simp add: teeType_def)
  assume "checkpointWire v = Inr x"
  then obtain c y where "optional (propOf c ''required_tee'') teeType = Inr y" "x = Object [(''required_tee'', y)]"
    by (auto simp: checkpointWire_def one_field)
  then show ?thesis using tee by (auto simp: objects_def checkpointFields_def)
qed

lemma wire_options:
  "optional v privacyWire = Inr x \<Longrightarrow> x \<in> insert Null (objects privacyFields)"
  "optional v keyGrantWire = Inr x \<Longrightarrow> x \<in> insert Null (objects grantFields)"
  "optional v templateWire = Inr x \<Longrightarrow> x \<in> insert Null (objects templateFields)"
  by (elim wire_optional wire_privacy wire_grant wire_template)+

lemma wire_registration:
  assumes "registerSubgroveWire tx (Array []) = Inr w"
  shows "w \<in> objects registrationFields"
proof -
  from assms obtain mode fs where m: "modeWire tx (orElse (propOf tx ''name'') (propOf tx ''subgroveId'')) = Inr mode"
    and w: "objectOf fs = Inr w"
    and fs: "fs =
      [(''subgrove_id'', textV (propOf tx ''subgroveId'')),
       (''name'', textV (orElse (propOf tx ''name'') (propOf tx ''subgroveId''))),
       (''description'', textV (orElse (propOf tx ''description'') (Text []))),
       (''schema'', textV (propOf tx ''schema'')),
       (''owner_did'', textV (propOf tx ''ownerDid'')),
       (''admins'', textsV (orElse (propOf tx ''admins'') (Array []))),
       (''initial_funding'', initialFundingWire (propOf tx ''initialFunding'')),
       (''checkpoint_verification'',
          checkpointWire (orElse (propOf tx ''checkpointVerification'') (Object [(''required_tee'', Null)]))),
       (''mode'', Inr mode),
       (''privacy'', optional (propOf tx ''privacy'') privacyWire),
       (''initial_owner_key_grant'', optional (propOf tx ''initialOwnerKeyGrant'') keyGrantWire),
       (''template_config'', optional (propOf tx ''templateConfig'') templateWire),
       (''confirmation_depth'', wireUint (orElse (propOf tx ''confirmationDepth'') (Number (Safe 0))) 32),
       (''signature'', Inr (Array [])),
       (''public_key_id'', textV (orElse (propOf tx ''publicKeyId'') (Text []))),
       (''nonce'', wireUint (orElse (propOf tx ''nonce'') (Number (Safe 0))) 64),
       (''cryptographic_completeness'', boolV (orElse (propOf tx ''cryptographicCompleteness'') (Boolean False)))]"
    unfolding registerSubgroveWire_def Let_def bnd_eq_Inr by blast
  show ?thesis
    by (rule wire_object [OF w], unfold fs)
      (use wire_facts wire_options wire_mode [OF m] wire_checkpoint wire_funding in \<open>auto simp: registrationFields_def\<close>)
qed

end
