(* ===== verification/Tx_Sign.thy ===== *)
theory Tx_Sign
  imports Tx_Covered
begin

text \<open>
  The message a registration is signed over (\<open>src/src/consensus/types.ts\<close>): lines with the subgrove, its
  owner, the hash of the bincode and the nonce. Two registrations with one message are sent as one
  body under any signature, or their bincodes are a collision of the hash, which is a parameter.
\<close>

subsection \<open>Lines\<close>

definition safeUint :: "val \<Rightarrow> nat \<Rightarrow> txError + int" where
  "safeUint v bits =
     (case v of
        Number (Safe n) \<Rightarrow>
          if n < 0 then Inl INVALID_SIGNED_FIELD
          else if bits = 32 \<and> n > 0xffffffff then Inl INVALID_SIGNED_FIELD
          else Inr n
      | _ \<Rightarrow> Inl INVALID_SIGNED_FIELD)"

definition uintLine :: "string \<Rightarrow> val \<Rightarrow> nat \<Rightarrow> txError + jsstr" where
  "uintLine label v bits = bnd (safeUint v bits) (\<lambda>n. Inr (js label @ js '': '' @ intText n))"

definition nonceLine :: "val \<Rightarrow> txError + jsstr" where
  "nonceLine nonce = uintLine ''Nonce'' nonce 64"

fun joinLines :: "jsstr list \<Rightarrow> jsstr" where
  "joinLines [] = []"
| "joinLines [l] = l"
| "joinLines (l # ls) = l @ LF # joinLines ls"

definition registerSubgroveUnsignedBincode :: "val \<Rightarrow> txError + bytes" where
  "registerSubgroveUnsignedBincode tx = bnd (registerSubgroveWire tx (Array [])) registerSubgroveBincode"

definition registerSubgroveSignMessage :: "(bytes \<Rightarrow> bytes) \<Rightarrow> val \<Rightarrow> txError + jsstr" where
  "registerSubgroveSignMessage H tx =
     bnd (nonceLine (propOf tx ''nonce'')) (\<lambda>_.
     bnd (textLine ''Subgrove'' (propOf tx ''subgroveId'')) (\<lambda>subgrove.
     bnd (textLine ''Owner'' (propOf tx ''ownerDid'')) (\<lambda>owner.
     bnd (registerSubgroveWire tx (Array [])) (\<lambda>w.
     bnd (registerSubgroveBincode w) (\<lambda>b.
       Inr (joinLines
         [js ''RegisterSubgrove'', subgrove, owner, js ''Config: '' @ js (bytesToHex (H b)),
          js ''Nonce: '' @ jsString (propOf w ''nonce'')]))))))"

text \<open>Lines without a line feed, the last apart, are what their text was joined from.\<close>

lemma split_at: "x \<notin> set a \<Longrightarrow> x \<notin> set b \<Longrightarrow> a @ x # r = b @ x # t \<longleftrightarrow> a = b \<and> r = t"
proof (induction a arbitrary: b)
  case (Cons c a)
  then show ?case by (cases b) auto
next
  case Nil
  then show ?case by (cases b) auto
qed

lemma joinLines_inj:
  "length ls = length ms \<Longrightarrow> list_all (\<lambda>l. LF \<notin> set l) (butlast ls) \<Longrightarrow> list_all (\<lambda>l. LF \<notin> set l) (butlast ms) \<Longrightarrow>
     joinLines ls = joinLines ms \<longleftrightarrow> ls = ms"
proof (induction ls ms rule: list_induct2)
  case (Cons l ls m ms)
  show ?case
  proof (cases ls)
    case Nil
    then show ?thesis using Cons.hyps by simp
  next
    case (Cons a as)
    then obtain b bs where ms: "ms = b # bs" using \<open>length ls = length ms\<close> by (cases ms) simp_all
    then show ?thesis using Cons Cons.IH Cons.prems split_at [of LF l m] by simp
  qed
qed simp

lemma hexDigit_line: "n < 16 \<Longrightarrow> of_char (Bincode.hexDigit n) \<noteq> LF"
proof -
  assume "n < 16"
  then have "Bincode.hexDigit n \<in> set ''0123456789abcdef''" unfolding Bincode.hexDigit_def by (intro nth_mem) simp
  moreover have "list_all (\<lambda>c. of_char c \<noteq> LF) ''0123456789abcdef''" by (simp add: LF_def)
  ultimately show ?thesis by (simp only: list_all_iff) blast
qed

lemma hex_line: "LF \<notin> set (js (bytesToHex bs))"
  by (induction bs) (simp_all add: js_def hexDigit_line [THEN not_sym] unat_nibbles)

lemma js_line: "list_all (\<lambda>c. of_char c \<noteq> LF) s \<Longrightarrow> LF \<notin> set (js s)"
  by (induction s) (auto simp: js_def)

lemma textLine_line:
  assumes "textLine label v = Inr l" "LF \<notin> set (js label)"
  shows "LF \<notin> set l"
  using assms js_line [of "'': ''"] by (auto simp: textLine_def LF_def split: if_splits)

subsection \<open>The body sent\<close>

text \<open>An object literal whose field of a name has another value.\<close>

definition setField :: "string \<Rightarrow> val \<Rightarrow> val \<Rightarrow> val" where
  "setField k x v = (case v of Object kvs \<Rightarrow> Object (map (\<lambda>(l, y). (l, if l = k then x else y)) kvs) | _ \<Rightarrow> v)"

lemma mapE_set:
  "(\<forall>(l, r)\<in>set fs. l = k \<longrightarrow> (\<exists>y. r = Inr y)) \<Longrightarrow>
     mapE (\<lambda>(l, r). bnd r (\<lambda>v. Inr (l, v))) (map (\<lambda>(l, r). (l, if l = k then Inr x else r)) fs) =
     bnd (mapE (\<lambda>(l, r). bnd r (\<lambda>v. Inr (l, v))) fs) (\<lambda>kvs. Inr (map (\<lambda>(l, y). (l, if l = k then x else y)) kvs))"
proof (induction fs)
  case (Cons f fs)
  obtain l r where f: "f = (l, r)" by (cases f)
  show ?case
  proof (cases "l = k")
    case True
    then obtain y where "r = Inr y" using Cons.prems f by auto
    then show ?thesis using True Cons f
      by (cases "mapE (\<lambda>(l, r). bnd r (\<lambda>v. Inr (l, v))) fs") simp_all
  next
    case False
    then show ?thesis using Cons f
      by (cases r; cases "mapE (\<lambda>(l, r). bnd r (\<lambda>v. Inr (l, v))) fs") simp_all
  qed
qed simp

lemma objectOf_set:
  "(\<forall>(l, r)\<in>set fs. l = k \<longrightarrow> (\<exists>y. r = Inr y)) \<Longrightarrow>
     objectOf (map (\<lambda>(l, r). (l, if l = k then Inr x else r)) fs) = bnd (objectOf fs) (\<lambda>w. Inr (setField k x w))"
  unfolding objectOf_def mapE_set
  by (cases "mapE (\<lambda>(l, r). bnd r (\<lambda>v. Inr (l, v))) fs") (simp_all add: setField_def)

lemma propOf_set: "l \<noteq> k \<Longrightarrow> propOf (setField k x v) l = propOf v l"
proof (cases v)
  case (Object kvs)
  assume "l \<noteq> k"
  then have "map_of (map (\<lambda>(l, y). (l, if l = k then x else y)) kvs) l = map_of kvs l"
    by (induction kvs) auto
  then show ?thesis using Object by (simp add: propOf_def setField_def)
qed (simp_all add: setField_def)

lemma check_set: "checkStorageRegistration (setField ''signature'' x w) = checkStorageRegistration w"
  unfolding checkStorageRegistration_def Let_def by (simp add: propOf_set split_def)

text \<open>Under another signature the body is the same but for that field.\<close>

lemma wire_signed:
  "registerSubgroveWire tx sig = bnd (registerSubgroveWire tx (Array [])) (\<lambda>w. Inr (setField ''signature'' sig w))"
proof (cases "modeWire tx (orElse (propOf tx ''name'') (propOf tx ''subgroveId''))")
  case (Inr mode)
  define fs where "fs = (\<lambda>sig.
    [(''subgrove_id'', textV (propOf tx ''subgroveId'')),
     (''name'', textV (orElse (propOf tx ''name'') (propOf tx ''subgroveId''))),
     (''description'', textV (orElse (propOf tx ''description'') (Text []))),
     (''schema'', textV (propOf tx ''schema'')),
     (''owner_did'', textV (propOf tx ''ownerDid'')),
     (''admins'', textsV (orElse (propOf tx ''admins'') (Array []))),
     (''initial_funding'', initialFundingWire (propOf tx ''initialFunding'')),
     (''checkpoint_verification'',
        checkpointWire (orElse (propOf tx ''checkpointVerification'') (Object [(''required_tee'', Null)]))),
     (''mode'', Inr mode),
     (''privacy'', optional (propOf tx ''privacy'') privacyWire),
     (''initial_owner_key_grant'', optional (propOf tx ''initialOwnerKeyGrant'') keyGrantWire),
     (''template_config'', optional (propOf tx ''templateConfig'') templateWire),
     (''confirmation_depth'', wireUint (orElse (propOf tx ''confirmationDepth'') (Number (Safe 0))) 32),
     (''signature'', Inr sig),
     (''public_key_id'', textV (orElse (propOf tx ''publicKeyId'') (Text []))),
     (''nonce'', wireUint (orElse (propOf tx ''nonce'') (Number (Safe 0))) 64),
     (''cryptographic_completeness'', boolV (orElse (propOf tx ''cryptographicCompleteness'') (Boolean False)))])"
  have reg: "registerSubgroveWire tx sig = bnd (objectOf (fs sig)) (\<lambda>w.
      bnd (if isStorage mode then checkStorageRegistration w else Inr ()) (\<lambda>_. Inr w))" for sig
    unfolding registerSubgroveWire_def Let_def Inr fs_def by (simp only: bnd_simps)
  have "fs sig = map (\<lambda>(l, r). (l, if l = ''signature'' then Inr sig else r)) (fs (Array []))" by (simp add: fs_def)
  moreover have "\<forall>(l, r)\<in>set (fs (Array [])). l = ''signature'' \<longrightarrow> (\<exists>y. r = Inr y)" by (simp add: fs_def)
  ultimately have "objectOf (fs sig) = bnd (objectOf (fs (Array []))) (\<lambda>w. Inr (setField ''signature'' sig w))"
    using objectOf_set by presburger
  then show ?thesis unfolding reg
    by (cases "objectOf (fs (Array []))"; cases "isStorage mode")
      (simp_all add: check_set bnd_assoc)
qed (simp add: registerSubgroveWire_def Let_def)

lemma message_parts:
  assumes "registerSubgroveSignMessage H tx = Inr m"
  obtains s p w b where "registerSubgroveWire tx (Array []) = Inr w" "registerSubgroveBincode w = Inr b"
    "LF \<notin> set s" "LF \<notin> set p"
    "m = joinLines [js ''RegisterSubgrove'', s, p, js ''Config: '' @ js (bytesToHex (H b)),
       js ''Nonce: '' @ jsString (propOf w ''nonce'')]"
proof -
  from assms obtain s p w b where l: "textLine ''Subgrove'' (propOf tx ''subgroveId'') = Inr s"
    "textLine ''Owner'' (propOf tx ''ownerDid'') = Inr p"
    and w: "registerSubgroveWire tx (Array []) = Inr w" "registerSubgroveBincode w = Inr b"
    and m: "m = joinLines [js ''RegisterSubgrove'', s, p, js ''Config: '' @ js (bytesToHex (H b)),
       js ''Nonce: '' @ jsString (propOf w ''nonce'')]"
    unfolding registerSubgroveSignMessage_def bnd_eq_Inr by (auto simp del: js_simps)
  have "LF \<notin> set s" by (rule textLine_line [OF l(1) js_line]) (simp add: LF_def)
  moreover have "LF \<notin> set p" by (rule textLine_line [OF l(2) js_line]) (simp add: LF_def)
  ultimately show thesis using that w m by blast
qed

lemma config_line:
  assumes "LF \<notin> set s" "LF \<notin> set p" "LF \<notin> set t" "LF \<notin> set q"
    and "joinLines [js ''RegisterSubgrove'', t, q, js ''Config: '' @ js (bytesToHex y), l] =
      joinLines [js ''RegisterSubgrove'', s, p, js ''Config: '' @ js (bytesToHex x), k]"
  shows "x = y"
proof -
  have "LF \<notin> set (js ''RegisterSubgrove'')" "LF \<notin> set (js ''Config: '')"
    by (rule js_line, simp add: LF_def)+
  then have "[js ''RegisterSubgrove'', t, q, js ''Config: '' @ js (bytesToHex y), l] =
      [js ''RegisterSubgrove'', s, p, js ''Config: '' @ js (bytesToHex x), k]"
    using assms hex_line joinLines_inj [of "[js ''RegisterSubgrove'', t, q, js ''Config: '' @ js (bytesToHex y), l]"
        "[js ''RegisterSubgrove'', s, p, js ''Config: '' @ js (bytesToHex x), k]"] by (simp del: js_simps joinLines.simps)
  then show ?thesis by (simp del: js_simps)
qed

subsection \<open>Properties\<close>

text \<open>An indexing registration with nothing but what it needs.\<close>

definition sampleTx :: val where
  "sampleTx = Object
     [(''subgroveId'', Text (js ''s'')), (''ownerDid'', Text (js ''o'')), (''schema'', Text []),
      (''nonce'', Number (Safe 7)),
      (''mode'', Object [(''BlockchainIndexing'', Object
         [(''manifest_content'', Array []), (''execution_mode'', Text (js ''ConsensusExecution'')),
          (''indexer_config'', Object
             [(''min_indexers'', Number (Safe 1)), (''max_indexers'', Number (Safe 2)),
              (''reward_per_epoch'', BigInt 5), (''min_indexer_stake'', Number (Safe 0))])])])]"

text \<open>The same registration with some of its defaults written out.\<close>

definition fullTx :: val where
  "fullTx = Object
     [(''subgroveId'', Text (js ''s'')), (''name'', Text (js ''s'')), (''description'', Text []),
      (''ownerDid'', Text (js ''o'')), (''admins'', Array []), (''schema'', Text []),
      (''confirmationDepth'', Number (Safe 0)), (''cryptographicCompleteness'', Boolean False),
      (''nonce'', Number (Safe 7)),
      (''mode'', Object [(''BlockchainIndexing'', Object
         [(''manifest_content'', Array []), (''wasm_modules'', Array []), (''execution_mode'', Text (js ''ConsensusExecution'')),
          (''indexer_config'', Object
             [(''min_indexers'', Number (Safe 1)), (''max_indexers'', Number (Safe 2)),
              (''reward_per_epoch'', Number (Safe 5)), (''min_indexer_stake'', BigInt 0)])])])]"

text \<open>The body both are sent as.\<close>

definition sampleBody :: val where
  "sampleBody = Object
     [(''subgrove_id'', Text (js ''s'')), (''name'', Text (js ''s'')), (''description'', Text []), (''schema'', Text []),
      (''owner_did'', Text (js ''o'')), (''admins'', Array []), (''initial_funding'', Null),
      (''checkpoint_verification'', Object [(''required_tee'', Null)]),
      (''mode'', Object [(''BlockchainIndexing'', Object
         [(''manifest_content'', Array []), (''wasm_modules'', Array []), (''execution_mode'', Text (js ''ConsensusExecution'')),
          (''indexer_config'', Object
             [(''min_indexers'', Number (Safe 1)), (''max_indexers'', Number (Safe 2)),
              (''reward_per_epoch'', Number (Safe 5)), (''epoch_length'', Number (Safe 100)), (''min_indexer_stake'', Number (Safe 0))]),
          (''retention_window'', Text (js ''Indefinite'')), (''completeness'', Null),
          (''historical_auth_mode'', Text (js ''BftEquivalent''))])]),
      (''privacy'', Null), (''initial_owner_key_grant'', Null), (''template_config'', Null),
      (''confirmation_depth'', Number (Safe 0)), (''signature'', Array []), (''public_key_id'', Text []),
      (''nonce'', Number (Safe 7)), (''cryptographic_completeness'', Boolean False)]"

lemma sample_mode:
  "modeWire sampleTx (Text (js ''s'')) = Inr (propOf sampleBody ''mode'')"
  "modeWire fullTx (Text (js ''s'')) = Inr (propOf sampleBody ''mode'')"
  by (simp_all add: sampleTx_def fullTx_def sampleBody_def propOf_def modeWire_def indexingWire_def recordOf_def isObject_def objectOf_def
      bytesV_def bytesField_def executionModeWire_def isAbsent_def indexerConfigWire_def wireUint_def uintField_def wireInt_def
      MAX_SAFE_INTEGER_def retentionWindowWire_def retentionKind_def optional_def historicalAuthModeWire_def oneOf_def
      HISTORICAL_AUTH_MODES_def byteArray_def DEFAULT_EPOCH_LENGTH_def)

lemma sample_wire:
  "registerSubgroveWire sampleTx (Array []) = Inr sampleBody"
  "registerSubgroveWire fullTx (Array []) = Inr sampleBody"
proof -
  have n: "orElse (propOf sampleTx ''name'') (propOf sampleTx ''subgroveId'') = Text (js ''s'')"
    "orElse (propOf fullTx ''name'') (propOf fullTx ''subgroveId'') = Text (js ''s'')"
    by (simp_all add: sampleTx_def fullTx_def propOf_def)
  note defs = propOf_def recordOf_def isObject_def objectOf_def isStorage_def modeEntry_def textV_def textsV_def
    textArray_def initialFundingWire_def checkpointWire_def boolV_def isAbsent_def wireUint_def uintField_def wireInt_def
    isHigh_def isLow_def MAX_SAFE_INTEGER_def optional_def
  show "registerSubgroveWire sampleTx (Array []) = Inr sampleBody"
    unfolding registerSubgroveWire_def Let_def n sample_mode by (simp add: sampleTx_def sampleBody_def defs)
  show "registerSubgroveWire fullTx (Array []) = Inr sampleBody"
    unfolding registerSubgroveWire_def Let_def n sample_mode by (simp add: fullTx_def sampleBody_def defs)
qed

lemma uint_safe [simp]: "0 \<le> n \<Longrightarrow> n < 2 ^ b \<Longrightarrow> wInt b (Number (Safe n)) buf = Inr ((), buf @ leBytes (b div 8) n)"
  by (simp add: wInt_def uintField_def bind_def lift_def put_def)

lemma sample_bincode: "\<exists>b. registerSubgroveBincode sampleBody = Inr b"
  by (simp add: sampleBody_def registerSubgroveBincode_def wRegistration_def bind_def lift_def ret_def wBytes_def put_def
      nat_val_def wStrings_def wOption_def isAbsent_def subgroveMode_def wVariant_def wIndex_def SUBGROVE_MODES_def
      wExecutionMode_def EXECUTION_MODES_def wIndexerConfig_def wRetention_def RETENTION_WINDOWS_def wEnum_def
      HISTORICAL_AUTH_MODES_def wBool_def utf8ToBytes_def length_concat utf8Point_def codePoints.simps codePointAt_def scalar_def)

lemma sample_message:
  "\<exists>m. registerSubgroveSignMessage H sampleTx = Inr m \<and> registerSubgroveSignMessage H fullTx = Inr m"
proof -
  obtain b where "registerSubgroveBincode sampleBody = Inr b" using sample_bincode by blast
  moreover have "propOf sampleTx k = propOf fullTx k" if "k \<in> {''nonce'', ''subgroveId'', ''ownerDid''}" for k
    using that by (auto simp: sampleTx_def fullTx_def propOf_def)
  ultimately show ?thesis
    unfolding registerSubgroveSignMessage_def sample_wire
    by (simp add: sampleTx_def fullTx_def propOf_def nonceLine_def uintLine_def safeUint_def textLine_def isHigh_def isLow_def
        LF_def)
qed

text \<open>C17: What a registration's signature covers. When two registrations have the same message to sign,
  they are sent as the same body under every signature, whatever they leave to defaults; or else the
  bincodes of their bodies are two different byte strings with one hash.\<close>

theorem registration_covered:
  assumes "registerSubgroveSignMessage H tx = Inr m" and "registerSubgroveSignMessage H tx' = Inr m"
  shows "(\<forall>sig. registerSubgroveWire tx sig = registerSubgroveWire tx' sig) \<or>
    (\<exists>b b'. registerSubgroveUnsignedBincode tx = Inr b \<and> registerSubgroveUnsignedBincode tx' = Inr b' \<and> b \<noteq> b' \<and> H b = H b')"
proof -
  from assms(1) obtain s p w b where w: "registerSubgroveWire tx (Array []) = Inr w" "registerSubgroveBincode w = Inr b"
    and l: "LF \<notin> set s" "LF \<notin> set p"
    and m: "m = joinLines [js ''RegisterSubgrove'', s, p, js ''Config: '' @ js (bytesToHex (H b)),
       js ''Nonce: '' @ jsString (propOf w ''nonce'')]" by (rule message_parts)
  from assms(2) obtain t q v c where v: "registerSubgroveWire tx' (Array []) = Inr v" "registerSubgroveBincode v = Inr c"
    and k: "LF \<notin> set t" "LF \<notin> set q"
    and n: "m = joinLines [js ''RegisterSubgrove'', t, q, js ''Config: '' @ js (bytesToHex (H c)),
       js ''Nonce: '' @ jsString (propOf v ''nonce'')]" by (rule message_parts)
  have h: "H b = H c" using m unfolding n by (rule config_line [OF l k])
  show ?thesis
  proof (cases "b = c")
    case True
    then have "w = v"
      using bincode_separates [OF wire_registration [OF w(1)] wire_registration [OF v(1)] w(2)] v(2) by simp
    then have "registerSubgroveWire tx sig = registerSubgroveWire tx' sig" for sig
      unfolding wire_signed [of tx sig] wire_signed [of tx' sig] w(1) v(1) by simp
    then show ?thesis by blast
  next
    case False
    then show ?thesis using h w v by (simp add: registerSubgroveUnsignedBincode_def)
  qed
qed

theorem registration_covered_witness:
  "\<forall>sig. registerSubgroveWire sampleTx sig = registerSubgroveWire fullTx sig"
proof -
  obtain m where "registerSubgroveSignMessage id sampleTx = Inr m" "registerSubgroveSignMessage id fullTx = Inr m"
    using sample_message by blast
  from registration_covered [OF this] show ?thesis by auto
qed

end
