(* ===== verification/Spec2Isabelle.thy ===== *)
theory Spec2Isabelle
  imports Nonces Completeness Light_Client Subscriptions Tx_Sign
begin

text \<open>
  A model of the Willow TypeScript SDK (\<open>src/src\<close>), the parts of it that decide: what a proof
  proves, what an answer is bound to, which nonce a transaction takes, which header is trusted,
  when a connection is given up. The SDK's users trust no server: an API answers a query with
  documents and a GroveDB proof, the light client supplies the root hash the proof is checked
  against, and the answer is accepted only when every document in it is bound to a proven entry.
  The same holds for Ethereum reads (Merkle-Patricia proofs) and for served event logs (a
  commitment on chain). Writes are signed transactions under a nonce the SDK picks itself.

  \<^bold>\<open>Conventions.\<close> \<open>Prelude\<close> holds what all parts share. A \<open>Uint8Array\<close> is a list of 8-bit words, a
  JavaScript string a list of 16-bit code units (\<open>Js_Text\<close>), a \<open>Map\<close> an association list in
  insertion order, an exception the left of a sum, one constructor for each kind of error a caller
  can tell apart. Loops are recursive functions; a method that changes its object returns the
  object. Asynchronous calls are atomic steps: where the code interleaves them (nonces, indexers,
  subscriptions), each step is its own definition and the theorems are about every sequence of steps.

  \<^bold>\<open>GroveDB proofs\<close> (\<open>grovedb/\<close>).
  \<^item> \<open>Grove_Types\<close>, \<open>Varint\<close>, \<open>Bincode\<close>, \<open>Element\<close>, \<open>Grove_Hash\<close>: the data, the LEB128 and bincode
    readers, elements, and the hashes over a parameter \<open>H\<close> for BLAKE3. Each reader is an instance
    of the locale \<open>codec\<close> of \<open>Prelude\<close>: it reads the bytes of the format back, and the format is
    prefix-free and injective.
  \<^item> \<open>Merk_Decoder\<close>, \<open>Merk_Tree\<close>, \<open>Executor\<close>: proof operations, the partial tree, and the stack
    machine. An accepted proof builds a tree that holds the pushed nodes in key order; every
    well-formed tree is rebuilt from its bytes.
  \<^item> \<open>Proof_Decoder\<close>, \<open>Verifier\<close>: proof envelopes of at most 64 layers, and the four entry points.
  \<^item> \<open>Committed_State\<close> is the specification: the state a root hash commits to. \<open>Verify_Soundness\<close>
    and \<open>Grove_Properties\<close> prove that under such a root every returned entry is in the state, a key
    proved absent is absent, and a complete layer is the whole subtree.

  \<^bold>\<open>JSON and queries\<close> (\<open>proof/\<close>).
  \<^item> \<open>Node_Json\<close>, \<open>Json_Text\<close>: the parser that reads JSON as the node does, and that it reads back
    the text of every well-formed value. \<open>Json_Number\<close>, \<open>Json_Value\<close>, \<open>Json_Decimal\<close>, \<open>Rounding\<close>:
    numbers as texts, as exact decimals, as doubles; \<open>parseF64\<close> is proved correctly rounded.
  \<^item> \<open>Proof_Shared\<close>, \<open>Query_Selection\<close>, \<open>Sort_Order\<close>, \<open>Query_Result\<close>: binding documents to proven
    entries, the selection a query makes, the order of its documents, and the theorem that an
    accepted response is the node's answer over the committed state.

  \<^bold>\<open>Ethereum reads\<close> (\<open>eth-state/\<close>). \<open>Mpt\<close> is the proof walk, \<open>Eth_State\<close> the client's reads; an
  accepted read is the value of the tries whose root the response names.

  \<^bold>\<open>Event logs\<close> (\<open>completeness/\<close>). \<open>Completeness\<close>: the canonical preimage of a block's matched logs
  and the check against the commitment on chain, which holds exactly for the committed set.

  \<^bold>\<open>Light client\<close> (\<open>light-client/\<close>). \<open>Js_Arith\<close> has JavaScript's numbers as the code meets them
  here: \<open>NaN\<close>, the infinities and rationals, with sums, quotients and roundings to doubles, every
  comparison with \<open>NaN\<close> false, and a \<open>Date\<close> that may be invalid. \<open>Light_Verifier\<close> has the checks of
  headers and proofs over them, as an endpoint's answer may hold any of these; \<open>header_accepted\<close>
  says what passes, and that an undated header passes the checks of time. \<open>Light_Client\<close> has the
  trusted headers and the agreement of endpoints, with the invariant every operation keeps; to every
  trusted header leads a chain of headers from the first, each accepted against the one before
  (\<open>no_gaps\<close>). Its synchronisation takes the clock and the answers of each round; it gives \<open>None\<close>
  when the rounds end before the loop does (past \<open>2^53\<close> it never does), and \<open>syncLoop_returns\<close> says
  how many are enough.

  \<^bold>\<open>Nonces, indexers, subscriptions\<close>. \<open>Nonces\<close> (\<open>consensus/nonces.ts\<close>): the allocator, over any
  interleaving of its calls. \<open>Indexers\<close>: the cached list and its expiry. \<open>Subscriptions\<close>: one
  subscription as a step relation over its connection's events, whose caller may unsubscribe between
  events or inside a callback.

  \<^bold>\<open>Signed registrations\<close> (\<open>consensus/\<close>). \<open>Tx_Fields\<close> has the checks of a field's value
  (\<open>fields.ts\<close>), \<open>Tx_Schema\<close> the subgrove's schema and the reader that checks it (\<open>schema.ts\<close>),
  \<open>Tx_Wire\<close> the JSON bodies (\<open>wire.ts\<close>), \<open>Tx_Bincode\<close> the bytes a registration's signature hashes
  (\<open>bincode.ts\<close>), \<open>Tx_Sign\<close> the message (\<open>types.ts\<close>). Each writer is a prefix-free code on the values
  its field can hold; \<open>Tx_Covered\<close> puts the codes together for the body \<open>registerSubgroveWire\<close>
  builds, so the message determines the whole body but its signature, up to a hash collision
  (\<open>registration_covered\<close>).

  \<^bold>\<open>Parameters and hypotheses.\<close> Packages and services are arguments: the hash functions, signature
  schemes, the RLP codec, base64 and UTF-8 codecs, HTTP answers, clocks. A theorem that needs a
  property of one names it: \<open>hash32\<close> and \<open>collision_free\<close> for BLAKE3 (with \<open>wfState\<close>, which also
  excludes the elements of 63 and 95 serialized bytes whose hash preimages have the shape of an
  inner one), \<open>trieHypotheses\<close> and \<open>rlpFor\<close> for Keccak and RLP, \<open>noCollision\<close> for the event sets
  compared. Each has a witness with concrete functions.

  \<^bold>\<open>Bounds and fuel.\<close> \<open>MAX_LAYER_DEPTH\<close> is 64 and \<open>MAX_NESTING\<close> 127, as in the code. The JSON parser
  takes fuel, two units for each code unit of the text and two more, which is proved to be enough
  (\<open>never_out_of_fuel\<close>). \<open>parseF64_correctly_rounded\<close> is for at most 800 significant digits, the
  code's own bound, in a text of at most \<open>10^14\<close> code units. Voting powers are compared exactly while
  the total times the threshold's denominator is below \<open>2^53\<close>. The loops that read a schema's text
  have one unit of fuel more than its length (\<open>checkStorageSchema_fuel\<close>). \<open>gives_up\<close> bounds the connection
  events of a subscription with \<open>m\<close> attempts by \<open>3 m + 2\<close>.

  \<^bold>\<open>Not modelled.\<close> The modules that only move data over HTTP or call cryptographic packages: the SDK's
  entry point, the HTTP client, data, file, privacy and manifest operations, the registry reads, the
  messages of the other transactions, and the declarations of wire types.
\<close>

end
